(* ===== verification/Exch_Prelude.thy ===== *)
theory Exch_Prelude
  imports Main "HOL-Library.Word" "HOL-Library.Monad_Syntax"
begin

text \<open>
  Shared vocabulary of the exchange development: the C++ integer types as machine words, pointers
  into an arena as optional indices, and the generic facts on words and lists that the components
  use. A C++ \<open>char\<close> or \<open>std::byte\<close> is an \<open>8 word\<close>; character constants are written \<open>ch CHR ''U''\<close>.
\<close>

type_synonym u8 = "8 word"
type_synonym u16 = "16 word"
type_synonym u32 = "32 word"
type_synonym u64 = "64 word"
type_synonym usize = "64 word"
type_synonym byte = "8 word"

text \<open>A pointer into an arena: an index, or \<^term>\<open>None\<close> for \<open>nullptr\<close>.\<close>

type_synonym ptr = "nat option"

abbreviation ch :: "char \<Rightarrow> byte" where
  "ch c \<equiv> of_char c"

named_theorems word_nat \<open>moving unsigned word order and arithmetic to the naturals\<close>

lemmas word_order_nat [word_nat] = word_le_nat_alt word_less_nat_alt

lemma unat_add_bounded:
  fixes a b :: "'a::len word"
  assumes "unat a + unat b < 2 ^ LENGTH('a)"
  shows "unat (a + b) = unat a + unat b"
  using assms by (simp add: unat_add_lem)

lemma unat_inc_bounded:
  fixes a :: "'a::len word"
  assumes "Suc (unat a) < 2 ^ LENGTH('a)"
  shows "unat (a + 1) = Suc (unat a)"
proof -
  from assms have "LENGTH('a) \<noteq> 0" by simp
  have "unat (1 :: 'a word) = 1" by simp
  with assms show ?thesis by (subst unat_add_bounded) simp_all
qed

lemma unat_dec:
  fixes a :: "'a::len word"
  assumes "0 < a"
  shows "unat (a - 1) = unat a - 1"
proof -
  from assms have "1 \<le> a" by (simp add: word_le_nat_alt word_less_nat_alt)
  then show ?thesis by (simp add: unat_sub)
qed

lemma of_nat_Suc_word: "(of_nat (Suc n) :: 'a::len word) = of_nat n + 1"
  by (simp add: add.commute)

lemma unat_of_nat_small: "n < 2 ^ LENGTH('a) \<Longrightarrow> unat (of_nat n :: 'a::len word) = n"
  by (simp add: unsigned_of_nat take_bit_nat_eq_self)

unbundle bit_operations_syntax

text \<open>Masking with a power of two less one is reduction modulo that power.\<close>

lemma unat_and_mask: "unat (x AND mask k) = unat x mod 2 ^ k" for x :: "'a::len word"
proof -
  have "unat (x AND mask k) = take_bit k (unat x)"
    by (simp add: unsigned_take_bit_eq flip: take_bit_eq_mask)
  then show ?thesis by (simp add: take_bit_eq_mod)
qed

lemma pow2_less_one_mask:
  fixes m :: "'a::len word"
  assumes "Suc (unat m) = 2 ^ k"
  shows "m = mask k"
proof -
  have "m = of_nat (unat m)" by simp
  also have "unat m = 2 ^ k - 1" using assms by simp
  also have "(of_nat (2 ^ k - 1) :: 'a word) = mask k"
    by (simp add: mask_eq_exp_minus_1 of_nat_diff)
  finally show ?thesis .
qed

subsection \<open>Flattening an indexed family of lists\<close>

text \<open>
  A price ladder is a family of lists indexed by tick. Its contents in price order are the
  concatenation over the ticks; an update at one tick changes one segment of it.
\<close>

definition flat :: "nat \<Rightarrow> (nat \<Rightarrow> 'a list) \<Rightarrow> 'a list" where
  "flat n f = concat (map f [0..<n])"

lemma set_flat: "set (flat n f) = (\<Union>i<n. set (f i))"
  by (auto simp: flat_def)

lemma flat_split:
  assumes "i < n"
  shows "flat n f = flat i f @ f i @ concat (map f [Suc i..<n])"
proof -
  from assms have "[0..<n] = [0..<i] @ i # [Suc i..<n]"
    by (metis le0 upt_add_eq_append upt_conv_Cons less_imp_add_positive)
  then show ?thesis by (simp add: flat_def)
qed

lemma flat_upd:
  assumes "i < n"
  shows "flat n (f(i := xs)) = flat i f @ xs @ concat (map f [Suc i..<n])"
proof -
  have "flat i (f(i := xs)) = flat i f"
    unfolding flat_def by (intro arg_cong[where f = concat] map_cong) auto
  moreover have "map (f(i := xs)) [Suc i..<n] = map f [Suc i..<n]"
    by (intro map_cong) auto
  ultimately show ?thesis using flat_split [OF assms, of "f(i := xs)"] by simp
qed

lemma flat_cong: "(\<And>i. i < n \<Longrightarrow> f i = g i) \<Longrightarrow> flat n f = flat n g"
  by (auto simp: flat_def intro!: arg_cong[where f = concat] map_cong)

lemma flat_map: "map h (flat n f) = flat n (\<lambda>i. map h (f i))"
  by (simp add: flat_def map_concat comp_def)

lemma flat_filter: "filter P (flat n f) = flat n (\<lambda>i. filter P (f i))"
  by (simp add: flat_def filter_concat comp_def)

lemma flat_eq_Nil: "flat n f = [] \<longleftrightarrow> (\<forall>i<n. f i = [])"
  by (auto simp: flat_def)

lemma flat_Suc: "flat (Suc n) f = flat n f @ f n"
  by (simp add: flat_def)

lemma distinct_flat:
  assumes "\<And>i. i < n \<Longrightarrow> distinct (f i)" and "\<And>i j. i < n \<Longrightarrow> j < n \<Longrightarrow> i \<noteq> j \<Longrightarrow> set (f i) \<inter> set (f j) = {}"
  shows "distinct (flat n f)"
  using assms
proof (induction n)
  case 0
  then show ?case by (simp add: flat_def)
next
  case (Suc n)
  have "set (f i) \<inter> set (f n) = {}" if "i < n" for i using that by (intro Suc.prems) auto
  then have "set (flat n f) \<inter> set (f n) = {}" unfolding set_flat by blast
  moreover have "distinct (flat n f)" by (rule Suc.IH) (use Suc.prems in auto)
  moreover have "distinct (f n)" by (intro Suc.prems) simp
  ultimately show ?case by (simp add: flat_Suc)
qed

subsection \<open>Searching and splitting lists\<close>

lemma find_unique:
  assumes "x \<in> set xs" "P x" "\<And>y. y \<in> set xs \<Longrightarrow> P y \<Longrightarrow> y = x"
  shows "find P xs = Some x"
proof (cases "find P xs")
  case None
  with assms(1,2) show ?thesis by (simp add: find_None_iff)
next
  case (Some y)
  then have "y \<in> set xs" "P y" by (auto simp: find_Some_iff)
  with assms(3) Some show ?thesis by blast
qed

lemma find_None: "find P xs = None \<longleftrightarrow> (\<forall>x \<in> set xs. \<not> P x)"
  by (induction xs) auto

lemma find_SomeD: "find P xs = Some x \<Longrightarrow> x \<in> set xs \<and> P x"
  by (induction xs) (auto split: if_splits)

lemma takeWhile_split:
  assumes "\<And>x. x \<in> set xs \<Longrightarrow> P x" "\<And>y. y \<in> set ys \<Longrightarrow> \<not> P y"
  shows "takeWhile P (xs @ ys) = xs" "dropWhile P (xs @ ys) = ys"
proof -
  have "takeWhile P ys = []" "dropWhile P ys = ys"
    using assms(2) by (cases ys; auto)+
  then show "takeWhile P (xs @ ys) = xs" "dropWhile P (xs @ ys) = ys"
    using assms(1) by (simp_all add: takeWhile_append2 dropWhile_append2)
qed

end
