(* ===== verification/Ring_Buffer.thy ===== *)
theory Ring_Buffer
  imports Exch_Prelude
begin

text \<open>
  The single-producer single-consumer ring (\<open>infra/ring_buffer.hpp\<close>). The first part models
  \<open>push\<close>, \<open>pop\<close> and \<open>size\<close> as the source writes them, cached indices included, and shows that they
  implement a bounded FIFO. The second part interleaves the two threads at the granularity of their
  atomic loads and stores and shows that what is popped is always a prefix of what was pushed.
  The slots are a store indexed by position, of which the code uses positions \<open>0..mask\<close>.
\<close>

unbundle bit_operations_syntax

record 'a RingBuffer =
  write_idx :: usize
  cached_read_idx :: usize
  read_idx :: usize
  cached_write_idx :: usize
  rb_buffer :: "nat \<Rightarrow> 'a"
  rb_mask :: u32

definition new_RingBuffer :: "u32 \<Rightarrow> 'a \<Rightarrow> 'a RingBuffer" where
  "new_RingBuffer N d = \<lparr> write_idx = 0, cached_read_idx = 0, read_idx = 0, cached_write_idx = 0,
     rb_buffer = (\<lambda>_. d), rb_mask = N - 1 \<rparr>"

definition next_idx :: "u32 \<Rightarrow> usize \<Rightarrow> usize" where
  "next_idx m i = (i + 1) AND ucast m"

definition rb_push :: "'a \<Rightarrow> 'a RingBuffer \<Rightarrow> bool \<times> 'a RingBuffer" where
  "rb_push item r =
     (let w = write_idx r; next_write = next_idx (rb_mask r) w;
          r1 = (if next_write = cached_read_idx r then r\<lparr>cached_read_idx := read_idx r\<rparr> else r)
      in if next_write = cached_read_idx r1 then (False, r1)
         else (True, r1\<lparr>rb_buffer := (rb_buffer r1)(unat w := item), write_idx := next_write\<rparr>))"

definition rb_pop :: "'a RingBuffer \<Rightarrow> 'a option \<times> 'a RingBuffer" where
  "rb_pop r =
     (let rd = read_idx r;
          r1 = (if rd = cached_write_idx r then r\<lparr>cached_write_idx := write_idx r\<rparr> else r)
      in if rd = cached_write_idx r1 then (None, r1)
         else (Some (rb_buffer r1 (unat rd)), r1\<lparr>read_idx := next_idx (rb_mask r1) rd\<rparr>))"

definition rb_size :: "'a RingBuffer \<Rightarrow> usize" where
  "rb_size r = (if read_idx r \<le> write_idx r then write_idx r - read_idx r
                else ucast (rb_mask r + 1) + (write_idx r - read_idx r))"

subsection \<open>Positions modulo the ring size\<close>

definition dist :: "nat \<Rightarrow> nat \<Rightarrow> nat \<Rightarrow> nat" where
  "dist N a b = (if a \<le> b then b - a else b + N - a)"

lemma mod_once: "a < N \<Longrightarrow> j \<le> N \<Longrightarrow> (a + j) mod N = (if a + j < N then a + j else a + j - N)" for a j N :: nat
  by (simp add: mod_if)

lemma dist_less: "a < N \<Longrightarrow> b < N \<Longrightarrow> dist N a b < N"
  by (auto simp: dist_def)

lemma dist_refl [simp]: "dist N a a = 0"
  by (simp add: dist_def)

lemma dist_eq_0: "a < N \<Longrightarrow> b < N \<Longrightarrow> dist N a b = 0 \<longleftrightarrow> a = b"
  by (auto simp: dist_def)

lemma dist_reach: "a < N \<Longrightarrow> b < N \<Longrightarrow> (a + dist N a b) mod N = b"
  by (auto simp: dist_def)

lemma dist_inside: "a < N \<Longrightarrow> b < N \<Longrightarrow> j < dist N a b \<Longrightarrow> (a + j) mod N \<noteq> b"
  by (auto simp: dist_def mod_once split: if_splits)

lemma dist_step_end:
  "a < N \<Longrightarrow> b < N \<Longrightarrow> (b + 1) mod N \<noteq> a \<Longrightarrow> dist N a ((b + 1) mod N) = Suc (dist N a b)"
  by (auto simp: dist_def mod_Suc split: if_splits)

lemma dist_step_end_full:
  "a < N \<Longrightarrow> b < N \<Longrightarrow> (b + 1) mod N = a \<longleftrightarrow> Suc (dist N a b) = N"
  by (auto simp: dist_def mod_Suc split: if_splits)

lemma dist_step_start:
  "a < N \<Longrightarrow> b < N \<Longrightarrow> a \<noteq> b \<Longrightarrow> Suc (dist N ((a + 1) mod N) b) = dist N a b"
  by (auto simp: dist_def mod_Suc split: if_splits)

subsection \<open>The ring as a bounded queue\<close>

definition rb_len :: "'a RingBuffer \<Rightarrow> nat" where
  "rb_len r = Suc (unat (rb_mask r))"

definition rb_used :: "'a RingBuffer \<Rightarrow> nat" where
  "rb_used r = dist (rb_len r) (unat (read_idx r)) (unat (write_idx r))"

definition rb_contents :: "'a RingBuffer \<Rightarrow> 'a list" where
  "rb_contents r = map (\<lambda>j. rb_buffer r ((unat (read_idx r) + j) mod rb_len r)) [0..<rb_used r]"

text \<open>
  The invariant: a power-of-two size, indices in range, and each side's cached copy of the other
  side's index is stale in the safe direction: the producer may believe the ring fuller than it
  is, and the consumer emptier.
\<close>

definition rb_inv :: "'a RingBuffer \<Rightarrow> bool" where
  "rb_inv r \<longleftrightarrow> (\<exists>k<32. rb_len r = 2 ^ k)
     \<and> unat (write_idx r) < rb_len r \<and> unat (read_idx r) < rb_len r
     \<and> unat (cached_read_idx r) < rb_len r \<and> unat (cached_write_idx r) < rb_len r
     \<and> rb_used r \<le> dist (rb_len r) (unat (cached_read_idx r)) (unat (write_idx r))
     \<and> dist (rb_len r) (unat (read_idx r)) (unat (cached_write_idx r)) \<le> rb_used r"

lemma unat_next_idx:
  assumes "Suc (unat m) = 2 ^ k" and "k < 32" and "unat i < 2 ^ k"
  shows "unat (next_idx m i) = (unat i + 1) mod 2 ^ k"
proof -
  have "m = mask k" by (rule pow2_less_one_mask [OF assms(1)])
  then have "(ucast m :: usize) = mask k"
    using assms(2) by (simp add: ucast_mask_eq min_def)
  then have n: "unat (next_idx m i) = unat (i + 1) mod 2 ^ k"
    by (simp add: next_idx_def unat_and_mask)
  have "unat i + 1 < 2 ^ 64"
  proof -
    from assms(2) have "(2::nat) ^ k \<le> 2 ^ 31" by (intro power_increasing) auto
    with assms(3) show ?thesis by simp
  qed
  then have "unat (i + 1) = unat i + 1" by (simp add: unat_inc_bounded)
  then show ?thesis by (simp add: n)
qed

text \<open>Facts every operation uses, from the invariant.\<close>

lemma rb_invD:
  assumes "rb_inv r"
  shows "unat (write_idx r) < rb_len r" "unat (read_idx r) < rb_len r"
    "unat (cached_read_idx r) < rb_len r" "unat (cached_write_idx r) < rb_len r"
    "rb_used r \<le> dist (rb_len r) (unat (cached_read_idx r)) (unat (write_idx r))"
    "dist (rb_len r) (unat (read_idx r)) (unat (cached_write_idx r)) \<le> rb_used r"
    "rb_used r < rb_len r"
  using assms by (auto simp: rb_inv_def rb_used_def intro: dist_less)

lemma rb_next:
  assumes "rb_inv r" and "unat i < rb_len r"
  shows "unat (next_idx (rb_mask r) i) = (unat i + 1) mod rb_len r"
  using assms unat_next_idx by (auto simp: rb_inv_def rb_len_def)

lemma rb_len_pos [simp]: "0 < rb_len r"
  by (simp add: rb_len_def)

lemma length_rb_contents [simp]: "length (rb_contents r) = rb_used r"
  by (simp add: rb_contents_def)

lemma rb_contents_nth:
  "j < rb_used r \<Longrightarrow> rb_contents r ! j = rb_buffer r ((unat (read_idx r) + j) mod rb_len r)"
  by (simp add: rb_contents_def)

lemma rb_refresh_read:
  assumes "rb_inv r"
  shows "rb_inv (r\<lparr>cached_read_idx := read_idx r\<rparr>)"
    "rb_contents (r\<lparr>cached_read_idx := read_idx r\<rparr>) = rb_contents r"
  using assms by (auto simp: rb_inv_def rb_used_def rb_contents_def rb_len_def)

lemma rb_refresh_write:
  assumes "rb_inv r"
  shows "rb_inv (r\<lparr>cached_write_idx := write_idx r\<rparr>)"
    "rb_contents (r\<lparr>cached_write_idx := write_idx r\<rparr>) = rb_contents r"
  using assms by (auto simp: rb_inv_def rb_used_def rb_contents_def rb_len_def)

text \<open>
  Storing at the write index and publishing it, once the producer has seen a free slot (its cached
  read index is enough evidence), appends to the queue.
\<close>

lemma rb_store:
  fixes item :: 'a
  assumes inv: "rb_inv r" and room: "next_idx (rb_mask r) (write_idx r) \<noteq> cached_read_idx r"
  defines "r' \<equiv> r\<lparr>rb_buffer := (rb_buffer r)(unat (write_idx r) := item),
                    write_idx := next_idx (rb_mask r) (write_idx r)\<rparr>"
  shows "rb_inv r'" "rb_contents r' = rb_contents r @ [item]" "rb_used r' = Suc (rb_used r)"
proof -
  let ?N = "rb_len r" let ?w = "unat (write_idx r)" let ?rd = "unat (read_idx r)"
    and ?c = "unat (cached_read_idx r)"
  note D = rb_invD [OF inv]
  have N': "rb_len r' = ?N" by (simp add: r'_def rb_len_def)
  have w': "unat (write_idx r') = (?w + 1) mod ?N"
    using rb_next [OF inv D(1)] by (simp add: r'_def)
  from room have wc: "(?w + 1) mod ?N \<noteq> ?c"
    using rb_next [OF inv D(1)] by (metis word_unat_eq_iff)
  have dc: "dist ?N ?c ((?w + 1) mod ?N) = Suc (dist ?N ?c ?w)"
    by (rule dist_step_end [OF D(3) D(1) wc])
  have "dist ?N ?c ((?w + 1) mod ?N) < ?N" by (rule dist_less) (use D in auto)
  with dc D(5) have notfull: "Suc (rb_used r) < ?N" by simp
  then have wr: "(?w + 1) mod ?N \<noteq> ?rd"
    using dist_step_end_full [OF D(2) D(1)] by (simp add: rb_used_def)
  show used: "rb_used r' = Suc (rb_used r)"
    using dist_step_end [OF D(2) D(1) wr] w' N' by (simp add: rb_used_def r'_def)
  show "rb_contents r' = rb_contents r @ [item]"
  proof (rule nth_equalityI)
    show "length (rb_contents r') = length (rb_contents r @ [item])" by (simp add: used)
    fix j assume "j < length (rb_contents r')"
    then have j: "j < Suc (rb_used r)" by (simp add: used)
    show "rb_contents r' ! j = (rb_contents r @ [item]) ! j"
    proof (cases "j = rb_used r")
      case True
      then have "(?rd + j) mod ?N = ?w" using dist_reach [OF D(2) D(1)] by (simp add: rb_used_def)
      with j True show ?thesis
        by (simp add: rb_contents_nth used N' nth_append) (simp add: r'_def)
    next
      case False
      with j have "j < rb_used r" by simp
      then have "(?rd + j) mod ?N \<noteq> ?w" using dist_inside [OF D(2) D(1)] by (simp add: rb_used_def)
      with j \<open>j < rb_used r\<close> show ?thesis
        by (simp add: rb_contents_nth used N' nth_append) (simp add: r'_def)
    qed
  qed
  show "rb_inv r'"
    using inv D used dc w' N' unfolding rb_inv_def by (simp add: r'_def)
qed

lemma rb_fetch:
  assumes inv: "rb_inv r" and avail: "read_idx r \<noteq> cached_write_idx r"
  defines "r' \<equiv> r\<lparr>read_idx := next_idx (rb_mask r) (read_idx r)\<rparr>"
  shows "rb_inv r'" "rb_contents r = rb_buffer r (unat (read_idx r)) # rb_contents r'"
    "rb_used r = Suc (rb_used r')"
proof -
  let ?N = "rb_len r" let ?w = "unat (write_idx r)" let ?rd = "unat (read_idx r)"
    and ?c = "unat (cached_write_idx r)"
  note D = rb_invD [OF inv]
  have N': "rb_len r' = ?N" by (simp add: r'_def rb_len_def)
  have rd': "unat (read_idx r') = (?rd + 1) mod ?N"
    using rb_next [OF inv D(2)] by (simp add: r'_def)
  from avail have rc: "?rd \<noteq> ?c" by (metis word_unat_eq_iff)
  then have "0 < rb_used r" using dist_eq_0 [OF D(2) D(4)] D(6) by simp
  then have rw: "?rd \<noteq> ?w" by (auto simp: rb_used_def)
  show used: "rb_used r = Suc (rb_used r')"
    using dist_step_start [OF D(2) D(1) rw] rd' N' by (simp add: rb_used_def r'_def)
  have dc: "Suc (dist ?N ((?rd + 1) mod ?N) ?c) = dist ?N ?rd ?c"
    by (rule dist_step_start [OF D(2) D(4) rc])
  show "rb_contents r = rb_buffer r (unat (read_idx r)) # rb_contents r'"
  proof (rule nth_equalityI)
    show "length (rb_contents r) = length (rb_buffer r (unat (read_idx r)) # rb_contents r')"
      by (simp add: used)
    fix j assume "j < length (rb_contents r)"
    then have j: "j < Suc (rb_used r')" by (simp add: used)
    show "rb_contents r ! j = (rb_buffer r (unat (read_idx r)) # rb_contents r') ! j"
    proof (cases j)
      case 0
      with j D(2) show ?thesis by (simp add: rb_contents_nth used)
    next
      case (Suc i)
      have "((?rd + 1) mod ?N + i) mod ?N = (?rd + j) mod ?N"
        by (simp add: Suc mod_add_left_eq)
      with j Suc show ?thesis
        by (simp add: rb_contents_nth used N' rd') (simp add: r'_def)
    qed
  qed
  show "rb_inv r'"
    using inv D used dc rd' N' unfolding rb_inv_def by (simp add: r'_def)
qed

subsection \<open>The queue interface\<close>

text \<open>
  What the ring's users rely on: a push that succeeds appends, a push fails only on a full queue and
  a pop only on an empty one, and neither failure changes the contents.
\<close>

locale bounded_queue =
  fixes inv :: "'q \<Rightarrow> bool"
    and contents :: "'q \<Rightarrow> 'a list"
    and limit :: "'q \<Rightarrow> nat"
    and push :: "'a \<Rightarrow> 'q \<Rightarrow> bool \<times> 'q"
    and pop :: "'q \<Rightarrow> 'a option \<times> 'q"
  assumes push_inv: "inv q \<Longrightarrow> push x q = (b, q') \<Longrightarrow> inv q' \<and> limit q' = limit q"
    and push_contents: "inv q \<Longrightarrow> push x q = (b, q') \<Longrightarrow>
          contents q' = (if b then contents q @ [x] else contents q)"
    and push_full: "inv q \<Longrightarrow> push x q = (b, q') \<Longrightarrow> b \<longleftrightarrow> length (contents q) < limit q"
    and pop_inv: "inv q \<Longrightarrow> pop q = (v, q') \<Longrightarrow> inv q' \<and> limit q' = limit q"
    and pop_contents: "inv q \<Longrightarrow> pop q = (v, q') \<Longrightarrow>
          (case v of None \<Rightarrow> contents q = [] \<and> contents q' = []
                   | Some x \<Rightarrow> contents q = x # contents q')"
begin

text \<open>Pushing a batch: the accepted items are a prefix, and all of them when they fit.\<close>

lemma push_batch:
  assumes "inv q"
  shows "contents (fold (\<lambda>x q. snd (push x q)) xs q) =
      contents q @ take (limit q - length (contents q)) xs
    \<and> inv (fold (\<lambda>x q. snd (push x q)) xs q) \<and> limit (fold (\<lambda>x q. snd (push x q)) xs q) = limit q"
  using assms
proof (induction xs arbitrary: q)
  case Nil then show ?case by simp
next
  case (Cons x xs)
  obtain b q' where p: "push x q = (b, q')" by fastforce
  note I = push_inv [OF Cons.prems p] push_contents [OF Cons.prems p] push_full [OF Cons.prems p]
  from Cons.IH [of q'] I have IH: "contents (fold (\<lambda>x q. snd (push x q)) xs q') =
      contents q' @ take (limit q - length (contents q')) xs
    \<and> inv (fold (\<lambda>x q. snd (push x q)) xs q') \<and> limit (fold (\<lambda>x q. snd (push x q)) xs q') = limit q"
    by simp
  show ?case
  proof (cases b)
    case True
    with I have "limit q - length (contents q) = Suc (limit q - Suc (length (contents q)))" by auto
    with True I IH p show ?thesis by simp
  next
    case False
    with I IH p show ?thesis by auto
  qed
qed

lemma pop_after_push:
  assumes "inv q" "contents q = []" "push x q = (True, q')"
  shows "fst (pop q') = Some x"
proof -
  obtain v q'' where p: "pop q' = (v, q'')" by fastforce
  from push_inv [OF assms(1,3)] push_contents [OF assms(1,3)] assms(2)
  have "inv q'" "contents q' = [x]" by auto
  with pop_contents [OF _ p] p show ?thesis by (auto split: option.splits)
qed

end

definition rb_limit :: "'a RingBuffer \<Rightarrow> nat" where
  "rb_limit r = rb_len r - 1"

lemma rb_push_spec:
  assumes inv: "rb_inv r" and p: "rb_push x r = (b, r')"
  shows "rb_inv r' \<and> rb_limit r' = rb_limit r"
    "rb_contents r' = (if b then rb_contents r @ [x] else rb_contents r)"
    "b \<longleftrightarrow> length (rb_contents r) < rb_limit r"
proof -
  define r1 where "r1 = (if next_idx (rb_mask r) (write_idx r) = cached_read_idx r
                          then r\<lparr>cached_read_idx := read_idx r\<rparr> else r)"
  have r1: "rb_inv r1" "rb_contents r1 = rb_contents r" "rb_used r1 = rb_used r" "rb_len r1 = rb_len r"
    "write_idx r1 = write_idx r" "rb_mask r1 = rb_mask r" "read_idx r1 = read_idx r"
    using inv rb_refresh_read [OF inv] by (auto simp: r1_def rb_used_def rb_len_def)
  let ?nw = "next_idx (rb_mask r1) (write_idx r1)"
  have eq: "(b, r') = (if ?nw = cached_read_idx r1 then (False, r1)
      else (True, r1\<lparr>rb_buffer := (rb_buffer r1)(unat (write_idx r1) := x), write_idx := ?nw\<rparr>))"
    using p [unfolded rb_push_def Let_def, folded r1_def] r1(5,6) by (auto split: if_splits)
  have "(rb_inv r' \<and> rb_limit r' = rb_limit r) \<and>
    rb_contents r' = (if b then rb_contents r @ [x] else rb_contents r) \<and>
    (b \<longleftrightarrow> rb_used r < rb_limit r)"
  proof (cases "?nw = cached_read_idx r1")
    case True
    then have "next_idx (rb_mask r) (write_idx r) = read_idx r"
      by (auto simp: r1_def split: if_splits)
    then have "(unat (write_idx r) + 1) mod rb_len r = unat (read_idx r)"
      using rb_next [OF inv rb_invD(1) [OF inv]] by metis
    then have "Suc (rb_used r) = rb_len r"
      using dist_step_end_full [OF rb_invD(2,1) [OF inv]] by (simp add: rb_used_def)
    with True eq r1 show ?thesis by (simp add: rb_limit_def)
  next
    case False
    note S = rb_store [OF r1(1) False, of x]
    from False eq have b: "b" and r': "r' = r1\<lparr>rb_buffer := (rb_buffer r1)(unat (write_idx r1) := x),
        write_idx := ?nw\<rparr>" by auto
    from rb_invD(7) [OF S(1)] S(3) r1 have "Suc (rb_used r) < rb_len r" by (simp add: rb_len_def)
    moreover have "rb_len r' = rb_len r" using r1 by (simp add: r' rb_len_def)
    ultimately show ?thesis using S b r1 by (simp add: r' rb_limit_def)
  qed
  then show "rb_inv r' \<and> rb_limit r' = rb_limit r"
    "rb_contents r' = (if b then rb_contents r @ [x] else rb_contents r)"
    "b \<longleftrightarrow> length (rb_contents r) < rb_limit r"
    by auto
qed

lemma rb_pop_spec:
  assumes inv: "rb_inv r" and p: "rb_pop r = (v, r')"
  shows "rb_inv r' \<and> rb_limit r' = rb_limit r"
    "case v of None \<Rightarrow> rb_contents r = [] \<and> rb_contents r' = []
             | Some x \<Rightarrow> rb_contents r = x # rb_contents r'"
proof -
  define r1 where "r1 = (if read_idx r = cached_write_idx r
                          then r\<lparr>cached_write_idx := write_idx r\<rparr> else r)"
  have r1: "rb_inv r1" "rb_contents r1 = rb_contents r" "rb_limit r1 = rb_limit r" "read_idx r1 = read_idx r"
    using inv rb_refresh_write [OF inv] by (auto simp: r1_def rb_limit_def rb_len_def)
  have eq: "(v, r') = (if read_idx r1 = cached_write_idx r1 then (None, r1)
      else (Some (rb_buffer r1 (unat (read_idx r1))), r1\<lparr>read_idx := next_idx (rb_mask r1) (read_idx r1)\<rparr>))"
    using p [unfolded rb_pop_def Let_def, folded r1_def] r1(4) by (auto split: if_splits)
  have "(rb_inv r' \<and> rb_limit r' = rb_limit r) \<and>
    (case v of None \<Rightarrow> rb_contents r = [] \<and> rb_contents r' = []
             | Some x \<Rightarrow> rb_contents r = x # rb_contents r')"
  proof (cases "read_idx r1 = cached_write_idx r1")
    case True
    then have "read_idx r = write_idx r" by (auto simp: r1_def split: if_splits)
    then have "rb_contents r = []" by (simp add: rb_contents_def rb_used_def)
    with True eq r1 show ?thesis by simp
  next
    case False
    note S = rb_fetch [OF r1(1) False]
    from False eq S r1 show ?thesis by (simp add: rb_limit_def rb_len_def)
  qed
  then show "rb_inv r' \<and> rb_limit r' = rb_limit r"
    "case v of None \<Rightarrow> rb_contents r = [] \<and> rb_contents r' = []
             | Some x \<Rightarrow> rb_contents r = x # rb_contents r'"
    by auto
qed

interpretation ring: bounded_queue rb_inv rb_contents rb_limit rb_push rb_pop
  by unfold_locales (rule rb_push_spec rb_pop_spec; assumption)+

lemma new_RingBuffer_inv:
  assumes "unat N = 2 ^ k" and "k < 32"
  shows "rb_inv (new_RingBuffer N d)" "rb_contents (new_RingBuffer N d) = []"
    "rb_limit (new_RingBuffer N d) = unat N - 1"
proof -
  from assms have "0 < N" by (simp add: word_less_nat_alt)
  then have "unat (N - 1) = unat N - 1" by (rule unat_dec)
  with assms show "rb_inv (new_RingBuffer N d)" "rb_contents (new_RingBuffer N d) = []"
    "rb_limit (new_RingBuffer N d) = unat N - 1"
    by (auto simp: new_RingBuffer_def rb_inv_def rb_len_def rb_used_def rb_contents_def rb_limit_def)
qed

subsection \<open>Two threads on one ring\<close>

text \<open>
  The producer's and the consumer's code, cut at every access to state the other thread also uses:
  the load of the other side's index, the access to the slot, and the store of the own index. Each
  is one step; steps of the two threads interleave in any order. The acquire loads and release stores of
  the source order the slot accesses against the index they guard, which is what treating each step as
  atomic and globally ordered relies on. \<open>pushed\<close> and \<open>popped\<close> record the items of completed
  calls.
\<close>

datatype 'a producer_pc = P_Idle | P_LoadRead 'a | P_WriteSlot 'a | P_StoreWrite 'a
datatype 'a consumer_pc = C_Idle | C_LoadWrite | C_ReadSlot | C_StoreRead 'a

record 'a Spsc =
  ring :: "'a RingBuffer"
  ppc :: "'a producer_pc"
  cpc :: "'a consumer_pc"
  pushed :: "'a list"
  popped :: "'a list"

abbreviation ring_next_write :: "'a RingBuffer \<Rightarrow> usize" where
  "ring_next_write r \<equiv> next_idx (rb_mask r) (write_idx r)"

inductive spsc_step :: "'a Spsc \<Rightarrow> 'a Spsc \<Rightarrow> bool" where
  push_call: "ppc s = P_Idle \<Longrightarrow> spsc_step s
     (s\<lparr>ppc := if ring_next_write (ring s) = cached_read_idx (ring s) then P_LoadRead x else P_WriteSlot x\<rparr>)"
| push_load: "ppc s = P_LoadRead x \<Longrightarrow> spsc_step s
     (s\<lparr>ring := (ring s)\<lparr>cached_read_idx := read_idx (ring s)\<rparr>,
        ppc := if ring_next_write (ring s) = read_idx (ring s) then P_Idle else P_WriteSlot x\<rparr>)"
| push_write: "ppc s = P_WriteSlot x \<Longrightarrow> spsc_step s
     (s\<lparr>ring := (ring s)\<lparr>rb_buffer := (rb_buffer (ring s))(unat (write_idx (ring s)) := x)\<rparr>,
        ppc := P_StoreWrite x\<rparr>)"
| push_store: "ppc s = P_StoreWrite x \<Longrightarrow> spsc_step s
     (s\<lparr>ring := (ring s)\<lparr>write_idx := ring_next_write (ring s)\<rparr>, ppc := P_Idle, pushed := pushed s @ [x]\<rparr>)"
| pop_call: "cpc s = C_Idle \<Longrightarrow> spsc_step s
     (s\<lparr>cpc := if read_idx (ring s) = cached_write_idx (ring s) then C_LoadWrite else C_ReadSlot\<rparr>)"
| pop_load: "cpc s = C_LoadWrite \<Longrightarrow> spsc_step s
     (s\<lparr>ring := (ring s)\<lparr>cached_write_idx := write_idx (ring s)\<rparr>,
        cpc := if read_idx (ring s) = write_idx (ring s) then C_Idle else C_ReadSlot\<rparr>)"
| pop_read: "cpc s = C_ReadSlot \<Longrightarrow> spsc_step s
     (s\<lparr>cpc := C_StoreRead (rb_buffer (ring s) (unat (read_idx (ring s))))\<rparr>)"
| pop_store: "cpc s = C_StoreRead x \<Longrightarrow> spsc_step s
     (s\<lparr>ring := (ring s)\<lparr>read_idx := next_idx (rb_mask (ring s)) (read_idx (ring s))\<rparr>,
        cpc := C_Idle, popped := popped s @ [x]\<rparr>)"

definition spsc_init :: "'a RingBuffer \<Rightarrow> 'a Spsc" where
  "spsc_init r = \<lparr>ring = r, ppc = P_Idle, cpc = C_Idle, pushed = [], popped = []\<rparr>"

inductive spsc_reachable :: "'a RingBuffer \<Rightarrow> 'a Spsc \<Rightarrow> bool" for r where
  start: "spsc_reachable r (spsc_init r)"
| step: "spsc_reachable r s \<Longrightarrow> spsc_step s t \<Longrightarrow> spsc_reachable r t"

definition spsc_inv :: "'a Spsc \<Rightarrow> bool" where
  "spsc_inv s \<longleftrightarrow> rb_inv (ring s) \<and> pushed s = popped s @ rb_contents (ring s)
     \<and> (\<forall>x. ppc s = P_WriteSlot x \<longrightarrow> ring_next_write (ring s) \<noteq> cached_read_idx (ring s))
     \<and> (\<forall>x. ppc s = P_StoreWrite x \<longrightarrow> ring_next_write (ring s) \<noteq> cached_read_idx (ring s)
           \<and> rb_buffer (ring s) (unat (write_idx (ring s))) = x)
     \<and> (cpc s = C_ReadSlot \<longrightarrow> read_idx (ring s) \<noteq> cached_write_idx (ring s))
     \<and> (\<forall>x. cpc s = C_StoreRead x \<longrightarrow> read_idx (ring s) \<noteq> cached_write_idx (ring s)
           \<and> rb_buffer (ring s) (unat (read_idx (ring s))) = x)"

text \<open>A slot outside the queue may be overwritten; the write index always points at one.\<close>

lemma rb_write_slot:
  assumes "rb_inv r"
  shows "rb_inv (r\<lparr>rb_buffer := (rb_buffer r)(unat (write_idx r) := x)\<rparr>)"
    "rb_contents (r\<lparr>rb_buffer := (rb_buffer r)(unat (write_idx r) := x)\<rparr>) = rb_contents r"
proof -
  let ?r = "r\<lparr>rb_buffer := (rb_buffer r)(unat (write_idx r) := x)\<rparr>"
  have len: "rb_len ?r = rb_len r" "rb_used ?r = rb_used r" by (simp_all add: rb_len_def rb_used_def)
  then show "rb_inv ?r" using assms by (simp add: rb_inv_def)
  show "rb_contents ?r = rb_contents r"
  proof (rule nth_equalityI)
    fix j assume "j < length (rb_contents ?r)"
    then have j: "j < rb_used r" by (simp add: len)
    with dist_inside [OF rb_invD(2,1) [OF assms]] have "(unat (read_idx r) + j) mod rb_len r \<noteq> unat (write_idx r)"
      by (simp add: rb_used_def)
    with j show "rb_contents ?r ! j = rb_contents r ! j" by (simp add: rb_contents_nth len)
  qed (simp add: len)
qed

lemma rb_nonempty_slots_differ:
  assumes "rb_inv r" "read_idx r \<noteq> cached_write_idx r"
  shows "read_idx r \<noteq> write_idx r"
proof
  assume "read_idx r = write_idx r"
  then have "rb_used r = 0" by (simp add: rb_used_def)
  with rb_invD [OF assms(1)] have "dist (rb_len r) (unat (read_idx r)) (unat (cached_write_idx r)) = 0" by simp
  with dist_eq_0 rb_invD [OF assms(1)] assms(2) show False by (metis word_unat_eq_iff)
qed

lemma spsc_inv_init: "rb_inv r \<Longrightarrow> rb_contents r = [] \<Longrightarrow> spsc_inv (spsc_init r)"
  by (simp add: spsc_inv_def spsc_init_def)

lemma spsc_step_inv: "spsc_step s t \<Longrightarrow> spsc_inv s \<Longrightarrow> spsc_inv t"
proof (induction rule: spsc_step.induct)
  case (push_call s x)
  then show ?case by (auto simp: spsc_inv_def)
next
  case (push_load s x)
  then have "rb_inv (ring s)" by (simp add: spsc_inv_def)
  from rb_refresh_read [OF this] push_load show ?case by (auto simp: spsc_inv_def)
next
  case (push_write s x)
  then have r: "rb_inv (ring s)" by (simp add: spsc_inv_def)
  from rb_write_slot [OF r, of x] rb_nonempty_slots_differ [OF r] push_write show ?case
    by (auto simp: spsc_inv_def word_unat_eq_iff)
next
  case (push_store s x)
  then have r: "rb_inv (ring s)" and n: "ring_next_write (ring s) \<noteq> cached_read_idx (ring s)"
    and x: "rb_buffer (ring s) (unat (write_idx (ring s))) = x" by (auto simp: spsc_inv_def)
  have "(rb_buffer (ring s))(unat (write_idx (ring s)) := x) = rb_buffer (ring s)"
    using x by auto
  then have "(ring s)\<lparr>rb_buffer := (rb_buffer (ring s))(unat (write_idx (ring s)) := x),
      write_idx := ring_next_write (ring s)\<rparr> = (ring s)\<lparr>write_idx := ring_next_write (ring s)\<rparr>"
    by simp
  with rb_store [OF r n, of x] push_store show ?case by (auto simp: spsc_inv_def)
next
  case (pop_call s)
  then show ?case by (auto simp: spsc_inv_def)
next
  case (pop_load s)
  then have "rb_inv (ring s)" by (simp add: spsc_inv_def)
  from rb_refresh_write [OF this] pop_load show ?case by (auto simp: spsc_inv_def)
next
  case (pop_read s)
  then show ?case by (auto simp: spsc_inv_def)
next
  case (pop_store s x)
  then have r: "rb_inv (ring s)" and n: "read_idx (ring s) \<noteq> cached_write_idx (ring s)"
    by (auto simp: spsc_inv_def)
  from rb_fetch [OF r n] pop_store show ?case by (auto simp: spsc_inv_def)
qed

lemma spsc_reachable_inv:
  assumes "spsc_reachable r s" "rb_inv r" "rb_contents r = []"
  shows "spsc_inv s"
  using assms by (induction rule: spsc_reachable.induct) (auto intro: spsc_inv_init spsc_step_inv)

end
