(* ===== verification/Ring_Channel.thy ===== *)
theory Ring_Channel
  imports Ring_Buffer
begin

text \<open>
  A ring whose producer must not lose an item: the loop \<open>while (!ring.push(x)) {}\<close> of the order book's
  \<open>emit\<close> and of the server's hand-over to the engine. The consumer on the other thread is the
  environment: before each attempt it pops some number of items, given by a schedule. The loop is
  a partial function, so a consumer that never pops again would make it \<^term>\<open>None\<close>; under a fair
  schedule it returns, having delivered the item exactly once and after everything sent before.
\<close>

record 'a Channel =
  chan_ring :: "'a RingBuffer"
  chan_popped :: "'a list"
  chan_sched :: "nat \<Rightarrow> nat"

fun rb_drain :: "nat \<Rightarrow> 'a RingBuffer \<Rightarrow> 'a list \<times> 'a RingBuffer" where
  "rb_drain 0 r = ([], r)"
| "rb_drain (Suc n) r =
     (case rb_pop r of
        (None, r') \<Rightarrow> rb_drain n r'
      | (Some x, r') \<Rightarrow> (let (xs, r'') = rb_drain n r' in (x # xs, r'')))"

definition channel_yield :: "'a Channel \<Rightarrow> 'a Channel" where
  "channel_yield c =
     (let (xs, r) = rb_drain (chan_sched c 0) (chan_ring c)
      in c\<lparr>chan_ring := r, chan_popped := chan_popped c @ xs, chan_sched := (\<lambda>k. chan_sched c (Suc k))\<rparr>)"

partial_function (option) push_spin :: "'a \<Rightarrow> 'a Channel \<Rightarrow> 'a Channel option" where
  "push_spin x c =
     (let c1 = channel_yield c; attempt = rb_push x (chan_ring c1); c2 = c1\<lparr>chan_ring := snd attempt\<rparr>
      in if fst attempt then Some c2 else push_spin x c2)"

text \<open>Everything ever sent: what the consumer has taken, then what is still in the ring.\<close>

definition channel_sent :: "'a Channel \<Rightarrow> 'a list" where
  "channel_sent c = chan_popped c @ rb_contents (chan_ring c)"

definition channel_inv :: "'a Channel \<Rightarrow> bool" where
  "channel_inv c \<longleftrightarrow> rb_inv (chan_ring c) \<and> 0 < rb_limit (chan_ring c)
     \<and> (\<forall>k. \<exists>j\<ge>k. 0 < chan_sched c j)"

lemma rb_drain_spec:
  assumes "rb_inv r" and "rb_drain n r = (xs, r')"
  shows "rb_inv r' \<and> rb_limit r' = rb_limit r \<and> rb_contents r = xs @ rb_contents r'
    \<and> length xs = min n (length (rb_contents r))"
  using assms
proof (induction n arbitrary: r xs)
  case 0 then show ?case by simp
next
  case (Suc n)
  obtain v r1 where p: "rb_pop r = (v, r1)" by fastforce
  note P = rb_pop_spec [OF Suc.prems(1) p]
  show ?case
  proof (cases v)
    case None
    with Suc.prems(2) p have d: "rb_drain n r1 = (xs, r')" by simp
    from P None have "rb_inv r1" "rb_limit r1 = rb_limit r" "rb_contents r = []" "rb_contents r1 = []" by auto
    with Suc.IH [OF _ d] show ?thesis by simp
  next
    case (Some x)
    with Suc.prems(2) p obtain ys where d: "rb_drain n r1 = (ys, r')" and xs: "xs = x # ys"
      by (auto split: prod.splits)
    from P Some have "rb_inv r1" "rb_limit r1 = rb_limit r" "rb_contents r = x # rb_contents r1" by auto
    with Suc.IH [OF _ d] have "rb_inv r' \<and> rb_limit r' = rb_limit r" "rb_contents r1 = ys @ rb_contents r'"
      "length ys = min n (length (rb_contents r1))" "rb_contents r = x # rb_contents r1" by metis+
    then show ?thesis unfolding xs by (simp only: list.size append_Cons min_Suc_Suc) simp
  qed
qed

lemma channel_yield_spec:
  assumes "channel_inv c"
  shows "channel_inv (channel_yield c)" "channel_sent (channel_yield c) = channel_sent c"
    "0 < chan_sched c 0 \<Longrightarrow> length (rb_contents (chan_ring (channel_yield c))) < rb_limit (chan_ring (channel_yield c))"
    "chan_sched (channel_yield c) = (\<lambda>k. chan_sched c (Suc k))"
proof -
  obtain xs r where d: "rb_drain (chan_sched c 0) (chan_ring c) = (xs, r)" by fastforce
  from assms have inv: "rb_inv (chan_ring c)" and lim: "0 < rb_limit (chan_ring c)"
    and fair: "\<forall>k. \<exists>j\<ge>k. 0 < chan_sched c j" by (auto simp: channel_inv_def)
  note D = rb_drain_spec [OF inv d]
  have y: "channel_yield c = c\<lparr>chan_ring := r, chan_popped := chan_popped c @ xs,
      chan_sched := (\<lambda>k. chan_sched c (Suc k))\<rparr>"
    by (simp add: channel_yield_def d)
  have "\<forall>k. \<exists>j\<ge>k. 0 < chan_sched c (Suc j)"
    using fair by (metis Suc_le_D Suc_le_mono)
  then show "channel_inv (channel_yield c)" using D lim by (simp add: channel_inv_def y)
  show "channel_sent (channel_yield c) = channel_sent c" using D by (simp add: channel_sent_def y)
  show "chan_sched (channel_yield c) = (\<lambda>k. chan_sched c (Suc k))" by (simp add: y)
  assume pos: "0 < chan_sched c 0"
  have "rb_used (chan_ring c) \<le> rb_limit (chan_ring c)"
    using rb_invD(7) [OF inv] by (simp add: rb_limit_def)
  moreover have "rb_used (chan_ring c) = length xs + rb_used r"
    using D by (metis length_append length_rb_contents)
  moreover have "length xs = min (chan_sched c 0) (rb_used (chan_ring c))" "rb_limit r = rb_limit (chan_ring c)"
    using D by auto
  ultimately have "rb_used r < rb_limit r" using pos lim by linarith
  then show "length (rb_contents (chan_ring (channel_yield c))) < rb_limit (chan_ring (channel_yield c))"
    by (simp add: y)
qed

text \<open>The loop ends at the latest with the first attempt after the consumer has run.\<close>

lemma push_spin_within:
  assumes "channel_inv c" and "0 < chan_sched c n"
  shows "\<exists>c'. push_spin x c = Some c' \<and> channel_inv c' \<and> channel_sent c' = channel_sent c @ [x]"
  using assms
proof (induction n arbitrary: c)
  case 0
  let ?c1 = "channel_yield c"
  obtain b r where p: "rb_push x (chan_ring ?c1) = (b, r)" by fastforce
  note Y = channel_yield_spec [OF 0(1)]
  from Y(1) have inv: "rb_inv (chan_ring ?c1)" by (simp add: channel_inv_def)
  note P = rb_push_spec [OF inv p]
  from P(3) Y(3) [OF 0(2)] have "b" by simp
  then show ?case
    using p P Y by (subst push_spin.simps) (auto simp: Let_def channel_inv_def channel_sent_def)
next
  case (Suc n)
  let ?c1 = "channel_yield c"
  obtain b r where p: "rb_push x (chan_ring ?c1) = (b, r)" by fastforce
  note Y = channel_yield_spec [OF Suc.prems(1)]
  from Y(1) have inv: "rb_inv (chan_ring ?c1)" by (simp add: channel_inv_def)
  note P = rb_push_spec [OF inv p]
  let ?c2 = "?c1\<lparr>chan_ring := r\<rparr>"
  have i2: "channel_inv ?c2" using Y(1) P by (simp add: channel_inv_def)
  show ?case
  proof (cases b)
    case True
    then show ?thesis
      using p P Y i2 by (subst push_spin.simps) (auto simp: Let_def channel_sent_def)
  next
    case False
    have s: "0 < chan_sched ?c2 n" using Suc.prems(2) by (simp add: Y(4))
    have "channel_sent ?c2 = channel_sent c" using False P Y(2) by (simp add: channel_sent_def)
    with Suc.IH [OF i2 s] False p show ?thesis
      by (subst push_spin.simps) (simp add: Let_def)
  qed
qed

lemma push_spin_spec:
  assumes "channel_inv c"
  obtains c' where "push_spin x c = Some c'" "channel_inv c'" "channel_sent c' = channel_sent c @ [x]"
proof -
  from assms obtain n where "0 < chan_sched c n" by (auto simp: channel_inv_def)
  from push_spin_within [OF assms this] that show thesis by blast
qed

definition new_Channel :: "u32 \<Rightarrow> 'a \<Rightarrow> (nat \<Rightarrow> nat) \<Rightarrow> 'a Channel" where
  "new_Channel N d sched = \<lparr> chan_ring = new_RingBuffer N d, chan_popped = [], chan_sched = sched \<rparr>"

lemma new_Channel_inv:
  assumes "unat N = 2 ^ k" "0 < k" "k < 32" "\<forall>i. \<exists>j\<ge>i. 0 < sched j"
  shows "channel_inv (new_Channel N d sched)" "channel_sent (new_Channel N d sched) = []"
proof -
  have "(2::nat) \<le> 2 ^ k" using assms(2) by (cases k) auto
  with new_RingBuffer_inv [OF assms(1,3), of d] assms
  show "channel_inv (new_Channel N d sched)" "channel_sent (new_Channel N d sched) = []"
    by (auto simp: channel_inv_def channel_sent_def new_Channel_def)
qed

end
