(* ===== verification/Wire_Codec.thy ===== *)
theory Wire_Codec
  imports Exch_Prelude
begin

text \<open>
  Big-endian field codecs (\<open>infra/wire_codec.hpp\<close>). A field is a value with its wire width; a
  message lists its fields once, and the sizer, the writer and the reader all walk that list. The
  writer and the reader keep a position into their span and a flag that stays false once a claim
  has failed, as the source does. Sizes and positions are naturals: they are bounded by the span.
\<close>

unbundle bit_operations_syntax

datatype wire_field = W8 u8 | W16 u16 | W32 u32 | W64 u64 | W48 u64 | WBytes "byte list"

text \<open>The C++ type of a field, which is all the reader knows before it has read the value.\<close>

datatype wire_type = T8 | T16 | T32 | T64 | T48 | TBytes nat

fun wire_type_of :: "wire_field \<Rightarrow> wire_type" where
  "wire_type_of (W8 _) = T8"
| "wire_type_of (W16 _) = T16"
| "wire_type_of (W32 _) = T32"
| "wire_type_of (W64 _) = T64"
| "wire_type_of (W48 _) = T48"
| "wire_type_of (WBytes bs) = TBytes (length bs)"

fun wire_size :: "wire_type \<Rightarrow> nat" where
  "wire_size T8 = 1"
| "wire_size T16 = 2"
| "wire_size T32 = 4"
| "wire_size T64 = 8"
| "wire_size T48 = 6"
| "wire_size (TBytes n) = n"

definition alpha :: "nat \<Rightarrow> byte list \<Rightarrow> byte list" where
  "alpha N s = map (\<lambda>i. if i < length s then s ! i else ch CHR '' '') [0..<N]"

definition bytes_of :: "string \<Rightarrow> byte list" where
  "bytes_of s = map of_char s"

subsection \<open>Integers\<close>

text \<open>
  \<open>be_bytes n w\<close> is what storing \<open>w\<close> puts on the wire: its low \<open>n\<close> bytes, most significant first
  (the \<open>u48\<close> loop of the source, and the effect of its byteswap and copy for whole integers).
\<close>

definition be_bytes :: "nat \<Rightarrow> 'a::len word \<Rightarrow> byte list" where
  "be_bytes n w = map (\<lambda>i. ucast (drop_bit (8 * (n - 1 - i)) w)) [0..<n]"

definition be_word :: "byte list \<Rightarrow> 'a::len word" where
  "be_word bs = foldl (\<lambda>value b. push_bit 8 value OR ucast b) 0 bs"

fun wire_bytes :: "wire_field \<Rightarrow> byte list" where
  "wire_bytes (W8 v) = be_bytes 1 v"
| "wire_bytes (W16 v) = be_bytes 2 v"
| "wire_bytes (W32 v) = be_bytes 4 v"
| "wire_bytes (W64 v) = be_bytes 8 v"
| "wire_bytes (W48 v) = be_bytes 6 v"
| "wire_bytes (WBytes bs) = bs"

fun wire_value :: "wire_type \<Rightarrow> byte list \<Rightarrow> wire_field" where
  "wire_value T8 bs = W8 (be_word bs)"
| "wire_value T16 bs = W16 (be_word bs)"
| "wire_value T32 bs = W32 (be_word bs)"
| "wire_value T64 bs = W64 (be_word bs)"
| "wire_value T48 bs = W48 (be_word bs)"
| "wire_value (TBytes n) bs = WBytes bs"

text \<open>The value a destination of each C++ type receives.\<close>

fun as_u8 :: "wire_field \<Rightarrow> u8" where
  "as_u8 (W8 v) = v"
| "as_u8 _ = 0"

fun as_u16 :: "wire_field \<Rightarrow> u16" where
  "as_u16 (W16 v) = v"
| "as_u16 _ = 0"

fun as_u32 :: "wire_field \<Rightarrow> u32" where
  "as_u32 (W32 v) = v"
| "as_u32 _ = 0"

fun as_u64 :: "wire_field \<Rightarrow> u64" where
  "as_u64 (W64 v) = v"
| "as_u64 (W48 v) = v"
| "as_u64 _ = 0"

fun as_bytes :: "wire_field \<Rightarrow> byte list" where
  "as_bytes (WBytes bs) = bs"
| "as_bytes _ = []"

subsection \<open>Sizer, writer, reader\<close>

definition wire_sizer :: "wire_field list \<Rightarrow> nat" where
  "wire_sizer fs = fold (\<lambda>f size. size + wire_size (wire_type_of f)) fs 0"

record WireWriter =
  ww_out :: "byte list"
  ww_pos :: nat
  ww_ok :: bool

definition wire_writer :: "byte list \<Rightarrow> WireWriter" where
  "wire_writer out = \<lparr> ww_out = out, ww_pos = 0, ww_ok = True \<rparr>"

definition ww_claim :: "nat \<Rightarrow> WireWriter \<Rightarrow> nat option \<times> WireWriter" where
  "ww_claim n w = (if \<not> ww_ok w \<or> length (ww_out w) - ww_pos w < n then (None, w\<lparr>ww_ok := False\<rparr>)
                   else (Some (ww_pos w), w\<lparr>ww_pos := ww_pos w + n\<rparr>))"

text \<open>Copying bytes over a stretch of the span.\<close>

definition splice :: "nat \<Rightarrow> byte list \<Rightarrow> byte list \<Rightarrow> byte list" where
  "splice i bs out = take i out @ bs @ drop (i + length bs) out"

definition ww_put :: "wire_field \<Rightarrow> WireWriter \<Rightarrow> WireWriter" where
  "ww_put f w = (case ww_claim (wire_size (wire_type_of f)) w of
       (None, w') \<Rightarrow> w'
     | (Some dst, w') \<Rightarrow> w'\<lparr>ww_out := splice dst (wire_bytes f) (ww_out w')\<rparr>)"

definition ww_skip :: "nat \<Rightarrow> WireWriter \<Rightarrow> nat option \<times> WireWriter" where
  "ww_skip n w = ww_claim n w"

definition ww_core :: "wire_field list \<Rightarrow> WireWriter \<Rightarrow> WireWriter" where
  "ww_core fs w = fold ww_put fs w"

definition ww_store16 :: "nat \<Rightarrow> u16 \<Rightarrow> WireWriter \<Rightarrow> WireWriter" where
  "ww_store16 dst v w = w\<lparr>ww_out := splice dst (be_bytes 2 v) (ww_out w)\<rparr>"

record WireReader =
  wr_in :: "byte list"
  wr_pos :: nat
  wr_ok :: bool

definition wire_reader :: "byte list \<Rightarrow> WireReader" where
  "wire_reader bs = \<lparr> wr_in = bs, wr_pos = 0, wr_ok = True \<rparr>"

definition wr_claim :: "nat \<Rightarrow> WireReader \<Rightarrow> nat option \<times> WireReader" where
  "wr_claim n r = (if \<not> wr_ok r \<or> length (wr_in r) - wr_pos r < n then (None, r\<lparr>wr_ok := False\<rparr>)
                   else (Some (wr_pos r), r\<lparr>wr_pos := wr_pos r + n\<rparr>))"

text \<open>Reading a field: \<^term>\<open>None\<close> where the claim fails and the destination keeps its value.\<close>

definition wr_get :: "wire_type \<Rightarrow> WireReader \<Rightarrow> wire_field option \<times> WireReader" where
  "wr_get t r = (case wr_claim (wire_size t) r of
       (None, r') \<Rightarrow> (None, r')
     | (Some src, r') \<Rightarrow> (Some (wire_value t (take (wire_size t) (drop src (wr_in r')))), r'))"

definition wr_take :: "nat \<Rightarrow> WireReader \<Rightarrow> byte list \<times> WireReader" where
  "wr_take n r = (case wr_claim n r of
       (None, r') \<Rightarrow> ([], r')
     | (Some src, r') \<Rightarrow> (take n (drop src (wr_in r')), r'))"

definition wr_remaining :: "WireReader \<Rightarrow> nat" where
  "wr_remaining r = length (wr_in r) - wr_pos r"

fun wr_core :: "wire_type list \<Rightarrow> WireReader \<Rightarrow> wire_field option list \<times> WireReader" where
  "wr_core [] r = ([], r)"
| "wr_core (t # ts) r = (let (f, r1) = wr_get t r; (fs, r2) = wr_core ts r1 in (f # fs, r2))"

subsection \<open>Integers survive the wire\<close>

lemma be_bytes_Suc: "be_bytes (Suc n) w = be_bytes n (drop_bit 8 w) @ [ucast w]"
proof -
  have "be_bytes (Suc n) w = map (\<lambda>i. ucast (drop_bit (8 * (n - i)) w)) [0..<n] @ [ucast w]"
    by (simp add: be_bytes_def)
  also have "map (\<lambda>i. ucast (drop_bit (8 * (n - i)) w) :: byte) [0..<n] = be_bytes n (drop_bit 8 w)"
    unfolding be_bytes_def
  proof (rule map_cong)
    fix i assume "i \<in> set [0..<n]"
    then have "8 * (n - i) = 8 * (n - 1 - i) + 8" by auto
    then show "(ucast (drop_bit (8 * (n - i)) w) :: byte) = ucast (drop_bit (8 * (n - 1 - i)) (drop_bit 8 w))"
      by simp
  qed simp
  finally show ?thesis .
qed

lemma be_word_snoc: "be_word (bs @ [b]) = (push_bit 8 (be_word bs) OR ucast b :: 'a::len word)"
  by (simp add: be_word_def)

lemma be_word_be_bytes: "be_word (be_bytes n w) = take_bit (8 * n) w" for w :: "'a::len word"
proof (induction n arbitrary: w)
  case 0 then show ?case by (simp add: be_word_def be_bytes_def)
next
  case (Suc n)
  have "be_word (be_bytes (Suc n) w) = push_bit 8 (take_bit (8 * n) (drop_bit 8 w)) OR ucast (ucast w :: byte)"
    by (simp add: be_bytes_Suc be_word_snoc Suc)
  also have "\<dots> = take_bit (8 * Suc n) w"
    by (rule bit_eqI) (auto simp: bit_simps)
  finally show ?case .
qed

lemma length_be_bytes [simp]: "length (be_bytes n w) = n"
  by (simp add: be_bytes_def)

lemma take_bit_word_full: "LENGTH('a) \<le> n \<Longrightarrow> take_bit n w = w" for w :: "'a::len word"
  by (rule bit_eqI) (auto simp: bit_simps dest: bit_imp_le_length)

text \<open>A field the wire can carry: only \<open>u48\<close> values can be too wide for their field.\<close>

fun wire_ok :: "wire_field \<Rightarrow> bool" where
  "wire_ok (W48 v) = (v < 2 ^ 48)"
| "wire_ok _ = True"

lemma length_wire_bytes [simp]: "length (wire_bytes f) = wire_size (wire_type_of f)"
  by (cases f) auto

lemma wire_value_bytes:
  assumes "wire_ok f"
  shows "wire_value (wire_type_of f) (wire_bytes f) = f"
proof (cases f)
  case (W48 v)
  with assms have "v < 2 ^ 48" by simp
  then have "take_bit 48 v = v"
    using less_mask_eq [of v 48] by (simp add: take_bit_eq_mask)
  with W48 show ?thesis by (simp add: be_word_be_bytes)
qed (simp_all add: be_word_be_bytes take_bit_word_full)

subsection \<open>Field lists survive the wire\<close>

abbreviation wire_all :: "wire_field list \<Rightarrow> byte list" where
  "wire_all fs \<equiv> concat (map wire_bytes fs)"

lemma wire_sizer_length: "wire_sizer fs = length (wire_all fs)"
proof -
  have "fold (\<lambda>f size. size + wire_size (wire_type_of f)) fs n = n + length (wire_all fs)" for n
    by (induction fs arbitrary: n) auto
  then show ?thesis by (simp add: wire_sizer_def)
qed

text \<open>What the writer has produced so far.\<close>

definition ww_done :: "WireWriter \<Rightarrow> byte list" where
  "ww_done w = take (ww_pos w) (ww_out w)"

definition ww_inv :: "WireWriter \<Rightarrow> bool" where
  "ww_inv w \<longleftrightarrow> ww_pos w \<le> length (ww_out w)"

definition ww_appends :: "byte list \<Rightarrow> WireWriter \<Rightarrow> WireWriter \<Rightarrow> bool" where
  "ww_appends bs w w' \<longleftrightarrow> ww_inv w' \<and> length (ww_out w') = length (ww_out w)
     \<and> (ww_ok w' \<longleftrightarrow> ww_ok w \<and> length (ww_out w) - ww_pos w \<ge> length bs)
     \<and> (ww_ok w' \<longrightarrow> ww_pos w' = ww_pos w + length bs \<and> ww_done w' = ww_done w @ bs)"

lemma length_splice: "i + length bs \<le> length out \<Longrightarrow> length (splice i bs out) = length out"
  by (simp add: splice_def)

lemma ww_put_appends: "ww_inv w \<Longrightarrow> ww_appends (wire_bytes f) w (ww_put f w)"
  by (auto simp: ww_appends_def ww_put_def ww_claim_def ww_inv_def ww_done_def splice_def)

lemma ww_appends_trans:
  "ww_appends bs w w1 \<Longrightarrow> ww_appends cs w1 w2 \<Longrightarrow> ww_appends (bs @ cs) w w2"
  by (auto simp: ww_appends_def)

lemma ww_core_appends: "ww_inv w \<Longrightarrow> ww_appends (wire_all fs) w (ww_core fs w)"
proof (induction fs arbitrary: w)
  case Nil
  then show ?case by (auto simp: ww_core_def ww_appends_def)
next
  case (Cons f fs)
  from ww_put_appends [OF Cons.prems] have p: "ww_appends (wire_bytes f) w (ww_put f w)" .
  then have "ww_inv (ww_put f w)" by (simp add: ww_appends_def)
  from Cons.IH [OF this] have "ww_appends (wire_all fs) (ww_put f w) (ww_core (f # fs) w)"
    by (simp add: ww_core_def)
  with p show ?case using ww_appends_trans by fastforce
qed

lemma ww_inv_new [simp]: "ww_inv (wire_writer out)"
  by (simp add: ww_inv_def wire_writer_def)

text \<open>Reading back what the writer produced, with more to follow.\<close>

definition wr_rest :: "WireReader \<Rightarrow> byte list" where
  "wr_rest r = drop (wr_pos r) (wr_in r)"

lemma wr_rest_new [simp]: "wr_rest (wire_reader bs) = bs" "wr_ok (wire_reader bs)"
  "wr_pos (wire_reader bs) = 0" "wr_in (wire_reader bs) = bs"
  by (simp_all add: wr_rest_def wire_reader_def)

lemma wr_remaining_rest: "wr_remaining r = length (wr_rest r)"
  by (simp add: wr_remaining_def wr_rest_def)

lemma wr_get_spec:
  assumes "wr_ok r"
  shows "wr_get t r = (if wire_size t \<le> length (wr_rest r)
      then (Some (wire_value t (take (wire_size t) (wr_rest r))), r\<lparr>wr_pos := wr_pos r + wire_size t\<rparr>)
      else (None, r\<lparr>wr_ok := False\<rparr>))"
  using assms by (auto simp: wr_get_def wr_claim_def wr_rest_def)

lemma wr_take_spec:
  assumes "wr_ok r"
  shows "wr_take n r = (if n \<le> length (wr_rest r)
      then (take n (wr_rest r), r\<lparr>wr_pos := wr_pos r + n\<rparr>) else ([], r\<lparr>wr_ok := False\<rparr>))"
  using assms by (auto simp: wr_take_def wr_claim_def wr_rest_def)

lemma wr_rest_advance: "wr_rest (r\<lparr>wr_pos := wr_pos r + n\<rparr>) = drop n (wr_rest r)"
  by (simp add: wr_rest_def add.commute)

lemma wr_core_bytes:
  assumes "wr_ok r" and "wr_rest r = wire_all fs @ rest" and "list_all wire_ok fs"
  shows "wr_core (map wire_type_of fs) r = (map Some fs, r\<lparr>wr_pos := wr_pos r + wire_sizer fs\<rparr>)"
  using assms
proof (induction fs arbitrary: r)
  case Nil
  then show ?case by (simp add: wire_sizer_def)
next
  case (Cons f fs)
  let ?n = "wire_size (wire_type_of f)"
  let ?r1 = "r\<lparr>wr_pos := wr_pos r + ?n\<rparr>"
  from Cons.prems have g: "wr_get (wire_type_of f) r = (Some f, ?r1)"
    by (simp add: wr_get_spec wire_value_bytes)
  have "wr_rest ?r1 = wire_all fs @ rest" "wr_ok ?r1"
    using Cons.prems by (simp_all add: wr_rest_advance)
  from Cons.IH [OF this(2,1)] Cons.prems(3) have
    "wr_core (map wire_type_of fs) ?r1 = (map Some fs, ?r1\<lparr>wr_pos := wr_pos ?r1 + wire_sizer fs\<rparr>)" by simp
  with g show ?case by (simp add: wire_sizer_length ac_simps)
qed

text \<open>The reader's flag says exactly whether every field fitted.\<close>

lemma wr_core_not_ok: "\<not> wr_ok r \<Longrightarrow> \<not> wr_ok (snd (wr_core ts r))"
proof (induction ts arbitrary: r)
  case Nil then show ?case by simp
next
  case (Cons t ts)
  have "\<not> wr_ok (snd (wr_get t r))"
    using Cons.prems by (simp add: wr_get_def wr_claim_def)
  from Cons.IH [OF this] show ?case by (simp add: split_beta)
qed

lemma wr_core_ok:
  "wr_ok r \<Longrightarrow> wr_ok (snd (wr_core ts r)) \<longleftrightarrow> sum_list (map wire_size ts) \<le> length (wr_rest r)"
proof (induction ts arbitrary: r)
  case Nil then show ?case by simp
next
  case (Cons t ts)
  show ?case
  proof (cases "wire_size t \<le> length (wr_rest r)")
    case True
    let ?r1 = "r\<lparr>wr_pos := wr_pos r + wire_size t\<rparr>"
    have "snd (wr_core (t # ts) r) = snd (wr_core ts ?r1)"
      using True Cons.prems by (simp add: wr_get_spec split_beta)
    moreover have "wr_ok ?r1" using Cons.prems by simp
    ultimately show ?thesis
      using Cons.IH [of ?r1] True by (auto simp: wr_rest_advance)
  next
    case False
    then have "snd (wr_core (t # ts) r) = snd (wr_core ts (r\<lparr>wr_ok := False\<rparr>))"
      using Cons.prems by (simp add: wr_get_spec split_beta)
    with False show ?thesis by (simp add: wr_core_not_ok)
  qed
qed

lemma wr_core_in: "wr_in (snd (wr_core ts r)) = wr_in r"
  by (induction ts arbitrary: r)
    (auto simp: split_beta wr_get_def wr_claim_def split: option.splits prod.splits)

lemma wr_core_pos_ok:
  "wr_ok r \<Longrightarrow> wr_ok (snd (wr_core ts r)) \<Longrightarrow> wr_pos (snd (wr_core ts r)) = wr_pos r + sum_list (map wire_size ts)"
proof (induction ts arbitrary: r)
  case Nil then show ?case by simp
next
  case (Cons t ts)
  show ?case
  proof (cases "wire_size t \<le> length (wr_rest r)")
    case True
    with Cons show ?thesis by (simp add: wr_get_spec split_beta)
  next
    case False
    with Cons.prems wr_core_not_ok [of "r\<lparr>wr_ok := False\<rparr>" ts] show ?thesis
      by (simp add: wr_get_spec split_beta)
  qed
qed

end
