(* ===== verification/Itch_Proto.thy ===== *)
theory Itch_Proto
  imports Wire_Codec
begin

text \<open>
  ITCH 5.0 market data (\<open>infra/itch_proto.hpp\<close>): one record per message struct, the union as a
  datatype, each message's \<open>core\<close> field list as a function to wire fields and one back, and the
  generic codec driven by them. The message type is an enum over \<open>char\<close>, hence a byte. The
  codec is proved once against the message interface and used at all seven messages.
\<close>

type_synonym ItchMessageType = byte
type_synonym ItchStockSymbol = "byte list"

definition ITCH_NONE :: ItchMessageType where "ITCH_NONE = 0"
definition ADD_ORDER :: ItchMessageType where "ADD_ORDER = ch CHR ''A''"
definition ORDER_EXECUTED :: ItchMessageType where "ORDER_EXECUTED = ch CHR ''E''"
definition ORDER_EXECUTED_W_PRICE :: ItchMessageType where "ORDER_EXECUTED_W_PRICE = ch CHR ''C''"
definition ORDER_CANCEL :: ItchMessageType where "ORDER_CANCEL = ch CHR ''X''"
definition ORDER_DELETE :: ItchMessageType where "ORDER_DELETE = ch CHR ''D''"
definition ORDER_REPLACE :: ItchMessageType where "ORDER_REPLACE = ch CHR ''U''"
definition TRADE :: ItchMessageType where "TRADE = ch CHR ''P''"

lemmas itch_type_defs = ITCH_NONE_def ADD_ORDER_def ORDER_EXECUTED_def ORDER_EXECUTED_W_PRICE_def ORDER_CANCEL_def ORDER_DELETE_def ORDER_REPLACE_def TRADE_def

record ItchHeader =
  ih_message_type :: ItchMessageType
  ih_stock_locate :: u16
  ih_tracking_number :: u16
  ih_timestamp :: u64

definition default_header :: "ItchMessageType \<Rightarrow> ItchHeader" where
  "default_header t = \<lparr> ih_message_type = t, ih_stock_locate = 0, ih_tracking_number = 0, ih_timestamp = 0 \<rparr>"

definition header_core :: "ItchHeader \<Rightarrow> wire_field list" where
  "header_core h = [W8 (ih_message_type h), W16 (ih_stock_locate h), W16 (ih_tracking_number h),
     W48 (ih_timestamp h)]"

definition set_header :: "wire_field list \<Rightarrow> ItchHeader \<Rightarrow> ItchHeader" where
  "set_header fs h = h\<lparr> ih_message_type := as_u8 (fs ! 0), ih_stock_locate := as_u16 (fs ! 1),
     ih_tracking_number := as_u16 (fs ! 2), ih_timestamp := as_u64 (fs ! 3) \<rparr>"

record ItchAddOrder =
  ia_header :: ItchHeader
  ia_order_reference_number :: "u64"
  ia_buy_sell_indicator :: "byte"
  ia_shares :: "u32"
  ia_stock :: "byte list"
  ia_price :: "u32"

record ItchOrderExecuted =
  ie_header :: ItchHeader
  ie_order_reference_number :: "u64"
  ie_executed_shares :: "u32"
  ie_match_number :: "u64"

record ItchOrderExecutedWithPrice =
  iw_header :: ItchHeader
  iw_order_reference_number :: "u64"
  iw_executed_shares :: "u32"
  iw_match_number :: "u64"
  iw_printable :: "byte"
  iw_execution_price :: "u32"

record ItchOrderCancel =
  ic_header :: ItchHeader
  ic_order_reference_number :: "u64"
  ic_canceled_shares :: "u32"

record ItchOrderDelete =
  id_header :: ItchHeader
  id_order_reference_number :: "u64"

record ItchOrderReplace =
  ir_header :: ItchHeader
  ir_original_order_reference_number :: "u64"
  ir_new_order_reference_number :: "u64"
  ir_shares :: "u32"
  ir_price :: "u32"

record ItchTrade =
  it_header :: ItchHeader
  it_order_reference_number :: "u64"
  it_buy_sell_indicator :: "byte"
  it_shares :: "u32"
  it_stock :: "byte list"
  it_price :: "u32"
  it_match_number :: "u64"

definition default_ItchAddOrder :: ItchAddOrder where
  "default_ItchAddOrder = \<lparr> ia_header = default_header ADD_ORDER, ia_order_reference_number = 0, ia_buy_sell_indicator = 0, ia_shares = 0, ia_stock = replicate 8 0, ia_price = 0 \<rparr>"

definition core_ItchAddOrder :: "ItchAddOrder \<Rightarrow> wire_field list" where
  "core_ItchAddOrder m = header_core (ia_header m) @
     [W64 (ia_order_reference_number m), W8 (ia_buy_sell_indicator m), W32 (ia_shares m), WBytes (ia_stock m), W32 (ia_price m)]"

definition set_ItchAddOrder :: "wire_field list \<Rightarrow> ItchAddOrder \<Rightarrow> ItchAddOrder" where
  "set_ItchAddOrder fs m = m\<lparr> ia_header := set_header (take 4 fs) (ia_header m),
     ia_order_reference_number := as_u64 (fs ! 4),
     ia_buy_sell_indicator := as_u8 (fs ! 5),
     ia_shares := as_u32 (fs ! 6),
     ia_stock := as_bytes (fs ! 7),
     ia_price := as_u32 (fs ! 8) \<rparr>"

definition default_ItchOrderExecuted :: ItchOrderExecuted where
  "default_ItchOrderExecuted = \<lparr> ie_header = default_header ORDER_EXECUTED, ie_order_reference_number = 0, ie_executed_shares = 0, ie_match_number = 0 \<rparr>"

definition core_ItchOrderExecuted :: "ItchOrderExecuted \<Rightarrow> wire_field list" where
  "core_ItchOrderExecuted m = header_core (ie_header m) @
     [W64 (ie_order_reference_number m), W32 (ie_executed_shares m), W64 (ie_match_number m)]"

definition set_ItchOrderExecuted :: "wire_field list \<Rightarrow> ItchOrderExecuted \<Rightarrow> ItchOrderExecuted" where
  "set_ItchOrderExecuted fs m = m\<lparr> ie_header := set_header (take 4 fs) (ie_header m),
     ie_order_reference_number := as_u64 (fs ! 4),
     ie_executed_shares := as_u32 (fs ! 5),
     ie_match_number := as_u64 (fs ! 6) \<rparr>"

definition default_ItchOrderExecutedWithPrice :: ItchOrderExecutedWithPrice where
  "default_ItchOrderExecutedWithPrice = \<lparr> iw_header = default_header ORDER_EXECUTED_W_PRICE, iw_order_reference_number = 0, iw_executed_shares = 0, iw_match_number = 0, iw_printable = 0, iw_execution_price = 0 \<rparr>"

definition core_ItchOrderExecutedWithPrice :: "ItchOrderExecutedWithPrice \<Rightarrow> wire_field list" where
  "core_ItchOrderExecutedWithPrice m = header_core (iw_header m) @
     [W64 (iw_order_reference_number m), W32 (iw_executed_shares m), W64 (iw_match_number m), W8 (iw_printable m), W32 (iw_execution_price m)]"

definition set_ItchOrderExecutedWithPrice :: "wire_field list \<Rightarrow> ItchOrderExecutedWithPrice \<Rightarrow> ItchOrderExecutedWithPrice" where
  "set_ItchOrderExecutedWithPrice fs m = m\<lparr> iw_header := set_header (take 4 fs) (iw_header m),
     iw_order_reference_number := as_u64 (fs ! 4),
     iw_executed_shares := as_u32 (fs ! 5),
     iw_match_number := as_u64 (fs ! 6),
     iw_printable := as_u8 (fs ! 7),
     iw_execution_price := as_u32 (fs ! 8) \<rparr>"

definition default_ItchOrderCancel :: ItchOrderCancel where
  "default_ItchOrderCancel = \<lparr> ic_header = default_header ORDER_CANCEL, ic_order_reference_number = 0, ic_canceled_shares = 0 \<rparr>"

definition core_ItchOrderCancel :: "ItchOrderCancel \<Rightarrow> wire_field list" where
  "core_ItchOrderCancel m = header_core (ic_header m) @
     [W64 (ic_order_reference_number m), W32 (ic_canceled_shares m)]"

definition set_ItchOrderCancel :: "wire_field list \<Rightarrow> ItchOrderCancel \<Rightarrow> ItchOrderCancel" where
  "set_ItchOrderCancel fs m = m\<lparr> ic_header := set_header (take 4 fs) (ic_header m),
     ic_order_reference_number := as_u64 (fs ! 4),
     ic_canceled_shares := as_u32 (fs ! 5) \<rparr>"

definition default_ItchOrderDelete :: ItchOrderDelete where
  "default_ItchOrderDelete = \<lparr> id_header = default_header ORDER_DELETE, id_order_reference_number = 0 \<rparr>"

definition core_ItchOrderDelete :: "ItchOrderDelete \<Rightarrow> wire_field list" where
  "core_ItchOrderDelete m = header_core (id_header m) @
     [W64 (id_order_reference_number m)]"

definition set_ItchOrderDelete :: "wire_field list \<Rightarrow> ItchOrderDelete \<Rightarrow> ItchOrderDelete" where
  "set_ItchOrderDelete fs m = m\<lparr> id_header := set_header (take 4 fs) (id_header m),
     id_order_reference_number := as_u64 (fs ! 4) \<rparr>"

definition default_ItchOrderReplace :: ItchOrderReplace where
  "default_ItchOrderReplace = \<lparr> ir_header = default_header ORDER_REPLACE, ir_original_order_reference_number = 0, ir_new_order_reference_number = 0, ir_shares = 0, ir_price = 0 \<rparr>"

definition core_ItchOrderReplace :: "ItchOrderReplace \<Rightarrow> wire_field list" where
  "core_ItchOrderReplace m = header_core (ir_header m) @
     [W64 (ir_original_order_reference_number m), W64 (ir_new_order_reference_number m), W32 (ir_shares m), W32 (ir_price m)]"

definition set_ItchOrderReplace :: "wire_field list \<Rightarrow> ItchOrderReplace \<Rightarrow> ItchOrderReplace" where
  "set_ItchOrderReplace fs m = m\<lparr> ir_header := set_header (take 4 fs) (ir_header m),
     ir_original_order_reference_number := as_u64 (fs ! 4),
     ir_new_order_reference_number := as_u64 (fs ! 5),
     ir_shares := as_u32 (fs ! 6),
     ir_price := as_u32 (fs ! 7) \<rparr>"

definition default_ItchTrade :: ItchTrade where
  "default_ItchTrade = \<lparr> it_header = default_header TRADE, it_order_reference_number = 0, it_buy_sell_indicator = 0, it_shares = 0, it_stock = replicate 8 0, it_price = 0, it_match_number = 0 \<rparr>"

definition core_ItchTrade :: "ItchTrade \<Rightarrow> wire_field list" where
  "core_ItchTrade m = header_core (it_header m) @
     [W64 (it_order_reference_number m), W8 (it_buy_sell_indicator m), W32 (it_shares m), WBytes (it_stock m), W32 (it_price m), W64 (it_match_number m)]"

definition set_ItchTrade :: "wire_field list \<Rightarrow> ItchTrade \<Rightarrow> ItchTrade" where
  "set_ItchTrade fs m = m\<lparr> it_header := set_header (take 4 fs) (it_header m),
     it_order_reference_number := as_u64 (fs ! 4),
     it_buy_sell_indicator := as_u8 (fs ! 5),
     it_shares := as_u32 (fs ! 6),
     it_stock := as_bytes (fs ! 7),
     it_price := as_u32 (fs ! 8),
     it_match_number := as_u64 (fs ! 9) \<rparr>"

datatype ITCH = ItchNone
  | AddOrder ItchAddOrder
  | OrderExecuted ItchOrderExecuted
  | OrderExecutedWithPrice ItchOrderExecutedWithPrice
  | OrderCancel ItchOrderCancel
  | OrderDelete ItchOrderDelete
  | OrderReplace ItchOrderReplace
  | Trade ItchTrade

subsection \<open>Codec\<close>

definition itch_encoded_size :: "('m \<Rightarrow> wire_field list) \<Rightarrow> 'm \<Rightarrow> nat" where
  "itch_encoded_size core msg = wire_sizer (core msg)"

definition itch_encode :: "('m \<Rightarrow> wire_field list) \<Rightarrow> 'm \<Rightarrow> byte list \<Rightarrow> nat \<times> byte list" where
  "itch_encode core msg out =
     (let writer = ww_core (core msg) (wire_writer out)
      in (if ww_ok writer then ww_pos writer else 0, ww_out writer))"

definition itch_decode ::
  "('m \<Rightarrow> wire_field list) \<Rightarrow> (wire_field list \<Rightarrow> 'm \<Rightarrow> 'm) \<Rightarrow> 'm \<Rightarrow> byte list \<Rightarrow> 'm option" where
  "itch_decode core set_core msg bytes =
     (let (fs, reader) = wr_core (map wire_type_of (core msg)) (wire_reader bytes)
      in if wr_ok reader \<and> wr_remaining reader = 0 then Some (set_core (map the fs) msg) else None)"

fun encoded_size_itch :: "ITCH \<Rightarrow> nat" where
  "encoded_size_itch ItchNone = 0"
| "encoded_size_itch (AddOrder m) = itch_encoded_size core_ItchAddOrder m"
| "encoded_size_itch (OrderExecuted m) = itch_encoded_size core_ItchOrderExecuted m"
| "encoded_size_itch (OrderExecutedWithPrice m) = itch_encoded_size core_ItchOrderExecutedWithPrice m"
| "encoded_size_itch (OrderCancel m) = itch_encoded_size core_ItchOrderCancel m"
| "encoded_size_itch (OrderDelete m) = itch_encoded_size core_ItchOrderDelete m"
| "encoded_size_itch (OrderReplace m) = itch_encoded_size core_ItchOrderReplace m"
| "encoded_size_itch (Trade m) = itch_encoded_size core_ItchTrade m"

fun encode_itch :: "ITCH \<Rightarrow> byte list \<Rightarrow> nat \<times> byte list" where
  "encode_itch ItchNone out = (0, out)"
| "encode_itch (AddOrder m) out = itch_encode core_ItchAddOrder m out"
| "encode_itch (OrderExecuted m) out = itch_encode core_ItchOrderExecuted m out"
| "encode_itch (OrderExecutedWithPrice m) out = itch_encode core_ItchOrderExecutedWithPrice m out"
| "encode_itch (OrderCancel m) out = itch_encode core_ItchOrderCancel m out"
| "encode_itch (OrderDelete m) out = itch_encode core_ItchOrderDelete m out"
| "encode_itch (OrderReplace m) out = itch_encode core_ItchOrderReplace m out"
| "encode_itch (Trade m) out = itch_encode core_ItchTrade m out"

text \<open>The default of the struct the type byte selects is decoded into; anything else is \<open>NONE\<close>.\<close>

definition decode_itch :: "byte list \<Rightarrow> ITCH" where
  "decode_itch bytes =
     (case bytes of [] \<Rightarrow> ItchNone
      | t # _ \<Rightarrow>
          if t = ADD_ORDER then (case itch_decode core_ItchAddOrder set_ItchAddOrder default_ItchAddOrder bytes of
            Some m \<Rightarrow> AddOrder m | None \<Rightarrow> ItchNone)
          else if t = ORDER_EXECUTED then (case itch_decode core_ItchOrderExecuted set_ItchOrderExecuted default_ItchOrderExecuted bytes of
            Some m \<Rightarrow> OrderExecuted m | None \<Rightarrow> ItchNone)
          else if t = ORDER_EXECUTED_W_PRICE then (case itch_decode core_ItchOrderExecutedWithPrice set_ItchOrderExecutedWithPrice default_ItchOrderExecutedWithPrice bytes of
            Some m \<Rightarrow> OrderExecutedWithPrice m | None \<Rightarrow> ItchNone)
          else if t = ORDER_CANCEL then (case itch_decode core_ItchOrderCancel set_ItchOrderCancel default_ItchOrderCancel bytes of
            Some m \<Rightarrow> OrderCancel m | None \<Rightarrow> ItchNone)
          else if t = ORDER_DELETE then (case itch_decode core_ItchOrderDelete set_ItchOrderDelete default_ItchOrderDelete bytes of
            Some m \<Rightarrow> OrderDelete m | None \<Rightarrow> ItchNone)
          else if t = ORDER_REPLACE then (case itch_decode core_ItchOrderReplace set_ItchOrderReplace default_ItchOrderReplace bytes of
            Some m \<Rightarrow> OrderReplace m | None \<Rightarrow> ItchNone)
          else if t = TRADE then (case itch_decode core_ItchTrade set_ItchTrade default_ItchTrade bytes of
            Some m \<Rightarrow> Trade m | None \<Rightarrow> ItchNone)
          else ItchNone)"

subsection \<open>The message interface\<close>

text \<open>
  What the codec needs from a message: its field list always has the types of the default
  message's, assigning the fields back gives the message, and every field fits its wire width.
\<close>

locale itch_message =
  fixes core :: "'m \<Rightarrow> wire_field list"
    and set_core :: "wire_field list \<Rightarrow> 'm \<Rightarrow> 'm"
    and default :: 'm
    and wf :: "'m \<Rightarrow> bool"
  assumes core_types: "wf m \<Longrightarrow> map wire_type_of (core m) = map wire_type_of (core default)"
    and set_core_core: "wf m \<Longrightarrow> set_core (core m) m0 = m"
    and core_ok: "wf m \<Longrightarrow> list_all wire_ok (core m)"
begin

lemma encode_spec:
  assumes "itch_encoded_size core m \<le> length out"
  shows "fst (itch_encode core m out) = itch_encoded_size core m"
    "take (itch_encoded_size core m) (snd (itch_encode core m out)) = wire_all (core m)"
proof -
  let ?w = "ww_core (core m) (wire_writer out)"
  have a: "ww_appends (wire_all (core m)) (wire_writer out) ?w" by (rule ww_core_appends) simp
  with assms have "ww_ok ?w" "ww_pos ?w = length (wire_all (core m))" "ww_done ?w = wire_all (core m)"
    by (auto simp: ww_appends_def wire_writer_def ww_done_def itch_encoded_size_def wire_sizer_length)
  then show "fst (itch_encode core m out) = itch_encoded_size core m"
    "take (itch_encoded_size core m) (snd (itch_encode core m out)) = wire_all (core m)"
    by (simp_all add: itch_encode_def itch_encoded_size_def wire_sizer_length ww_done_def)
qed

lemma encode_too_small:
  assumes "length out < itch_encoded_size core m"
  shows "fst (itch_encode core m out) = 0"
proof -
  have "ww_appends (wire_all (core m)) (wire_writer out) (ww_core (core m) (wire_writer out))"
    by (rule ww_core_appends) simp
  with assms show ?thesis
    by (auto simp: ww_appends_def wire_writer_def itch_encode_def itch_encoded_size_def wire_sizer_length Let_def)
qed

lemma decode_encoded:
  assumes "wf m"
  shows "itch_decode core set_core default (wire_all (core m)) = Some m"
proof -
  have "wr_core (map wire_type_of (core default)) (wire_reader (wire_all (core m))) =
      (map Some (core m), (wire_reader (wire_all (core m)))\<lparr>wr_pos := wire_sizer (core m)\<rparr>)"
    using wr_core_bytes [of "wire_reader (wire_all (core m))" "core m" "[]"] core_ok [OF assms]
      core_types [OF assms] by simp
  then show ?thesis
    using set_core_core [OF assms]
    by (simp add: itch_decode_def wr_remaining_def wire_sizer_length comp_def)
qed

lemma decode_length:
  assumes "itch_decode core set_core default bytes = Some m"
  shows "length bytes = sum_list (map wire_size (map wire_type_of (core default)))"
proof -
  let ?ts = "map wire_type_of (core default)"
  let ?r = "snd (wr_core ?ts (wire_reader bytes))"
  from assms have ok: "wr_ok ?r" and rem: "wr_remaining ?r = 0"
    by (auto simp: itch_decode_def split_beta split: if_splits)
  from wr_core_ok [of "wire_reader bytes" ?ts] ok have "sum_list (map wire_size ?ts) \<le> length bytes" by simp
  moreover from ok rem have "length bytes \<le> sum_list (map wire_size ?ts)"
    using wr_core_pos_ok [of "wire_reader bytes" ?ts] wr_core_in [of ?ts "wire_reader bytes"]
    by (simp add: wr_remaining_def)
  ultimately show ?thesis by simp
qed

end

definition wf_ItchAddOrder :: "ItchAddOrder \<Rightarrow> bool" where
  "wf_ItchAddOrder m \<longleftrightarrow> ih_message_type (ia_header m) = ADD_ORDER \<and> ih_timestamp (ia_header m) < 2 ^ 48 \<and> length (ia_stock m) = 8"

definition wf_ItchOrderExecuted :: "ItchOrderExecuted \<Rightarrow> bool" where
  "wf_ItchOrderExecuted m \<longleftrightarrow> ih_message_type (ie_header m) = ORDER_EXECUTED \<and> ih_timestamp (ie_header m) < 2 ^ 48"

definition wf_ItchOrderExecutedWithPrice :: "ItchOrderExecutedWithPrice \<Rightarrow> bool" where
  "wf_ItchOrderExecutedWithPrice m \<longleftrightarrow> ih_message_type (iw_header m) = ORDER_EXECUTED_W_PRICE \<and> ih_timestamp (iw_header m) < 2 ^ 48"

definition wf_ItchOrderCancel :: "ItchOrderCancel \<Rightarrow> bool" where
  "wf_ItchOrderCancel m \<longleftrightarrow> ih_message_type (ic_header m) = ORDER_CANCEL \<and> ih_timestamp (ic_header m) < 2 ^ 48"

definition wf_ItchOrderDelete :: "ItchOrderDelete \<Rightarrow> bool" where
  "wf_ItchOrderDelete m \<longleftrightarrow> ih_message_type (id_header m) = ORDER_DELETE \<and> ih_timestamp (id_header m) < 2 ^ 48"

definition wf_ItchOrderReplace :: "ItchOrderReplace \<Rightarrow> bool" where
  "wf_ItchOrderReplace m \<longleftrightarrow> ih_message_type (ir_header m) = ORDER_REPLACE \<and> ih_timestamp (ir_header m) < 2 ^ 48"

definition wf_ItchTrade :: "ItchTrade \<Rightarrow> bool" where
  "wf_ItchTrade m \<longleftrightarrow> ih_message_type (it_header m) = TRADE \<and> ih_timestamp (it_header m) < 2 ^ 48 \<and> length (it_stock m) = 8"

interpretation ia: itch_message core_ItchAddOrder set_ItchAddOrder default_ItchAddOrder wf_ItchAddOrder
  by unfold_locales
    (auto simp: core_ItchAddOrder_def default_ItchAddOrder_def wf_ItchAddOrder_def header_core_def set_ItchAddOrder_def set_header_def)

interpretation ie: itch_message core_ItchOrderExecuted set_ItchOrderExecuted default_ItchOrderExecuted wf_ItchOrderExecuted
  by unfold_locales
    (auto simp: core_ItchOrderExecuted_def default_ItchOrderExecuted_def wf_ItchOrderExecuted_def header_core_def set_ItchOrderExecuted_def set_header_def)

interpretation iw: itch_message core_ItchOrderExecutedWithPrice set_ItchOrderExecutedWithPrice default_ItchOrderExecutedWithPrice wf_ItchOrderExecutedWithPrice
  by unfold_locales
    (auto simp: core_ItchOrderExecutedWithPrice_def default_ItchOrderExecutedWithPrice_def wf_ItchOrderExecutedWithPrice_def header_core_def set_ItchOrderExecutedWithPrice_def set_header_def)

interpretation ic: itch_message core_ItchOrderCancel set_ItchOrderCancel default_ItchOrderCancel wf_ItchOrderCancel
  by unfold_locales
    (auto simp: core_ItchOrderCancel_def default_ItchOrderCancel_def wf_ItchOrderCancel_def header_core_def set_ItchOrderCancel_def set_header_def)

interpretation id: itch_message core_ItchOrderDelete set_ItchOrderDelete default_ItchOrderDelete wf_ItchOrderDelete
  by unfold_locales
    (auto simp: core_ItchOrderDelete_def default_ItchOrderDelete_def wf_ItchOrderDelete_def header_core_def set_ItchOrderDelete_def set_header_def)

interpretation ir: itch_message core_ItchOrderReplace set_ItchOrderReplace default_ItchOrderReplace wf_ItchOrderReplace
  by unfold_locales
    (auto simp: core_ItchOrderReplace_def default_ItchOrderReplace_def wf_ItchOrderReplace_def header_core_def set_ItchOrderReplace_def set_header_def)

interpretation it: itch_message core_ItchTrade set_ItchTrade default_ItchTrade wf_ItchTrade
  by unfold_locales
    (auto simp: core_ItchTrade_def default_ItchTrade_def wf_ItchTrade_def header_core_def set_ItchTrade_def set_header_def)

fun wf_itch :: "ITCH \<Rightarrow> bool" where
  "wf_itch ItchNone \<longleftrightarrow> False"
| "wf_itch (AddOrder m) \<longleftrightarrow> wf_ItchAddOrder m"
| "wf_itch (OrderExecuted m) \<longleftrightarrow> wf_ItchOrderExecuted m"
| "wf_itch (OrderExecutedWithPrice m) \<longleftrightarrow> wf_ItchOrderExecutedWithPrice m"
| "wf_itch (OrderCancel m) \<longleftrightarrow> wf_ItchOrderCancel m"
| "wf_itch (OrderDelete m) \<longleftrightarrow> wf_ItchOrderDelete m"
| "wf_itch (OrderReplace m) \<longleftrightarrow> wf_ItchOrderReplace m"
| "wf_itch (Trade m) \<longleftrightarrow> wf_ItchTrade m"

lemmas wf_itch_defs = wf_ItchAddOrder_def wf_ItchOrderExecuted_def wf_ItchOrderExecutedWithPrice_def wf_ItchOrderCancel_def wf_ItchOrderDelete_def wf_ItchOrderReplace_def wf_ItchTrade_def
lemmas core_itch_defs = core_ItchAddOrder_def core_ItchOrderExecuted_def core_ItchOrderExecutedWithPrice_def core_ItchOrderCancel_def core_ItchOrderDelete_def core_ItchOrderReplace_def core_ItchTrade_def

lemmas itch_encode_specs = ia.encode_spec ie.encode_spec iw.encode_spec ic.encode_spec id.encode_spec ir.encode_spec it.encode_spec

lemmas itch_decode_specs = ia.decode_encoded ie.decode_encoded iw.decode_encoded ic.decode_encoded id.decode_encoded ir.decode_encoded it.decode_encoded

fun itch_core :: "ITCH \<Rightarrow> wire_field list" where
  "itch_core ItchNone = []"
| "itch_core (AddOrder m) = core_ItchAddOrder m"
| "itch_core (OrderExecuted m) = core_ItchOrderExecuted m"
| "itch_core (OrderExecutedWithPrice m) = core_ItchOrderExecutedWithPrice m"
| "itch_core (OrderCancel m) = core_ItchOrderCancel m"
| "itch_core (OrderDelete m) = core_ItchOrderDelete m"
| "itch_core (OrderReplace m) = core_ItchOrderReplace m"
| "itch_core (Trade m) = core_ItchTrade m"

lemma encoded_size_itch_core: "encoded_size_itch m = length (wire_all (itch_core m))"
  by (cases m) (simp_all add: itch_encoded_size_def wire_sizer_length)

lemma encode_itch_spec:
  assumes "m \<noteq> ItchNone" and "encoded_size_itch m \<le> length out"
  shows "fst (encode_itch m out) = encoded_size_itch m"
    "take (encoded_size_itch m) (snd (encode_itch m out)) = wire_all (itch_core m)"
  using assms by (cases m; simp add: itch_encode_specs)+

text \<open>The first byte on the wire is the message type, so the decoder picks the same struct.\<close>

fun itch_type :: "ITCH \<Rightarrow> ItchMessageType" where
  "itch_type ItchNone = ITCH_NONE"
| "itch_type (AddOrder m) = ADD_ORDER"
| "itch_type (OrderExecuted m) = ORDER_EXECUTED"
| "itch_type (OrderExecutedWithPrice m) = ORDER_EXECUTED_W_PRICE"
| "itch_type (OrderCancel m) = ORDER_CANCEL"
| "itch_type (OrderDelete m) = ORDER_DELETE"
| "itch_type (OrderReplace m) = ORDER_REPLACE"
| "itch_type (Trade m) = TRADE"

lemma wire_itch_head: "wf_itch m \<Longrightarrow> \<exists>bs. wire_all (itch_core m) = itch_type m # bs"
  by (cases m) (simp_all add: core_itch_defs wf_itch_defs header_core_def be_bytes_def)

lemma decode_itch_wire:
  assumes "wf_itch m"
  shows "decode_itch (wire_all (itch_core m)) = m"
proof -
  obtain bs where hd: "wire_all (itch_core m) = itch_type m # bs" using wire_itch_head [OF assms] by blast
  have "decode_itch (wire_all (itch_core m)) =
    (if itch_type m = ADD_ORDER then (case itch_decode core_ItchAddOrder set_ItchAddOrder default_ItchAddOrder (wire_all (itch_core m)) of
            Some m \<Rightarrow> AddOrder m | None \<Rightarrow> ItchNone)
     else if itch_type m = ORDER_EXECUTED then (case itch_decode core_ItchOrderExecuted set_ItchOrderExecuted default_ItchOrderExecuted (wire_all (itch_core m)) of
            Some m \<Rightarrow> OrderExecuted m | None \<Rightarrow> ItchNone)
     else if itch_type m = ORDER_EXECUTED_W_PRICE then (case itch_decode core_ItchOrderExecutedWithPrice set_ItchOrderExecutedWithPrice default_ItchOrderExecutedWithPrice (wire_all (itch_core m)) of
            Some m \<Rightarrow> OrderExecutedWithPrice m | None \<Rightarrow> ItchNone)
     else if itch_type m = ORDER_CANCEL then (case itch_decode core_ItchOrderCancel set_ItchOrderCancel default_ItchOrderCancel (wire_all (itch_core m)) of
            Some m \<Rightarrow> OrderCancel m | None \<Rightarrow> ItchNone)
     else if itch_type m = ORDER_DELETE then (case itch_decode core_ItchOrderDelete set_ItchOrderDelete default_ItchOrderDelete (wire_all (itch_core m)) of
            Some m \<Rightarrow> OrderDelete m | None \<Rightarrow> ItchNone)
     else if itch_type m = ORDER_REPLACE then (case itch_decode core_ItchOrderReplace set_ItchOrderReplace default_ItchOrderReplace (wire_all (itch_core m)) of
            Some m \<Rightarrow> OrderReplace m | None \<Rightarrow> ItchNone)
     else if itch_type m = TRADE then (case itch_decode core_ItchTrade set_ItchTrade default_ItchTrade (wire_all (itch_core m)) of
            Some m \<Rightarrow> Trade m | None \<Rightarrow> ItchNone)
     else ItchNone)"
    unfolding decode_itch_def hd by simp
  then show ?thesis
    using assms by (cases m) (simp_all add: itch_decode_specs itch_type_defs)
qed

end
