(* ===== verification/Ouch_Codec.thy ===== *)
theory Ouch_Codec
  imports Wire_Codec
begin

text \<open>
  The OUCH 5.0 codec (\<open>ouch_detail\<close> in \<open>infra/ouch_proto.hpp\<close>): a message is a list of core fields,
  then a two byte Appendage Length and the TagValue elements of the optional fields present. The
  codec is written once, over the message's two field lists, and proved once against the interface
  \<open>ouch_message\<close>; the message theories interpret it. A signed \<open>int32_t\<close> field is kept as
  its 32 bits.
\<close>

unbundle bit_operations_syntax

datatype OuchTag =
    SECONDARY_ORD_REF_NUM
  | FIRM
  | MIN_QTY
  | CUSTOMER_TYPE
  | MAX_FLOOR
  | PRICE_TYPE
  | PEG_OFFSET
  | DISCRETION_PRICE
  | DISCRETION_PRICE_TYPE
  | DISCRETION_PEG_OFFSET
  | POST_ONLY
  | RANDOM_RESERVES
  | ROUTE
  | EXPIRE_TIME
  | TRADE_NOW
  | HANDLE_INST
  | BBO_WEIGHT_INDICATOR
  | DISPLAY_QUANTITY
  | DISPLAY_PRICE
  | GROUP_ID
  | SHARES_LOCATED
  | LOCATE_BROKER
  | SIDE
  | USER_REF_IDX
  | AIQ_STRATEGY
  | AIQ_GROUP_ID

fun tag_code :: "OuchTag \<Rightarrow> u8" where
  "tag_code SECONDARY_ORD_REF_NUM = 1"
| "tag_code FIRM = 2"
| "tag_code MIN_QTY = 3"
| "tag_code CUSTOMER_TYPE = 4"
| "tag_code MAX_FLOOR = 5"
| "tag_code PRICE_TYPE = 6"
| "tag_code PEG_OFFSET = 7"
| "tag_code DISCRETION_PRICE = 9"
| "tag_code DISCRETION_PRICE_TYPE = 10"
| "tag_code DISCRETION_PEG_OFFSET = 11"
| "tag_code POST_ONLY = 12"
| "tag_code RANDOM_RESERVES = 13"
| "tag_code ROUTE = 14"
| "tag_code EXPIRE_TIME = 15"
| "tag_code TRADE_NOW = 16"
| "tag_code HANDLE_INST = 17"
| "tag_code BBO_WEIGHT_INDICATOR = 18"
| "tag_code DISPLAY_QUANTITY = 22"
| "tag_code DISPLAY_PRICE = 23"
| "tag_code GROUP_ID = 24"
| "tag_code SHARES_LOCATED = 25"
| "tag_code LOCATE_BROKER = 26"
| "tag_code SIDE = 27"
| "tag_code USER_REF_IDX = 28"
| "tag_code AIQ_STRATEGY = 29"
| "tag_code AIQ_GROUP_ID = 30"

type_synonym OuchTagSet = u32

definition tag_bit :: "OuchTag \<Rightarrow> u32" where
  "tag_bit tag = push_bit (unat (tag_code tag)) 1"

definition tag_has :: "OuchTagSet \<Rightarrow> OuchTag \<Rightarrow> bool" where
  "tag_has bits tag \<longleftrightarrow> bits AND tag_bit tag \<noteq> 0"

definition tag_set :: "OuchTag \<Rightarrow> OuchTagSet \<Rightarrow> OuchTagSet" where
  "tag_set tag bits = bits OR tag_bit tag"

definition tag_empty :: "OuchTagSet \<Rightarrow> bool" where
  "tag_empty bits \<longleftrightarrow> bits = 0"

subsection \<open>Encoding\<close>

definition kAppendageLengthLen :: nat where "kAppendageLengthLen = 2"
definition kTagValueHeaderLen :: nat where "kTagValueHeaderLen = 2"

definition ouch_encoded_size ::
  "('m \<Rightarrow> wire_field list) \<Rightarrow> ('m \<Rightarrow> (OuchTag \<times> wire_field) list) \<Rightarrow> ('m \<Rightarrow> OuchTagSet) \<Rightarrow> 'm \<Rightarrow> nat" where
  "ouch_encoded_size core tags appendage msg =
     fold (\<lambda>(tag, field) size. if tag_has (appendage msg) tag
             then size + (kTagValueHeaderLen + wire_size (wire_type_of field)) else size)
       (tags msg) (wire_sizer (core msg) + kAppendageLengthLen)"

definition ouch_put_tag :: "OuchTagSet \<Rightarrow> OuchTag \<times> wire_field \<Rightarrow> WireWriter \<Rightarrow> WireWriter" where
  "ouch_put_tag bits tf writer =
     (if \<not> tag_has bits (fst tf) then writer
      else ww_put (snd tf) (ww_put (W8 (tag_code (fst tf)))
             (ww_put (W8 (of_nat (1 + wire_size (wire_type_of (snd tf))))) writer)))"

definition ouch_encode ::
  "('m \<Rightarrow> wire_field list) \<Rightarrow> ('m \<Rightarrow> (OuchTag \<times> wire_field) list) \<Rightarrow> ('m \<Rightarrow> OuchTagSet) \<Rightarrow>
   'm \<Rightarrow> byte list \<Rightarrow> nat \<times> byte list" where
  "ouch_encode core tags appendage msg out =
     (let w1 = ww_core (core msg) (wire_writer out);
          (appendage_length, w2) = ww_skip kAppendageLengthLen w1;
          appendage_begin = ww_pos w2;
          w3 = fold (ouch_put_tag (appendage msg)) (tags msg) w2
      in if \<not> ww_ok w3 then (0, ww_out w3)
         else let w4 = ww_store16 (the appendage_length) (of_nat (ww_pos w3 - appendage_begin)) w3
              in (ww_pos w4, ww_out w4))"

subsection \<open>Decoding\<close>

text \<open>One TagValue: the message's tag list is walked, and the matching field is read.\<close>

definition ouch_read_tag ::
  "(OuchTag \<Rightarrow> wire_field \<Rightarrow> 'm \<Rightarrow> 'm) \<Rightarrow> ('m \<Rightarrow> OuchTagSet) \<Rightarrow> (OuchTagSet \<Rightarrow> 'm \<Rightarrow> 'm) \<Rightarrow>
   u8 \<Rightarrow> byte list \<Rightarrow> OuchTag \<times> wire_field \<Rightarrow> bool \<times> 'm \<Rightarrow> bool \<times> 'm" where
  "ouch_read_tag set_tag appendage set_appendage raw_tag val tf st =
     (case (tf, st) of ((tag, field), (malformed, m)) \<Rightarrow>
         if tag_code tag \<noteq> raw_tag then (malformed, m)
         else if length val \<noteq> wire_size (wire_type_of field) then (True, m)
         else let m1 = (case fst (wr_get (wire_type_of field) (wire_reader val)) of
                          Some v \<Rightarrow> set_tag tag v m | None \<Rightarrow> m)
              in (malformed, set_appendage (tag_set tag (appendage m1)) m1))"

definition ouch_apply_tag ::
  "('m \<Rightarrow> (OuchTag \<times> wire_field) list) \<Rightarrow> (OuchTag \<Rightarrow> wire_field \<Rightarrow> 'm \<Rightarrow> 'm) \<Rightarrow> ('m \<Rightarrow> OuchTagSet) \<Rightarrow>
   (OuchTagSet \<Rightarrow> 'm \<Rightarrow> 'm) \<Rightarrow> u8 \<Rightarrow> byte list \<Rightarrow> 'm \<Rightarrow> bool \<times> 'm" where
  "ouch_apply_tag tags set_tag appendage set_appendage raw_tag val msg =
     fold (ouch_read_tag set_tag appendage set_appendage raw_tag val) (tags msg) (False, msg)"

lemma wr_get_remaining: "wr_remaining (snd (wr_get t r)) \<le> wr_remaining r"
  by (auto simp: wr_get_def wr_claim_def wr_remaining_def)

lemma wr_take_remaining: "wr_remaining (snd (wr_take n r)) \<le> wr_remaining r"
  by (auto simp: wr_take_def wr_claim_def wr_remaining_def)

lemma wr_get_Some_remaining:
  "fst (wr_get t r) = Some v \<Longrightarrow> wr_remaining (snd (wr_get t r)) = wr_remaining r - wire_size t \<and> wire_size t \<le> wr_remaining r"
  by (auto simp: wr_get_def wr_claim_def wr_remaining_def split: if_splits)

abbreviation read_u8 :: "wire_field option \<Rightarrow> u8" where
  "read_u8 v \<equiv> (case v of Some f \<Rightarrow> as_u8 f | None \<Rightarrow> 0)"

function ouch_decode_tags ::
  "('m \<Rightarrow> (OuchTag \<times> wire_field) list) \<Rightarrow> (OuchTag \<Rightarrow> wire_field \<Rightarrow> 'm \<Rightarrow> 'm) \<Rightarrow> ('m \<Rightarrow> OuchTagSet) \<Rightarrow>
   (OuchTagSet \<Rightarrow> 'm \<Rightarrow> 'm) \<Rightarrow> WireReader \<Rightarrow> 'm \<Rightarrow> 'm option" where
  "ouch_decode_tags tags set_tag appendage set_appendage reader msg =
     (if wr_remaining reader = 0 then Some msg
      else let len = read_u8 (fst (wr_get T8 reader)); r1 = snd (wr_get T8 reader)
           in if len = 0 \<or> unat len > wr_remaining r1 then None
              else let raw_tag = read_u8 (fst (wr_get T8 r1)); r2 = snd (wr_get T8 r1);
                       val = fst (wr_take (unat len - 1) r2); r3 = snd (wr_take (unat len - 1) r2);
                       (malformed, m) = ouch_apply_tag tags set_tag appendage set_appendage raw_tag val msg
                   in if malformed then None
                      else ouch_decode_tags tags set_tag appendage set_appendage r3 m)"
  by pat_completeness auto

text \<open>Every TagValue takes at least its length byte, so the loop ends.\<close>

termination
proof (relation "measure (\<lambda>(_, _, _, _, reader, _). wr_remaining reader)", goal_cases)
  case (2 tags set_tag appendage set_appendage reader msg len r1 raw_tag r2 val r3 p malformed m)
  then obtain v where v: "fst (wr_get T8 reader) = Some v" by (auto split: option.splits)
  have "wr_remaining r3 \<le> wr_remaining r1"
    using wr_take_remaining [of "unat len - 1" r2] wr_get_remaining [of T8 r1] 2 by simp
  moreover have "wr_remaining r1 < wr_remaining reader"
    using wr_get_Some_remaining [OF v] 2 by simp
  ultimately show ?case by simp
qed simp

declare ouch_decode_tags.simps [simp del]

definition ouch_decode ::
  "('m \<Rightarrow> wire_field list) \<Rightarrow> (wire_field list \<Rightarrow> 'm \<Rightarrow> 'm) \<Rightarrow> ('m \<Rightarrow> (OuchTag \<times> wire_field) list) \<Rightarrow>
   (OuchTag \<Rightarrow> wire_field \<Rightarrow> 'm \<Rightarrow> 'm) \<Rightarrow> ('m \<Rightarrow> OuchTagSet) \<Rightarrow> (OuchTagSet \<Rightarrow> 'm \<Rightarrow> 'm) \<Rightarrow>
   'm \<Rightarrow> byte list \<Rightarrow> 'm option" where
  "ouch_decode core set_core tags set_tag appendage set_appendage msg bytes =
     (let (fs, r1) = wr_core (map wire_type_of (core msg)) (wire_reader bytes)
      in if \<not> wr_ok r1 then None
         else let msg1 = set_core (map the fs) msg
              in if wr_remaining r1 = 0 then Some msg1
                 else let (len, r2) = wr_get T16 r1;
                          appendage_length = (case len of Some f \<Rightarrow> as_u16 f | None \<Rightarrow> 0)
                      in if \<not> wr_ok r2 \<or> wr_remaining r2 \<noteq> unat appendage_length then None
                         else ouch_decode_tags tags set_tag appendage set_appendage r2 msg1)"

subsection \<open>Tag sets\<close>

fun tag_number :: "OuchTag \<Rightarrow> nat" where
  "tag_number SECONDARY_ORD_REF_NUM = 1"
| "tag_number FIRM = 2"
| "tag_number MIN_QTY = 3"
| "tag_number CUSTOMER_TYPE = 4"
| "tag_number MAX_FLOOR = 5"
| "tag_number PRICE_TYPE = 6"
| "tag_number PEG_OFFSET = 7"
| "tag_number DISCRETION_PRICE = 9"
| "tag_number DISCRETION_PRICE_TYPE = 10"
| "tag_number DISCRETION_PEG_OFFSET = 11"
| "tag_number POST_ONLY = 12"
| "tag_number RANDOM_RESERVES = 13"
| "tag_number ROUTE = 14"
| "tag_number EXPIRE_TIME = 15"
| "tag_number TRADE_NOW = 16"
| "tag_number HANDLE_INST = 17"
| "tag_number BBO_WEIGHT_INDICATOR = 18"
| "tag_number DISPLAY_QUANTITY = 22"
| "tag_number DISPLAY_PRICE = 23"
| "tag_number GROUP_ID = 24"
| "tag_number SHARES_LOCATED = 25"
| "tag_number LOCATE_BROKER = 26"
| "tag_number SIDE = 27"
| "tag_number USER_REF_IDX = 28"
| "tag_number AIQ_STRATEGY = 29"
| "tag_number AIQ_GROUP_ID = 30"

lemma unat_tag_code: "unat (tag_code t) = tag_number t"
  by (cases t) simp_all

lemma tag_code_bound: "unat (tag_code t) < 32"
  by (cases t) simp_all

lemma tag_number_inj: "tag_number s = tag_number t \<Longrightarrow> s = t"
  by (cases s; simp; cases t; simp)

lemma tag_code_inj: "tag_code s = tag_code t \<longleftrightarrow> s = t"
  using tag_number_inj unat_tag_code by metis

lemma tag_has_bit: "tag_has bits t \<longleftrightarrow> bit bits (unat (tag_code t))"
proof -
  have "bits AND tag_bit t = 0 \<longleftrightarrow> \<not> bit bits (unat (tag_code t))"
    by (simp add: tag_bit_def and_exp_eq_0_iff_not_bit)
  then show ?thesis by (simp add: tag_has_def)
qed

lemma bit_tag_set: "bit (tag_set t bits) n \<longleftrightarrow> bit bits n \<or> n = unat (tag_code t)"
  using tag_code_bound [of t] by (auto simp: tag_set_def tag_bit_def bit_simps)

lemma tag_has_set: "tag_has (tag_set t bits) s \<longleftrightarrow> s = t \<or> tag_has bits s"
  by (auto simp: tag_has_bit bit_tag_set tag_code_inj word_unat_eq_iff [symmetric])

lemma bit_fold_tag_set: "bit (fold tag_set ts bits) n \<longleftrightarrow> bit bits n \<or> n \<in> (\<lambda>t. unat (tag_code t)) ` set ts"
  by (induction ts arbitrary: bits) (auto simp: bit_tag_set)

subsection \<open>What the encoder writes\<close>

definition tag_bytes :: "OuchTag \<times> wire_field \<Rightarrow> byte list" where
  "tag_bytes tf = of_nat (1 + wire_size (wire_type_of (snd tf))) # tag_code (fst tf) # wire_bytes (snd tf)"

definition tags_present :: "OuchTagSet \<Rightarrow> (OuchTag \<times> wire_field) list \<Rightarrow> (OuchTag \<times> wire_field) list" where
  "tags_present bits tfs = filter (\<lambda>tf. tag_has bits (fst tf)) tfs"

abbreviation appendage_bytes :: "OuchTagSet \<Rightarrow> (OuchTag \<times> wire_field) list \<Rightarrow> byte list" where
  "appendage_bytes bits tfs \<equiv> concat (map tag_bytes (tags_present bits tfs))"

definition ouch_wire :: "wire_field list \<Rightarrow> OuchTagSet \<Rightarrow> (OuchTag \<times> wire_field) list \<Rightarrow> byte list" where
  "ouch_wire fs bits tfs = wire_all fs
     @ be_bytes 2 (of_nat (length (appendage_bytes bits tfs)) :: u16) @ appendage_bytes bits tfs"

lemma be_bytes_byte: "be_bytes (Suc 0) w = [w]" for w :: byte
  by (simp add: be_bytes_def)

lemma ouch_put_tag_appends:
  assumes "ww_inv w"
  shows "ww_appends (if tag_has bits (fst tf) then tag_bytes tf else []) w (ouch_put_tag bits tf w)"
proof (cases "tag_has bits (fst tf)")
  case True
  let ?n = "W8 (of_nat (1 + wire_size (wire_type_of (snd tf))))"
  let ?w1 = "ww_put ?n w" let ?w2 = "ww_put (W8 (tag_code (fst tf))) ?w1"
  have 1: "ww_appends (wire_bytes ?n) w ?w1" by (rule ww_put_appends [OF assms])
  have 2: "ww_appends (wire_bytes (W8 (tag_code (fst tf)))) ?w1 ?w2"
    by (rule ww_put_appends) (use 1 in \<open>simp add: ww_appends_def\<close>)
  have 3: "ww_appends (wire_bytes (snd tf)) ?w2 (ww_put (snd tf) ?w2)"
    by (rule ww_put_appends) (use 2 in \<open>simp add: ww_appends_def\<close>)
  from ww_appends_trans [OF 1 ww_appends_trans [OF 2 3]] True show ?thesis
    by (simp add: ouch_put_tag_def tag_bytes_def be_bytes_byte)
next
  case False
  with assms show ?thesis by (simp add: ouch_put_tag_def ww_appends_def)
qed

lemma ouch_put_tags_appends:
  "ww_inv w \<Longrightarrow> ww_appends (appendage_bytes bits tfs) w (fold (ouch_put_tag bits) tfs w)"
proof (induction tfs arbitrary: w)
  case Nil
  then show ?case by (simp add: tags_present_def ww_appends_def)
next
  case (Cons tf tfs)
  note p = ouch_put_tag_appends [OF Cons.prems, of bits tf]
  then have "ww_inv (ouch_put_tag bits tf w)" by (simp add: ww_appends_def)
  from ww_appends_trans [OF p Cons.IH [OF this]] show ?case
    by (cases "tag_has bits (fst tf)") (simp_all add: tags_present_def)
qed

lemma ouch_encoded_size_length:
  "ouch_encoded_size core tags appendage m = length (ouch_wire (core m) (appendage m) (tags m))"
proof -
  have "fold (\<lambda>(tag, field) size. if tag_has bits tag
          then size + (kTagValueHeaderLen + wire_size (wire_type_of field)) else size) tfs n
        = n + length (appendage_bytes bits tfs)" for bits tfs n
  proof (induction tfs arbitrary: n)
    case (Cons tf tfs)
    then show ?case
      by (cases tf) (simp add: tags_present_def tag_bytes_def kTagValueHeaderLen_def)
  qed (simp add: tags_present_def)
  then show ?thesis
    by (simp add: ouch_encoded_size_def ouch_wire_def wire_sizer_length kAppendageLengthLen_def)
qed

lemma ww_skip_appends:
  assumes "ww_inv w" and "ww_skip n w = (dst, w')"
  shows "ww_inv w'" "length (ww_out w') = length (ww_out w)"
    "ww_ok w' \<longleftrightarrow> ww_ok w \<and> n \<le> length (ww_out w) - ww_pos w"
    "ww_ok w' \<Longrightarrow> dst = Some (ww_pos w) \<and> ww_pos w' = ww_pos w + n \<and> ww_out w' = ww_out w"
  using assms by (auto simp: ww_skip_def ww_claim_def ww_inv_def split: if_splits)

text \<open>The encoder writes the wire image when it fits, and reports 0 when it does not.\<close>

lemma ouch_encode_spec:
  assumes "length (ouch_wire (core m) (appendage m) (tags m)) \<le> length out"
  shows "fst (ouch_encode core tags appendage m out) = length (ouch_wire (core m) (appendage m) (tags m))"
    "take (length (ouch_wire (core m) (appendage m) (tags m))) (snd (ouch_encode core tags appendage m out))
       = ouch_wire (core m) (appendage m) (tags m)"
proof -
  let ?A = "appendage_bytes (appendage m) (tags m)" let ?C = "wire_all (core m)"
  define w1 where "w1 = ww_core (core m) (wire_writer out)"
  obtain dst w2 where s: "ww_skip kAppendageLengthLen w1 = (dst, w2)" by fastforce
  define w3 where "w3 = fold (ouch_put_tag (appendage m)) (tags m) w2"
  have fit: "length ?C + 2 + length ?A \<le> length out" using assms by (simp add: ouch_wire_def)
  have "ww_appends ?C (wire_writer out) w1" unfolding w1_def by (rule ww_core_appends) simp
  with fit have 1: "ww_inv w1" "length (ww_out w1) = length out" "ww_ok w1" "ww_pos w1 = length ?C" "ww_done w1 = ?C"
    by (auto simp: ww_appends_def wire_writer_def ww_done_def)
  have 2: "ww_inv w2" "length (ww_out w2) = length out" "ww_ok w2" "dst = Some (length ?C)"
    "ww_pos w2 = length ?C + 2" "ww_out w2 = ww_out w1"
    using ww_skip_appends [OF 1(1) s] 1 fit by (auto simp: kAppendageLengthLen_def)
  have "ww_appends ?A w2 w3" unfolding w3_def by (rule ouch_put_tags_appends [OF 2(1)])
  with 2 fit have 3: "length (ww_out w3) = length out" "ww_ok w3" "ww_pos w3 = length ?C + 2 + length ?A"
    "ww_done w3 = ww_done w2 @ ?A"
    by (auto simp: ww_appends_def)
  have t: "take (length ?C) (ww_out w2) = ?C" using 1 2 by (simp add: ww_done_def)
  have d3: "take (length ?C + 2 + length ?A) (ww_out w3) = take (length ?C + 2) (ww_out w2) @ ?A"
    using 3 2 by (simp add: ww_done_def)
  have p: "take (length ?C) (ww_out w3) = ?C"
    using arg_cong [OF d3, of "take (length ?C)"] t 2(2) fit by simp
  have q: "take (length ?A) (drop (length ?C + 2) (ww_out w3)) = ?A"
    using arg_cong [OF d3, of "drop (length ?C + 2)"] 2(2) fit by (simp add: drop_take)
  let ?len = "be_bytes 2 (of_nat (length ?A) :: u16)"
  have e: "ouch_encode core tags appendage m out
      = (length ?C + 2 + length ?A, splice (length ?C) ?len (ww_out w3))"
    using 2 3 by (simp add: ouch_encode_def w1_def [symmetric] s w3_def [symmetric] Let_def ww_store16_def)
  then show "fst (ouch_encode core tags appendage m out) = length (ouch_wire (core m) (appendage m) (tags m))"
    by (simp add: ouch_wire_def)
  have "take (length ?C + 2 + length ?A) (splice (length ?C) ?len (ww_out w3)) = ?C @ ?len @ ?A"
    using p q 3(1) fit by (simp add: splice_def)
  then show "take (length (ouch_wire (core m) (appendage m) (tags m))) (snd (ouch_encode core tags appendage m out))
       = ouch_wire (core m) (appendage m) (tags m)"
    by (simp add: e ouch_wire_def)
qed

lemma ouch_encode_too_small:
  assumes "length out < length (ouch_wire (core m) (appendage m) (tags m))"
  shows "fst (ouch_encode core tags appendage m out) = 0"
proof -
  define w1 where "w1 = ww_core (core m) (wire_writer out)"
  obtain dst w2 where s: "ww_skip kAppendageLengthLen w1 = (dst, w2)" by fastforce
  define w3 where "w3 = fold (ouch_put_tag (appendage m)) (tags m) w2"
  have 1: "ww_appends (wire_all (core m)) (wire_writer out) w1" unfolding w1_def by (rule ww_core_appends) simp
  then have i1: "ww_inv w1" by (simp add: ww_appends_def)
  note 2 = ww_skip_appends [OF i1 s]
  have 3: "ww_appends (appendage_bytes (appendage m) (tags m)) w2 w3"
    unfolding w3_def by (rule ouch_put_tags_appends [OF 2(1)])
  have "\<not> ww_ok w3"
    using 1 2 3 assms by (auto simp: ww_appends_def wire_writer_def ouch_wire_def kAppendageLengthLen_def)
  then show ?thesis
    by (simp add: ouch_encode_def w1_def [symmetric] s w3_def [symmetric] Let_def)
qed

subsection \<open>The message interface\<close>

text \<open>
  What the codec needs of a message type: its core fields, its optional fields and its tag set can be
  written independently of each other, and together they are the whole message.
\<close>

definition tag_types :: "(OuchTag \<times> wire_field) list \<Rightarrow> (OuchTag \<times> wire_type) list" where
  "tag_types tfs = map (\<lambda>(t, f). (t, wire_type_of f)) tfs"

text \<open>
  A message the wire carries faithfully: alpha fields have their declared width, an optional field
  whose tag is not set has its default value, and only supported tags are set.
\<close>

definition ouch_wf ::
  "('m \<Rightarrow> wire_field list) \<Rightarrow> ('m \<Rightarrow> (OuchTag \<times> wire_field) list) \<Rightarrow> ('m \<Rightarrow> OuchTagSet) \<Rightarrow> 'm \<Rightarrow> 'm \<Rightarrow> bool" where
  "ouch_wf core tags appendage dflt m \<longleftrightarrow>
     map wire_type_of (core m) = map wire_type_of (core dflt)
     \<and> tag_types (tags m) = tag_types (tags dflt)
     \<and> list_all2 (\<lambda>(t, f) (_, d). tag_has (appendage m) t \<or> f = d) (tags m) (tags dflt)
     \<and> (\<forall>n<32. bit (appendage m) n \<longrightarrow> n \<in> (\<lambda>tf. unat (tag_code (fst tf))) ` set (tags dflt))"

lemma ouch_apply_tag_absent:
  "(\<And>tf. tf \<in> set tfs \<Longrightarrow> tag_code (fst tf) \<noteq> raw) \<Longrightarrow>
    fold (ouch_read_tag set_tag appendage set_appendage raw v) tfs p = p"
  by (induction tfs arbitrary: p) (auto simp: ouch_read_tag_def split_beta)

lemma ouch_apply_tag_present:
  assumes split: "tags m = pre @ (t, f0) # post" and d: "distinct (map fst (tags m))"
    and ty: "wire_type_of f = wire_type_of f0" and ok: "wire_ok f"
  shows "ouch_apply_tag tags set_tag appendage set_appendage (tag_code t) (wire_bytes f) m =
    (False, set_appendage (tag_set t (appendage (set_tag t f m))) (set_tag t f m))"
proof -
  have pre: "tf \<in> set pre \<Longrightarrow> tag_code (fst tf) \<noteq> tag_code t"
    and post: "tf \<in> set post \<Longrightarrow> tag_code (fst tf) \<noteq> tag_code t" for tf
    using d split by (auto simp: tag_code_inj rev_image_eqI)
  have g: "fst (wr_get (wire_type_of f0) (wire_reader (wire_bytes f))) = Some f"
    using wire_value_bytes [OF ok] ty by (simp add: wr_get_spec)
  have "ouch_apply_tag tags set_tag appendage set_appendage (tag_code t) (wire_bytes f) m
      = ouch_read_tag set_tag appendage set_appendage (tag_code t) (wire_bytes f) (t, f0) (False, m)"
    by (simp add: ouch_apply_tag_def split ouch_apply_tag_absent pre post)
  then show ?thesis using g ty by (simp add: ouch_read_tag_def Let_def)
qed

text \<open>One turn of the decoder's loop, on a TagValue the encoder wrote.\<close>

lemma ouch_decode_tags_step:
  assumes ok: "wr_ok r" and rest: "wr_rest r = tag_bytes (t, f) @ bs" and sz: "wire_size (wire_type_of f) < 255"
    and ap: "ouch_apply_tag tags set_tag appendage set_appendage (tag_code t) (wire_bytes f) m = (False, m')"
  shows "\<exists>r'. wr_ok r' \<and> wr_rest r' = bs \<and>
    ouch_decode_tags tags set_tag appendage set_appendage r m = ouch_decode_tags tags set_tag appendage set_appendage r' m'"
proof -
  let ?n = "wire_size (wire_type_of f)"
  define r1 where "r1 = r\<lparr>wr_pos := wr_pos r + 1\<rparr>"
  define r2 where "r2 = r1\<lparr>wr_pos := wr_pos r1 + 1\<rparr>"
  define r3 where "r3 = r2\<lparr>wr_pos := wr_pos r2 + ?n\<rparr>"
  let ?len = "of_nat (1 + ?n) :: u8"
  have len: "unat ?len = 1 + ?n" by (rule unat_of_nat_small) (use sz in simp)
  then have len0: "?len \<noteq> 0" by (metis add_is_0 unat_0 one_neq_zero)
  have byte1: "be_word [b] = b" for b :: byte
    using be_word_be_bytes [of 1 b] by (simp add: be_bytes_byte take_bit_word_full)
  have rest1: "wr_rest r1 = tag_code t # wire_bytes f @ bs" "wr_ok r1"
    using rest ok wr_rest_advance [of r 1] by (simp_all add: tag_bytes_def r1_def)
  have rest2: "wr_rest r2 = wire_bytes f @ bs" "wr_ok r2"
    using rest1 wr_rest_advance [of r1 1] by (simp_all add: r2_def)
  have rest3: "wr_rest r3 = bs" "wr_ok r3"
    using rest2 wr_rest_advance [of r2 ?n] by (simp_all add: r3_def)
  have g1: "wr_get T8 r = (Some (W8 ?len), r1)"
    using ok rest by (simp add: wr_get_spec tag_bytes_def byte1 r1_def)
  have g2: "wr_get T8 r1 = (Some (W8 (tag_code t)), r2)"
    using rest1 by (simp add: wr_get_spec byte1 r2_def)
  have g3: "wr_take ?n r2 = (wire_bytes f, r3)"
    using rest2 by (simp add: wr_take_spec r3_def)
  have nz: "wr_remaining r \<noteq> 0" using rest by (simp add: wr_remaining_rest tag_bytes_def)
  have fit: "\<not> wr_remaining r1 < 1 + ?n" using rest1 by (simp add: wr_remaining_rest)
  have "ouch_decode_tags tags set_tag appendage set_appendage r m
      = ouch_decode_tags tags set_tag appendage set_appendage r3 m'"
    apply (subst ouch_decode_tags.simps)
    using g1 g2 g3 nz fit len len0 ap by (simp del: of_nat_Suc of_nat_add)
  with rest3 show ?thesis by blast
qed

locale ouch_message =
  fixes core :: "'m \<Rightarrow> wire_field list"
    and set_core :: "wire_field list \<Rightarrow> 'm \<Rightarrow> 'm"
    and tags :: "'m \<Rightarrow> (OuchTag \<times> wire_field) list"
    and set_tag :: "OuchTag \<Rightarrow> wire_field \<Rightarrow> 'm \<Rightarrow> 'm"
    and appendage :: "'m \<Rightarrow> OuchTagSet"
    and set_appendage :: "OuchTagSet \<Rightarrow> 'm \<Rightarrow> 'm"
    and dflt :: 'm
  assumes core_set_core: "map wire_type_of (core m) = map wire_type_of (core dflt) \<Longrightarrow> core (set_core (core m) m0) = core m"
    and tags_set_core: "tags (set_core fs m0) = tags m0"
    and appendage_set_core: "appendage (set_core fs m0) = appendage m0"
    and core_set_tag: "core (set_tag t v m) = core m"
    and appendage_set_tag: "appendage (set_tag t v m) = appendage m"
    and tags_set_tag: "(t, wire_type_of v) \<in> set (tag_types (tags m)) \<Longrightarrow>
          tags (set_tag t v m) = map (\<lambda>(s, f). (s, if s = t then v else f)) (tags m)"
    and core_set_appendage: "core (set_appendage s m) = core m"
    and tags_set_appendage: "tags (set_appendage s m) = tags m"
    and appendage_set_appendage: "appendage (set_appendage s m) = s"
    and core_ok: "list_all wire_ok (core m)"
    and tags_ok: "list_all (\<lambda>(t, f). wire_ok f) (tags m)"
    and tags_small: "list_all (\<lambda>(t, ty). wire_size ty < 255) (tag_types (tags dflt))"
    and tags_distinct: "distinct (map fst (tags m))"
    and appendage_small: "sum_list (map (\<lambda>(t, ty). 2 + wire_size ty) (tag_types (tags dflt))) < 2 ^ 16"
    and appendage_default: "appendage dflt = 0"
    and message_eq: "core m = core m' \<Longrightarrow> tags m = tags m' \<Longrightarrow> appendage m = appendage m' \<Longrightarrow> m = m'"
begin

text \<open>Decoding a run of TagValues overrides the fields it names and sets their tags.\<close>

lemma decode_tags_run:
  assumes "wr_ok r" and "wr_rest r = concat (map tag_bytes ps)" and "distinct (map fst ps)"
    and "\<forall>(t, f) \<in> set ps. (t, wire_type_of f) \<in> set (tag_types (tags m)) \<and> wire_ok f"
    and "tag_types (tags m) = tag_types (tags dflt)"
  shows "\<exists>m'. ouch_decode_tags tags set_tag appendage set_appendage r m = Some m' \<and> core m' = core m
    \<and> tags m' = map (\<lambda>(s, f). (s, case map_of ps s of Some v \<Rightarrow> v | None \<Rightarrow> f)) (tags m)
    \<and> appendage m' = fold tag_set (map fst ps) (appendage m)"
  using assms
proof (induction ps arbitrary: r m)
  case Nil
  then have "wr_remaining r = 0" by (simp add: wr_remaining_rest)
  then show ?case by (subst ouch_decode_tags.simps) simp
next
  case (Cons p ps)
  obtain t f where p: "p = (t, f)" by fastforce
  from Cons.prems(4) p have mem: "(t, wire_type_of f) \<in> set (tag_types (tags m))" and ok: "wire_ok f" by auto
  then obtain f0 where "(t, f0) \<in> set (tags m)" and ty: "wire_type_of f = wire_type_of f0"
    by (auto simp: tag_types_def)
  then obtain pre post where sp: "tags m = pre @ (t, f0) # post" by (meson split_list)
  define m1 where "m1 = set_appendage (tag_set t (appendage (set_tag t f m))) (set_tag t f m)"
  have ap: "ouch_apply_tag tags set_tag appendage set_appendage (tag_code t) (wire_bytes f) m = (False, m1)"
    unfolding m1_def by (rule ouch_apply_tag_present [where tags = tags, OF sp tags_distinct ty ok])
  have sz: "wire_size (wire_type_of f) < 255"
    using tags_small mem Cons.prems(5) by (auto simp: list_all_iff)
  have "wr_rest r = tag_bytes (t, f) @ concat (map tag_bytes ps)" using Cons.prems(2) p by simp
  from ouch_decode_tags_step [OF Cons.prems(1) this sz ap] obtain r' where r': "wr_ok r'"
    "wr_rest r' = concat (map tag_bytes ps)"
    "ouch_decode_tags tags set_tag appendage set_appendage r m = ouch_decode_tags tags set_tag appendage set_appendage r' m1"
    by blast
  have m1: "core m1 = core m" "tags m1 = map (\<lambda>(s, f'). (s, if s = t then f else f')) (tags m)"
    "appendage m1 = tag_set t (appendage m)"
    using mem by (simp_all add: m1_def core_set_appendage core_set_tag tags_set_appendage tags_set_tag
      appendage_set_appendage appendage_set_tag)
  have tt: "tag_types (tags m1) = tag_types (tags m)"
    using tags_distinct [of m] ty unfolding m1(2) sp tag_types_def
    by (auto simp: split_beta rev_image_eqI)
  have "\<forall>(t, f) \<in> set ps. (t, wire_type_of f) \<in> set (tag_types (tags m1)) \<and> wire_ok f"
    using Cons.prems(4) tt by auto
  from Cons.IH [OF r'(1,2) _ this] Cons.prems(3,5) tt obtain m' where IH:
    "ouch_decode_tags tags set_tag appendage set_appendage r' m1 = Some m'" "core m' = core m1"
    "tags m' = map (\<lambda>(s, f). (s, case map_of ps s of Some v \<Rightarrow> v | None \<Rightarrow> f)) (tags m1)"
    "appendage m' = fold tag_set (map fst ps) (appendage m1)" by auto
  have "map_of ps t = None" using Cons.prems(3) p by (simp add: map_of_eq_None_iff)
  then have "tags m' = map (\<lambda>(s, f). (s, case map_of (p # ps) s of Some v \<Rightarrow> v | None \<Rightarrow> f)) (tags m)"
    unfolding IH(3) m1(2) p by (auto simp: split_beta)
  with IH r'(3) m1 p show ?case by auto
qed

lemma tags_present_distinct: "distinct (map fst (tags_present bits (tags m)))"
  using tags_distinct [of m] by (auto simp: tags_present_def distinct_map inj_on_def)

lemma appendage_length:
  assumes "tag_types (tags m) = tag_types (tags dflt)"
  shows "length (appendage_bytes bits (tags m)) < 2 ^ 16"
proof -
  have "length (appendage_bytes bits tfs) \<le> sum_list (map (\<lambda>(t, ty). 2 + wire_size ty) (tag_types tfs))" for tfs
    by (induction tfs) (auto simp: tags_present_def tag_bytes_def tag_types_def)
  from this [of "tags m"] assms appendage_small show ?thesis by simp
qed

lemma override_present:
  assumes wf: "ouch_wf core tags appendage dflt m"
  shows "map (\<lambda>(s, f). (s, case map_of (tags_present (appendage m) (tags m)) s of Some v \<Rightarrow> v | None \<Rightarrow> f))
    (tags dflt) = tags m"
proof (rule nth_equalityI)
  have len: "length (tags m) = length (tags dflt)"
    using wf by (auto simp: ouch_wf_def list_all2_lengthD)
  then show "length (map (\<lambda>(s, f). (s, case map_of (tags_present (appendage m) (tags m)) s of Some v \<Rightarrow> v | None \<Rightarrow> f))
    (tags dflt)) = length (tags m)" by simp
  fix i assume "i < length (map (\<lambda>(s, f). (s, case map_of (tags_present (appendage m) (tags m)) s of Some v \<Rightarrow> v | None \<Rightarrow> f))
    (tags dflt))"
  then have i: "i < length (tags dflt)" by simp
  obtain t f where tf: "tags m ! i = (t, f)" by fastforce
  obtain s d where sd: "tags dflt ! i = (s, d)" by fastforce
  have "tag_types (tags m) ! i = tag_types (tags dflt) ! i" using wf by (simp add: ouch_wf_def)
  then have st: "s = t" using i len tf sd by (simp add: tag_types_def)
  have alt: "tag_has (appendage m) t \<or> f = d"
    using wf i tf sd by (auto simp: ouch_wf_def list_all2_conv_all_nth)
  have mem: "(t, f) \<in> set (tags m)" using i len tf by (metis nth_mem)
  have uniq: "(t, g) \<in> set (tags m) \<Longrightarrow> g = f" for g
    using mem tags_distinct [of m] by (meson eq_key_imp_eq_value)
  have "map_of (tags_present (appendage m) (tags m)) t = (if tag_has (appendage m) t then Some f else None)"
  proof (cases "tag_has (appendage m) t")
    case True
    then have "(t, f) \<in> set (tags_present (appendage m) (tags m))" using mem by (simp add: tags_present_def)
    then show ?thesis using True tags_present_distinct by (simp add: map_of_is_SomeI)
  next
    case False
    then show ?thesis by (auto simp: map_of_eq_None_iff tags_present_def)
  qed
  with alt st show "map (\<lambda>(s, f). (s, case map_of (tags_present (appendage m) (tags m)) s of Some v \<Rightarrow> v | None \<Rightarrow> f))
    (tags dflt) ! i = tags m ! i"
    using i tf sd by auto
qed

lemma tag_set_present:
  assumes wf: "ouch_wf core tags appendage dflt m"
  shows "fold tag_set (map fst (tags_present (appendage m) (tags m))) 0 = appendage m"
proof (rule bit_word_eqI)
  fix n assume "n < LENGTH(32)"
  then have n: "n < 32" by simp
  have "map fst (tag_types tfs) = map fst tfs" for tfs
    by (simp add: tag_types_def comp_def split_beta)
  then have fsts: "map fst (tags m) = map fst (tags dflt)" using wf by (metis ouch_wf_def)
  have "n \<in> (\<lambda>t. unat (tag_code t)) ` set (map fst (tags_present (appendage m) (tags m))) \<longleftrightarrow> bit (appendage m) n"
    (is "?l \<longleftrightarrow> ?r")
  proof
    assume ?l
    then show ?r by (auto simp: tags_present_def tag_has_bit)
  next
    assume b: ?r
    then have "n \<in> (\<lambda>tf. unat (tag_code (fst tf))) ` set (tags dflt)" using wf n by (auto simp: ouch_wf_def)
    then obtain t where t: "t \<in> set (map fst (tags dflt))" "n = unat (tag_code t)" by auto
    from t(1) have "t \<in> fst ` set (tags m)" unfolding fsts [symmetric] by simp
    moreover have "tag_has (appendage m) t" using t(2) b by (simp add: tag_has_bit)
    ultimately have "t \<in> set (map fst (tags_present (appendage m) (tags m)))"
      by (auto simp: tags_present_def)
    with t(2) show ?l by blast
  qed
  then show "bit (fold tag_set (map fst (tags_present (appendage m) (tags m))) 0) n = bit (appendage m) n"
    by (simp add: bit_fold_tag_set)
qed

text \<open>Decoding the wire image of a message gives the message back.\<close>

lemma decode_wire:
  assumes wf: "ouch_wf core tags appendage dflt m"
  shows "ouch_decode core set_core tags set_tag appendage set_appendage dflt
    (ouch_wire (core m) (appendage m) (tags m)) = Some m"
proof -
  let ?A = "appendage_bytes (appendage m) (tags m)" let ?ps = "tags_present (appendage m) (tags m)"
  let ?len = "of_nat (length ?A) :: u16"
  let ?W = "ouch_wire (core m) (appendage m) (tags m)"
  define r1 where "r1 = (wire_reader ?W)\<lparr>wr_pos := wr_pos (wire_reader ?W) + wire_sizer (core m)\<rparr>"
  define r2 where "r2 = r1\<lparr>wr_pos := wr_pos r1 + 2\<rparr>"
  from wf have types: "map wire_type_of (core m) = map wire_type_of (core dflt)"
    and tt: "tag_types (tags m) = tag_types (tags dflt)" by (auto simp: ouch_wf_def)
  have c: "wr_core (map wire_type_of (core dflt)) (wire_reader ?W) = (map Some (core m), r1)"
    unfolding types [symmetric] r1_def by (rule wr_core_bytes) (simp_all add: ouch_wire_def core_ok)
  have rest1: "wr_rest r1 = be_bytes 2 ?len @ ?A" and ok1: "wr_ok r1"
    by (simp_all add: r1_def wr_rest_def ouch_wire_def wire_sizer_length)
  have rest2: "wr_rest r2 = ?A" and ok2: "wr_ok r2"
    using wr_rest_advance [of r1 2] ok1 by (simp_all add: r2_def rest1)
  have g: "wr_get T16 r1 = (Some (W16 ?len), r2)"
    using ok1 by (simp add: wr_get_spec rest1 be_word_be_bytes take_bit_word_full r2_def)
  have ulen: "unat ?len = length ?A"
    by (rule unat_of_nat_small) (use appendage_length [OF tt] in simp)
  define m0 where "m0 = set_core (core m) dflt"
  have m0: "core m0 = core m" "tags m0 = tags dflt" "appendage m0 = 0"
    by (simp_all add: m0_def core_set_core [OF types] tags_set_core appendage_set_core appendage_default)
  have "\<forall>(t, f) \<in> set ?ps. (t, wire_type_of f) \<in> set (tag_types (tags m0)) \<and> wire_ok f"
    using tags_ok [of m] tt m0(2)
    by (auto simp: tags_present_def tag_types_def list_all_iff)
      (metis (mono_tags, lifting) case_prod_conv image_eqI image_set)
  from decode_tags_run [OF _ _ tags_present_distinct this, of r2] rest2 ok2 m0
  obtain m' where D: "ouch_decode_tags tags set_tag appendage set_appendage r2 m0 = Some m'"
    "core m' = core m" "tags m' = map (\<lambda>(s, f). (s, case map_of ?ps s of Some v \<Rightarrow> v | None \<Rightarrow> f)) (tags dflt)"
    "appendage m' = fold tag_set (map fst ?ps) 0" by auto
  then have "m' = m"
    using message_eq override_present [OF wf] tag_set_present [OF wf] by simp
  moreover have "wr_remaining r1 \<noteq> 0" "wr_remaining r2 = length ?A"
    using rest1 rest2 by (simp_all add: wr_remaining_rest)
  ultimately show ?thesis
    using D(1) ok1 ok2 by (simp add: ouch_decode_def c g ulen m0_def [symmetric] comp_def)
qed

end

end
