(* ===== verification/Ouch_Inbound.thy ===== *)
theory Ouch_Inbound
  imports Ouch_Codec
begin

text \<open>
  The OUCH messages clients send (\<open>OuchEnterOrder\<close>, \<open>OuchReplaceOrder\<close>, \<open>OuchCancelOrder\<close> and their union in
  \<open>infra/ouch_proto.hpp\<close>): each struct as a record with its defaults, its \<open>core\<close> and \<open>tags\<close>
  field lists, and the frame codec over them.
\<close>

type_synonym InboundOuchMessageType = byte

definition INBOUND_NONE :: InboundOuchMessageType where "INBOUND_NONE = 0"
definition ENTER_ORDER :: InboundOuchMessageType where "ENTER_ORDER = ch CHR ''O''"
definition REPLACE_ORDER :: InboundOuchMessageType where "REPLACE_ORDER = ch CHR ''U''"
definition CANCEL_ORDER :: InboundOuchMessageType where "CANCEL_ORDER = ch CHR ''X''"

lemmas inbound_type_defs = INBOUND_NONE_def ENTER_ORDER_def REPLACE_ORDER_def CANCEL_ORDER_def

record OuchEnterOrder =
  eo_message_type :: byte
  eo_user_ref_num :: u32
  eo_side :: byte
  eo_quantity :: u32
  eo_symbol :: "byte list"
  eo_price :: u64
  eo_time_in_force :: byte
  eo_display :: byte
  eo_capacity :: byte
  eo_intermarket_sweep_eligibility :: byte
  eo_cross_type :: byte
  eo_cl_ord_id :: "byte list"
  eo_firm :: "byte list"
  eo_min_qty :: u32
  eo_customer_type :: byte
  eo_max_floor :: u32
  eo_price_type :: byte
  eo_peg_offset :: u32
  eo_discretion_price :: u64
  eo_discretion_price_type :: byte
  eo_discretion_peg_offset :: u32
  eo_post_only :: byte
  eo_random_reserves :: u32
  eo_expire_time :: u32
  eo_trade_now :: byte
  eo_handle_inst :: byte
  eo_group_id :: u16
  eo_shares_located :: byte
  eo_locate_broker :: "byte list"
  eo_user_ref_idx :: u8
  eo_aiq_strategy :: byte
  eo_aiq_group_id :: "byte list"
  eo_appendage :: OuchTagSet

definition default_OuchEnterOrder :: OuchEnterOrder where
  "default_OuchEnterOrder = \<lparr>
     eo_message_type = ENTER_ORDER,
     eo_user_ref_num = 0,
     eo_side = 0,
     eo_quantity = 0,
     eo_symbol = replicate 8 0,
     eo_price = 0,
     eo_time_in_force = 0,
     eo_display = 0,
     eo_capacity = 0,
     eo_intermarket_sweep_eligibility = 0,
     eo_cross_type = 0,
     eo_cl_ord_id = replicate 14 0,
     eo_firm = [ch CHR '' '', ch CHR '' '', ch CHR '' '', ch CHR '' ''],
     eo_min_qty = 0,
     eo_customer_type = ch CHR '' '',
     eo_max_floor = 0,
     eo_price_type = ch CHR ''L'',
     eo_peg_offset = 0,
     eo_discretion_price = 0,
     eo_discretion_price_type = ch CHR ''L'',
     eo_discretion_peg_offset = 0,
     eo_post_only = ch CHR ''N'',
     eo_random_reserves = 0,
     eo_expire_time = 0,
     eo_trade_now = ch CHR ''N'',
     eo_handle_inst = ch CHR '' '',
     eo_group_id = 0,
     eo_shares_located = ch CHR ''N'',
     eo_locate_broker = replicate 4 0,
     eo_user_ref_idx = 0,
     eo_aiq_strategy = ch CHR ''*'',
     eo_aiq_group_id = [ch CHR ''*'', ch CHR ''*''],
     eo_appendage = 0 \<rparr>"

definition core_OuchEnterOrder :: "OuchEnterOrder \<Rightarrow> wire_field list" where
  "core_OuchEnterOrder m =
     [W8 (eo_message_type m),
      W32 (eo_user_ref_num m),
      W8 (eo_side m),
      W32 (eo_quantity m),
      WBytes (eo_symbol m),
      W64 (eo_price m),
      W8 (eo_time_in_force m),
      W8 (eo_display m),
      W8 (eo_capacity m),
      W8 (eo_intermarket_sweep_eligibility m),
      W8 (eo_cross_type m),
      WBytes (eo_cl_ord_id m)]"

definition set_OuchEnterOrder :: "wire_field list \<Rightarrow> OuchEnterOrder \<Rightarrow> OuchEnterOrder" where
  "set_OuchEnterOrder fs m = m\<lparr>
     eo_message_type := as_u8 (fs ! 0),
     eo_user_ref_num := as_u32 (fs ! 1),
     eo_side := as_u8 (fs ! 2),
     eo_quantity := as_u32 (fs ! 3),
     eo_symbol := as_bytes (fs ! 4),
     eo_price := as_u64 (fs ! 5),
     eo_time_in_force := as_u8 (fs ! 6),
     eo_display := as_u8 (fs ! 7),
     eo_capacity := as_u8 (fs ! 8),
     eo_intermarket_sweep_eligibility := as_u8 (fs ! 9),
     eo_cross_type := as_u8 (fs ! 10),
     eo_cl_ord_id := as_bytes (fs ! 11) \<rparr>"

definition tags_OuchEnterOrder :: "OuchEnterOrder \<Rightarrow> (OuchTag \<times> wire_field) list" where
  "tags_OuchEnterOrder m =
     [(FIRM, WBytes (eo_firm m)),
      (MIN_QTY, W32 (eo_min_qty m)),
      (CUSTOMER_TYPE, W8 (eo_customer_type m)),
      (MAX_FLOOR, W32 (eo_max_floor m)),
      (PRICE_TYPE, W8 (eo_price_type m)),
      (PEG_OFFSET, W32 (eo_peg_offset m)),
      (DISCRETION_PRICE, W64 (eo_discretion_price m)),
      (DISCRETION_PRICE_TYPE, W8 (eo_discretion_price_type m)),
      (DISCRETION_PEG_OFFSET, W32 (eo_discretion_peg_offset m)),
      (POST_ONLY, W8 (eo_post_only m)),
      (RANDOM_RESERVES, W32 (eo_random_reserves m)),
      (EXPIRE_TIME, W32 (eo_expire_time m)),
      (TRADE_NOW, W8 (eo_trade_now m)),
      (HANDLE_INST, W8 (eo_handle_inst m)),
      (GROUP_ID, W16 (eo_group_id m)),
      (SHARES_LOCATED, W8 (eo_shares_located m)),
      (LOCATE_BROKER, WBytes (eo_locate_broker m)),
      (USER_REF_IDX, W8 (eo_user_ref_idx m)),
      (AIQ_STRATEGY, W8 (eo_aiq_strategy m)),
      (AIQ_GROUP_ID, WBytes (eo_aiq_group_id m))]"

definition set_tag_OuchEnterOrder :: "OuchTag \<Rightarrow> wire_field \<Rightarrow> OuchEnterOrder \<Rightarrow> OuchEnterOrder" where
  "set_tag_OuchEnterOrder tag v m = (case tag of
        FIRM \<Rightarrow> m\<lparr>eo_firm := as_bytes v\<rparr>
      | MIN_QTY \<Rightarrow> m\<lparr>eo_min_qty := as_u32 v\<rparr>
      | CUSTOMER_TYPE \<Rightarrow> m\<lparr>eo_customer_type := as_u8 v\<rparr>
      | MAX_FLOOR \<Rightarrow> m\<lparr>eo_max_floor := as_u32 v\<rparr>
      | PRICE_TYPE \<Rightarrow> m\<lparr>eo_price_type := as_u8 v\<rparr>
      | PEG_OFFSET \<Rightarrow> m\<lparr>eo_peg_offset := as_u32 v\<rparr>
      | DISCRETION_PRICE \<Rightarrow> m\<lparr>eo_discretion_price := as_u64 v\<rparr>
      | DISCRETION_PRICE_TYPE \<Rightarrow> m\<lparr>eo_discretion_price_type := as_u8 v\<rparr>
      | DISCRETION_PEG_OFFSET \<Rightarrow> m\<lparr>eo_discretion_peg_offset := as_u32 v\<rparr>
      | POST_ONLY \<Rightarrow> m\<lparr>eo_post_only := as_u8 v\<rparr>
      | RANDOM_RESERVES \<Rightarrow> m\<lparr>eo_random_reserves := as_u32 v\<rparr>
      | EXPIRE_TIME \<Rightarrow> m\<lparr>eo_expire_time := as_u32 v\<rparr>
      | TRADE_NOW \<Rightarrow> m\<lparr>eo_trade_now := as_u8 v\<rparr>
      | HANDLE_INST \<Rightarrow> m\<lparr>eo_handle_inst := as_u8 v\<rparr>
      | GROUP_ID \<Rightarrow> m\<lparr>eo_group_id := as_u16 v\<rparr>
      | SHARES_LOCATED \<Rightarrow> m\<lparr>eo_shares_located := as_u8 v\<rparr>
      | LOCATE_BROKER \<Rightarrow> m\<lparr>eo_locate_broker := as_bytes v\<rparr>
      | USER_REF_IDX \<Rightarrow> m\<lparr>eo_user_ref_idx := as_u8 v\<rparr>
      | AIQ_STRATEGY \<Rightarrow> m\<lparr>eo_aiq_strategy := as_u8 v\<rparr>
      | AIQ_GROUP_ID \<Rightarrow> m\<lparr>eo_aiq_group_id := as_bytes v\<rparr>
      | _ \<Rightarrow> m)"

definition set_appendage_OuchEnterOrder :: "OuchTagSet \<Rightarrow> OuchEnterOrder \<Rightarrow> OuchEnterOrder" where
  "set_appendage_OuchEnterOrder s m = m\<lparr>eo_appendage := s\<rparr>"

record OuchReplaceOrder =
  rp_message_type :: byte
  rp_orig_user_ref_num :: u32
  rp_user_ref_num :: u32
  rp_quantity :: u32
  rp_price :: u64
  rp_time_in_force :: byte
  rp_display :: byte
  rp_intermarket_sweep_eligibility :: byte
  rp_cl_ord_id :: "byte list"
  rp_min_qty :: u32
  rp_max_floor :: u32
  rp_price_type :: byte
  rp_peg_offset :: u32
  rp_discretion_price :: u64
  rp_discretion_price_type :: byte
  rp_discretion_peg_offset :: u32
  rp_post_only :: byte
  rp_random_reserves :: u32
  rp_expire_time :: u32
  rp_trade_now :: byte
  rp_handle_inst :: byte
  rp_shares_located :: byte
  rp_locate_broker :: "byte list"
  rp_side :: byte
  rp_user_ref_idx :: u8
  rp_aiq_strategy :: byte
  rp_aiq_group_id :: "byte list"
  rp_appendage :: OuchTagSet

definition default_OuchReplaceOrder :: OuchReplaceOrder where
  "default_OuchReplaceOrder = \<lparr>
     rp_message_type = REPLACE_ORDER,
     rp_orig_user_ref_num = 0,
     rp_user_ref_num = 0,
     rp_quantity = 0,
     rp_price = 0,
     rp_time_in_force = 0,
     rp_display = 0,
     rp_intermarket_sweep_eligibility = 0,
     rp_cl_ord_id = replicate 14 0,
     rp_min_qty = 0,
     rp_max_floor = 0,
     rp_price_type = ch CHR ''L'',
     rp_peg_offset = 0,
     rp_discretion_price = 0,
     rp_discretion_price_type = ch CHR ''L'',
     rp_discretion_peg_offset = 0,
     rp_post_only = ch CHR ''N'',
     rp_random_reserves = 0,
     rp_expire_time = 0,
     rp_trade_now = ch CHR ''N'',
     rp_handle_inst = ch CHR '' '',
     rp_shares_located = ch CHR ''N'',
     rp_locate_broker = replicate 4 0,
     rp_side = ch CHR '' '',
     rp_user_ref_idx = 0,
     rp_aiq_strategy = ch CHR ''*'',
     rp_aiq_group_id = [ch CHR ''*'', ch CHR ''*''],
     rp_appendage = 0 \<rparr>"

definition core_OuchReplaceOrder :: "OuchReplaceOrder \<Rightarrow> wire_field list" where
  "core_OuchReplaceOrder m =
     [W8 (rp_message_type m),
      W32 (rp_orig_user_ref_num m),
      W32 (rp_user_ref_num m),
      W32 (rp_quantity m),
      W64 (rp_price m),
      W8 (rp_time_in_force m),
      W8 (rp_display m),
      W8 (rp_intermarket_sweep_eligibility m),
      WBytes (rp_cl_ord_id m)]"

definition set_OuchReplaceOrder :: "wire_field list \<Rightarrow> OuchReplaceOrder \<Rightarrow> OuchReplaceOrder" where
  "set_OuchReplaceOrder fs m = m\<lparr>
     rp_message_type := as_u8 (fs ! 0),
     rp_orig_user_ref_num := as_u32 (fs ! 1),
     rp_user_ref_num := as_u32 (fs ! 2),
     rp_quantity := as_u32 (fs ! 3),
     rp_price := as_u64 (fs ! 4),
     rp_time_in_force := as_u8 (fs ! 5),
     rp_display := as_u8 (fs ! 6),
     rp_intermarket_sweep_eligibility := as_u8 (fs ! 7),
     rp_cl_ord_id := as_bytes (fs ! 8) \<rparr>"

definition tags_OuchReplaceOrder :: "OuchReplaceOrder \<Rightarrow> (OuchTag \<times> wire_field) list" where
  "tags_OuchReplaceOrder m =
     [(MIN_QTY, W32 (rp_min_qty m)),
      (MAX_FLOOR, W32 (rp_max_floor m)),
      (PRICE_TYPE, W8 (rp_price_type m)),
      (PEG_OFFSET, W32 (rp_peg_offset m)),
      (DISCRETION_PRICE, W64 (rp_discretion_price m)),
      (DISCRETION_PRICE_TYPE, W8 (rp_discretion_price_type m)),
      (DISCRETION_PEG_OFFSET, W32 (rp_discretion_peg_offset m)),
      (POST_ONLY, W8 (rp_post_only m)),
      (RANDOM_RESERVES, W32 (rp_random_reserves m)),
      (EXPIRE_TIME, W32 (rp_expire_time m)),
      (TRADE_NOW, W8 (rp_trade_now m)),
      (HANDLE_INST, W8 (rp_handle_inst m)),
      (SHARES_LOCATED, W8 (rp_shares_located m)),
      (LOCATE_BROKER, WBytes (rp_locate_broker m)),
      (SIDE, W8 (rp_side m)),
      (USER_REF_IDX, W8 (rp_user_ref_idx m)),
      (AIQ_STRATEGY, W8 (rp_aiq_strategy m)),
      (AIQ_GROUP_ID, WBytes (rp_aiq_group_id m))]"

definition set_tag_OuchReplaceOrder :: "OuchTag \<Rightarrow> wire_field \<Rightarrow> OuchReplaceOrder \<Rightarrow> OuchReplaceOrder" where
  "set_tag_OuchReplaceOrder tag v m = (case tag of
        MIN_QTY \<Rightarrow> m\<lparr>rp_min_qty := as_u32 v\<rparr>
      | MAX_FLOOR \<Rightarrow> m\<lparr>rp_max_floor := as_u32 v\<rparr>
      | PRICE_TYPE \<Rightarrow> m\<lparr>rp_price_type := as_u8 v\<rparr>
      | PEG_OFFSET \<Rightarrow> m\<lparr>rp_peg_offset := as_u32 v\<rparr>
      | DISCRETION_PRICE \<Rightarrow> m\<lparr>rp_discretion_price := as_u64 v\<rparr>
      | DISCRETION_PRICE_TYPE \<Rightarrow> m\<lparr>rp_discretion_price_type := as_u8 v\<rparr>
      | DISCRETION_PEG_OFFSET \<Rightarrow> m\<lparr>rp_discretion_peg_offset := as_u32 v\<rparr>
      | POST_ONLY \<Rightarrow> m\<lparr>rp_post_only := as_u8 v\<rparr>
      | RANDOM_RESERVES \<Rightarrow> m\<lparr>rp_random_reserves := as_u32 v\<rparr>
      | EXPIRE_TIME \<Rightarrow> m\<lparr>rp_expire_time := as_u32 v\<rparr>
      | TRADE_NOW \<Rightarrow> m\<lparr>rp_trade_now := as_u8 v\<rparr>
      | HANDLE_INST \<Rightarrow> m\<lparr>rp_handle_inst := as_u8 v\<rparr>
      | SHARES_LOCATED \<Rightarrow> m\<lparr>rp_shares_located := as_u8 v\<rparr>
      | LOCATE_BROKER \<Rightarrow> m\<lparr>rp_locate_broker := as_bytes v\<rparr>
      | SIDE \<Rightarrow> m\<lparr>rp_side := as_u8 v\<rparr>
      | USER_REF_IDX \<Rightarrow> m\<lparr>rp_user_ref_idx := as_u8 v\<rparr>
      | AIQ_STRATEGY \<Rightarrow> m\<lparr>rp_aiq_strategy := as_u8 v\<rparr>
      | AIQ_GROUP_ID \<Rightarrow> m\<lparr>rp_aiq_group_id := as_bytes v\<rparr>
      | _ \<Rightarrow> m)"

definition set_appendage_OuchReplaceOrder :: "OuchTagSet \<Rightarrow> OuchReplaceOrder \<Rightarrow> OuchReplaceOrder" where
  "set_appendage_OuchReplaceOrder s m = m\<lparr>rp_appendage := s\<rparr>"

record OuchCancelOrder =
  xo_message_type :: byte
  xo_user_ref_num :: u32
  xo_quantity :: u32
  xo_user_ref_idx :: u8
  xo_appendage :: OuchTagSet

definition default_OuchCancelOrder :: OuchCancelOrder where
  "default_OuchCancelOrder = \<lparr>
     xo_message_type = CANCEL_ORDER,
     xo_user_ref_num = 0,
     xo_quantity = 0,
     xo_user_ref_idx = 0,
     xo_appendage = 0 \<rparr>"

definition core_OuchCancelOrder :: "OuchCancelOrder \<Rightarrow> wire_field list" where
  "core_OuchCancelOrder m =
     [W8 (xo_message_type m),
      W32 (xo_user_ref_num m),
      W32 (xo_quantity m)]"

definition set_OuchCancelOrder :: "wire_field list \<Rightarrow> OuchCancelOrder \<Rightarrow> OuchCancelOrder" where
  "set_OuchCancelOrder fs m = m\<lparr>
     xo_message_type := as_u8 (fs ! 0),
     xo_user_ref_num := as_u32 (fs ! 1),
     xo_quantity := as_u32 (fs ! 2) \<rparr>"

definition tags_OuchCancelOrder :: "OuchCancelOrder \<Rightarrow> (OuchTag \<times> wire_field) list" where
  "tags_OuchCancelOrder m =
     [(USER_REF_IDX, W8 (xo_user_ref_idx m))]"

definition set_tag_OuchCancelOrder :: "OuchTag \<Rightarrow> wire_field \<Rightarrow> OuchCancelOrder \<Rightarrow> OuchCancelOrder" where
  "set_tag_OuchCancelOrder tag v m = (case tag of
        USER_REF_IDX \<Rightarrow> m\<lparr>xo_user_ref_idx := as_u8 v\<rparr>
      | _ \<Rightarrow> m)"

definition set_appendage_OuchCancelOrder :: "OuchTagSet \<Rightarrow> OuchCancelOrder \<Rightarrow> OuchCancelOrder" where
  "set_appendage_OuchCancelOrder s m = m\<lparr>xo_appendage := s\<rparr>"

subsection \<open>The frame codec\<close>

datatype OuchInboundFrame = InboundNone
  | EnterOrder OuchEnterOrder
  | ReplaceOrder OuchReplaceOrder
  | CancelOrder OuchCancelOrder

fun encoded_size_inbound :: "OuchInboundFrame \<Rightarrow> nat" where
  "encoded_size_inbound InboundNone = 0"
| "encoded_size_inbound (EnterOrder m) = ouch_encoded_size core_OuchEnterOrder tags_OuchEnterOrder eo_appendage m"
| "encoded_size_inbound (ReplaceOrder m) = ouch_encoded_size core_OuchReplaceOrder tags_OuchReplaceOrder rp_appendage m"
| "encoded_size_inbound (CancelOrder m) = ouch_encoded_size core_OuchCancelOrder tags_OuchCancelOrder xo_appendage m"

fun encode_inbound_ouch :: "OuchInboundFrame \<Rightarrow> byte list \<Rightarrow> nat \<times> byte list" where
  "encode_inbound_ouch InboundNone out = (0, out)"
| "encode_inbound_ouch (EnterOrder m) out = ouch_encode core_OuchEnterOrder tags_OuchEnterOrder eo_appendage m out"
| "encode_inbound_ouch (ReplaceOrder m) out = ouch_encode core_OuchReplaceOrder tags_OuchReplaceOrder rp_appendage m out"
| "encode_inbound_ouch (CancelOrder m) out = ouch_encode core_OuchCancelOrder tags_OuchCancelOrder xo_appendage m out"

definition decode_OuchEnterOrder :: "byte list \<Rightarrow> OuchEnterOrder option" where
  "decode_OuchEnterOrder = ouch_decode core_OuchEnterOrder set_OuchEnterOrder tags_OuchEnterOrder set_tag_OuchEnterOrder eo_appendage set_appendage_OuchEnterOrder default_OuchEnterOrder"

definition decode_OuchReplaceOrder :: "byte list \<Rightarrow> OuchReplaceOrder option" where
  "decode_OuchReplaceOrder = ouch_decode core_OuchReplaceOrder set_OuchReplaceOrder tags_OuchReplaceOrder set_tag_OuchReplaceOrder rp_appendage set_appendage_OuchReplaceOrder default_OuchReplaceOrder"

definition decode_OuchCancelOrder :: "byte list \<Rightarrow> OuchCancelOrder option" where
  "decode_OuchCancelOrder = ouch_decode core_OuchCancelOrder set_OuchCancelOrder tags_OuchCancelOrder set_tag_OuchCancelOrder xo_appendage set_appendage_OuchCancelOrder default_OuchCancelOrder"

definition decode_inbound_ouch :: "byte list \<Rightarrow> OuchInboundFrame" where
  "decode_inbound_ouch bytes =
     (case bytes of [] \<Rightarrow> InboundNone
      | t # _ \<Rightarrow>
          if t = ENTER_ORDER then (case decode_OuchEnterOrder bytes of Some m \<Rightarrow> EnterOrder m | None \<Rightarrow> InboundNone)
          else if t = REPLACE_ORDER then (case decode_OuchReplaceOrder bytes of Some m \<Rightarrow> ReplaceOrder m | None \<Rightarrow> InboundNone)
          else if t = CANCEL_ORDER then (case decode_OuchCancelOrder bytes of Some m \<Rightarrow> CancelOrder m | None \<Rightarrow> InboundNone)
          else InboundNone)"

subsection \<open>The messages meet the codec interface\<close>

interpretation eo: ouch_message core_OuchEnterOrder set_OuchEnterOrder tags_OuchEnterOrder set_tag_OuchEnterOrder eo_appendage
    set_appendage_OuchEnterOrder default_OuchEnterOrder
proof unfold_locales
  fix t v and m :: OuchEnterOrder
  assume "(t, wire_type_of v) \<in> set (tag_types (tags_OuchEnterOrder m))"
  then show "tags_OuchEnterOrder (set_tag_OuchEnterOrder t v m) = map (\<lambda>(s, f). (s, if s = t then v else f)) (tags_OuchEnterOrder m)"
    by (cases v) (auto simp: tag_types_def tags_OuchEnterOrder_def set_tag_OuchEnterOrder_def)
next
  fix t v and m :: OuchEnterOrder
  show "core_OuchEnterOrder (set_tag_OuchEnterOrder t v m) = core_OuchEnterOrder m" "eo_appendage (set_tag_OuchEnterOrder t v m) = eo_appendage m"
    by (simp_all add: core_OuchEnterOrder_def set_tag_OuchEnterOrder_def split: OuchTag.split)
qed (simp_all add: core_OuchEnterOrder_def set_OuchEnterOrder_def tags_OuchEnterOrder_def set_appendage_OuchEnterOrder_def default_OuchEnterOrder_def tag_types_def)

interpretation rp: ouch_message core_OuchReplaceOrder set_OuchReplaceOrder tags_OuchReplaceOrder set_tag_OuchReplaceOrder rp_appendage
    set_appendage_OuchReplaceOrder default_OuchReplaceOrder
proof unfold_locales
  fix t v and m :: OuchReplaceOrder
  assume "(t, wire_type_of v) \<in> set (tag_types (tags_OuchReplaceOrder m))"
  then show "tags_OuchReplaceOrder (set_tag_OuchReplaceOrder t v m) = map (\<lambda>(s, f). (s, if s = t then v else f)) (tags_OuchReplaceOrder m)"
    by (cases v) (auto simp: tag_types_def tags_OuchReplaceOrder_def set_tag_OuchReplaceOrder_def)
next
  fix t v and m :: OuchReplaceOrder
  show "core_OuchReplaceOrder (set_tag_OuchReplaceOrder t v m) = core_OuchReplaceOrder m" "rp_appendage (set_tag_OuchReplaceOrder t v m) = rp_appendage m"
    by (simp_all add: core_OuchReplaceOrder_def set_tag_OuchReplaceOrder_def split: OuchTag.split)
qed (simp_all add: core_OuchReplaceOrder_def set_OuchReplaceOrder_def tags_OuchReplaceOrder_def set_appendage_OuchReplaceOrder_def default_OuchReplaceOrder_def tag_types_def)

interpretation xo: ouch_message core_OuchCancelOrder set_OuchCancelOrder tags_OuchCancelOrder set_tag_OuchCancelOrder xo_appendage
    set_appendage_OuchCancelOrder default_OuchCancelOrder
proof unfold_locales
  fix t v and m :: OuchCancelOrder
  assume "(t, wire_type_of v) \<in> set (tag_types (tags_OuchCancelOrder m))"
  then show "tags_OuchCancelOrder (set_tag_OuchCancelOrder t v m) = map (\<lambda>(s, f). (s, if s = t then v else f)) (tags_OuchCancelOrder m)"
    by (cases v) (auto simp: tag_types_def tags_OuchCancelOrder_def set_tag_OuchCancelOrder_def)
next
  fix t v and m :: OuchCancelOrder
  show "core_OuchCancelOrder (set_tag_OuchCancelOrder t v m) = core_OuchCancelOrder m" "xo_appendage (set_tag_OuchCancelOrder t v m) = xo_appendage m"
    by (simp_all add: core_OuchCancelOrder_def set_tag_OuchCancelOrder_def split: OuchTag.split)
qed (simp_all add: core_OuchCancelOrder_def set_OuchCancelOrder_def tags_OuchCancelOrder_def set_appendage_OuchCancelOrder_def default_OuchCancelOrder_def tag_types_def)

subsection \<open>Frames survive the wire\<close>

text \<open>
  A frame as the codec guarantees it: its type byte is the one of its member, and the member is a
  message the wire carries faithfully.
\<close>

definition wf_OuchEnterOrder :: "OuchEnterOrder \<Rightarrow> bool" where
  "wf_OuchEnterOrder m \<longleftrightarrow> eo_message_type m = ENTER_ORDER \<and> ouch_wf core_OuchEnterOrder tags_OuchEnterOrder eo_appendage default_OuchEnterOrder m"

definition wf_OuchReplaceOrder :: "OuchReplaceOrder \<Rightarrow> bool" where
  "wf_OuchReplaceOrder m \<longleftrightarrow> rp_message_type m = REPLACE_ORDER \<and> ouch_wf core_OuchReplaceOrder tags_OuchReplaceOrder rp_appendage default_OuchReplaceOrder m"

definition wf_OuchCancelOrder :: "OuchCancelOrder \<Rightarrow> bool" where
  "wf_OuchCancelOrder m \<longleftrightarrow> xo_message_type m = CANCEL_ORDER \<and> ouch_wf core_OuchCancelOrder tags_OuchCancelOrder xo_appendage default_OuchCancelOrder m"

fun wf_inbound :: "OuchInboundFrame \<Rightarrow> bool" where
  "wf_inbound InboundNone \<longleftrightarrow> False"
| "wf_inbound (EnterOrder m) \<longleftrightarrow> wf_OuchEnterOrder m"
| "wf_inbound (ReplaceOrder m) \<longleftrightarrow> wf_OuchReplaceOrder m"
| "wf_inbound (CancelOrder m) \<longleftrightarrow> wf_OuchCancelOrder m"

fun wire_inbound :: "OuchInboundFrame \<Rightarrow> byte list" where
  "wire_inbound InboundNone = []"
| "wire_inbound (EnterOrder m) = ouch_wire (core_OuchEnterOrder m) (eo_appendage m) (tags_OuchEnterOrder m)"
| "wire_inbound (ReplaceOrder m) = ouch_wire (core_OuchReplaceOrder m) (rp_appendage m) (tags_OuchReplaceOrder m)"
| "wire_inbound (CancelOrder m) = ouch_wire (core_OuchCancelOrder m) (xo_appendage m) (tags_OuchCancelOrder m)"

lemma encoded_size_inbound_wire: "encoded_size_inbound m = length (wire_inbound m)"
  by (cases m) (simp_all add: ouch_encoded_size_length)

lemma encode_inbound_spec:
  assumes "m \<noteq> InboundNone" and "encoded_size_inbound m \<le> length out"
  shows "fst (encode_inbound_ouch m out) = encoded_size_inbound m"
    "take (encoded_size_inbound m) (snd (encode_inbound_ouch m out)) = wire_inbound m"
  using assms unfolding encoded_size_inbound_wire by (cases m; simp add: ouch_encode_spec)+

lemma encode_inbound_too_small:
  "length out < encoded_size_inbound m \<Longrightarrow> fst (encode_inbound_ouch m out) = 0"
  unfolding encoded_size_inbound_wire by (cases m) (simp_all add: ouch_encode_too_small)

lemma decode_OuchEnterOrder_wire:
  assumes "wf_OuchEnterOrder m"
  shows "decode_OuchEnterOrder (ouch_wire (core_OuchEnterOrder m) (eo_appendage m) (tags_OuchEnterOrder m)) = Some m"
  using assms unfolding decode_OuchEnterOrder_def wf_OuchEnterOrder_def by (simp add: eo.decode_wire)

lemma wire_OuchEnterOrder_head:
  assumes "wf_OuchEnterOrder m"
  shows "\<exists>bs. ouch_wire (core_OuchEnterOrder m) (eo_appendage m) (tags_OuchEnterOrder m) = ENTER_ORDER # bs"
  using assms by (simp add: ouch_wire_def core_OuchEnterOrder_def wf_OuchEnterOrder_def be_bytes_byte)

lemma decode_OuchReplaceOrder_wire:
  assumes "wf_OuchReplaceOrder m"
  shows "decode_OuchReplaceOrder (ouch_wire (core_OuchReplaceOrder m) (rp_appendage m) (tags_OuchReplaceOrder m)) = Some m"
  using assms unfolding decode_OuchReplaceOrder_def wf_OuchReplaceOrder_def by (simp add: rp.decode_wire)

lemma wire_OuchReplaceOrder_head:
  assumes "wf_OuchReplaceOrder m"
  shows "\<exists>bs. ouch_wire (core_OuchReplaceOrder m) (rp_appendage m) (tags_OuchReplaceOrder m) = REPLACE_ORDER # bs"
  using assms by (simp add: ouch_wire_def core_OuchReplaceOrder_def wf_OuchReplaceOrder_def be_bytes_byte)

lemma decode_OuchCancelOrder_wire:
  assumes "wf_OuchCancelOrder m"
  shows "decode_OuchCancelOrder (ouch_wire (core_OuchCancelOrder m) (xo_appendage m) (tags_OuchCancelOrder m)) = Some m"
  using assms unfolding decode_OuchCancelOrder_def wf_OuchCancelOrder_def by (simp add: xo.decode_wire)

lemma wire_OuchCancelOrder_head:
  assumes "wf_OuchCancelOrder m"
  shows "\<exists>bs. ouch_wire (core_OuchCancelOrder m) (xo_appendage m) (tags_OuchCancelOrder m) = CANCEL_ORDER # bs"
  using assms by (simp add: ouch_wire_def core_OuchCancelOrder_def wf_OuchCancelOrder_def be_bytes_byte)

lemma decode_inbound_wire:
  assumes "wf_inbound m"
  shows "decode_inbound_ouch (wire_inbound m) = m"
proof (cases m)
  case InboundNone
  with assms show ?thesis by simp
next
  case (EnterOrder x)
  with assms obtain bs where "ouch_wire (core_OuchEnterOrder x) (eo_appendage x) (tags_OuchEnterOrder x) = ENTER_ORDER # bs"
    using wire_OuchEnterOrder_head by auto
  moreover from EnterOrder assms have "decode_OuchEnterOrder (ouch_wire (core_OuchEnterOrder x) (eo_appendage x) (tags_OuchEnterOrder x)) = Some x"
    by (simp add: decode_OuchEnterOrder_wire)
  ultimately show ?thesis using EnterOrder by (simp add: decode_inbound_ouch_def inbound_type_defs)
next
  case (ReplaceOrder x)
  with assms obtain bs where "ouch_wire (core_OuchReplaceOrder x) (rp_appendage x) (tags_OuchReplaceOrder x) = REPLACE_ORDER # bs"
    using wire_OuchReplaceOrder_head by auto
  moreover from ReplaceOrder assms have "decode_OuchReplaceOrder (ouch_wire (core_OuchReplaceOrder x) (rp_appendage x) (tags_OuchReplaceOrder x)) = Some x"
    by (simp add: decode_OuchReplaceOrder_wire)
  ultimately show ?thesis using ReplaceOrder by (simp add: decode_inbound_ouch_def inbound_type_defs)
next
  case (CancelOrder x)
  with assms obtain bs where "ouch_wire (core_OuchCancelOrder x) (xo_appendage x) (tags_OuchCancelOrder x) = CANCEL_ORDER # bs"
    using wire_OuchCancelOrder_head by auto
  moreover from CancelOrder assms have "decode_OuchCancelOrder (ouch_wire (core_OuchCancelOrder x) (xo_appendage x) (tags_OuchCancelOrder x)) = Some x"
    by (simp add: decode_OuchCancelOrder_wire)
  ultimately show ?thesis using CancelOrder by (simp add: decode_inbound_ouch_def inbound_type_defs)
qed

end
