(* ===== verification/Ouch_Outbound.thy ===== *)
theory Ouch_Outbound
  imports Ouch_Codec
begin

text \<open>
  The OUCH messages the exchange sends (\<open>OuchOrderAccepted\<close> to \<open>OuchOrderRejected\<close> and their union in
  \<open>infra/ouch_proto.hpp\<close>), with the same structure as the inbound ones.
\<close>

type_synonym OutboundOuchMessageType = byte

definition OUTBOUND_NONE :: OutboundOuchMessageType where "OUTBOUND_NONE = 0"
definition ORDER_ACCEPTED :: OutboundOuchMessageType where "ORDER_ACCEPTED = ch CHR ''A''"
definition ORDER_REPLACED :: OutboundOuchMessageType where "ORDER_REPLACED = ch CHR ''U''"
definition ORDER_CANCELED :: OutboundOuchMessageType where "ORDER_CANCELED = ch CHR ''C''"
definition OUCH_ORDER_EXECUTED :: OutboundOuchMessageType where "OUCH_ORDER_EXECUTED = ch CHR ''E''"
definition ORDER_REJECTED :: OutboundOuchMessageType where "ORDER_REJECTED = ch CHR ''J''"

lemmas outbound_type_defs = OUTBOUND_NONE_def ORDER_ACCEPTED_def ORDER_REPLACED_def ORDER_CANCELED_def OUCH_ORDER_EXECUTED_def ORDER_REJECTED_def

record OuchOrderAccepted =
  oa_message_type :: byte
  oa_timestamp :: u64
  oa_user_ref_num :: u32
  oa_side :: byte
  oa_quantity :: u32
  oa_symbol :: "byte list"
  oa_price :: u64
  oa_time_in_force :: byte
  oa_display :: byte
  oa_order_reference_number :: u64
  oa_capacity :: byte
  oa_intermarket_sweep_eligibility :: byte
  oa_cross_type :: byte
  oa_order_state :: byte
  oa_cl_ord_id :: "byte list"
  oa_firm :: "byte list"
  oa_min_qty :: u32
  oa_customer_type :: byte
  oa_max_floor :: u32
  oa_price_type :: byte
  oa_peg_offset :: u32
  oa_discretion_price :: u64
  oa_discretion_price_type :: byte
  oa_discretion_peg_offset :: u32
  oa_post_only :: byte
  oa_random_reserves :: u32
  oa_route :: "byte list"
  oa_expire_time :: u32
  oa_trade_now :: byte
  oa_handle_inst :: byte
  oa_bbo_weight_indicator :: byte
  oa_group_id :: u16
  oa_shares_located :: byte
  oa_user_ref_idx :: u8
  oa_aiq_strategy :: byte
  oa_aiq_group_id :: "byte list"
  oa_appendage :: OuchTagSet

definition default_OuchOrderAccepted :: OuchOrderAccepted where
  "default_OuchOrderAccepted = \<lparr>
     oa_message_type = ORDER_ACCEPTED,
     oa_timestamp = 0,
     oa_user_ref_num = 0,
     oa_side = 0,
     oa_quantity = 0,
     oa_symbol = replicate 8 0,
     oa_price = 0,
     oa_time_in_force = 0,
     oa_display = 0,
     oa_order_reference_number = 0,
     oa_capacity = 0,
     oa_intermarket_sweep_eligibility = 0,
     oa_cross_type = 0,
     oa_order_state = 0,
     oa_cl_ord_id = replicate 14 0,
     oa_firm = [ch CHR '' '', ch CHR '' '', ch CHR '' '', ch CHR '' ''],
     oa_min_qty = 0,
     oa_customer_type = ch CHR '' '',
     oa_max_floor = 0,
     oa_price_type = ch CHR ''L'',
     oa_peg_offset = 0,
     oa_discretion_price = 0,
     oa_discretion_price_type = ch CHR ''L'',
     oa_discretion_peg_offset = 0,
     oa_post_only = ch CHR ''N'',
     oa_random_reserves = 0,
     oa_route = replicate 4 0,
     oa_expire_time = 0,
     oa_trade_now = ch CHR ''N'',
     oa_handle_inst = ch CHR '' '',
     oa_bbo_weight_indicator = ch CHR '' '',
     oa_group_id = 0,
     oa_shares_located = ch CHR ''N'',
     oa_user_ref_idx = 0,
     oa_aiq_strategy = ch CHR ''*'',
     oa_aiq_group_id = [ch CHR ''*'', ch CHR ''*''],
     oa_appendage = 0 \<rparr>"

definition core_OuchOrderAccepted :: "OuchOrderAccepted \<Rightarrow> wire_field list" where
  "core_OuchOrderAccepted m =
     [W8 (oa_message_type m),
      W64 (oa_timestamp m),
      W32 (oa_user_ref_num m),
      W8 (oa_side m),
      W32 (oa_quantity m),
      WBytes (oa_symbol m),
      W64 (oa_price m),
      W8 (oa_time_in_force m),
      W8 (oa_display m),
      W64 (oa_order_reference_number m),
      W8 (oa_capacity m),
      W8 (oa_intermarket_sweep_eligibility m),
      W8 (oa_cross_type m),
      W8 (oa_order_state m),
      WBytes (oa_cl_ord_id m)]"

definition set_OuchOrderAccepted :: "wire_field list \<Rightarrow> OuchOrderAccepted \<Rightarrow> OuchOrderAccepted" where
  "set_OuchOrderAccepted fs m = m\<lparr>
     oa_message_type := as_u8 (fs ! 0),
     oa_timestamp := as_u64 (fs ! 1),
     oa_user_ref_num := as_u32 (fs ! 2),
     oa_side := as_u8 (fs ! 3),
     oa_quantity := as_u32 (fs ! 4),
     oa_symbol := as_bytes (fs ! 5),
     oa_price := as_u64 (fs ! 6),
     oa_time_in_force := as_u8 (fs ! 7),
     oa_display := as_u8 (fs ! 8),
     oa_order_reference_number := as_u64 (fs ! 9),
     oa_capacity := as_u8 (fs ! 10),
     oa_intermarket_sweep_eligibility := as_u8 (fs ! 11),
     oa_cross_type := as_u8 (fs ! 12),
     oa_order_state := as_u8 (fs ! 13),
     oa_cl_ord_id := as_bytes (fs ! 14) \<rparr>"

definition tags_OuchOrderAccepted :: "OuchOrderAccepted \<Rightarrow> (OuchTag \<times> wire_field) list" where
  "tags_OuchOrderAccepted m =
     [(FIRM, WBytes (oa_firm m)),
      (MIN_QTY, W32 (oa_min_qty m)),
      (CUSTOMER_TYPE, W8 (oa_customer_type m)),
      (MAX_FLOOR, W32 (oa_max_floor m)),
      (PRICE_TYPE, W8 (oa_price_type m)),
      (PEG_OFFSET, W32 (oa_peg_offset m)),
      (DISCRETION_PRICE, W64 (oa_discretion_price m)),
      (DISCRETION_PRICE_TYPE, W8 (oa_discretion_price_type m)),
      (DISCRETION_PEG_OFFSET, W32 (oa_discretion_peg_offset m)),
      (POST_ONLY, W8 (oa_post_only m)),
      (RANDOM_RESERVES, W32 (oa_random_reserves m)),
      (ROUTE, WBytes (oa_route m)),
      (EXPIRE_TIME, W32 (oa_expire_time m)),
      (TRADE_NOW, W8 (oa_trade_now m)),
      (HANDLE_INST, W8 (oa_handle_inst m)),
      (BBO_WEIGHT_INDICATOR, W8 (oa_bbo_weight_indicator m)),
      (GROUP_ID, W16 (oa_group_id m)),
      (SHARES_LOCATED, W8 (oa_shares_located m)),
      (USER_REF_IDX, W8 (oa_user_ref_idx m)),
      (AIQ_STRATEGY, W8 (oa_aiq_strategy m)),
      (AIQ_GROUP_ID, WBytes (oa_aiq_group_id m))]"

definition set_tag_OuchOrderAccepted :: "OuchTag \<Rightarrow> wire_field \<Rightarrow> OuchOrderAccepted \<Rightarrow> OuchOrderAccepted" where
  "set_tag_OuchOrderAccepted tag v m = (case tag of
        FIRM \<Rightarrow> m\<lparr>oa_firm := as_bytes v\<rparr>
      | MIN_QTY \<Rightarrow> m\<lparr>oa_min_qty := as_u32 v\<rparr>
      | CUSTOMER_TYPE \<Rightarrow> m\<lparr>oa_customer_type := as_u8 v\<rparr>
      | MAX_FLOOR \<Rightarrow> m\<lparr>oa_max_floor := as_u32 v\<rparr>
      | PRICE_TYPE \<Rightarrow> m\<lparr>oa_price_type := as_u8 v\<rparr>
      | PEG_OFFSET \<Rightarrow> m\<lparr>oa_peg_offset := as_u32 v\<rparr>
      | DISCRETION_PRICE \<Rightarrow> m\<lparr>oa_discretion_price := as_u64 v\<rparr>
      | DISCRETION_PRICE_TYPE \<Rightarrow> m\<lparr>oa_discretion_price_type := as_u8 v\<rparr>
      | DISCRETION_PEG_OFFSET \<Rightarrow> m\<lparr>oa_discretion_peg_offset := as_u32 v\<rparr>
      | POST_ONLY \<Rightarrow> m\<lparr>oa_post_only := as_u8 v\<rparr>
      | RANDOM_RESERVES \<Rightarrow> m\<lparr>oa_random_reserves := as_u32 v\<rparr>
      | ROUTE \<Rightarrow> m\<lparr>oa_route := as_bytes v\<rparr>
      | EXPIRE_TIME \<Rightarrow> m\<lparr>oa_expire_time := as_u32 v\<rparr>
      | TRADE_NOW \<Rightarrow> m\<lparr>oa_trade_now := as_u8 v\<rparr>
      | HANDLE_INST \<Rightarrow> m\<lparr>oa_handle_inst := as_u8 v\<rparr>
      | BBO_WEIGHT_INDICATOR \<Rightarrow> m\<lparr>oa_bbo_weight_indicator := as_u8 v\<rparr>
      | GROUP_ID \<Rightarrow> m\<lparr>oa_group_id := as_u16 v\<rparr>
      | SHARES_LOCATED \<Rightarrow> m\<lparr>oa_shares_located := as_u8 v\<rparr>
      | USER_REF_IDX \<Rightarrow> m\<lparr>oa_user_ref_idx := as_u8 v\<rparr>
      | AIQ_STRATEGY \<Rightarrow> m\<lparr>oa_aiq_strategy := as_u8 v\<rparr>
      | AIQ_GROUP_ID \<Rightarrow> m\<lparr>oa_aiq_group_id := as_bytes v\<rparr>
      | _ \<Rightarrow> m)"

definition set_appendage_OuchOrderAccepted :: "OuchTagSet \<Rightarrow> OuchOrderAccepted \<Rightarrow> OuchOrderAccepted" where
  "set_appendage_OuchOrderAccepted s m = m\<lparr>oa_appendage := s\<rparr>"

record OuchOrderReplaced =
  orp_message_type :: byte
  orp_timestamp :: u64
  orp_orig_user_ref_num :: u32
  orp_user_ref_num :: u32
  orp_side :: byte
  orp_quantity :: u32
  orp_symbol :: "byte list"
  orp_price :: u64
  orp_time_in_force :: byte
  orp_display :: byte
  orp_order_reference_number :: u64
  orp_capacity :: byte
  orp_intermarket_sweep_eligibility :: byte
  orp_cross_type :: byte
  orp_order_state :: byte
  orp_cl_ord_id :: "byte list"
  orp_firm :: "byte list"
  orp_min_qty :: u32
  orp_max_floor :: u32
  orp_price_type :: byte
  orp_post_only :: byte
  orp_expire_time :: u32
  orp_trade_now :: byte
  orp_handle_inst :: byte
  orp_bbo_weight_indicator :: byte
  orp_user_ref_idx :: u8
  orp_aiq_strategy :: byte
  orp_aiq_group_id :: "byte list"
  orp_appendage :: OuchTagSet

definition default_OuchOrderReplaced :: OuchOrderReplaced where
  "default_OuchOrderReplaced = \<lparr>
     orp_message_type = ORDER_REPLACED,
     orp_timestamp = 0,
     orp_orig_user_ref_num = 0,
     orp_user_ref_num = 0,
     orp_side = 0,
     orp_quantity = 0,
     orp_symbol = replicate 8 0,
     orp_price = 0,
     orp_time_in_force = 0,
     orp_display = 0,
     orp_order_reference_number = 0,
     orp_capacity = 0,
     orp_intermarket_sweep_eligibility = 0,
     orp_cross_type = 0,
     orp_order_state = 0,
     orp_cl_ord_id = replicate 14 0,
     orp_firm = [ch CHR '' '', ch CHR '' '', ch CHR '' '', ch CHR '' ''],
     orp_min_qty = 0,
     orp_max_floor = 0,
     orp_price_type = ch CHR ''L'',
     orp_post_only = ch CHR ''N'',
     orp_expire_time = 0,
     orp_trade_now = ch CHR ''N'',
     orp_handle_inst = ch CHR '' '',
     orp_bbo_weight_indicator = ch CHR '' '',
     orp_user_ref_idx = 0,
     orp_aiq_strategy = ch CHR ''*'',
     orp_aiq_group_id = [ch CHR ''*'', ch CHR ''*''],
     orp_appendage = 0 \<rparr>"

definition core_OuchOrderReplaced :: "OuchOrderReplaced \<Rightarrow> wire_field list" where
  "core_OuchOrderReplaced m =
     [W8 (orp_message_type m),
      W64 (orp_timestamp m),
      W32 (orp_orig_user_ref_num m),
      W32 (orp_user_ref_num m),
      W8 (orp_side m),
      W32 (orp_quantity m),
      WBytes (orp_symbol m),
      W64 (orp_price m),
      W8 (orp_time_in_force m),
      W8 (orp_display m),
      W64 (orp_order_reference_number m),
      W8 (orp_capacity m),
      W8 (orp_intermarket_sweep_eligibility m),
      W8 (orp_cross_type m),
      W8 (orp_order_state m),
      WBytes (orp_cl_ord_id m)]"

definition set_OuchOrderReplaced :: "wire_field list \<Rightarrow> OuchOrderReplaced \<Rightarrow> OuchOrderReplaced" where
  "set_OuchOrderReplaced fs m = m\<lparr>
     orp_message_type := as_u8 (fs ! 0),
     orp_timestamp := as_u64 (fs ! 1),
     orp_orig_user_ref_num := as_u32 (fs ! 2),
     orp_user_ref_num := as_u32 (fs ! 3),
     orp_side := as_u8 (fs ! 4),
     orp_quantity := as_u32 (fs ! 5),
     orp_symbol := as_bytes (fs ! 6),
     orp_price := as_u64 (fs ! 7),
     orp_time_in_force := as_u8 (fs ! 8),
     orp_display := as_u8 (fs ! 9),
     orp_order_reference_number := as_u64 (fs ! 10),
     orp_capacity := as_u8 (fs ! 11),
     orp_intermarket_sweep_eligibility := as_u8 (fs ! 12),
     orp_cross_type := as_u8 (fs ! 13),
     orp_order_state := as_u8 (fs ! 14),
     orp_cl_ord_id := as_bytes (fs ! 15) \<rparr>"

definition tags_OuchOrderReplaced :: "OuchOrderReplaced \<Rightarrow> (OuchTag \<times> wire_field) list" where
  "tags_OuchOrderReplaced m =
     [(FIRM, WBytes (orp_firm m)),
      (MIN_QTY, W32 (orp_min_qty m)),
      (MAX_FLOOR, W32 (orp_max_floor m)),
      (PRICE_TYPE, W8 (orp_price_type m)),
      (POST_ONLY, W8 (orp_post_only m)),
      (EXPIRE_TIME, W32 (orp_expire_time m)),
      (TRADE_NOW, W8 (orp_trade_now m)),
      (HANDLE_INST, W8 (orp_handle_inst m)),
      (BBO_WEIGHT_INDICATOR, W8 (orp_bbo_weight_indicator m)),
      (USER_REF_IDX, W8 (orp_user_ref_idx m)),
      (AIQ_STRATEGY, W8 (orp_aiq_strategy m)),
      (AIQ_GROUP_ID, WBytes (orp_aiq_group_id m))]"

definition set_tag_OuchOrderReplaced :: "OuchTag \<Rightarrow> wire_field \<Rightarrow> OuchOrderReplaced \<Rightarrow> OuchOrderReplaced" where
  "set_tag_OuchOrderReplaced tag v m = (case tag of
        FIRM \<Rightarrow> m\<lparr>orp_firm := as_bytes v\<rparr>
      | MIN_QTY \<Rightarrow> m\<lparr>orp_min_qty := as_u32 v\<rparr>
      | MAX_FLOOR \<Rightarrow> m\<lparr>orp_max_floor := as_u32 v\<rparr>
      | PRICE_TYPE \<Rightarrow> m\<lparr>orp_price_type := as_u8 v\<rparr>
      | POST_ONLY \<Rightarrow> m\<lparr>orp_post_only := as_u8 v\<rparr>
      | EXPIRE_TIME \<Rightarrow> m\<lparr>orp_expire_time := as_u32 v\<rparr>
      | TRADE_NOW \<Rightarrow> m\<lparr>orp_trade_now := as_u8 v\<rparr>
      | HANDLE_INST \<Rightarrow> m\<lparr>orp_handle_inst := as_u8 v\<rparr>
      | BBO_WEIGHT_INDICATOR \<Rightarrow> m\<lparr>orp_bbo_weight_indicator := as_u8 v\<rparr>
      | USER_REF_IDX \<Rightarrow> m\<lparr>orp_user_ref_idx := as_u8 v\<rparr>
      | AIQ_STRATEGY \<Rightarrow> m\<lparr>orp_aiq_strategy := as_u8 v\<rparr>
      | AIQ_GROUP_ID \<Rightarrow> m\<lparr>orp_aiq_group_id := as_bytes v\<rparr>
      | _ \<Rightarrow> m)"

definition set_appendage_OuchOrderReplaced :: "OuchTagSet \<Rightarrow> OuchOrderReplaced \<Rightarrow> OuchOrderReplaced" where
  "set_appendage_OuchOrderReplaced s m = m\<lparr>orp_appendage := s\<rparr>"

record OuchOrderCanceled =
  oc_message_type :: byte
  oc_timestamp :: u64
  oc_user_ref_num :: u32
  oc_decrement_shares :: u32
  oc_reason :: byte
  oc_user_ref_idx :: u8
  oc_appendage :: OuchTagSet

definition default_OuchOrderCanceled :: OuchOrderCanceled where
  "default_OuchOrderCanceled = \<lparr>
     oc_message_type = ORDER_CANCELED,
     oc_timestamp = 0,
     oc_user_ref_num = 0,
     oc_decrement_shares = 0,
     oc_reason = 0,
     oc_user_ref_idx = 0,
     oc_appendage = 0 \<rparr>"

definition core_OuchOrderCanceled :: "OuchOrderCanceled \<Rightarrow> wire_field list" where
  "core_OuchOrderCanceled m =
     [W8 (oc_message_type m),
      W64 (oc_timestamp m),
      W32 (oc_user_ref_num m),
      W32 (oc_decrement_shares m),
      W8 (oc_reason m)]"

definition set_OuchOrderCanceled :: "wire_field list \<Rightarrow> OuchOrderCanceled \<Rightarrow> OuchOrderCanceled" where
  "set_OuchOrderCanceled fs m = m\<lparr>
     oc_message_type := as_u8 (fs ! 0),
     oc_timestamp := as_u64 (fs ! 1),
     oc_user_ref_num := as_u32 (fs ! 2),
     oc_decrement_shares := as_u32 (fs ! 3),
     oc_reason := as_u8 (fs ! 4) \<rparr>"

definition tags_OuchOrderCanceled :: "OuchOrderCanceled \<Rightarrow> (OuchTag \<times> wire_field) list" where
  "tags_OuchOrderCanceled m =
     [(USER_REF_IDX, W8 (oc_user_ref_idx m))]"

definition set_tag_OuchOrderCanceled :: "OuchTag \<Rightarrow> wire_field \<Rightarrow> OuchOrderCanceled \<Rightarrow> OuchOrderCanceled" where
  "set_tag_OuchOrderCanceled tag v m = (case tag of
        USER_REF_IDX \<Rightarrow> m\<lparr>oc_user_ref_idx := as_u8 v\<rparr>
      | _ \<Rightarrow> m)"

definition set_appendage_OuchOrderCanceled :: "OuchTagSet \<Rightarrow> OuchOrderCanceled \<Rightarrow> OuchOrderCanceled" where
  "set_appendage_OuchOrderCanceled s m = m\<lparr>oc_appendage := s\<rparr>"

record OuchOrderExecuted =
  oe_message_type :: byte
  oe_timestamp :: u64
  oe_user_ref_num :: u32
  oe_executed_shares :: u32
  oe_execution_price :: u64
  oe_liquidity_flag :: byte
  oe_match_number :: u64
  oe_user_ref_idx :: u8
  oe_appendage :: OuchTagSet

definition default_OuchOrderExecuted :: OuchOrderExecuted where
  "default_OuchOrderExecuted = \<lparr>
     oe_message_type = OUCH_ORDER_EXECUTED,
     oe_timestamp = 0,
     oe_user_ref_num = 0,
     oe_executed_shares = 0,
     oe_execution_price = 0,
     oe_liquidity_flag = 0,
     oe_match_number = 0,
     oe_user_ref_idx = 0,
     oe_appendage = 0 \<rparr>"

definition core_OuchOrderExecuted :: "OuchOrderExecuted \<Rightarrow> wire_field list" where
  "core_OuchOrderExecuted m =
     [W8 (oe_message_type m),
      W64 (oe_timestamp m),
      W32 (oe_user_ref_num m),
      W32 (oe_executed_shares m),
      W64 (oe_execution_price m),
      W8 (oe_liquidity_flag m),
      W64 (oe_match_number m)]"

definition set_OuchOrderExecuted :: "wire_field list \<Rightarrow> OuchOrderExecuted \<Rightarrow> OuchOrderExecuted" where
  "set_OuchOrderExecuted fs m = m\<lparr>
     oe_message_type := as_u8 (fs ! 0),
     oe_timestamp := as_u64 (fs ! 1),
     oe_user_ref_num := as_u32 (fs ! 2),
     oe_executed_shares := as_u32 (fs ! 3),
     oe_execution_price := as_u64 (fs ! 4),
     oe_liquidity_flag := as_u8 (fs ! 5),
     oe_match_number := as_u64 (fs ! 6) \<rparr>"

definition tags_OuchOrderExecuted :: "OuchOrderExecuted \<Rightarrow> (OuchTag \<times> wire_field) list" where
  "tags_OuchOrderExecuted m =
     [(USER_REF_IDX, W8 (oe_user_ref_idx m))]"

definition set_tag_OuchOrderExecuted :: "OuchTag \<Rightarrow> wire_field \<Rightarrow> OuchOrderExecuted \<Rightarrow> OuchOrderExecuted" where
  "set_tag_OuchOrderExecuted tag v m = (case tag of
        USER_REF_IDX \<Rightarrow> m\<lparr>oe_user_ref_idx := as_u8 v\<rparr>
      | _ \<Rightarrow> m)"

definition set_appendage_OuchOrderExecuted :: "OuchTagSet \<Rightarrow> OuchOrderExecuted \<Rightarrow> OuchOrderExecuted" where
  "set_appendage_OuchOrderExecuted s m = m\<lparr>oe_appendage := s\<rparr>"

record OuchOrderRejected =
  oj_message_type :: byte
  oj_timestamp :: u64
  oj_user_ref_num :: u32
  oj_reason :: u16
  oj_cl_ord_id :: "byte list"
  oj_user_ref_idx :: u8
  oj_appendage :: OuchTagSet

definition default_OuchOrderRejected :: OuchOrderRejected where
  "default_OuchOrderRejected = \<lparr>
     oj_message_type = ORDER_REJECTED,
     oj_timestamp = 0,
     oj_user_ref_num = 0,
     oj_reason = 0,
     oj_cl_ord_id = replicate 14 0,
     oj_user_ref_idx = 0,
     oj_appendage = 0 \<rparr>"

definition core_OuchOrderRejected :: "OuchOrderRejected \<Rightarrow> wire_field list" where
  "core_OuchOrderRejected m =
     [W8 (oj_message_type m),
      W64 (oj_timestamp m),
      W32 (oj_user_ref_num m),
      W16 (oj_reason m),
      WBytes (oj_cl_ord_id m)]"

definition set_OuchOrderRejected :: "wire_field list \<Rightarrow> OuchOrderRejected \<Rightarrow> OuchOrderRejected" where
  "set_OuchOrderRejected fs m = m\<lparr>
     oj_message_type := as_u8 (fs ! 0),
     oj_timestamp := as_u64 (fs ! 1),
     oj_user_ref_num := as_u32 (fs ! 2),
     oj_reason := as_u16 (fs ! 3),
     oj_cl_ord_id := as_bytes (fs ! 4) \<rparr>"

definition tags_OuchOrderRejected :: "OuchOrderRejected \<Rightarrow> (OuchTag \<times> wire_field) list" where
  "tags_OuchOrderRejected m =
     [(USER_REF_IDX, W8 (oj_user_ref_idx m))]"

definition set_tag_OuchOrderRejected :: "OuchTag \<Rightarrow> wire_field \<Rightarrow> OuchOrderRejected \<Rightarrow> OuchOrderRejected" where
  "set_tag_OuchOrderRejected tag v m = (case tag of
        USER_REF_IDX \<Rightarrow> m\<lparr>oj_user_ref_idx := as_u8 v\<rparr>
      | _ \<Rightarrow> m)"

definition set_appendage_OuchOrderRejected :: "OuchTagSet \<Rightarrow> OuchOrderRejected \<Rightarrow> OuchOrderRejected" where
  "set_appendage_OuchOrderRejected s m = m\<lparr>oj_appendage := s\<rparr>"

subsection \<open>The frame codec\<close>

datatype OuchOutboundFrame = OutboundNone
  | OrderAccepted OuchOrderAccepted
  | OrderReplaced OuchOrderReplaced
  | OrderCanceled OuchOrderCanceled
  | OrderExecutedMsg OuchOrderExecuted
  | OrderRejected OuchOrderRejected

fun encoded_size_outbound :: "OuchOutboundFrame \<Rightarrow> nat" where
  "encoded_size_outbound OutboundNone = 0"
| "encoded_size_outbound (OrderAccepted m) = ouch_encoded_size core_OuchOrderAccepted tags_OuchOrderAccepted oa_appendage m"
| "encoded_size_outbound (OrderReplaced m) = ouch_encoded_size core_OuchOrderReplaced tags_OuchOrderReplaced orp_appendage m"
| "encoded_size_outbound (OrderCanceled m) = ouch_encoded_size core_OuchOrderCanceled tags_OuchOrderCanceled oc_appendage m"
| "encoded_size_outbound (OrderExecutedMsg m) = ouch_encoded_size core_OuchOrderExecuted tags_OuchOrderExecuted oe_appendage m"
| "encoded_size_outbound (OrderRejected m) = ouch_encoded_size core_OuchOrderRejected tags_OuchOrderRejected oj_appendage m"

fun encode_outbound_ouch :: "OuchOutboundFrame \<Rightarrow> byte list \<Rightarrow> nat \<times> byte list" where
  "encode_outbound_ouch OutboundNone out = (0, out)"
| "encode_outbound_ouch (OrderAccepted m) out = ouch_encode core_OuchOrderAccepted tags_OuchOrderAccepted oa_appendage m out"
| "encode_outbound_ouch (OrderReplaced m) out = ouch_encode core_OuchOrderReplaced tags_OuchOrderReplaced orp_appendage m out"
| "encode_outbound_ouch (OrderCanceled m) out = ouch_encode core_OuchOrderCanceled tags_OuchOrderCanceled oc_appendage m out"
| "encode_outbound_ouch (OrderExecutedMsg m) out = ouch_encode core_OuchOrderExecuted tags_OuchOrderExecuted oe_appendage m out"
| "encode_outbound_ouch (OrderRejected m) out = ouch_encode core_OuchOrderRejected tags_OuchOrderRejected oj_appendage m out"

definition decode_OuchOrderAccepted :: "byte list \<Rightarrow> OuchOrderAccepted option" where
  "decode_OuchOrderAccepted = ouch_decode core_OuchOrderAccepted set_OuchOrderAccepted tags_OuchOrderAccepted set_tag_OuchOrderAccepted oa_appendage set_appendage_OuchOrderAccepted default_OuchOrderAccepted"

definition decode_OuchOrderReplaced :: "byte list \<Rightarrow> OuchOrderReplaced option" where
  "decode_OuchOrderReplaced = ouch_decode core_OuchOrderReplaced set_OuchOrderReplaced tags_OuchOrderReplaced set_tag_OuchOrderReplaced orp_appendage set_appendage_OuchOrderReplaced default_OuchOrderReplaced"

definition decode_OuchOrderCanceled :: "byte list \<Rightarrow> OuchOrderCanceled option" where
  "decode_OuchOrderCanceled = ouch_decode core_OuchOrderCanceled set_OuchOrderCanceled tags_OuchOrderCanceled set_tag_OuchOrderCanceled oc_appendage set_appendage_OuchOrderCanceled default_OuchOrderCanceled"

definition decode_OuchOrderExecuted :: "byte list \<Rightarrow> OuchOrderExecuted option" where
  "decode_OuchOrderExecuted = ouch_decode core_OuchOrderExecuted set_OuchOrderExecuted tags_OuchOrderExecuted set_tag_OuchOrderExecuted oe_appendage set_appendage_OuchOrderExecuted default_OuchOrderExecuted"

definition decode_OuchOrderRejected :: "byte list \<Rightarrow> OuchOrderRejected option" where
  "decode_OuchOrderRejected = ouch_decode core_OuchOrderRejected set_OuchOrderRejected tags_OuchOrderRejected set_tag_OuchOrderRejected oj_appendage set_appendage_OuchOrderRejected default_OuchOrderRejected"

definition decode_outbound_ouch :: "byte list \<Rightarrow> OuchOutboundFrame" where
  "decode_outbound_ouch bytes =
     (case bytes of [] \<Rightarrow> OutboundNone
      | t # _ \<Rightarrow>
          if t = ORDER_ACCEPTED then (case decode_OuchOrderAccepted bytes of Some m \<Rightarrow> OrderAccepted m | None \<Rightarrow> OutboundNone)
          else if t = ORDER_REPLACED then (case decode_OuchOrderReplaced bytes of Some m \<Rightarrow> OrderReplaced m | None \<Rightarrow> OutboundNone)
          else if t = ORDER_CANCELED then (case decode_OuchOrderCanceled bytes of Some m \<Rightarrow> OrderCanceled m | None \<Rightarrow> OutboundNone)
          else if t = OUCH_ORDER_EXECUTED then (case decode_OuchOrderExecuted bytes of Some m \<Rightarrow> OrderExecutedMsg m | None \<Rightarrow> OutboundNone)
          else if t = ORDER_REJECTED then (case decode_OuchOrderRejected bytes of Some m \<Rightarrow> OrderRejected m | None \<Rightarrow> OutboundNone)
          else OutboundNone)"

subsection \<open>The messages meet the codec interface\<close>

interpretation oa: ouch_message core_OuchOrderAccepted set_OuchOrderAccepted tags_OuchOrderAccepted set_tag_OuchOrderAccepted oa_appendage
    set_appendage_OuchOrderAccepted default_OuchOrderAccepted
proof unfold_locales
  fix t v and m :: OuchOrderAccepted
  assume "(t, wire_type_of v) \<in> set (tag_types (tags_OuchOrderAccepted m))"
  then show "tags_OuchOrderAccepted (set_tag_OuchOrderAccepted t v m) = map (\<lambda>(s, f). (s, if s = t then v else f)) (tags_OuchOrderAccepted m)"
    by (cases v) (auto simp: tag_types_def tags_OuchOrderAccepted_def set_tag_OuchOrderAccepted_def)
next
  fix t v and m :: OuchOrderAccepted
  show "core_OuchOrderAccepted (set_tag_OuchOrderAccepted t v m) = core_OuchOrderAccepted m" "oa_appendage (set_tag_OuchOrderAccepted t v m) = oa_appendage m"
    by (simp_all add: core_OuchOrderAccepted_def set_tag_OuchOrderAccepted_def split: OuchTag.split)
qed (simp_all add: core_OuchOrderAccepted_def set_OuchOrderAccepted_def tags_OuchOrderAccepted_def set_appendage_OuchOrderAccepted_def default_OuchOrderAccepted_def tag_types_def)

interpretation orp: ouch_message core_OuchOrderReplaced set_OuchOrderReplaced tags_OuchOrderReplaced set_tag_OuchOrderReplaced orp_appendage
    set_appendage_OuchOrderReplaced default_OuchOrderReplaced
proof unfold_locales
  fix t v and m :: OuchOrderReplaced
  assume "(t, wire_type_of v) \<in> set (tag_types (tags_OuchOrderReplaced m))"
  then show "tags_OuchOrderReplaced (set_tag_OuchOrderReplaced t v m) = map (\<lambda>(s, f). (s, if s = t then v else f)) (tags_OuchOrderReplaced m)"
    by (cases v) (auto simp: tag_types_def tags_OuchOrderReplaced_def set_tag_OuchOrderReplaced_def)
next
  fix t v and m :: OuchOrderReplaced
  show "core_OuchOrderReplaced (set_tag_OuchOrderReplaced t v m) = core_OuchOrderReplaced m" "orp_appendage (set_tag_OuchOrderReplaced t v m) = orp_appendage m"
    by (simp_all add: core_OuchOrderReplaced_def set_tag_OuchOrderReplaced_def split: OuchTag.split)
qed (simp_all add: core_OuchOrderReplaced_def set_OuchOrderReplaced_def tags_OuchOrderReplaced_def set_appendage_OuchOrderReplaced_def default_OuchOrderReplaced_def tag_types_def)

interpretation oc: ouch_message core_OuchOrderCanceled set_OuchOrderCanceled tags_OuchOrderCanceled set_tag_OuchOrderCanceled oc_appendage
    set_appendage_OuchOrderCanceled default_OuchOrderCanceled
proof unfold_locales
  fix t v and m :: OuchOrderCanceled
  assume "(t, wire_type_of v) \<in> set (tag_types (tags_OuchOrderCanceled m))"
  then show "tags_OuchOrderCanceled (set_tag_OuchOrderCanceled t v m) = map (\<lambda>(s, f). (s, if s = t then v else f)) (tags_OuchOrderCanceled m)"
    by (cases v) (auto simp: tag_types_def tags_OuchOrderCanceled_def set_tag_OuchOrderCanceled_def)
next
  fix t v and m :: OuchOrderCanceled
  show "core_OuchOrderCanceled (set_tag_OuchOrderCanceled t v m) = core_OuchOrderCanceled m" "oc_appendage (set_tag_OuchOrderCanceled t v m) = oc_appendage m"
    by (simp_all add: core_OuchOrderCanceled_def set_tag_OuchOrderCanceled_def split: OuchTag.split)
qed (simp_all add: core_OuchOrderCanceled_def set_OuchOrderCanceled_def tags_OuchOrderCanceled_def set_appendage_OuchOrderCanceled_def default_OuchOrderCanceled_def tag_types_def)

interpretation oe: ouch_message core_OuchOrderExecuted set_OuchOrderExecuted tags_OuchOrderExecuted set_tag_OuchOrderExecuted oe_appendage
    set_appendage_OuchOrderExecuted default_OuchOrderExecuted
proof unfold_locales
  fix t v and m :: OuchOrderExecuted
  assume "(t, wire_type_of v) \<in> set (tag_types (tags_OuchOrderExecuted m))"
  then show "tags_OuchOrderExecuted (set_tag_OuchOrderExecuted t v m) = map (\<lambda>(s, f). (s, if s = t then v else f)) (tags_OuchOrderExecuted m)"
    by (cases v) (auto simp: tag_types_def tags_OuchOrderExecuted_def set_tag_OuchOrderExecuted_def)
next
  fix t v and m :: OuchOrderExecuted
  show "core_OuchOrderExecuted (set_tag_OuchOrderExecuted t v m) = core_OuchOrderExecuted m" "oe_appendage (set_tag_OuchOrderExecuted t v m) = oe_appendage m"
    by (simp_all add: core_OuchOrderExecuted_def set_tag_OuchOrderExecuted_def split: OuchTag.split)
qed (simp_all add: core_OuchOrderExecuted_def set_OuchOrderExecuted_def tags_OuchOrderExecuted_def set_appendage_OuchOrderExecuted_def default_OuchOrderExecuted_def tag_types_def)

interpretation oj: ouch_message core_OuchOrderRejected set_OuchOrderRejected tags_OuchOrderRejected set_tag_OuchOrderRejected oj_appendage
    set_appendage_OuchOrderRejected default_OuchOrderRejected
proof unfold_locales
  fix t v and m :: OuchOrderRejected
  assume "(t, wire_type_of v) \<in> set (tag_types (tags_OuchOrderRejected m))"
  then show "tags_OuchOrderRejected (set_tag_OuchOrderRejected t v m) = map (\<lambda>(s, f). (s, if s = t then v else f)) (tags_OuchOrderRejected m)"
    by (cases v) (auto simp: tag_types_def tags_OuchOrderRejected_def set_tag_OuchOrderRejected_def)
next
  fix t v and m :: OuchOrderRejected
  show "core_OuchOrderRejected (set_tag_OuchOrderRejected t v m) = core_OuchOrderRejected m" "oj_appendage (set_tag_OuchOrderRejected t v m) = oj_appendage m"
    by (simp_all add: core_OuchOrderRejected_def set_tag_OuchOrderRejected_def split: OuchTag.split)
qed (simp_all add: core_OuchOrderRejected_def set_OuchOrderRejected_def tags_OuchOrderRejected_def set_appendage_OuchOrderRejected_def default_OuchOrderRejected_def tag_types_def)

subsection \<open>Frames survive the wire\<close>

text \<open>
  A frame as the codec guarantees it: its type byte is the one of its member, and the member is a
  message the wire carries faithfully.
\<close>

definition wf_OuchOrderAccepted :: "OuchOrderAccepted \<Rightarrow> bool" where
  "wf_OuchOrderAccepted m \<longleftrightarrow> oa_message_type m = ORDER_ACCEPTED \<and> ouch_wf core_OuchOrderAccepted tags_OuchOrderAccepted oa_appendage default_OuchOrderAccepted m"

definition wf_OuchOrderReplaced :: "OuchOrderReplaced \<Rightarrow> bool" where
  "wf_OuchOrderReplaced m \<longleftrightarrow> orp_message_type m = ORDER_REPLACED \<and> ouch_wf core_OuchOrderReplaced tags_OuchOrderReplaced orp_appendage default_OuchOrderReplaced m"

definition wf_OuchOrderCanceled :: "OuchOrderCanceled \<Rightarrow> bool" where
  "wf_OuchOrderCanceled m \<longleftrightarrow> oc_message_type m = ORDER_CANCELED \<and> ouch_wf core_OuchOrderCanceled tags_OuchOrderCanceled oc_appendage default_OuchOrderCanceled m"

definition wf_OuchOrderExecuted :: "OuchOrderExecuted \<Rightarrow> bool" where
  "wf_OuchOrderExecuted m \<longleftrightarrow> oe_message_type m = OUCH_ORDER_EXECUTED \<and> ouch_wf core_OuchOrderExecuted tags_OuchOrderExecuted oe_appendage default_OuchOrderExecuted m"

definition wf_OuchOrderRejected :: "OuchOrderRejected \<Rightarrow> bool" where
  "wf_OuchOrderRejected m \<longleftrightarrow> oj_message_type m = ORDER_REJECTED \<and> ouch_wf core_OuchOrderRejected tags_OuchOrderRejected oj_appendage default_OuchOrderRejected m"

fun wf_outbound :: "OuchOutboundFrame \<Rightarrow> bool" where
  "wf_outbound OutboundNone \<longleftrightarrow> False"
| "wf_outbound (OrderAccepted m) \<longleftrightarrow> wf_OuchOrderAccepted m"
| "wf_outbound (OrderReplaced m) \<longleftrightarrow> wf_OuchOrderReplaced m"
| "wf_outbound (OrderCanceled m) \<longleftrightarrow> wf_OuchOrderCanceled m"
| "wf_outbound (OrderExecutedMsg m) \<longleftrightarrow> wf_OuchOrderExecuted m"
| "wf_outbound (OrderRejected m) \<longleftrightarrow> wf_OuchOrderRejected m"

fun wire_outbound :: "OuchOutboundFrame \<Rightarrow> byte list" where
  "wire_outbound OutboundNone = []"
| "wire_outbound (OrderAccepted m) = ouch_wire (core_OuchOrderAccepted m) (oa_appendage m) (tags_OuchOrderAccepted m)"
| "wire_outbound (OrderReplaced m) = ouch_wire (core_OuchOrderReplaced m) (orp_appendage m) (tags_OuchOrderReplaced m)"
| "wire_outbound (OrderCanceled m) = ouch_wire (core_OuchOrderCanceled m) (oc_appendage m) (tags_OuchOrderCanceled m)"
| "wire_outbound (OrderExecutedMsg m) = ouch_wire (core_OuchOrderExecuted m) (oe_appendage m) (tags_OuchOrderExecuted m)"
| "wire_outbound (OrderRejected m) = ouch_wire (core_OuchOrderRejected m) (oj_appendage m) (tags_OuchOrderRejected m)"

lemma encoded_size_outbound_wire: "encoded_size_outbound m = length (wire_outbound m)"
  by (cases m) (simp_all add: ouch_encoded_size_length)

lemma encode_outbound_spec:
  assumes "m \<noteq> OutboundNone" and "encoded_size_outbound m \<le> length out"
  shows "fst (encode_outbound_ouch m out) = encoded_size_outbound m"
    "take (encoded_size_outbound m) (snd (encode_outbound_ouch m out)) = wire_outbound m"
  using assms unfolding encoded_size_outbound_wire by (cases m; simp add: ouch_encode_spec)+

lemma encode_outbound_too_small:
  "length out < encoded_size_outbound m \<Longrightarrow> fst (encode_outbound_ouch m out) = 0"
  unfolding encoded_size_outbound_wire by (cases m) (simp_all add: ouch_encode_too_small)

lemma decode_OuchOrderAccepted_wire:
  assumes "wf_OuchOrderAccepted m"
  shows "decode_OuchOrderAccepted (ouch_wire (core_OuchOrderAccepted m) (oa_appendage m) (tags_OuchOrderAccepted m)) = Some m"
  using assms unfolding decode_OuchOrderAccepted_def wf_OuchOrderAccepted_def by (simp add: oa.decode_wire)

lemma wire_OuchOrderAccepted_head:
  assumes "wf_OuchOrderAccepted m"
  shows "\<exists>bs. ouch_wire (core_OuchOrderAccepted m) (oa_appendage m) (tags_OuchOrderAccepted m) = ORDER_ACCEPTED # bs"
  using assms by (simp add: ouch_wire_def core_OuchOrderAccepted_def wf_OuchOrderAccepted_def be_bytes_byte)

lemma decode_OuchOrderReplaced_wire:
  assumes "wf_OuchOrderReplaced m"
  shows "decode_OuchOrderReplaced (ouch_wire (core_OuchOrderReplaced m) (orp_appendage m) (tags_OuchOrderReplaced m)) = Some m"
  using assms unfolding decode_OuchOrderReplaced_def wf_OuchOrderReplaced_def by (simp add: orp.decode_wire)

lemma wire_OuchOrderReplaced_head:
  assumes "wf_OuchOrderReplaced m"
  shows "\<exists>bs. ouch_wire (core_OuchOrderReplaced m) (orp_appendage m) (tags_OuchOrderReplaced m) = ORDER_REPLACED # bs"
  using assms by (simp add: ouch_wire_def core_OuchOrderReplaced_def wf_OuchOrderReplaced_def be_bytes_byte)

lemma decode_OuchOrderCanceled_wire:
  assumes "wf_OuchOrderCanceled m"
  shows "decode_OuchOrderCanceled (ouch_wire (core_OuchOrderCanceled m) (oc_appendage m) (tags_OuchOrderCanceled m)) = Some m"
  using assms unfolding decode_OuchOrderCanceled_def wf_OuchOrderCanceled_def by (simp add: oc.decode_wire)

lemma wire_OuchOrderCanceled_head:
  assumes "wf_OuchOrderCanceled m"
  shows "\<exists>bs. ouch_wire (core_OuchOrderCanceled m) (oc_appendage m) (tags_OuchOrderCanceled m) = ORDER_CANCELED # bs"
  using assms by (simp add: ouch_wire_def core_OuchOrderCanceled_def wf_OuchOrderCanceled_def be_bytes_byte)

lemma decode_OuchOrderExecuted_wire:
  assumes "wf_OuchOrderExecuted m"
  shows "decode_OuchOrderExecuted (ouch_wire (core_OuchOrderExecuted m) (oe_appendage m) (tags_OuchOrderExecuted m)) = Some m"
  using assms unfolding decode_OuchOrderExecuted_def wf_OuchOrderExecuted_def by (simp add: oe.decode_wire)

lemma wire_OuchOrderExecuted_head:
  assumes "wf_OuchOrderExecuted m"
  shows "\<exists>bs. ouch_wire (core_OuchOrderExecuted m) (oe_appendage m) (tags_OuchOrderExecuted m) = OUCH_ORDER_EXECUTED # bs"
  using assms by (simp add: ouch_wire_def core_OuchOrderExecuted_def wf_OuchOrderExecuted_def be_bytes_byte)

lemma decode_OuchOrderRejected_wire:
  assumes "wf_OuchOrderRejected m"
  shows "decode_OuchOrderRejected (ouch_wire (core_OuchOrderRejected m) (oj_appendage m) (tags_OuchOrderRejected m)) = Some m"
  using assms unfolding decode_OuchOrderRejected_def wf_OuchOrderRejected_def by (simp add: oj.decode_wire)

lemma wire_OuchOrderRejected_head:
  assumes "wf_OuchOrderRejected m"
  shows "\<exists>bs. ouch_wire (core_OuchOrderRejected m) (oj_appendage m) (tags_OuchOrderRejected m) = ORDER_REJECTED # bs"
  using assms by (simp add: ouch_wire_def core_OuchOrderRejected_def wf_OuchOrderRejected_def be_bytes_byte)

lemma decode_outbound_wire:
  assumes "wf_outbound m"
  shows "decode_outbound_ouch (wire_outbound m) = m"
proof (cases m)
  case OutboundNone
  with assms show ?thesis by simp
next
  case (OrderAccepted x)
  with assms obtain bs where "ouch_wire (core_OuchOrderAccepted x) (oa_appendage x) (tags_OuchOrderAccepted x) = ORDER_ACCEPTED # bs"
    using wire_OuchOrderAccepted_head by auto
  moreover from OrderAccepted assms have "decode_OuchOrderAccepted (ouch_wire (core_OuchOrderAccepted x) (oa_appendage x) (tags_OuchOrderAccepted x)) = Some x"
    by (simp add: decode_OuchOrderAccepted_wire)
  ultimately show ?thesis using OrderAccepted by (simp add: decode_outbound_ouch_def outbound_type_defs)
next
  case (OrderReplaced x)
  with assms obtain bs where "ouch_wire (core_OuchOrderReplaced x) (orp_appendage x) (tags_OuchOrderReplaced x) = ORDER_REPLACED # bs"
    using wire_OuchOrderReplaced_head by auto
  moreover from OrderReplaced assms have "decode_OuchOrderReplaced (ouch_wire (core_OuchOrderReplaced x) (orp_appendage x) (tags_OuchOrderReplaced x)) = Some x"
    by (simp add: decode_OuchOrderReplaced_wire)
  ultimately show ?thesis using OrderReplaced by (simp add: decode_outbound_ouch_def outbound_type_defs)
next
  case (OrderCanceled x)
  with assms obtain bs where "ouch_wire (core_OuchOrderCanceled x) (oc_appendage x) (tags_OuchOrderCanceled x) = ORDER_CANCELED # bs"
    using wire_OuchOrderCanceled_head by auto
  moreover from OrderCanceled assms have "decode_OuchOrderCanceled (ouch_wire (core_OuchOrderCanceled x) (oc_appendage x) (tags_OuchOrderCanceled x)) = Some x"
    by (simp add: decode_OuchOrderCanceled_wire)
  ultimately show ?thesis using OrderCanceled by (simp add: decode_outbound_ouch_def outbound_type_defs)
next
  case (OrderExecutedMsg x)
  with assms obtain bs where "ouch_wire (core_OuchOrderExecuted x) (oe_appendage x) (tags_OuchOrderExecuted x) = OUCH_ORDER_EXECUTED # bs"
    using wire_OuchOrderExecuted_head by auto
  moreover from OrderExecutedMsg assms have "decode_OuchOrderExecuted (ouch_wire (core_OuchOrderExecuted x) (oe_appendage x) (tags_OuchOrderExecuted x)) = Some x"
    by (simp add: decode_OuchOrderExecuted_wire)
  ultimately show ?thesis using OrderExecutedMsg by (simp add: decode_outbound_ouch_def outbound_type_defs)
next
  case (OrderRejected x)
  with assms obtain bs where "ouch_wire (core_OuchOrderRejected x) (oj_appendage x) (tags_OuchOrderRejected x) = ORDER_REJECTED # bs"
    using wire_OuchOrderRejected_head by auto
  moreover from OrderRejected assms have "decode_OuchOrderRejected (ouch_wire (core_OuchOrderRejected x) (oj_appendage x) (tags_OuchOrderRejected x)) = Some x"
    by (simp add: decode_OuchOrderRejected_wire)
  ultimately show ?thesis using OrderRejected by (simp add: decode_outbound_ouch_def outbound_type_defs)
qed

end
