(* ===== verification/Order_Types.thy ===== *)
theory Order_Types
  imports Exch_Prelude
begin

text \<open>
  The engine's domain types (\<open>infra/order_types.hpp\<close>), the request and event records the gateway
  and the engine exchange over their rings (\<open>infra/communication_proto.hpp\<close>), and the exchange's
  compile-time configuration (\<open>exchange/config/config.hpp\<close>).
\<close>

type_synonym Timestamp = u64
type_synonym ClientId = u32
type_synonym OrderId = u64
type_synonym Price = u32
type_synonym Quantity = u32

datatype Side = BID | ASK
datatype OrderType = MARKET | LIMIT
datatype TimeInForce = DAY | IOC

subsection \<open>Requests\<close>

datatype EngineRequestType = NEW | CANCEL | REPLACE

record EngineRequest =
  rq_read_begin_tsc :: Timestamp
  rq_recv_tsc :: Timestamp
  rq_server_push_tsc :: Timestamp
  rq_order_id :: OrderId
  rq_new_order_id :: OrderId
  rq_client_id :: ClientId
  rq_price :: Price
  rq_quantity :: Quantity
  rq_type :: EngineRequestType
  rq_side :: Side
  rq_order_type :: OrderType
  rq_time_in_force :: TimeInForce

subsection \<open>Events\<close>

datatype EngineEventType = ACCEPTED | REPLACED | CANCELED | EXECUTED | REJECTED

definition kUserRequested :: byte where "kUserRequested = ch CHR ''U''"
definition kImmediateOrCancel :: byte where "kImmediateOrCancel = ch CHR ''I''"
definition kAddedLiquidity :: byte where "kAddedLiquidity = ch CHR ''A''"
definition kRemovedLiquidity :: byte where "kRemovedLiquidity = ch CHR ''R''"
definition kBookFull :: byte where "kBookFull = ch CHR ''F''"

lemmas engine_reason_defs = kUserRequested_def kImmediateOrCancel_def kAddedLiquidity_def
  kRemovedLiquidity_def kBookFull_def

record EngineEvent =
  ev_read_begin_tsc :: Timestamp
  ev_recv_tsc :: Timestamp
  ev_server_push_tsc :: Timestamp
  ev_engine_pop_tsc :: Timestamp
  ev_engine_push_tsc :: Timestamp
  ev_order_id :: OrderId
  ev_orig_order_id :: OrderId
  ev_match_number :: u64
  ev_client_id :: ClientId
  ev_price :: Price
  ev_quantity :: Quantity
  ev_type :: EngineEventType
  ev_reason :: byte
  ev_answers_request :: bool

text \<open>
  Fields a designated initializer leaves out are zero: \<open>EngineEvent{}\<close> is the all-zero event.
\<close>

definition zero_event :: EngineEvent where
  "zero_event = \<lparr> ev_read_begin_tsc = 0, ev_recv_tsc = 0, ev_server_push_tsc = 0,
     ev_engine_pop_tsc = 0, ev_engine_push_tsc = 0, ev_order_id = 0, ev_orig_order_id = 0,
     ev_match_number = 0, ev_client_id = 0, ev_price = 0, ev_quantity = 0, ev_type = ACCEPTED,
     ev_reason = 0, ev_answers_request = False \<rparr>"

subsection \<open>Configuration\<close>

definition MIN_PRICE :: Price where "MIN_PRICE = 1"
definition MAX_PRICE :: Price where "MAX_PRICE = 100000"

definition BOOK_SYMBOL :: string where "BOOK_SYMBOL = ''SIM''"
definition BOOK_STOCK_LOCATE :: u16 where "BOOK_STOCK_LOCATE = 1"
definition COMMUNICATION_RING_COUNT :: u32 where "COMMUNICATION_RING_COUNT = 524288"
definition PREALLOCATION_COUNT :: nat where "PREALLOCATION_COUNT = 1000000"
definition SOUP_SESSION :: string where "SOUP_SESSION = ''SIM''"
definition MAX_CLIENTS :: u32 where "MAX_CLIENTS = 64"
definition SOUP_REPLAY_BYTES :: u64 where "SOUP_REPLAY_BYTES = 16777216"

lemmas price_band_defs = MIN_PRICE_def MAX_PRICE_def

text \<open>A price the book's ladder has a level for.\<close>

definition in_band :: "Price \<Rightarrow> bool" where
  "in_band p \<longleftrightarrow> MIN_PRICE \<le> p \<and> p \<le> MAX_PRICE"

end
