(* ===== verification/Tsc_Clock.thy ===== *)
theory Tsc_Clock
  imports Order_Types
begin

text \<open>
  Wall-clock nanoseconds from the time stamp counter (\<open>infra/tsc_clock.hpp\<close>). Conversion and anchoring
  are exact word arithmetic, the 64 by 64 bit product in 128 bits as in the source. The one
  floating-point value, the measured frequency, is an argument of the constructor's model, as
  are the readings of the counter and of the system clocks.
\<close>

record TscClock =
  anchor_tsc :: Timestamp
  anchor_ns_since_midnight :: u64
  ns_per_tick_q32 :: u64

definition kNsPerSec :: u64 where "kNsPerSec = 1000000000"
definition kNsPerDay :: u64 where "kNsPerDay = 86400 * kNsPerSec"

definition ticks_to_ns :: "TscClock \<Rightarrow> u64 \<Rightarrow> u64" where
  "ticks_to_ns c ticks = ucast (drop_bit 32 ((ucast ticks :: 128 word) * ucast (ns_per_tick_q32 c)))"

definition ns_since_midnight :: "TscClock \<Rightarrow> Timestamp \<Rightarrow> u64" where
  "ns_since_midnight c tsc =
     (let elapsed = (if tsc > anchor_tsc c then ticks_to_ns c (tsc - anchor_tsc c) else 0);
          ns = anchor_ns_since_midnight c + elapsed
      in if ns \<ge> kNsPerDay then ns mod kNsPerDay else ns)"

subsection \<open>Sampling and anchoring\<close>

record timespec =
  tv_sec :: u64
  tv_nsec :: u64

record Sample =
  sample_tsc :: Timestamp
  sample_ns :: u64

definition to_ns :: "timespec \<Rightarrow> u64" where
  "to_ns ts = tv_sec ts * kNsPerSec + tv_nsec ts"

text \<open>One try: the counter before, the clock, the counter after. The caller supplies the 16 tries.\<close>

definition sample_try ::
  "Timestamp \<times> timespec \<times> Timestamp \<Rightarrow> Sample \<times> u64 \<times> timespec \<Rightarrow> Sample \<times> u64 \<times> timespec" where
  "sample_try reading acc =
     (case (reading, acc) of ((bef, ts, aft), (best, best_width, out)) \<Rightarrow>
        if aft - bef < best_width
        then (\<lparr>sample_tsc = bef + (aft - bef) div 2, sample_ns = to_ns ts\<rparr>, aft - bef, ts)
        else (best, best_width, out))"

definition sample :: "(Timestamp \<times> timespec \<times> Timestamp) list \<Rightarrow> timespec \<Rightarrow> Sample \<times> timespec" where
  "sample readings out =
     (case fold sample_try readings (\<lparr>sample_tsc = 0, sample_ns = 0\<rparr>, - 1, out) of
        (best, _, out') \<Rightarrow> (best, out'))"

text \<open>
  The constructor's second half: the anchor from a sample of the real-time clock and the local
  time of day \<open>localtime_r\<close> gives for it.
\<close>

definition new_TscClock ::
  "u64 \<Rightarrow> (Timestamp \<times> timespec \<times> Timestamp) list \<Rightarrow> (u64 \<Rightarrow> u64 \<times> u64 \<times> u64) \<Rightarrow> TscClock" where
  "new_TscClock q32 readings localtime =
     (let (anchor, wall) = sample readings \<lparr>tv_sec = 0, tv_nsec = 0\<rparr>;
          (tm_hour, tm_min, tm_sec) = localtime (tv_sec wall);
          secs_since_midnight = tm_hour * 3600 + tm_min * 60 + tm_sec
      in \<lparr> anchor_tsc = sample_tsc anchor,
           anchor_ns_since_midnight = secs_since_midnight * kNsPerSec + tv_nsec wall,
           ns_per_tick_q32 = q32 \<rparr>)"

subsection \<open>Range and monotonicity\<close>

lemma kNsPerDay_val: "kNsPerDay = 86400000000000"
  by (simp add: kNsPerDay_def kNsPerSec_def)

lemma ns_since_midnight_day: "ns_since_midnight c tsc < kNsPerDay"
proof -
  have "x mod kNsPerDay < kNsPerDay" for x :: u64
    by (simp add: word_less_nat_alt unat_mod kNsPerDay_val)
  then show ?thesis by (auto simp: ns_since_midnight_def Let_def not_le)
qed

lemma ns_since_midnight_48: "ns_since_midnight c tsc < 2 ^ 48"
  using ns_since_midnight_day [of c tsc] by (simp add: kNsPerDay_val word_less_nat_alt)

lemma unat_ticks_to_ns:
  assumes "unat t * unat (ns_per_tick_q32 c) < 2 ^ 96"
  shows "unat (ticks_to_ns c t) = unat t * unat (ns_per_tick_q32 c) div 2 ^ 32"
proof -
  have u: "unat (ucast x :: 128 word) = unat x" for x :: u64
    by (simp add: unsigned_ucast_eq unsigned_take_bit_eq [symmetric] take_bit_word_eq_self)
  have "unat ((ucast t :: 128 word) * ucast (ns_per_tick_q32 c)) = unat t * unat (ns_per_tick_q32 c)"
    using assms by (subst unat_mult_lem [THEN iffD1]) (simp_all add: u)
  then have d: "unat (drop_bit 32 ((ucast t :: 128 word) * ucast (ns_per_tick_q32 c)))
      = unat t * unat (ns_per_tick_q32 c) div 2 ^ 32"
    by (simp add: drop_bit_eq_div unat_div)
  have "unat t * unat (ns_per_tick_q32 c) div 2 ^ 32 < 2 ^ 64"
    using assms by (simp add: less_mult_imp_div_less)
  with d show ?thesis by (simp add: ticks_to_ns_def unsigned_ucast_eq take_bit_nat_eq_self)
qed

text \<open>
  The word arithmetic computes the mathematical value, as long as that fits 64 bits (more than five
  hundred years): the time of day at the anchor plus the elapsed ticks in nanoseconds, rounded down, modulo a day.
  A counter that reads less than the anchor counts as the anchor.
\<close>

lemma unat_ns_since_midnight:
  assumes "unat (anchor_ns_since_midnight c)
      + (unat tsc - unat (anchor_tsc c)) * unat (ns_per_tick_q32 c) div 2 ^ 32 < 2 ^ 64"
  shows "unat (ns_since_midnight c tsc) = (unat (anchor_ns_since_midnight c)
      + (unat tsc - unat (anchor_tsc c)) * unat (ns_per_tick_q32 c) div 2 ^ 32) mod unat kNsPerDay"
proof -
  let ?q = "unat (ns_per_tick_q32 c)" let ?a = "unat (anchor_ns_since_midnight c)"
  let ?n = "(unat tsc - unat (anchor_tsc c)) * ?q div 2 ^ 32"
  let ?e = "if anchor_tsc c < tsc then ticks_to_ns c (tsc - anchor_tsc c) else 0"
  have "?n < 2 ^ 64" using assms by simp
  then have "(unat tsc - unat (anchor_tsc c)) * ?q < 2 ^ 64 * 2 ^ 32" by (simp add: div_less_iff_less_mult)
  then have e: "unat ?e = ?n"
    using unat_ticks_to_ns [of "tsc - anchor_tsc c" c] by (simp add: unat_sub word_less_nat_alt word_le_nat_alt)
  have s: "unat (anchor_ns_since_midnight c + ?e) = ?a + ?n"
    using assms e by (subst unat_add_bounded) (simp_all only:, simp)
  have "unat (ns_since_midnight c tsc) = unat (anchor_ns_since_midnight c + ?e) mod unat kNsPerDay"
    by (simp add: ns_since_midnight_def Let_def unat_mod not_le word_less_nat_alt)
  then show ?thesis by (simp only: s)
qed

text \<open>Later counter readings never give earlier times, as long as the day does not wrap.\<close>

lemma ns_since_midnight_mono:
  assumes le: "anchor_tsc c \<le> t" "t \<le> t'"
    and day: "unat (anchor_ns_since_midnight c)
        + unat (t' - anchor_tsc c) * unat (ns_per_tick_q32 c) div 2 ^ 32 < unat kNsPerDay"
  shows "ns_since_midnight c t \<le> ns_since_midnight c t'"
proof -
  let ?f = "\<lambda>x. unat (anchor_ns_since_midnight c) + (unat x - unat (anchor_tsc c)) * unat (ns_per_tick_q32 c) div 2 ^ 32"
  have mono: "?f t \<le> ?f t'"
    using le(2) by (intro add_left_mono div_le_mono mult_le_mono1 diff_le_mono) (simp add: word_le_nat_alt)
  have day': "?f t' < unat kNsPerDay" using day le by (simp add: unat_sub word_le_nat_alt)
  have "unat kNsPerDay < 2 ^ 64" by (simp add: kNsPerDay_val)
  with mono day' have "unat (ns_since_midnight c t) = ?f t" "unat (ns_since_midnight c t') = ?f t'"
    by (simp_all add: unat_ns_since_midnight)
  with mono show ?thesis by (simp add: word_le_nat_alt)
qed

text \<open>Among the tries, the sample kept is the one with the tightest bracket.\<close>

lemma sample_tightest:
  assumes "fold sample_try rs (best, w, out) = (best', w', out')"
  shows "w' \<le> w \<and> (\<forall>(bef, ts, aft) \<in> set rs. w' \<le> aft - bef)"
  using assms
proof (induction rs arbitrary: best w out)
  case Nil then show ?case by simp
next
  case (Cons r rs)
  obtain bef ts aft where r: "r = (bef, ts, aft)" by (cases r)
  show ?case
  proof (cases "aft - bef < w")
    case True
    with Cons.IH [of _ "aft - bef"] Cons.prems r show ?thesis
      by (force simp: sample_try_def)
  next
    case False
    with Cons.IH [of best w out] Cons.prems r show ?thesis
      by (force simp: sample_try_def)
  qed
qed

end
