(* ===== verification/Validation.thy ===== *)
theory Validation
  imports Order_Types Ouch_Inbound
begin

text \<open>
  OUCH-level validation and the conversions between OUCH fields and engine fields
  (\<open>infra/validation.hpp\<close>): pure functions over decoded messages and the engine's price band.
\<close>

record PriceBand =
  band_min :: Price
  band_max :: Price

definition kOuchMaxQuantity :: u32 where "kOuchMaxQuantity = 999999"
definition kOuchTicksPerCent :: u64 where "kOuchTicksPerCent = 100"
definition kOuchMaxLimitPrice :: u64 where "kOuchMaxLimitPrice = 1999999900"
definition kOuchMarketPriceFloor :: u64 where "kOuchMarketPriceFloor = 2000000000"

definition kInvalidDisplay :: u16 where "kInvalidDisplay = 0x0003"
definition kInvalidMaxFloor :: u16 where "kInvalidMaxFloor = 0x0004"
definition kInvalidPegType :: u16 where "kInvalidPegType = 0x0005"
definition kIsoNotAllowed :: u16 where "kIsoNotAllowed = 0x0008"
definition kInvalidSide :: u16 where "kInvalidSide = 0x0009"
definition kProcessingError :: u16 where "kProcessingError = 0x000A"
definition kInvalidMinQuantity :: u16 where "kInvalidMinQuantity = 0x000D"
definition kOther :: u16 where "kOther = 0x000F"
definition kInvalidQuantity :: u16 where "kInvalidQuantity = 0x0013"
definition kInvalidCrossOrder :: u16 where "kInvalidCrossOrder = 0x0014"
definition kInvalidPrice :: u16 where "kInvalidPrice = 0x001D"

lemmas ouch_reject_defs = kInvalidDisplay_def kInvalidMaxFloor_def kInvalidPegType_def kIsoNotAllowed_def
  kInvalidSide_def kProcessingError_def kInvalidMinQuantity_def kOther_def kInvalidQuantity_def
  kInvalidCrossOrder_def kInvalidPrice_def

subsection \<open>Field conversions\<close>

record EnginePrice =
  ep_type :: OrderType
  ep_price :: Price

definition to_engine_price :: "u64 \<Rightarrow> PriceBand \<Rightarrow> EnginePrice option" where
  "to_engine_price ouch_price band =
     (if ouch_price \<ge> kOuchMarketPriceFloor then Some \<lparr>ep_type = MARKET, ep_price = 0\<rparr>
      else if ouch_price > kOuchMaxLimitPrice \<or> ouch_price mod kOuchTicksPerCent \<noteq> 0 then None
      else let cents = ouch_price div kOuchTicksPerCent
           in if cents < ucast (band_min band) \<or> cents > ucast (band_max band) then None
              else Some \<lparr>ep_type = LIMIT, ep_price = ucast cents\<rparr>)"

definition to_ouch_price :: "Price \<Rightarrow> u64" where
  "to_ouch_price cents = ucast cents * kOuchTicksPerCent"

definition to_itch_price :: "Price \<Rightarrow> u32" where
  "to_itch_price cents = ucast ((ucast cents :: u64) * kOuchTicksPerCent)"

definition to_engine_side :: "byte \<Rightarrow> Side option" where
  "to_engine_side side = (if side = ch CHR ''B'' then Some BID
     else if side = ch CHR ''S'' then Some ASK else None)"

definition to_ouch_side :: "Side \<Rightarrow> byte" where
  "to_ouch_side side = (if side = BID then ch CHR ''B'' else ch CHR ''S'')"

definition to_engine_tif :: "byte \<Rightarrow> TimeInForce option" where
  "to_engine_tif tif = (if tif = ch CHR ''0'' then Some DAY
     else if tif = ch CHR ''3'' then Some IOC else None)"

definition valid_quantity :: "u32 \<Rightarrow> bool" where
  "valid_quantity quantity \<longleftrightarrow> quantity > 0 \<and> quantity \<le> kOuchMaxQuantity"

subsection \<open>Unsupported options\<close>

text \<open>
  The optional fields Enter and Replace spell identically; the template of the source is
  instantiated at both through this record of the fields it reads.
\<close>

record OuchOptions =
  opt_min_qty :: u32
  opt_max_floor :: u32
  opt_price_type :: byte
  opt_peg_offset :: u32
  opt_discretion_price :: u64
  opt_discretion_price_type :: byte
  opt_discretion_peg_offset :: u32
  opt_post_only :: byte
  opt_random_reserves :: u32
  opt_expire_time :: u32
  opt_trade_now :: byte
  opt_handle_inst :: byte
  opt_aiq_strategy :: byte
  opt_aiq_group_id :: "byte list"
  opt_appendage :: OuchTagSet

definition unsupported_option_reason :: "OuchOptions \<Rightarrow> u16" where
  "unsupported_option_reason m =
     (if opt_min_qty m \<noteq> 0 then kInvalidMinQuantity
      else if opt_max_floor m \<noteq> 0 then kInvalidMaxFloor
      else if opt_price_type m \<noteq> ch CHR ''L'' \<or> opt_peg_offset m \<noteq> 0 \<or> opt_discretion_price m \<noteq> 0
           \<or> opt_discretion_price_type m \<noteq> ch CHR ''L'' \<or> opt_discretion_peg_offset m \<noteq> 0
        then kInvalidPegType
      else if opt_post_only m \<noteq> ch CHR ''N'' \<or> opt_random_reserves m \<noteq> 0 \<or> opt_expire_time m \<noteq> 0
           \<or> opt_trade_now m \<noteq> ch CHR ''N'' \<or> opt_handle_inst m \<noteq> ch CHR '' ''
           \<or> opt_aiq_strategy m \<noteq> ch CHR ''*'' \<or> opt_aiq_group_id m \<noteq> [ch CHR ''*'', ch CHR ''*'']
           \<or> tag_has (opt_appendage m) USER_REF_IDX
        then kOther
      else 0)"

definition enter_options :: "OuchEnterOrder \<Rightarrow> OuchOptions" where
  "enter_options m = \<lparr> opt_min_qty = eo_min_qty m, opt_max_floor = eo_max_floor m,
     opt_price_type = eo_price_type m, opt_peg_offset = eo_peg_offset m,
     opt_discretion_price = eo_discretion_price m, opt_discretion_price_type = eo_discretion_price_type m,
     opt_discretion_peg_offset = eo_discretion_peg_offset m, opt_post_only = eo_post_only m,
     opt_random_reserves = eo_random_reserves m, opt_expire_time = eo_expire_time m,
     opt_trade_now = eo_trade_now m, opt_handle_inst = eo_handle_inst m,
     opt_aiq_strategy = eo_aiq_strategy m, opt_aiq_group_id = eo_aiq_group_id m,
     opt_appendage = eo_appendage m \<rparr>"

definition replace_options :: "OuchReplaceOrder \<Rightarrow> OuchOptions" where
  "replace_options m = \<lparr> opt_min_qty = rp_min_qty m, opt_max_floor = rp_max_floor m,
     opt_price_type = rp_price_type m, opt_peg_offset = rp_peg_offset m,
     opt_discretion_price = rp_discretion_price m, opt_discretion_price_type = rp_discretion_price_type m,
     opt_discretion_peg_offset = rp_discretion_peg_offset m, opt_post_only = rp_post_only m,
     opt_random_reserves = rp_random_reserves m, opt_expire_time = rp_expire_time m,
     opt_trade_now = rp_trade_now m, opt_handle_inst = rp_handle_inst m,
     opt_aiq_strategy = rp_aiq_strategy m, opt_aiq_group_id = rp_aiq_group_id m,
     opt_appendage = rp_appendage m \<rparr>"

subsection \<open>Enter and Replace\<close>

record EnterCheck =
  ec_reject_reason :: u16
  ec_side :: Side
  ec_order_type :: OrderType
  ec_price :: Price
  ec_time_in_force :: TimeInForce

text \<open>Value-initialised enums are their first enumerator.\<close>

definition new_EnterCheck :: EnterCheck where
  "new_EnterCheck = \<lparr> ec_reject_reason = 0, ec_side = BID, ec_order_type = MARKET, ec_price = 0,
     ec_time_in_force = DAY \<rparr>"

definition reject_enter :: "u16 \<Rightarrow> EnterCheck" where
  "reject_enter reason = new_EnterCheck\<lparr>ec_reject_reason := reason\<rparr>"

definition check_enter :: "OuchEnterOrder \<Rightarrow> PriceBand \<Rightarrow> EnterCheck" where
  "check_enter m band =
     (case to_engine_side (eo_side m) of
        None \<Rightarrow> reject_enter kInvalidSide
      | Some side \<Rightarrow>
          if \<not> valid_quantity (eo_quantity m) then reject_enter kInvalidQuantity
          else (case to_engine_price (eo_price m) band of
             None \<Rightarrow> reject_enter kInvalidPrice
           | Some price \<Rightarrow>
               (case to_engine_tif (eo_time_in_force m) of
                  None \<Rightarrow> reject_enter kOther
                | Some tif \<Rightarrow>
                    if eo_display m \<noteq> ch CHR ''Y'' then reject_enter kInvalidDisplay
                    else if eo_capacity m \<noteq> ch CHR ''A'' \<and> eo_capacity m \<noteq> ch CHR ''P''
                         \<and> eo_capacity m \<noteq> ch CHR ''R'' \<and> eo_capacity m \<noteq> ch CHR ''O''
                      then reject_enter kOther
                    else if eo_intermarket_sweep_eligibility m \<noteq> ch CHR ''N'' then reject_enter kIsoNotAllowed
                    else if eo_cross_type m \<noteq> ch CHR ''N'' then reject_enter kInvalidCrossOrder
                    else let reason = unsupported_option_reason (enter_options m)
                         in if reason \<noteq> 0 then reject_enter reason
                            else new_EnterCheck\<lparr> ec_side := side, ec_order_type := ep_type price,
                                   ec_price := ep_price price, ec_time_in_force := tif \<rparr>)))"

record ReplaceCheck =
  rc_valid :: bool
  rc_price :: Price
  rc_time_in_force :: TimeInForce

definition new_ReplaceCheck :: ReplaceCheck where
  "new_ReplaceCheck = \<lparr> rc_valid = False, rc_price = 0, rc_time_in_force = DAY \<rparr>"

definition check_replace :: "OuchReplaceOrder \<Rightarrow> byte \<Rightarrow> PriceBand \<Rightarrow> ReplaceCheck" where
  "check_replace m orig_side band =
     (if \<not> valid_quantity (rp_quantity m) then new_ReplaceCheck
      else (case to_engine_price (rp_price m) band of
         None \<Rightarrow> new_ReplaceCheck
       | Some price \<Rightarrow>
           if ep_type price \<noteq> LIMIT then new_ReplaceCheck
           else (case to_engine_tif (rp_time_in_force m) of
              None \<Rightarrow> new_ReplaceCheck
            | Some tif \<Rightarrow>
                if rp_display m \<noteq> ch CHR ''Y'' \<or> rp_intermarket_sweep_eligibility m \<noteq> ch CHR ''N''
                  then new_ReplaceCheck
                else if tag_has (rp_appendage m) SIDE \<and> rp_side m \<noteq> orig_side then new_ReplaceCheck
                else if unsupported_option_reason (replace_options m) \<noteq> 0 then new_ReplaceCheck
                else new_ReplaceCheck\<lparr> rc_valid := True, rc_price := ep_price price,
                       rc_time_in_force := tif \<rparr>)))"

subsection \<open>What passes validation\<close>

lemma unat_ucast_u64 [word_nat]: "unat (ucast p :: u64) = unat p" for p :: u32
  by (simp add: unsigned_ucast_eq unsigned_take_bit_eq [symmetric] take_bit_word_eq_self)

lemma unat_ucast_price: "unat c < 2 ^ 32 \<Longrightarrow> unat (ucast c :: u32) = unat c" for c :: u64
  by (simp add: unsigned_ucast_eq take_bit_nat_eq_self)

text \<open>An accepted limit price is the OUCH price in whole cents, inside the band.\<close>

lemma to_engine_price_limit:
  assumes "to_engine_price op band = Some ep" and "ep_type ep = LIMIT"
  shows "op = to_ouch_price (ep_price ep) \<and> band_min band \<le> ep_price ep \<and> ep_price ep \<le> band_max band"
proof -
  let ?c = "op div kOuchTicksPerCent"
  from assms have nm: "\<not> op \<ge> kOuchMarketPriceFloor" and le: "\<not> op > kOuchMaxLimitPrice"
    and m: "op mod kOuchTicksPerCent = 0"
    and b: "\<not> ?c < ucast (band_min band)" "\<not> ?c > ucast (band_max band)" and ep: "ep_price ep = ucast ?c"
    by (auto simp: to_engine_price_def Let_def split: if_splits)
  have c: "unat ?c = unat op div 100" by (simp add: kOuchTicksPerCent_def unat_div)
  have mz: "unat op mod 100 = 0"
    using arg_cong [OF m, of unat] by (simp add: kOuchTicksPerCent_def unat_mod)
  have small: "unat op \<le> 1999999900" using le by (simp add: kOuchMaxLimitPrice_def word_nat)
  then have c32: "unat ?c < 2 ^ 32" unfolding c by simp
  have u: "unat (ep_price ep) = unat op div 100" unfolding ep using unat_ucast_price [OF c32] c by simp
  have "unat ((ucast (ep_price ep) :: u64) * kOuchTicksPerCent) = unat op div 100 * 100"
    using u small by (subst unat_mult_lem [THEN iffD1]) (simp_all add: unat_ucast_u64 kOuchTicksPerCent_def)
  also have "\<dots> = unat op" using mz by (metis add_0_right div_mult_mod_eq)
  finally have "to_ouch_price (ep_price ep) = op" by (simp add: to_ouch_price_def word_unat_eq_iff)
  moreover have "unat (band_min band) \<le> unat op div 100" "unat op div 100 \<le> unat (band_max band)"
    using b by (simp_all add: word_nat c unat_ucast_u64 not_less)
  ultimately show ?thesis using u by (simp add: word_nat)
qed

lemma to_engine_price_market:
  "to_engine_price op band = Some ep \<Longrightarrow> ep_type ep = MARKET \<Longrightarrow> op \<ge> kOuchMarketPriceFloor \<and> ep_price ep = 0"
  by (auto simp: to_engine_price_def Let_def split: if_splits)

text \<open>And every price of the band is accepted and comes back.\<close>

lemma to_engine_price_of_cents:
  assumes "band_min band \<le> p" "p \<le> band_max band" "unat p * 100 \<le> unat kOuchMaxLimitPrice"
  shows "to_engine_price (to_ouch_price p) band = Some \<lparr>ep_type = LIMIT, ep_price = p\<rparr>"
proof -
  have bnd: "unat p \<le> 19999999" using assms(3) by (simp add: kOuchMaxLimitPrice_def)
  then have v: "unat (to_ouch_price p) = unat p * 100"
    unfolding to_ouch_price_def
    by (subst unat_mult_lem [THEN iffD1]) (simp_all add: unat_ucast_u64 kOuchTicksPerCent_def)
  have d: "to_ouch_price p div kOuchTicksPerCent = ucast p"
    by (simp add: word_unat_eq_iff unat_div v unat_ucast_u64 kOuchTicksPerCent_def)
  have m: "to_ouch_price p mod kOuchTicksPerCent = 0"
    by (simp add: word_unat_eq_iff unat_mod v kOuchTicksPerCent_def)
  have "unat (ucast p :: u64) < 2 ^ 32" using bnd by (simp add: unat_ucast_u64)
  then have "(ucast (ucast p :: u64) :: Price) = p"
    using unat_ucast_price [of "ucast p"] by (simp add: unat_ucast_u64 word_unat_eq_iff)
  moreover have "\<not> to_ouch_price p \<ge> kOuchMarketPriceFloor" "\<not> to_ouch_price p > kOuchMaxLimitPrice"
    using v bnd by (simp_all add: word_nat kOuchMarketPriceFloor_def kOuchMaxLimitPrice_def)
  moreover have "\<not> (ucast p :: u64) < ucast (band_min band)" "\<not> (ucast p :: u64) > ucast (band_max band)"
    using assms(1,2) by (simp_all add: word_nat unat_ucast_u64 not_less)
  ultimately show ?thesis using d m by (simp add: to_engine_price_def Let_def)
qed

lemma side_roundtrip: "to_engine_side (to_ouch_side s) = Some s"
  by (cases s) (simp_all add: to_engine_side_def to_ouch_side_def)

lemma to_ouch_side_of: "to_engine_side c = Some s \<Longrightarrow> to_ouch_side s = c"
  by (auto simp: to_engine_side_def to_ouch_side_def split: if_splits)

text \<open>The ITCH price is the OUCH price cut to 32 bits, exact for every price of the book's ladder.\<close>

lemma unat_to_itch_price: "unat p \<le> 100000 \<Longrightarrow> unat (to_itch_price p) = unat p * 100"
proof -
  assume "unat p \<le> 100000"
  then have "unat (to_ouch_price p) = unat p * 100"
    unfolding to_ouch_price_def
    by (subst unat_mult_lem [THEN iffD1]) (simp_all add: unat_ucast_u64 kOuchTicksPerCent_def)
  with \<open>unat p \<le> 100000\<close> show ?thesis
    by (simp add: to_itch_price_def to_ouch_price_def [symmetric] unat_ucast_price)
qed

lemma option_reason_nonzero: "unsupported_option_reason m \<in> {0, kInvalidMinQuantity, kInvalidMaxFloor, kInvalidPegType, kOther}"
  by (simp add: unsupported_option_reason_def)

text \<open>An accepted Enter: a valid side, quantity and time in force, and a market or in-band limit price.\<close>

lemma check_enter_accepted:
  assumes "ec_reject_reason (check_enter m band) = 0"
  shows "to_engine_side (eo_side m) = Some (ec_side (check_enter m band))"
    "0 < eo_quantity m \<and> eo_quantity m \<le> kOuchMaxQuantity"
    "to_engine_price (eo_price m) band =
       Some \<lparr>ep_type = ec_order_type (check_enter m band), ep_price = ec_price (check_enter m band)\<rparr>"
    "to_engine_tif (eo_time_in_force m) = Some (ec_time_in_force (check_enter m band))"
    "unsupported_option_reason (enter_options m) = 0"
  using assms
  by (auto simp: check_enter_def reject_enter_def new_EnterCheck_def ouch_reject_defs valid_quantity_def Let_def
      split: option.splits if_splits)

lemma check_replace_valid:
  assumes "rc_valid (check_replace m orig_side band)"
  shows "0 < rp_quantity m \<and> rp_quantity m \<le> kOuchMaxQuantity"
    "to_engine_price (rp_price m) band = Some \<lparr>ep_type = LIMIT, ep_price = rc_price (check_replace m orig_side band)\<rparr>"
    "to_engine_tif (rp_time_in_force m) = Some (rc_time_in_force (check_replace m orig_side band))"
    "tag_has (rp_appendage m) SIDE \<Longrightarrow> rp_side m = orig_side"
  using assms
  by (auto simp: check_replace_def new_ReplaceCheck_def valid_quantity_def
      split: option.splits if_splits)

end
