(* ===== verification/Infra_Props.thy ===== *)
theory Infra_Props
  imports Ring_Channel Itch_Proto Ouch_Inbound Ouch_Outbound Tsc_Clock Validation
begin

text \<open>
  Properties of the infrastructure under \<open>src/src/infra\<close>: the rings, sequentially and with two threads,
  the wire formats, the clock and the validation of inbound orders.
\<close>

section \<open>Rings\<close>

text \<open>Any sequence of calls on a ring, and the same calls on a bounded list.\<close>

datatype 'a ring_call = PushCall 'a | PopCall
datatype 'a ring_reply = PushReply bool | PopReply "'a option"

fun ring_run :: "'a ring_call list \<Rightarrow> 'a RingBuffer \<Rightarrow> 'a ring_reply list \<times> 'a RingBuffer" where
  "ring_run [] r = ([], r)"
| "ring_run (PushCall x # cs) r =
     (let (b, r1) = rb_push x r; (rs, r2) = ring_run cs r1 in (PushReply b # rs, r2))"
| "ring_run (PopCall # cs) r =
     (let (v, r1) = rb_pop r; (rs, r2) = ring_run cs r1 in (PopReply v # rs, r2))"

fun fifo_run :: "nat \<Rightarrow> 'a ring_call list \<Rightarrow> 'a list \<Rightarrow> 'a ring_reply list \<times> 'a list" where
  "fifo_run n [] xs = ([], xs)"
| "fifo_run n (PushCall x # cs) xs =
     (let (rs, ys) = fifo_run n cs (if length xs < n then xs @ [x] else xs) in (PushReply (length xs < n) # rs, ys))"
| "fifo_run n (PopCall # cs) xs =
     (let (rs, ys) = fifo_run n cs (tl xs) in (PopReply (if xs = [] then None else Some (hd xs)) # rs, ys))"

lemma ring_run_fifo:
  assumes "rb_inv r"
  shows "fst (ring_run cs r) = fst (fifo_run (rb_limit r) cs (rb_contents r))
    \<and> rb_contents (snd (ring_run cs r)) = snd (fifo_run (rb_limit r) cs (rb_contents r))"
  using assms
proof (induction cs arbitrary: r)
  case Nil then show ?case by simp
next
  case (Cons c cs)
  show ?case
  proof (cases c)
    case (PushCall x)
    obtain b r1 where p: "rb_push x r = (b, r1)" by fastforce
    note P = rb_push_spec [OF Cons.prems p]
    from P Cons.IH [of r1] show ?thesis by (simp add: PushCall p split_beta)
  next
    case PopCall
    obtain v r1 where p: "rb_pop r = (v, r1)" by fastforce
    note P = rb_pop_spec [OF Cons.prems p]
    from P Cons.IH [of r1] show ?thesis by (cases v) (auto simp: PopCall p split_beta)
  qed
qed

text \<open>
  C19. Every sequence of \<open>push\<close> and \<open>pop\<close> calls on a new ring of a power-of-two size returns what the
  same calls return on a FIFO queue that holds one element less than the ring has slots: the cached
  indices, the masking and the one free slot are invisible to the callers.
\<close>

theorem ring_implements_fifo:
  assumes "unat N = 2 ^ k" and "k < 32"
  shows "fst (ring_run calls (new_RingBuffer N d)) = fst (fifo_run (unat N - 1) calls [])"
  using ring_run_fifo [OF new_RingBuffer_inv(1) [OF assms, of d], of calls] new_RingBuffer_inv [OF assms, of d] by simp

theorem ring_implements_fifo_witness:
  "fst (ring_run [PushCall 7, PushCall 8, PopCall, PopCall, PopCall] (new_RingBuffer 2 (0::nat)))
     = [PushReply True, PushReply False, PopReply (Some 7), PopReply None, PopReply None]"
  using ring_implements_fifo [of 2 1 "[PushCall 7, PushCall 8, PopCall, PopCall, PopCall]" "0::nat"] by simp

lemma spsc_state:
  assumes "spsc_reachable (new_RingBuffer N d) s" "unat N = 2 ^ k" "k < 32"
  shows "spsc_inv s"
  using assms spsc_reachable_inv new_RingBuffer_inv [OF assms(2,3), of d] by blast

lemma spsc_limit:
  assumes "spsc_reachable r s"
  shows "rb_mask (ring s) = rb_mask r"
  using assms
proof (induction rule: spsc_reachable.induct)
  case start then show ?case by (simp add: spsc_init_def)
next
  case (step s t) from step(2,3) show ?case by (induction rule: spsc_step.induct) auto
qed

text \<open>
  C20. However the producer's and the consumer's loads and stores interleave, the items popped so far
  are a prefix of the items pushed so far, in order, and the ones in between are at most
  one less than the ring has slots: nothing is lost, duplicated, reordered or overwritten.
\<close>

theorem spsc_no_loss:
  assumes "spsc_reachable (new_RingBuffer N d) s" and "unat N = 2 ^ k" and "k < 32"
  shows "\<exists>inside. pushed s = popped s @ inside \<and> length inside \<le> unat N - 1"
proof (intro exI conjI)
  have inv: "rb_inv (ring s)" and p: "pushed s = popped s @ rb_contents (ring s)"
    using spsc_state [OF assms] by (auto simp: spsc_inv_def)
  show "pushed s = popped s @ rb_contents (ring s)" by (rule p)
  have "rb_limit (ring s) = rb_limit (new_RingBuffer N d)"
    using spsc_limit [OF assms(1)] by (simp add: rb_limit_def rb_len_def)
  then show "length (rb_contents (ring s)) \<le> unat N - 1"
    using rb_invD(7) [OF inv] new_RingBuffer_inv(3) [OF assms(2,3), of d] by (simp add: rb_limit_def)
qed

text \<open>A run in which the consumer is about to read one slot while the producer is about to write the next.\<close>

definition spsc_run :: "nat Spsc" where
  "spsc_run = \<lparr> ring = (new_RingBuffer 4 0)\<lparr>write_idx := 1, cached_write_idx := 1,
       rb_buffer := (\<lambda>_. 0)(0 := 5)\<rparr>,
     ppc = P_WriteSlot 6, cpc = C_ReadSlot, pushed = [5], popped = [] \<rparr>"

lemma spsc_run_reachable: "spsc_reachable (new_RingBuffer 4 0) spsc_run"
proof -
  let ?r = "new_RingBuffer 4 (0::nat)"
  note step = spsc_reachable.step
  have "spsc_reachable ?r (spsc_init ?r)" by (rule spsc_reachable.start)
  from step [OF this push_call [of _ 5]] have "spsc_reachable ?r ((spsc_init ?r)\<lparr>ppc := P_WriteSlot 5\<rparr>)"
    by (simp add: spsc_init_def new_RingBuffer_def next_idx_def)
  from step [OF this push_write [of _ 5]] have "spsc_reachable ?r
      \<lparr> ring = ?r\<lparr>rb_buffer := (\<lambda>_. 0)(0 := 5)\<rparr>, ppc = P_StoreWrite 5, cpc = C_Idle, pushed = [], popped = [] \<rparr>"
    by (simp add: spsc_init_def new_RingBuffer_def next_idx_def)
  from step [OF this push_store [of _ 5]] have "spsc_reachable ?r
      \<lparr> ring = ?r\<lparr>write_idx := 1, rb_buffer := (\<lambda>_. 0)(0 := 5)\<rparr>, ppc = P_Idle, cpc = C_Idle, pushed = [5], popped = [] \<rparr>"
    by (simp add: new_RingBuffer_def next_idx_def)
  from step [OF this pop_call] have "spsc_reachable ?r
      \<lparr> ring = ?r\<lparr>write_idx := 1, rb_buffer := (\<lambda>_. 0)(0 := 5)\<rparr>, ppc = P_Idle, cpc = C_LoadWrite, pushed = [5], popped = [] \<rparr>"
    by (simp add: new_RingBuffer_def next_idx_def)
  from step [OF this pop_load] have "spsc_reachable ?r
      \<lparr> ring = ?r\<lparr>write_idx := 1, cached_write_idx := 1, rb_buffer := (\<lambda>_. 0)(0 := 5)\<rparr>,
        ppc = P_Idle, cpc = C_ReadSlot, pushed = [5], popped = [] \<rparr>"
    by (simp add: new_RingBuffer_def next_idx_def)
  from step [OF this push_call [of _ 6]] show ?thesis
    by (simp add: new_RingBuffer_def next_idx_def spsc_run_def)
qed

theorem spsc_no_loss_witness:
  "pushed spsc_run = [5] \<and> (\<exists>inside. pushed spsc_run = popped spsc_run @ inside \<and> length inside \<le> 3)"
  using spsc_no_loss [OF spsc_run_reachable, of 2] by (simp add: spsc_run_def)

text \<open>
  C31. The two threads never touch the same slot at the same time: whenever the producer is about
  to write a slot while the consumer is about to read one, or holds the one it has read without having
  released it, the two slots differ.
\<close>

theorem spsc_no_slot_race:
  assumes "spsc_reachable (new_RingBuffer N d) s" and "unat N = 2 ^ k" and "k < 32"
    and "ppc s = P_WriteSlot x" and "cpc s = C_ReadSlot \<or> cpc s = C_StoreRead y"
  shows "write_idx (ring s) \<noteq> read_idx (ring s)"
  using spsc_state [OF assms(1-3)] assms(4,5) rb_nonempty_slots_differ [of "ring s"] by (auto simp: spsc_inv_def)

theorem spsc_no_slot_race_witness:
  "ppc spsc_run = P_WriteSlot 6 \<and> cpc spsc_run = C_ReadSlot \<and> write_idx (ring spsc_run) \<noteq> read_idx (ring spsc_run)"
  using spsc_no_slot_race [OF spsc_run_reachable, of 2 6] by (simp add: spsc_run_def)

text \<open>
  \<open>size()\<close> is the number of items in the ring, also once the write index has wrapped around
  below the read index.
\<close>

theorem ring_size_exact:
  assumes "rb_inv r"
  shows "unat (rb_size r) = length (rb_contents r)"
proof -
  note D = rb_invD [OF assms]
  obtain k where k: "k < 32" "rb_len r = 2 ^ k" using assms by (auto simp: rb_inv_def)
  have "(2::nat) ^ k \<le> 2 ^ 31" using k(1) by (intro power_increasing) auto
  then have n: "rb_len r \<le> 2 ^ 31" using k(2) by simp
  show ?thesis
  proof (cases "read_idx r \<le> write_idx r")
    case True
    then show ?thesis by (simp add: rb_size_def rb_used_def dist_def unat_sub word_le_nat_alt)
  next
    case False
    then have lt: "unat (write_idx r) < unat (read_idx r)" by (simp add: word_nat not_le)
    have m: "unat (rb_mask r + 1) = rb_len r"
      using n by (subst unat_inc_bounded) (simp_all add: rb_len_def)
    have m64: "unat (ucast (rb_mask r + 1) :: usize) = rb_len r"
      using m n by (simp add: unsigned_ucast_eq take_bit_nat_eq_self)
    have "rb_size r = ucast (rb_mask r + 1) - (read_idx r - write_idx r)"
      using False by (simp add: rb_size_def)
    also have "unat \<dots> = rb_len r - (unat (read_idx r) - unat (write_idx r))"
      using lt D m64 by (subst unat_sub) (simp_all add: word_nat unat_sub)
    finally show ?thesis using lt D(2) by (simp add: rb_used_def dist_def)
  qed
qed

theorem ring_size_exact_witness:
  "let r = snd (ring_run [PushCall 1, PushCall 2, PopCall, PopCall, PushCall 3, PushCall 4] (new_RingBuffer 4 (0::nat)))
   in write_idx r < read_idx r \<and> unat (rb_size r) = 2"
proof -
  define r where "r = snd (ring_run [PushCall 1, PushCall 2, PopCall, PopCall, PushCall 3, PushCall 4] (new_RingBuffer 4 (0::nat)))"
  have r: "write_idx r = 0" "read_idx r = 2" "cached_read_idx r = 2" "cached_write_idx r = 2" "rb_mask r = 3"
    by (simp_all add: r_def new_RingBuffer_def rb_push_def rb_pop_def next_idx_def Let_def)
  have len: "rb_len r = 4" by (simp add: rb_len_def r)
  have used: "rb_used r = 2" by (simp add: rb_used_def len r dist_def)
  have "rb_inv r" unfolding rb_inv_def len used r by (auto simp: dist_def intro: exI [of _ "2::nat"])
  from ring_size_exact [OF this] have "unat (rb_size r) = 2" by (simp add: used)
  with r have "write_idx r < read_idx r \<and> unat (rb_size r) = 2" by simp
  then show ?thesis unfolding Let_def r_def .
qed

text \<open>
  C32. The blocking push \<open>while (!ring.push(x)) {}\<close> of the order book and of the server returns as long as the
  consumer keeps popping now and then, and it has then delivered the item exactly once, behind
  everything sent earlier.
\<close>

theorem push_spin_delivers:
  assumes "channel_inv c"
  shows "\<exists>c'. push_spin x c = Some c' \<and> channel_inv c' \<and> channel_sent c' = channel_sent c @ [x]"
  using push_spin_spec [OF assms, of x] by blast

theorem push_spin_delivers_witness:
  "\<exists>c'. push_spin (9::nat) (new_Channel 2 0 (\<lambda>k. k mod 2)) = Some c' \<and> channel_sent c' = [9]"
proof -
  have fair: "\<forall>i::nat. \<exists>j\<ge>i. 0 < j mod 2"
  proof
    fix i :: nat
    have "i \<le> 2 * i + 1 \<and> 0 < (2 * i + 1) mod 2" by simp
    then show "\<exists>j\<ge>i. 0 < j mod 2" by blast
  qed
  have "channel_inv (new_Channel 2 (0::nat) (\<lambda>k. k mod 2))" "channel_sent (new_Channel 2 (0::nat) (\<lambda>k. k mod 2)) = []"
    using fair by (auto intro: new_Channel_inv [of _ 1])
  with push_spin_delivers [of "new_Channel 2 (0::nat) (\<lambda>k. k mod 2)" 9] show ?thesis by auto
qed

section \<open>Wire formats\<close>

text \<open>
  C33. Every well-formed ITCH message survives the wire: \<open>encode_itch\<close> into a buffer with room for it reports
  exactly \<open>encoded_size\<close> bytes, and \<open>decode_itch\<close> of those bytes is the message.
\<close>

theorem itch_roundtrip:
  assumes "wf_itch m" and "encoded_size_itch m \<le> length out"
  shows "fst (encode_itch m out) = encoded_size_itch m
    \<and> decode_itch (take (encoded_size_itch m) (snd (encode_itch m out))) = m"
proof -
  have "m \<noteq> ItchNone" using assms(1) by auto
  from encode_itch_spec [OF this assms(2)] decode_itch_wire [OF assms(1)] show ?thesis by simp
qed

definition sample_delete :: ITCH where
  "sample_delete = OrderDelete \<lparr> id_header = \<lparr> ih_message_type = ORDER_DELETE, ih_stock_locate = 1,
     ih_tracking_number = 0, ih_timestamp = 34200000000000 \<rparr>, id_order_reference_number = 77 \<rparr>"

lemma sample_delete_ok: "wf_itch sample_delete" "encoded_size_itch sample_delete = 19"
  by code_simp+

theorem itch_roundtrip_witness:
  "fst (encode_itch sample_delete (replicate 32 0)) = 19
   \<and> decode_itch (take 19 (snd (encode_itch sample_delete (replicate 32 0)))) = sample_delete"
  using itch_roundtrip [of sample_delete "replicate 32 0"] sample_delete_ok by simp

text \<open>
  C34. Every well-formed OUCH request survives the wire, whichever of its optional tags it carries: encoding into
  a buffer with room reports \<open>encoded_size\<close> bytes, and decoding those bytes gives the request back,
  with the same tags present.
\<close>

theorem ouch_inbound_roundtrip:
  assumes "wf_inbound m" and "encoded_size_inbound m \<le> length out"
  shows "fst (encode_inbound_ouch m out) = encoded_size_inbound m
    \<and> decode_inbound_ouch (take (encoded_size_inbound m) (snd (encode_inbound_ouch m out))) = m"
proof -
  have "m \<noteq> InboundNone" using assms(1) by auto
  from encode_inbound_spec [OF this assms(2)] decode_inbound_wire [OF assms(1)] show ?thesis by simp
qed

definition sample_cancel :: OuchCancelOrder where
  "sample_cancel = (set_tag_OuchCancelOrder USER_REF_IDX (W8 3)
     (default_OuchCancelOrder\<lparr>xo_user_ref_num := 12, xo_quantity := 40\<rparr>))\<lparr>xo_appendage := tag_set USER_REF_IDX 0\<rparr>"

lemma sample_cancel_ok: "wf_OuchCancelOrder sample_cancel"
  "encoded_size_inbound (CancelOrder sample_cancel) = 14"
  by (simp_all add: wf_OuchCancelOrder_def ouch_wf_def sample_cancel_def set_tag_OuchCancelOrder_def
      default_OuchCancelOrder_def core_OuchCancelOrder_def tags_OuchCancelOrder_def tag_types_def
      bit_tag_set tag_has_set ouch_encoded_size_def wire_sizer_def kAppendageLengthLen_def kTagValueHeaderLen_def)

theorem ouch_inbound_roundtrip_witness:
  "fst (encode_inbound_ouch (CancelOrder sample_cancel) (replicate 20 0)) = 14
   \<and> decode_inbound_ouch (take 14 (snd (encode_inbound_ouch (CancelOrder sample_cancel) (replicate 20 0))))
     = CancelOrder sample_cancel"
  using ouch_inbound_roundtrip [of "CancelOrder sample_cancel" "replicate 20 0"] sample_cancel_ok
  by (simp del: encoded_size_inbound.simps encode_inbound_ouch.simps)

text \<open>
  C35. Every well-formed OUCH response survives the wire in the same way.
\<close>

theorem ouch_outbound_roundtrip:
  assumes "wf_outbound m" and "encoded_size_outbound m \<le> length out"
  shows "fst (encode_outbound_ouch m out) = encoded_size_outbound m
    \<and> decode_outbound_ouch (take (encoded_size_outbound m) (snd (encode_outbound_ouch m out))) = m"
proof -
  have "m \<noteq> OutboundNone" using assms(1) by auto
  from encode_outbound_spec [OF this assms(2)] decode_outbound_wire [OF assms(1)] show ?thesis by simp
qed

definition sample_canceled :: OuchOrderCanceled where
  "sample_canceled = default_OuchOrderCanceled\<lparr>oc_timestamp := 34200000000000, oc_user_ref_num := 12,
     oc_decrement_shares := 40, oc_reason := kUserRequested\<rparr>"

lemma sample_canceled_ok: "wf_OuchOrderCanceled sample_canceled"
  "encoded_size_outbound (OrderCanceled sample_canceled) = 20"
  by (simp_all add: wf_OuchOrderCanceled_def ouch_wf_def sample_canceled_def
      default_OuchOrderCanceled_def core_OuchOrderCanceled_def tags_OuchOrderCanceled_def tag_types_def
      tag_has_def ouch_encoded_size_def wire_sizer_def kAppendageLengthLen_def kTagValueHeaderLen_def)

theorem ouch_outbound_roundtrip_witness:
  "fst (encode_outbound_ouch (OrderCanceled sample_canceled) (replicate 20 0)) = 20
   \<and> decode_outbound_ouch (take 20 (snd (encode_outbound_ouch (OrderCanceled sample_canceled) (replicate 20 0))))
     = OrderCanceled sample_canceled"
  using ouch_outbound_roundtrip [of "OrderCanceled sample_canceled" "replicate 20 0"] sample_canceled_ok
  by (simp del: encoded_size_outbound.simps encode_outbound_ouch.simps)

text \<open>
  A buffer too small for an OUCH response is reported as such: \<open>encode_outbound_ouch\<close> returns 0
  instead of a truncated message.
\<close>

theorem ouch_outbound_too_small:
  assumes "length out < encoded_size_outbound m"
  shows "fst (encode_outbound_ouch m out) = 0"
  using assms by (rule encode_outbound_too_small)

theorem ouch_outbound_too_small_witness:
  "fst (encode_outbound_ouch (OrderCanceled sample_canceled) (replicate 19 0)) = 0"
  by (rule ouch_outbound_too_small) (simp add: sample_canceled_ok(2) del: encoded_size_outbound.simps)

section \<open>Clock\<close>

text \<open>
  C36. A timestamp is exact: the time of day at the anchor plus the ticks since then, converted at the calibrated rate
  and rounded down to a nanosecond, modulo a day. Neither the product of ticks and rate nor the shift loses
  anything, and a reading from before the anchor counts as the anchor. The hypothesis is that the
  mathematical sum fits the 64 bits it is kept in, which it does for more than five hundred years.
\<close>

theorem timestamp_exact:
  assumes "unat (anchor_ns_since_midnight c)
      + (unat tsc - unat (anchor_tsc c)) * unat (ns_per_tick_q32 c) div 2 ^ 32 < 2 ^ 64"
  shows "unat (ns_since_midnight c tsc) = (unat (anchor_ns_since_midnight c)
      + (unat tsc - unat (anchor_tsc c)) * unat (ns_per_tick_q32 c) div 2 ^ 32) mod (86400 * 10 ^ 9)"
  using unat_ns_since_midnight [OF assms] by (simp add: kNsPerDay_val)

theorem timestamp_exact_witness:
  "unat (ns_since_midnight \<lparr> anchor_tsc = 1000, anchor_ns_since_midnight = 86399000000000, ns_per_tick_q32 = 1431655765 \<rparr>
     6000001000) = 999999999"
  using timestamp_exact [of "\<lparr> anchor_tsc = 1000, anchor_ns_since_midnight = 86399000000000, ns_per_tick_q32 = 1431655765 \<rparr>" 6000001000]
  by simp

text \<open>
  Until midnight passes, a later reading of the counter never gives an earlier time of day.
\<close>

theorem timestamps_monotone:
  assumes "anchor_tsc c \<le> t" and "t \<le> t'"
    and "unat (anchor_ns_since_midnight c)
        + unat (t' - anchor_tsc c) * unat (ns_per_tick_q32 c) div 2 ^ 32 < unat kNsPerDay"
  shows "ns_since_midnight c t \<le> ns_since_midnight c t'"
  using assms by (rule ns_since_midnight_mono)

theorem timestamps_monotone_witness:
  "let c = \<lparr> anchor_tsc = 1000, anchor_ns_since_midnight = 34200000000000, ns_per_tick_q32 = 1431655765 \<rparr>
   in ns_since_midnight c 4000 \<le> ns_since_midnight c 7000"
  using timestamps_monotone [of "\<lparr> anchor_tsc = 1000, anchor_ns_since_midnight = 34200000000000, ns_per_tick_q32 = 1431655765 \<rparr>" 4000 7000]
  by (simp add: kNsPerDay_val)

section \<open>Validation\<close>

text \<open>
  C37. An Enter Order that passes validation becomes an order the book can hold: a positive quantity below
  a million, and either a market order or a limit price that is the OUCH price in whole cents inside
  the price band; the side is the one the message asked for.
\<close>

theorem validated_enter_is_bookable:
  assumes "ec_reject_reason (check_enter m band) = 0"
  shows "0 < eo_quantity m \<and> eo_quantity m \<le> 999999
    \<and> eo_side m = to_ouch_side (ec_side (check_enter m band))
    \<and> (case ec_order_type (check_enter m band) of
         MARKET \<Rightarrow> eo_price m \<ge> kOuchMarketPriceFloor
       | LIMIT \<Rightarrow> eo_price m = to_ouch_price (ec_price (check_enter m band))
           \<and> band_min band \<le> ec_price (check_enter m band) \<and> ec_price (check_enter m band) \<le> band_max band)"
proof -
  note A = check_enter_accepted [OF assms]
  have "eo_side m = to_ouch_side (ec_side (check_enter m band))"
    using A(1) by (auto simp: to_engine_side_def to_ouch_side_def split: if_splits)
  moreover have "eo_quantity m \<le> 999999" "0 < eo_quantity m" using A(2) by (simp_all add: kOuchMaxQuantity_def)
  ultimately show ?thesis
    using to_engine_price_limit [OF A(3)] to_engine_price_market [OF A(3)]
    by (cases "ec_order_type (check_enter m band)") simp_all
qed

definition sample_enter :: OuchEnterOrder where
  "sample_enter = default_OuchEnterOrder\<lparr>eo_user_ref_num := 1, eo_side := ch CHR ''B'', eo_quantity := 100,
     eo_price := 102500, eo_time_in_force := ch CHR ''0'', eo_display := ch CHR ''Y'', eo_capacity := ch CHR ''A'',
     eo_intermarket_sweep_eligibility := ch CHR ''N'', eo_cross_type := ch CHR ''N''\<rparr>"

lemma sample_enter_ok:
  "check_enter sample_enter \<lparr>band_min = MIN_PRICE, band_max = MAX_PRICE\<rparr> =
     \<lparr> ec_reject_reason = 0, ec_side = BID, ec_order_type = LIMIT, ec_price = 1025, ec_time_in_force = DAY \<rparr>"
  by code_simp

theorem validated_enter_is_bookable_witness:
  "ec_price (check_enter sample_enter \<lparr>band_min = MIN_PRICE, band_max = MAX_PRICE\<rparr>) = 1025
   \<and> eo_quantity sample_enter \<le> 999999 \<and> eo_price sample_enter = to_ouch_price 1025"
  using validated_enter_is_bookable [of sample_enter "\<lparr>band_min = MIN_PRICE, band_max = MAX_PRICE\<rparr>"]
  by (simp add: sample_enter_ok)

text \<open>
  Prices convert without loss: a price of the exchange's band is accepted as a limit price when it comes in as the
  OUCH price the exchange would send out for it, and comes out as the same price; so an order can always
  be replaced at the price the exchange reported for it.
\<close>

theorem price_roundtrip:
  assumes "in_band p"
  shows "to_engine_price (to_ouch_price p) \<lparr>band_min = MIN_PRICE, band_max = MAX_PRICE\<rparr>
    = Some \<lparr>ep_type = LIMIT, ep_price = p\<rparr>"
proof (rule to_engine_price_of_cents)
  have "unat p \<le> 100000" using assms by (simp add: in_band_def price_band_defs word_nat)
  then show "unat p * 100 \<le> unat kOuchMaxLimitPrice" by (simp add: kOuchMaxLimitPrice_def)
qed (use assms in \<open>simp_all add: in_band_def\<close>)

theorem price_roundtrip_witness:
  "in_band 1025 \<and> to_engine_price (to_ouch_price 1025) \<lparr>band_min = MIN_PRICE, band_max = MAX_PRICE\<rparr>
    = Some \<lparr>ep_type = LIMIT, ep_price = 1025\<rparr>"
  using price_roundtrip [of 1025] by (simp add: in_band_def price_band_defs)

end
