(* ===== verification/Order_Pool.thy ===== *)
theory Order_Pool
  imports Order_Types
begin

text \<open>
  The resting order (\<open>engine/include/order.hpp\<close>) and the pool that owns every order object
  (\<open>engine/include/order_pool.hpp\<close>). An \<open>Order*\<close> is an index into the pool's arena. The arena is a
  store, a function from indices to orders, with its size in \<^term>\<open>pool_capacity\<close>; the free list is a stack
  whose top is its last element, as in the \<open>std::vector\<close> of the source.
\<close>

record Order =
  ord_id :: OrderId
  ord_prev :: ptr
  ord_next :: ptr
  ord_client :: ClientId
  ord_price :: Price
  ord_open :: Quantity
  ord_exec :: Quantity
  ord_side :: Side

definition mk_Order ::
  "OrderId \<Rightarrow> ClientId \<Rightarrow> Side \<Rightarrow> Price \<Rightarrow> Quantity \<Rightarrow> Quantity \<Rightarrow> Order" where
  "mk_Order oid client_id side price open_quantity executed_quantity =
     \<lparr> ord_id = oid, ord_prev = None, ord_next = None, ord_client = client_id, ord_price = price,
       ord_open = open_quantity, ord_exec = executed_quantity, ord_side = side \<rparr>"

definition is_filled :: "Order \<Rightarrow> bool" where
  "is_filled ord \<longleftrightarrow> ord_open ord = 0"

definition set_next :: "ptr \<Rightarrow> Order \<Rightarrow> Order" where
  "set_next nxt ord = ord\<lparr>ord_next := nxt\<rparr>"

definition set_prev :: "ptr \<Rightarrow> Order \<Rightarrow> Order" where
  "set_prev prv ord = ord\<lparr>ord_prev := prv\<rparr>"

text \<open>An order as the book's users see it: without the links that thread it into a price level.\<close>

record RestingOrder =
  ro_id :: OrderId
  ro_client :: ClientId
  ro_side :: Side
  ro_price :: Price
  ro_open :: Quantity
  ro_exec :: Quantity

definition view :: "Order \<Rightarrow> RestingOrder" where
  "view ord = \<lparr> ro_id = ord_id ord, ro_client = ord_client ord, ro_side = ord_side ord,
     ro_price = ord_price ord, ro_open = ord_open ord, ro_exec = ord_exec ord \<rparr>"

lemma view_sel [simp]:
  "ro_id (view ord) = ord_id ord" "ro_client (view ord) = ord_client ord"
  "ro_side (view ord) = ord_side ord" "ro_price (view ord) = ord_price ord"
  "ro_open (view ord) = ord_open ord" "ro_exec (view ord) = ord_exec ord"
  by (simp_all add: view_def)

lemma view_set_links [simp]:
  "view (set_next n ord) = view ord" "view (set_prev n ord) = view ord"
  by (simp_all add: view_def set_next_def set_prev_def)

lemma set_links_sel [simp]:
  "ord_next (set_next n ord) = n" "ord_prev (set_next n ord) = ord_prev ord"
  "ord_prev (set_prev n ord) = n" "ord_next (set_prev n ord) = ord_next ord"
  by (simp_all add: set_next_def set_prev_def)

type_synonym arena = "nat \<Rightarrow> Order"

record OrderPool =
  pool_arena :: arena
  pool_capacity :: nat
  pool_free :: "nat list"

text \<open>
  A default-constructed slot has null links and unspecified other fields; zeros stand for the
  latter, which nothing reads before \<open>allocate\<close> overwrites them.
\<close>

definition default_Order :: Order where
  "default_Order = mk_Order 0 0 BID 0 0 0"

definition new_OrderPool :: "nat \<Rightarrow> OrderPool" where
  "new_OrderPool cap = \<lparr> pool_arena = (\<lambda>_. default_Order), pool_capacity = cap, pool_free = rev [0..<cap] \<rparr>"

definition allocate :: "Order \<Rightarrow> OrderPool \<Rightarrow> ptr \<times> OrderPool" where
  "allocate ord pool =
     (if pool_free pool = [] then (None, pool)
      else let slot = last (pool_free pool) in
        (Some slot, pool\<lparr> pool_free := butlast (pool_free pool),
                          pool_arena := (pool_arena pool)(slot := ord) \<rparr>))"

definition deallocate :: "nat \<Rightarrow> OrderPool \<Rightarrow> OrderPool" where
  "deallocate p pool = pool\<lparr> pool_free := pool_free pool @ [p] \<rparr>"

definition available :: "OrderPool \<Rightarrow> nat" where
  "available pool = length (pool_free pool)"

definition in_use :: "OrderPool \<Rightarrow> nat" where
  "in_use pool = pool_capacity pool - length (pool_free pool)"

subsection \<open>The pool partitions its arena\<close>

text \<open>
  \<open>pool_inv U pool\<close>: the slots in \<open>U\<close> are handed out, the others are on the free list, each
  exactly once, and every slot lies in the arena.
\<close>

definition pool_inv :: "nat set \<Rightarrow> OrderPool \<Rightarrow> bool" where
  "pool_inv U pool \<longleftrightarrow> distinct (pool_free pool) \<and> U \<inter> set (pool_free pool) = {}
     \<and> U \<union> set (pool_free pool) = {..<pool_capacity pool}"

lemma new_OrderPool_inv: "pool_inv {} (new_OrderPool cap)"
  by (auto simp: pool_inv_def new_OrderPool_def)

lemma allocate_None_iff: "fst (allocate ord pool) = None \<longleftrightarrow> available pool = 0"
  by (simp add: allocate_def available_def Let_def)

lemma allocate_Some:
  assumes "allocate ord pool = (Some p, pool')" and "pool_inv U pool"
  shows "p \<notin> U" "p < pool_capacity pool" "pool_arena pool' = (pool_arena pool)(p := ord)"
    "pool_capacity pool' = pool_capacity pool" "available pool' = available pool - 1"
    "pool_inv (insert p U) pool'"
proof -
  from assms(1) have ne: "pool_free pool \<noteq> []" and p: "p = last (pool_free pool)"
    and pool': "pool' = pool\<lparr> pool_free := butlast (pool_free pool),
                          pool_arena := (pool_arena pool)(p := ord) \<rparr>"
    by (auto simp: allocate_def Let_def split: if_splits)
  from ne p have fl: "pool_free pool = butlast (pool_free pool) @ [p]" by simp
  then have pin: "p \<in> set (pool_free pool)" by (metis in_set_conv_decomp)
  with assms(2) show "p \<notin> U" "p < pool_capacity pool" by (auto simp: pool_inv_def)
  show "pool_arena pool' = (pool_arena pool)(p := ord)" "pool_capacity pool' = pool_capacity pool"
    "available pool' = available pool - 1"
    by (simp_all add: pool' available_def)
  from assms(2) have "pool_inv U (pool\<lparr>pool_free := butlast (pool_free pool) @ [p]\<rparr>)"
    using fl by simp
  then show "pool_inv (insert p U) pool'"
    by (auto simp: pool' pool_inv_def)
qed

lemma deallocate_inv:
  assumes "pool_inv U pool" and "p \<in> U"
  shows "pool_inv (U - {p}) (deallocate p pool)"
  using assms by (auto simp: pool_inv_def deallocate_def)

lemma deallocate_frame [simp]:
  "pool_arena (deallocate p pool) = pool_arena pool" "pool_capacity (deallocate p pool) = pool_capacity pool"
  "available (deallocate p pool) = Suc (available pool)"
  by (simp_all add: deallocate_def available_def)

lemma in_use_card:
  assumes "pool_inv U pool"
  shows "in_use pool = card U"
proof -
  from assms have U: "U = {..<pool_capacity pool} - set (pool_free pool)"
    and sub: "set (pool_free pool) \<subseteq> {..<pool_capacity pool}"
    and card: "card (set (pool_free pool)) = length (pool_free pool)"
    by (auto simp: pool_inv_def distinct_card)
  from sub have "card U = card {..<pool_capacity pool} - card (set (pool_free pool))"
    unfolding U by (intro card_Diff_subset) (auto intro: finite_subset)
  with card show ?thesis by (simp add: in_use_def)
qed

end
