(* ===== verification/Price_Level_Queue.thy ===== *)
theory Price_Level_Queue
  imports Order_Pool
begin

text \<open>
  One price level's FIFO (\<open>engine/include/price_level_queue.hpp\<close>): an intrusive doubly linked list
  of orders in the arena. Each operation takes the arena and the queue and returns both, in the
  order the source writes them. \<open>queue_of\<close> relates the linked structure to the list of its
  order pointers, front first.
\<close>

record PriceLevelQueue =
  plq_head :: ptr
  plq_tail :: ptr
  plq_count :: usize

definition empty_PLQ :: PriceLevelQueue where
  "empty_PLQ = \<lparr> plq_head = None, plq_tail = None, plq_count = 0 \<rparr>"

definition plq_push :: "arena \<Rightarrow> PriceLevelQueue \<Rightarrow> nat \<Rightarrow> arena \<times> PriceLevelQueue" where
  "plq_push h q new_order =
     (let q1 = (if plq_head q = None then q\<lparr>plq_head := Some new_order\<rparr> else q);
          h1 = (case plq_tail q1 of None \<Rightarrow> h
                | Some t \<Rightarrow>
                    let h' = h(t := set_next (Some new_order) (h t))
                    in h'(new_order := set_prev (Some t) (h' new_order)))
      in (h1, q1\<lparr>plq_tail := Some new_order, plq_count := plq_count q1 + 1\<rparr>))"

definition plq_pop :: "arena \<Rightarrow> PriceLevelQueue \<Rightarrow> ptr \<times> arena \<times> PriceLevelQueue" where
  "plq_pop h q =
     (case plq_head q of
        None \<Rightarrow> (None, h, q)
      | Some res \<Rightarrow>
          let q1 = q\<lparr>plq_head := ord_next (h res)\<rparr>
          in (case plq_head q1 of
                Some n \<Rightarrow> (Some res, h(n := set_prev None (h n)), q1\<lparr>plq_count := plq_count q1 - 1\<rparr>)
              | None \<Rightarrow> (Some res, h, q1\<lparr>plq_tail := None, plq_count := plq_count q1 - 1\<rparr>)))"

definition plq_front :: "PriceLevelQueue \<Rightarrow> ptr" where
  "plq_front q = plq_head q"

definition plq_remove :: "arena \<Rightarrow> PriceLevelQueue \<Rightarrow> nat \<Rightarrow> arena \<times> PriceLevelQueue" where
  "plq_remove h q to_remove =
     (let prv = ord_prev (h to_remove); nxt = ord_next (h to_remove);
          (h1, q1) = (case prv of
                        Some p \<Rightarrow> (h(p := set_next nxt (h p)), q)
                      | None \<Rightarrow> (h, q\<lparr>plq_head := nxt\<rparr>));
          (h2, q2) = (case nxt of
                        Some n \<Rightarrow> (h1(n := set_prev prv (h1 n)), q1)
                      | None \<Rightarrow> (h1, q1\<lparr>plq_tail := prv\<rparr>))
      in (h2, q2\<lparr>plq_count := plq_count q2 - 1\<rparr>))"

definition plq_empty :: "PriceLevelQueue \<Rightarrow> bool" where
  "plq_empty q \<longleftrightarrow> plq_head q = None"

definition plq_size :: "PriceLevelQueue \<Rightarrow> usize" where
  "plq_size q = plq_count q"

subsection \<open>List segments\<close>

text \<open>
  \<open>seg h prv x ps nxt l\<close>: starting at \<open>x\<close>, whose predecessor is \<open>prv\<close>, the links of \<open>h\<close> run
  through \<open>ps\<close> and lead to \<open>nxt\<close>; \<open>l\<close> is the last node passed (or \<open>prv\<close>).
\<close>

fun seg :: "arena \<Rightarrow> ptr \<Rightarrow> ptr \<Rightarrow> nat list \<Rightarrow> ptr \<Rightarrow> ptr \<Rightarrow> bool" where
  "seg h prv x [] nxt l \<longleftrightarrow> x = nxt \<and> l = prv"
| "seg h prv x (p # ps) nxt l \<longleftrightarrow>
     x = Some p \<and> ord_prev (h p) = prv \<and> seg h (Some p) (ord_next (h p)) ps nxt l"

definition queue_of :: "arena \<Rightarrow> PriceLevelQueue \<Rightarrow> nat list \<Rightarrow> bool" where
  "queue_of h q ps \<longleftrightarrow> seg h None (plq_head q) ps None (plq_tail q) \<and> distinct ps
     \<and> plq_count q = of_nat (length ps)"

lemma seg_append:
  "seg h prv x (ps @ qs) nxt l \<longleftrightarrow> (\<exists>m k. seg h prv x ps m k \<and> seg h k m qs nxt l)"
  by (induction ps arbitrary: prv x) auto

text \<open>A segment only depends on the links of its own nodes.\<close>

lemma seg_cong:
  assumes "\<And>p. p \<in> set ps \<Longrightarrow> ord_prev (h' p) = ord_prev (h p) \<and> ord_next (h' p) = ord_next (h p)"
  shows "seg h' prv x ps nxt l = seg h prv x ps nxt l"
  using assms by (induction ps arbitrary: prv x) auto

lemma seg_last: "seg h prv x ps nxt l \<Longrightarrow> l = (if ps = [] then prv else Some (last ps))"
  by (induction ps arbitrary: prv x) auto

lemma seg_first: "seg h prv x ps nxt l \<Longrightarrow> x = (if ps = [] then nxt else Some (hd ps))"
  by (cases ps) auto

text \<open>Redirecting the link out of a segment, and the link back into it.\<close>

lemma seg_set_next:
  assumes "seg h prv x ps nxt (Some t)" and "distinct ps" and "ps \<noteq> []"
  shows "seg (h(t := set_next n (h t))) prv x ps n (Some t)"
  using assms
proof (induction ps arbitrary: prv x)
  case Nil then show ?case by simp
next
  case (Cons p ps)
  show ?case
  proof (cases "ps = []")
    case True
    with Cons.prems show ?thesis by (auto simp: set_next_def)
  next
    case False
    with Cons.prems have s: "seg h (Some p) (ord_next (h p)) ps nxt (Some t)" by simp
    from seg_last [OF s] False have "t \<in> set ps" by simp
    with Cons.prems(2) have "t \<noteq> p" by auto
    with Cons.IH [OF s _ False] Cons.prems show ?thesis by simp
  qed
qed

lemma seg_set_prev:
  assumes "seg h prv (Some n) ps nxt l" and "distinct ps" and "ps \<noteq> []"
  shows "seg (h(n := set_prev v (h n))) v (Some n) ps nxt l"
proof -
  from assms obtain ps' where ps: "ps = n # ps'" and s: "seg h (Some n) (ord_next (h n)) ps' nxt l"
    and nin: "n \<notin> set ps'"
    by (cases ps) auto
  have "seg (h(n := set_prev v (h n))) (Some n) (ord_next (h n)) ps' nxt l"
    using s nin by (subst seg_cong) auto
  then show ?thesis by (simp add: ps set_prev_def)
qed

subsection \<open>The operations keep the queue\<close>

lemma queue_of_new: "queue_of h empty_PLQ []"
  by (simp add: queue_of_def empty_PLQ_def)

lemma queue_of_front: "queue_of h q ps \<Longrightarrow> plq_front q = (if ps = [] then None else Some (hd ps))"
  by (auto simp: queue_of_def plq_front_def dest: seg_first)

lemma queue_of_tail: "queue_of h q ps \<Longrightarrow> plq_tail q = (if ps = [] then None else Some (last ps))"
  by (auto simp: queue_of_def dest: seg_last)

lemma queue_of_empty: "queue_of h q ps \<Longrightarrow> plq_empty q \<longleftrightarrow> ps = []"
  using queue_of_front [of h q ps] by (auto simp: plq_empty_def plq_front_def)

lemma queue_of_cong:
  assumes "queue_of h q ps"
    and "\<And>p. p \<in> set ps \<Longrightarrow> ord_prev (h' p) = ord_prev (h p) \<and> ord_next (h' p) = ord_next (h p)"
  shows "queue_of h' q ps"
  using assms seg_cong [of ps h' h] by (simp add: queue_of_def)

lemma queue_of_push:
  assumes q: "queue_of h q ps" and fresh: "p \<notin> set ps"
    and links: "ord_prev (h p) = None" "ord_next (h p) = None"
    and push: "plq_push h q p = (h', q')"
  shows "queue_of h' q' (ps @ [p])"
proof (cases "ps = []")
  case True
  with assms show ?thesis by (auto simp: queue_of_def plq_push_def Let_def)
next
  case False
  let ?t = "last ps"
  let ?h1 = "h(?t := set_next (Some p) (h ?t))"
  from False have t: "?t \<in> set ps" by simp
  with fresh have neq: "?t \<noteq> p" by auto
  from queue_of_tail [OF q] False have tl: "plq_tail q = Some ?t" by simp
  from queue_of_front [OF q] False have hd: "plq_head q \<noteq> None" by (simp add: plq_front_def)
  from push tl hd have h': "h' = ?h1(p := set_prev (Some ?t) (?h1 p))"
    and q': "q' = q\<lparr>plq_tail := Some p, plq_count := plq_count q + 1\<rparr>"
    by (auto simp: plq_push_def Let_def)
  from q tl have s: "seg h None (plq_head q) ps None (Some ?t)" and d: "distinct ps"
    and c: "plq_count q = of_nat (length ps)"
    by (auto simp: queue_of_def)
  have "seg ?h1 None (plq_head q) ps (Some p) (Some ?t)"
    by (rule seg_set_next [OF s d False])
  then have "seg h' None (plq_head q) ps (Some p) (Some ?t)"
    using fresh by (subst seg_cong [of ps h' ?h1]) (auto simp: h')
  then have "seg h' None (plq_head q) (ps @ [p]) None (Some p)"
    using links neq by (auto simp: seg_append h')
  then show ?thesis
    using d fresh c by (simp add: queue_of_def q' add.commute)
qed

lemma plq_push_frame:
  assumes "queue_of h q ps" and "plq_push h q p = (h', q')" and "x \<notin> insert p (set ps)"
  shows "h' x = h x"
  using assms queue_of_tail [OF assms(1)] queue_of_front [OF assms(1)]
  by (cases "ps = []") (auto simp: plq_push_def plq_front_def Let_def split: if_splits)

lemma plq_push_view:
  assumes "plq_push h q p = (h', q')"
  shows "view (h' x) = view (h x)"
  using assms by (auto simp: plq_push_def Let_def split: option.splits)

lemma queue_of_remove:
  assumes q: "queue_of h q ps" and p: "p \<in> set ps" and rm: "plq_remove h q p = (h', q')"
  shows "queue_of h' q' (remove1 p ps)"
proof -
  from p obtain xs ys where ps: "ps = xs @ p # ys" by (meson split_list)
  from q have s: "seg h None (plq_head q) ps None (plq_tail q)" and d: "distinct ps"
    and c: "plq_count q = of_nat (length ps)" by (auto simp: queue_of_def)
  from d ps have nin: "p \<notin> set xs" "p \<notin> set ys" and dxy: "distinct xs" "distinct ys" "set xs \<inter> set ys = {}"
    by auto
  have lx: "xs \<noteq> [] \<Longrightarrow> last xs \<notin> set ys" and hy: "ys \<noteq> [] \<Longrightarrow> hd ys \<notin> set xs"
    using dxy(3) last_in_set hd_in_set by blast+
  from nin ps have r: "remove1 p ps = xs @ ys" by (simp add: remove1_append)
  let ?prv = "ord_prev (h p)" let ?nxt = "ord_next (h p)"
  from s ps have sx: "seg h None (plq_head q) xs (Some p) ?prv"
    and sy: "seg h (Some p) ?nxt ys None (plq_tail q)"
    by (auto simp: seg_append)
  from seg_last [OF sx] have prv: "?prv = (if xs = [] then None else Some (last xs))" .
  from seg_first [OF sy] have nxt: "?nxt = (if ys = [] then None else Some (hd ys))" .
  define h1 where "h1 = (case ?prv of Some a \<Rightarrow> h(a := set_next ?nxt (h a)) | None \<Rightarrow> h)"
  define hq where "hq = (if xs = [] then ?nxt else plq_head q)"
  have sx1: "seg h1 None hq xs ?nxt ?prv"
  proof (cases "xs = []")
    case True then show ?thesis using prv by (simp add: h1_def hq_def)
  next
    case False
    with seg_set_next [of h None "plq_head q" xs "Some p" "last xs" ?nxt] sx prv dxy
    show ?thesis by (simp add: h1_def hq_def)
  qed
  have sy1: "seg h1 (Some p) ?nxt ys None (plq_tail q)"
    using sy prv lx by (subst seg_cong [of ys h1 h]) (auto simp: h1_def)
  have h': "h' = (case ?nxt of Some n \<Rightarrow> h1(n := set_prev ?prv (h1 n)) | None \<Rightarrow> h1)"
    and q': "plq_head q' = hq" "plq_tail q' = (if ys = [] then ?prv else plq_tail q)"
      "plq_count q' = plq_count q - 1"
    using rm prv nxt by (auto simp: plq_remove_def h1_def hq_def Let_def split: if_splits)
  have sx2: "seg h' None hq xs ?nxt ?prv"
    using sx1 nxt hy by (subst seg_cong [of xs h' h1]) (auto simp: h')
  have sy2: "seg h' ?prv ?nxt ys None (if ys = [] then ?prv else plq_tail q)"
  proof (cases "ys = []")
    case True then show ?thesis using nxt by simp
  next
    case False
    with seg_set_prev [of h1 "Some p" "hd ys" ys None "plq_tail q" ?prv] sy1 nxt dxy
    show ?thesis by (simp add: h')
  qed
  from sx2 sy2 have "seg h' None (plq_head q') (xs @ ys) None (plq_tail q')"
    unfolding seg_append q' by blast
  moreover have "plq_count q' = of_nat (length (xs @ ys))"
    using c ps by (simp add: q')
  ultimately show ?thesis using dxy r by (simp add: queue_of_def)
qed

lemma plq_remove_frame:
  assumes q: "queue_of h q ps" and p: "p \<in> set ps" and rm: "plq_remove h q p = (h', q')"
    and x: "x \<notin> set ps"
  shows "h' x = h x"
proof -
  from p obtain xs ys where ps: "ps = xs @ p # ys" by (meson split_list)
  with q have sx: "seg h None (plq_head q) xs (Some p) (ord_prev (h p))"
    and sy: "seg h (Some p) (ord_next (h p)) ys None (plq_tail q)"
    by (auto simp: queue_of_def seg_append)
  show ?thesis
    using rm x ps seg_last [OF sx] seg_first [OF sy]
    by (auto simp: plq_remove_def Let_def split: if_splits)
qed

lemma plq_remove_view:
  assumes "plq_remove h q p = (h', q')"
  shows "view (h' x) = view (h x)"
  using assms by (auto simp: plq_remove_def Let_def split: option.splits prod.splits)

lemma queue_of_pop:
  assumes q: "queue_of h q ps"
  shows "plq_pop h q =
    (if ps = [] then (None, h, q) else case plq_remove h q (hd ps) of (h', q') \<Rightarrow> (Some (hd ps), h', q'))"
proof (cases ps)
  case Nil
  with queue_of_front [OF q] show ?thesis by (simp add: plq_pop_def plq_front_def)
next
  case (Cons p ps')
  with q have hd: "plq_head q = Some p" and prv: "ord_prev (h p) = None"
    by (auto simp: queue_of_def)
  then show ?thesis
    by (cases "ord_next (h p)") (auto simp: plq_pop_def plq_remove_def Cons Let_def)
qed

subsection \<open>The level interface\<close>

text \<open>
  What the book relies on: a queue stands for a list of order pointers, \<open>push\<close> appends, \<open>remove\<close>
  takes out one element, neither touches an order outside the queue, and neither changes an order's
  own data. The client's facts are about a family of levels over one arena.
\<close>

locale level_queue =
  fixes rel :: "arena \<Rightarrow> 'q \<Rightarrow> nat list \<Rightarrow> bool"
    and new_queue :: 'q
    and push :: "arena \<Rightarrow> 'q \<Rightarrow> nat \<Rightarrow> arena \<times> 'q"
    and remove :: "arena \<Rightarrow> 'q \<Rightarrow> nat \<Rightarrow> arena \<times> 'q"
    and front :: "'q \<Rightarrow> ptr"
    and is_empty :: "'q \<Rightarrow> bool"
  assumes rel_new: "rel h new_queue []"
    and rel_push: "\<lbrakk> rel h q ps; p \<notin> set ps; ord_prev (h p) = None; ord_next (h p) = None;
                     push h q p = (h', q') \<rbrakk> \<Longrightarrow> rel h' q' (ps @ [p])"
    and push_frame: "\<lbrakk> rel h q ps; push h q p = (h', q'); x \<notin> insert p (set ps) \<rbrakk> \<Longrightarrow> h' x = h x"
    and push_view: "push h q p = (h', q') \<Longrightarrow> view (h' x) = view (h x)"
    and rel_remove: "\<lbrakk> rel h q ps; p \<in> set ps; remove h q p = (h', q') \<rbrakk> \<Longrightarrow> rel h' q' (remove1 p ps)"
    and remove_frame: "\<lbrakk> rel h q ps; p \<in> set ps; remove h q p = (h', q'); x \<notin> set ps \<rbrakk> \<Longrightarrow> h' x = h x"
    and remove_view: "remove h q p = (h', q') \<Longrightarrow> view (h' x) = view (h x)"
    and rel_front: "rel h q ps \<Longrightarrow> front q = (if ps = [] then None else Some (hd ps))"
    and rel_empty: "rel h q ps \<Longrightarrow> is_empty q \<longleftrightarrow> ps = []"
    and rel_cong: "\<lbrakk> rel h q ps; \<And>p. p \<in> set ps \<Longrightarrow> ord_prev (h' p) = ord_prev (h p)
                      \<and> ord_next (h' p) = ord_next (h p) \<rbrakk> \<Longrightarrow> rel h' q ps"
begin

lemma levels_cong:
  assumes "\<forall>i. rel h (Q i) (L i)"
    and "\<And>p. ord_prev (h' p) = ord_prev (h p) \<and> ord_next (h' p) = ord_next (h p)"
  shows "\<forall>i. rel h' (Q i) (L i)"
  using assms rel_cong by blast

text \<open>Slots of no level may be overwritten.\<close>

lemma levels_write_free:
  assumes "\<forall>i. rel h (Q i) (L i)" and "\<forall>i. p \<notin> set (L i)"
  shows "\<forall>i. rel (h(p := v)) (Q i) (L i)"
proof
  fix i
  show "rel (h(p := v)) (Q i) (L i)"
    by (rule rel_cong [of h]) (use assms in auto)
qed

lemma levels_push:
  assumes rel: "\<forall>i. rel h (Q i) (L i)" and fresh: "\<forall>i. p \<notin> set (L i)"
    and disj: "\<forall>i j. i \<noteq> j \<longrightarrow> set (L i) \<inter> set (L j) = {}"
    and links: "ord_prev (h p) = None" "ord_next (h p) = None"
    and push: "push h (Q k) p = (h', q')"
  shows "\<forall>i. rel h' ((Q(k := q')) i) ((L(k := L k @ [p])) i)"
proof
  fix i
  show "rel h' ((Q(k := q')) i) ((L(k := L k @ [p])) i)"
  proof (cases "i = k")
    case True
    with rel_push [OF _ _ links push] rel fresh show ?thesis by auto
  next
    case False
    with disj have "set (L i) \<inter> set (L k) = {}" by blast
    then have "\<And>x. x \<in> set (L i) \<Longrightarrow> h' x = h x"
      using push_frame [OF _ push] rel fresh by (metis disjoint_iff insertE)
    then have "rel h' (Q i) (L i)" using rel rel_cong by metis
    with False show ?thesis by simp
  qed
qed

lemma levels_remove:
  assumes rel: "\<forall>i. rel h (Q i) (L i)" and mem: "p \<in> set (L k)"
    and disj: "\<forall>i j. i \<noteq> j \<longrightarrow> set (L i) \<inter> set (L j) = {}"
    and rm: "remove h (Q k) p = (h', q')"
  shows "\<forall>i. rel h' ((Q(k := q')) i) ((L(k := remove1 p (L k))) i)"
proof
  fix i
  show "rel h' ((Q(k := q')) i) ((L(k := remove1 p (L k))) i)"
  proof (cases "i = k")
    case True
    with rel_remove [OF _ mem rm] rel show ?thesis by auto
  next
    case False
    with disj have "set (L i) \<inter> set (L k) = {}" by blast
    then have "\<And>x. x \<in> set (L i) \<Longrightarrow> h' x = h x"
      using remove_frame [OF _ mem rm] rel by (metis disjoint_iff)
    then have "rel h' (Q i) (L i)" using rel rel_cong by metis
    with False show ?thesis by simp
  qed
qed

end

interpretation plq: level_queue queue_of empty_PLQ plq_push plq_remove plq_front plq_empty
  by unfold_locales
    (blast intro: queue_of_new queue_of_push plq_push_frame plq_push_view queue_of_remove
       plq_remove_frame plq_remove_view queue_of_cong
     | erule queue_of_front | erule queue_of_empty)+

end
