(* ===== verification/Orderbook.thy ===== *)
theory Orderbook
  imports Price_Level_Queue Ring_Channel Itch_Proto Tsc_Clock Validation
begin

text \<open>
  The matching engine's order book (\<open>engine/include/orderbook.hpp\<close>, \<open>engine/src/orderbook.cpp\<close>), one
  definition per member function, over the arena of orders, the two price ladders and the order map.
  Functions that can hit undefined behaviour in C++ (an array index outside a ladder, a null pointer
  dereferenced) or that may not return live in the option monad, with \<^term>\<open>None\<close> for such runs.
  A ladder is a function from the array index of a level to its queue; \<open>level_at\<close> is the
  bounds-checked access. The outbound ring is a channel whose consumer is the environment,
  the market data ring a plain ring that drops when full, and the counter readings of \<open>__rdtsc\<close> come from
  a stream. The mutable flag of the request context is part of the state.
\<close>

definition LEVELS :: nat where
  "LEVELS = unat (MAX_PRICE - MIN_PRICE + 1)"

definition kBookSymbol :: ItchStockSymbol where
  "kBookSymbol = alpha 8 (bytes_of BOOK_SYMBOL)"

record Orderbook =
  ob_pool :: OrderPool
  bids :: "nat \<Rightarrow> PriceLevelQueue"
  asks :: "nat \<Rightarrow> PriceLevelQueue"
  orders :: "OrderId \<Rightarrow> nat option"
  best_bid_price :: Price
  best_ask_price :: Price
  non_empty_bid_levels :: usize
  non_empty_ask_levels :: usize
  next_match_number :: u64
  out_ring :: "EngineEvent Channel"
  market_data_ring :: "ITCH RingBuffer"
  market_data_drops :: u64
  ob_clock :: TscClock
  tsc_reads :: "nat \<Rightarrow> Timestamp"
  answered :: bool

record Context =
  ctx_req :: EngineRequest
  ctx_engine_pop_tsc :: Timestamp
  ctx_itch_timestamp :: u64

text \<open>
  A new book. The pool's size is an argument (the source passes \<^term>\<open>PREALLOCATION_COUNT\<close>); the
  rings, the clock and the counter are the ones the book is constructed with.
\<close>

definition new_Orderbook ::
  "nat \<Rightarrow> EngineEvent Channel \<Rightarrow> ITCH RingBuffer \<Rightarrow> TscClock \<Rightarrow> (nat \<Rightarrow> Timestamp) \<Rightarrow> Orderbook" where
  "new_Orderbook capacity out md clock tsc =
     \<lparr> ob_pool = new_OrderPool capacity, bids = (\<lambda>_. empty_PLQ), asks = (\<lambda>_. empty_PLQ), orders = Map.empty,
       best_bid_price = MIN_PRICE, best_ask_price = MAX_PRICE, non_empty_bid_levels = 0,
       non_empty_ask_levels = 0, next_match_number = 1, out_ring = out, market_data_ring = md,
       market_data_drops = 0, ob_clock = clock, tsc_reads = tsc, answered = False \<rparr>"

definition open_after :: "Quantity \<Rightarrow> Quantity \<Rightarrow> Quantity" where
  "open_after total_liability executed =
     (if total_liability > executed then total_liability - executed else 0)"

subsection \<open>Memory\<close>

abbreviation heap :: "Orderbook \<Rightarrow> arena" where
  "heap ob \<equiv> pool_arena (ob_pool ob)"

definition set_heap :: "arena \<Rightarrow> Orderbook \<Rightarrow> Orderbook" where
  "set_heap h ob = ob\<lparr>ob_pool := (ob_pool ob)\<lparr>pool_arena := h\<rparr>\<rparr>"

definition write_order :: "nat \<Rightarrow> Order \<Rightarrow> Orderbook \<Rightarrow> Orderbook" where
  "write_order p ord ob = set_heap ((heap ob)(p := ord)) ob"

definition level_index :: "Price \<Rightarrow> nat" where
  "level_index price = unat (price - MIN_PRICE)"

definition level_at :: "(nat \<Rightarrow> PriceLevelQueue) \<Rightarrow> Price \<Rightarrow> PriceLevelQueue option" where
  "level_at levels price = (if level_index price < LEVELS then Some (levels (level_index price)) else None)"

subsection \<open>Output\<close>

definition emit :: "Context \<Rightarrow> EngineEvent \<Rightarrow> Orderbook \<Rightarrow> Orderbook option" where
  "emit ctx event ob =
     (let event1 = event\<lparr> ev_read_begin_tsc := rq_read_begin_tsc (ctx_req ctx),
                          ev_recv_tsc := rq_recv_tsc (ctx_req ctx),
                          ev_server_push_tsc := rq_server_push_tsc (ctx_req ctx),
                          ev_engine_pop_tsc := ctx_engine_pop_tsc ctx,
                          ev_answers_request := \<not> answered ob,
                          ev_engine_push_tsc := tsc_reads ob 0 \<rparr>;
          ob1 = ob\<lparr>answered := True, tsc_reads := (\<lambda>k. tsc_reads ob (Suc k))\<rparr>
      in do { c \<leftarrow> push_spin event1 (out_ring ob1); Some (ob1\<lparr>out_ring := c\<rparr>) })"

definition publish :: "ITCH \<Rightarrow> Orderbook \<Rightarrow> Orderbook" where
  "publish msg ob =
     (let (pushed_ok, r) = rb_push msg (market_data_ring ob)
      in ob\<lparr>market_data_ring := r,
            market_data_drops := (if pushed_ok then market_data_drops ob else market_data_drops ob + 1)\<rparr>)"

definition itch_header :: "Context \<Rightarrow> ItchMessageType \<Rightarrow> ItchHeader" where
  "itch_header ctx type = \<lparr> ih_message_type = type, ih_stock_locate = BOOK_STOCK_LOCATE,
     ih_tracking_number = 0, ih_timestamp = ctx_itch_timestamp ctx \<rparr>"

subsection \<open>Book maintenance\<close>

text \<open>The two scans for the next non-empty level, as the source writes them.\<close>

function update_best_bid :: "Orderbook \<Rightarrow> Orderbook option" where
  "update_best_bid ob =
     (if best_bid_price ob > MIN_PRICE then
        (case level_at (bids ob) (best_bid_price ob) of
           None \<Rightarrow> None
         | Some level \<Rightarrow>
             if plq_empty level then update_best_bid (ob\<lparr>best_bid_price := best_bid_price ob - 1\<rparr>)
             else Some ob)
      else Some ob)"
  by pat_completeness auto

termination
proof (relation "measure (\<lambda>ob. unat (best_bid_price ob))", goal_cases)
  case (2 ob level)
  then have "0 < best_bid_price ob" by (simp add: MIN_PRICE_def word_nat)
  then show ?case by (simp add: unat_dec word_nat)
qed simp

function update_best_ask :: "Orderbook \<Rightarrow> Orderbook option" where
  "update_best_ask ob =
     (if best_ask_price ob < MAX_PRICE then
        (case level_at (asks ob) (best_ask_price ob) of
           None \<Rightarrow> None
         | Some level \<Rightarrow>
             if plq_empty level then update_best_ask (ob\<lparr>best_ask_price := best_ask_price ob + 1\<rparr>)
             else Some ob)
      else Some ob)"
  by pat_completeness auto

termination
proof (relation "measure (\<lambda>ob. unat MAX_PRICE - unat (best_ask_price ob))", goal_cases)
  case (2 ob level)
  then have "unat (best_ask_price ob) < 100000" by (simp add: MAX_PRICE_def word_nat)
  moreover from this have "unat (best_ask_price ob + 1) = Suc (unat (best_ask_price ob))"
    by (intro unat_inc_bounded) simp
  ultimately show ?case by (simp add: MAX_PRICE_def)
qed simp

declare update_best_bid.simps [simp del] update_best_ask.simps [simp del]

definition unlink :: "nat \<Rightarrow> Orderbook \<Rightarrow> Orderbook option" where
  "unlink order ob =
     (let price = ord_price (heap ob order)
      in if ord_side (heap ob order) = BID then
           do { level \<leftarrow> level_at (bids ob) price;
                let (h, level') = plq_remove (heap ob) level order;
                let ob1 = (set_heap h ob)\<lparr>bids := (bids ob)(level_index price := level')\<rparr>;
                if plq_empty level' then
                  let ob2 = ob1\<lparr>non_empty_bid_levels := non_empty_bid_levels ob1 - 1\<rparr>
                  in if non_empty_bid_levels ob2 = 0 then Some (ob2\<lparr>best_bid_price := MIN_PRICE\<rparr>)
                     else if price = best_bid_price ob2 then update_best_bid ob2
                     else Some ob2
                else Some ob1 }
         else
           do { level \<leftarrow> level_at (asks ob) price;
                let (h, level') = plq_remove (heap ob) level order;
                let ob1 = (set_heap h ob)\<lparr>asks := (asks ob)(level_index price := level')\<rparr>;
                if plq_empty level' then
                  let ob2 = ob1\<lparr>non_empty_ask_levels := non_empty_ask_levels ob1 - 1\<rparr>
                  in if non_empty_ask_levels ob2 = 0 then Some (ob2\<lparr>best_ask_price := MAX_PRICE\<rparr>)
                     else if price = best_ask_price ob2 then update_best_ask ob2
                     else Some ob2
                else Some ob1 })"

definition release :: "nat \<Rightarrow> Orderbook \<Rightarrow> Orderbook" where
  "release order ob = ob\<lparr>orders := (orders ob)(ord_id (heap ob order) := None),
                         ob_pool := deallocate order (ob_pool ob)\<rparr>"

definition emplace :: "OrderId \<Rightarrow> nat \<Rightarrow> (OrderId \<Rightarrow> nat option) \<Rightarrow> OrderId \<Rightarrow> nat option" where
  "emplace k v m = (if m k = None then m(k := Some v) else m)"

text \<open>The part of \<open>rest\<close> that threads the allocated order into its price level.\<close>

definition rest_link :: "nat \<Rightarrow> Orderbook \<Rightarrow> Orderbook option" where
  "rest_link resting ob =
     (let price = ord_price (heap ob resting)
      in if ord_side (heap ob resting) = BID then
           do { level \<leftarrow> level_at (bids ob) price;
                let n = (if plq_empty level then non_empty_bid_levels ob + 1 else non_empty_bid_levels ob);
                let (h, level') = plq_push (heap ob) level resting;
                let b = (if price > best_bid_price ob then price else best_bid_price ob);
                Some ((set_heap h ob)\<lparr>non_empty_bid_levels := n,
                        bids := (bids ob)(level_index price := level'), best_bid_price := b\<rparr>) }
         else
           do { level \<leftarrow> level_at (asks ob) price;
                let n = (if plq_empty level then non_empty_ask_levels ob + 1 else non_empty_ask_levels ob);
                let (h, level') = plq_push (heap ob) level resting;
                let b = (if price < best_ask_price ob then price else best_ask_price ob);
                Some ((set_heap h ob)\<lparr>non_empty_ask_levels := n,
                        asks := (asks ob)(level_index price := level'), best_ask_price := b\<rparr>) })"

definition rest :: "Context \<Rightarrow> Order \<Rightarrow> bool \<Rightarrow> Orderbook \<Rightarrow> Orderbook option" where
  "rest ctx order publish_add ob =
     (let (slot, pool) = allocate order (ob_pool ob)
      in do {
        resting \<leftarrow> slot;
        let ob1 = ob\<lparr>ob_pool := pool\<rparr>;
        let ob2 = ob1\<lparr>orders := emplace (ord_id (heap ob1 resting)) resting (orders ob1)\<rparr>;
        ob3 \<leftarrow> rest_link resting ob2;
        if publish_add then
          Some (publish (AddOrder \<lparr> ia_header = itch_header ctx ADD_ORDER,
                                    ia_order_reference_number = ord_id (heap ob3 resting),
                                    ia_buy_sell_indicator = to_ouch_side (ord_side (heap ob3 resting)),
                                    ia_shares = ord_open (heap ob3 resting),
                                    ia_stock = kBookSymbol,
                                    ia_price = to_itch_price (ord_price (heap ob2 resting)) \<rparr>) ob3)
        else Some ob3 })"

subsection \<open>Matching\<close>

definition crosses :: "Side \<Rightarrow> OrderType \<Rightarrow> Price \<Rightarrow> Orderbook \<Rightarrow> bool" where
  "crosses side type price ob =
     (if side = BID then
        (if non_empty_ask_levels ob = 0 then False
         else type = MARKET \<or> price \<ge> best_ask_price ob)
      else if non_empty_bid_levels ob = 0 then False
      else type = MARKET \<or> price \<le> best_bid_price ob)"

text \<open>One turn of the matching loop: fill against the order at the front of the best level.\<close>

definition match_fill ::
  "Context \<Rightarrow> OrderId \<Rightarrow> ClientId \<Rightarrow> Price \<Rightarrow> nat \<Rightarrow> Quantity \<Rightarrow> Orderbook \<Rightarrow> (Quantity \<times> Orderbook) option" where
  "match_fill ctx oid client_id level_price resting wanted ob =
     (let fill = min wanted (ord_open (heap ob resting));
          match_number = next_match_number ob;
          ob1 = ob\<lparr>next_match_number := match_number + 1\<rparr>;
          ob2 = write_order resting ((heap ob1 resting)\<lparr>ord_open := ord_open (heap ob1 resting) - fill,
                                                        ord_exec := ord_exec (heap ob1 resting) + fill\<rparr>) ob1
      in do {
        ob3 \<leftarrow> emit ctx (zero_event\<lparr> ev_order_id := oid, ev_match_number := match_number,
                 ev_client_id := client_id, ev_price := level_price, ev_quantity := fill,
                 ev_type := EXECUTED, ev_reason := kRemovedLiquidity \<rparr>) ob2;
        ob4 \<leftarrow> emit ctx (zero_event\<lparr> ev_order_id := ord_id (heap ob3 resting), ev_match_number := match_number,
                 ev_client_id := ord_client (heap ob3 resting), ev_price := level_price, ev_quantity := fill,
                 ev_type := EXECUTED, ev_reason := kAddedLiquidity \<rparr>) ob3;
        let ob5 = publish (OrderExecuted \<lparr> ie_header = itch_header ctx ORDER_EXECUTED,
                    ie_order_reference_number = ord_id (heap ob4 resting), ie_executed_shares = fill,
                    ie_match_number = match_number \<rparr>) ob4;
        if is_filled (heap ob5 resting) then
          do { ob6 \<leftarrow> unlink resting ob5; Some (fill, release resting ob6) }
        else Some (fill, ob5) })"

partial_function (option) match_loop ::
  "Context \<Rightarrow> OrderId \<Rightarrow> ClientId \<Rightarrow> Side \<Rightarrow> OrderType \<Rightarrow> Price \<Rightarrow> Quantity \<Rightarrow> Quantity \<Rightarrow> Orderbook \<Rightarrow>
   (Quantity \<times> Orderbook) option" where
  "match_loop ctx oid client_id side type price quantity filled ob =
     (if filled < quantity \<and> crosses side type price ob then
        let level_price = (if side = BID then best_ask_price ob else best_bid_price ob)
        in do {
          level \<leftarrow> level_at (if side = BID then asks ob else bids ob) level_price;
          resting \<leftarrow> plq_front level;
          step \<leftarrow> match_fill ctx oid client_id level_price resting (quantity - filled) ob;
          match_loop ctx oid client_id side type price quantity (filled + fst step) (snd step) }
      else Some (filled, ob))"

definition match ::
  "Context \<Rightarrow> OrderId \<Rightarrow> ClientId \<Rightarrow> Side \<Rightarrow> OrderType \<Rightarrow> Price \<Rightarrow> Quantity \<Rightarrow> Orderbook \<Rightarrow>
   (Quantity \<times> Orderbook) option" where
  "match ctx oid client_id side type price quantity ob =
     match_loop ctx oid client_id side type price quantity 0 ob"

subsection \<open>Request handlers\<close>

definition enter :: "Context \<Rightarrow> Orderbook \<Rightarrow> (bool \<times> Orderbook) option" where
  "enter ctx ob =
     (let req = ctx_req ctx;
          may_rest = (rq_order_type req = LIMIT \<and> rq_time_in_force req = DAY)
      in if orders ob (rq_order_id req) \<noteq> None then Some (False, ob)
         else if may_rest \<and> available (ob_pool ob) = 0 then
           do { ob1 \<leftarrow> emit ctx (zero_event\<lparr> ev_order_id := rq_order_id req, ev_client_id := rq_client_id req,
                        ev_type := REJECTED, ev_reason := kBookFull \<rparr>) ob;
                Some (True, ob1) }
         else do {
           ob1 \<leftarrow> emit ctx (zero_event\<lparr> ev_order_id := rq_order_id req, ev_client_id := rq_client_id req,
                    ev_price := rq_price req, ev_quantity := rq_quantity req, ev_type := ACCEPTED \<rparr>) ob;
           (filled, ob2) \<leftarrow> match ctx (rq_order_id req) (rq_client_id req) (rq_side req) (rq_order_type req)
                              (rq_price req) (rq_quantity req) ob1;
           let remaining = rq_quantity req - filled;
           if remaining = 0 then Some (True, ob2)
           else if may_rest then
             do { ob3 \<leftarrow> rest ctx (mk_Order (rq_order_id req) (rq_client_id req) (rq_side req) (rq_price req)
                                   remaining filled) True ob2;
                  Some (True, ob3) }
           else
             do { ob3 \<leftarrow> emit ctx (zero_event\<lparr> ev_order_id := rq_order_id req, ev_client_id := rq_client_id req,
                          ev_price := rq_price req, ev_quantity := remaining, ev_type := CANCELED,
                          ev_reason := kImmediateOrCancel \<rparr>) ob2;
                  Some (True, ob3) } })"

definition cancel :: "Context \<Rightarrow> Orderbook \<Rightarrow> (bool \<times> Orderbook) option" where
  "cancel ctx ob =
     (let req = ctx_req ctx
      in case orders ob (rq_order_id req) of
           None \<Rightarrow> Some (False, ob)
         | Some order \<Rightarrow>
             let ord = heap ob order;
                 target_open = open_after (rq_quantity req) (ord_exec ord);
                 decrement = ord_open ord - target_open
             in if ord_client ord \<noteq> rq_client_id req then Some (False, ob)
                else if target_open \<ge> ord_open ord then Some (False, ob)
                else do {
                  ob1 \<leftarrow> emit ctx (zero_event\<lparr> ev_order_id := ord_id ord, ev_client_id := ord_client ord,
                           ev_price := ord_price ord, ev_quantity := decrement, ev_type := CANCELED,
                           ev_reason := kUserRequested \<rparr>) ob;
                  if target_open = 0 then
                    let itch = OrderDelete \<lparr> id_header = itch_header ctx ORDER_DELETE,
                                             id_order_reference_number = ord_id (heap ob1 order) \<rparr>
                    in do { ob2 \<leftarrow> unlink order ob1; Some (True, publish itch (release order ob2)) }
                  else
                    let ob2 = write_order order ((heap ob1 order)\<lparr>ord_open := target_open\<rparr>) ob1;
                        itch = OrderCancel \<lparr> ic_header = itch_header ctx ORDER_CANCEL,
                                             ic_order_reference_number = ord_id (heap ob2 order),
                                             ic_canceled_shares = decrement \<rparr>
                    in Some (True, publish itch ob2) })"

definition replace :: "Context \<Rightarrow> Orderbook \<Rightarrow> (bool \<times> Orderbook) option" where
  "replace ctx ob =
     (let req = ctx_req ctx
      in case orders ob (rq_order_id req) of
           None \<Rightarrow> Some (False, ob)
         | Some orig \<Rightarrow>
             let ord = heap ob orig; orig_id = ord_id ord; side = ord_side ord; executed = ord_exec ord;
                 open_qty = open_after (rq_quantity req) executed;
                 itch = OrderDelete \<lparr> id_header = itch_header ctx ORDER_DELETE,
                                      id_order_reference_number = orig_id \<rparr>;
                 day = (rq_time_in_force req = DAY)
             in if ord_client ord \<noteq> rq_client_id req then Some (False, ob)
                else if orders ob (rq_new_order_id req) \<noteq> None then Some (False, ob)
                else if open_qty = 0 then
                  do { ob1 \<leftarrow> emit ctx (zero_event\<lparr> ev_order_id := orig_id, ev_client_id := ord_client ord,
                                ev_price := ord_price ord, ev_quantity := ord_open ord, ev_type := CANCELED,
                                ev_reason := kUserRequested \<rparr>) ob;
                       ob2 \<leftarrow> unlink orig ob1;
                       Some (True, publish itch (release orig ob2)) }
                else do {
                  ob1 \<leftarrow> unlink orig ob;
                  let ob2 = release orig ob1;
                  ob3 \<leftarrow> emit ctx (zero_event\<lparr> ev_order_id := rq_new_order_id req, ev_orig_order_id := orig_id,
                           ev_client_id := rq_client_id req, ev_price := rq_price req, ev_quantity := open_qty,
                           ev_type := REPLACED \<rparr>) ob2;
                  if day \<and> \<not> crosses side LIMIT (rq_price req) ob3 then
                    do { ob4 \<leftarrow> rest ctx (mk_Order (rq_new_order_id req) (rq_client_id req) side (rq_price req)
                                          open_qty executed) False ob3;
                         Some (True, publish (OrderReplace \<lparr> ir_header = itch_header ctx ORDER_REPLACE,
                                 ir_original_order_reference_number = orig_id,
                                 ir_new_order_reference_number = rq_new_order_id req,
                                 ir_shares = open_qty, ir_price = to_itch_price (rq_price req) \<rparr>) ob4) }
                  else do {
                    let ob4 = publish itch ob3;
                    (filled, ob5) \<leftarrow> match ctx (rq_new_order_id req) (rq_client_id req) side LIMIT
                                       (rq_price req) open_qty ob4;
                    let remaining = open_qty - filled;
                    if remaining = 0 then Some (True, ob5)
                    else if day then
                      do { ob6 \<leftarrow> rest ctx (mk_Order (rq_new_order_id req) (rq_client_id req) side (rq_price req)
                                            remaining (executed + filled)) True ob5;
                           Some (True, ob6) }
                    else
                      do { ob6 \<leftarrow> emit ctx (zero_event\<lparr> ev_order_id := rq_new_order_id req,
                                   ev_client_id := rq_client_id req, ev_price := rq_price req,
                                   ev_quantity := remaining, ev_type := CANCELED,
                                   ev_reason := kImmediateOrCancel \<rparr>) ob5;
                           Some (True, ob6) } } })"

definition process :: "EngineRequest \<Rightarrow> Timestamp \<Rightarrow> Orderbook \<Rightarrow> (bool \<times> Orderbook) option" where
  "process req engine_pop_tsc ob =
     (let ctx = \<lparr> ctx_req = req, ctx_engine_pop_tsc = engine_pop_tsc,
                  ctx_itch_timestamp = ns_since_midnight (ob_clock ob) engine_pop_tsc \<rparr>;
          ob1 = ob\<lparr>answered := False\<rparr>
      in case rq_type req of
           NEW \<Rightarrow> enter ctx ob1
         | CANCEL \<Rightarrow> cancel ctx ob1
         | REPLACE \<Rightarrow> replace ctx ob1)"

text \<open>
  The ladder slot \<open>prefetch\<close> warms for a new order; for the other requests it touches a hash bucket,
  which the model's order map does not have. It changes no state.
\<close>

definition prefetch :: "EngineRequest \<Rightarrow> (Side \<times> nat) option" where
  "prefetch nxt =
     (case rq_type nxt of
        NEW \<Rightarrow> if rq_price nxt < MIN_PRICE \<or> rq_price nxt > MAX_PRICE then None
               else Some (rq_side nxt, unat (rq_price nxt - MIN_PRICE))
      | CANCEL \<Rightarrow> None
      | REPLACE \<Rightarrow> None)"

end
