(* ===== verification/Book_Spec.thy ===== *)
theory Book_Spec
  imports Orderbook
begin

text \<open>
  The contract of the order book (the header comment of \<open>engine/include/orderbook.hpp\<close>), as operations on
  two lists of resting orders in priority order: best price first, and within a price
  in order of arrival. No pointers, ladders or cached best prices: a request turns a book into a book, the
  events it answers with, and the ITCH messages that describe the change. The refinement theory
  shows that the code implements exactly this.
\<close>

record Book =
  bk_side :: "Side \<Rightarrow> RestingOrder list"
  bk_capacity :: nat
  bk_next_match :: u64

fun opposite :: "Side \<Rightarrow> Side" where
  "opposite BID = ASK"
| "opposite ASK = BID"

text \<open>Strictly better price on a side, and the prices an incoming order accepts.\<close>

fun better :: "Side \<Rightarrow> Price \<Rightarrow> Price \<Rightarrow> bool" where
  "better BID p q \<longleftrightarrow> p > q"
| "better ASK p q \<longleftrightarrow> p < q"

definition takes :: "Side \<Rightarrow> OrderType \<Rightarrow> Price \<Rightarrow> Price \<Rightarrow> bool" where
  "takes side type limit p \<longleftrightarrow> type = MARKET \<or> (if side = BID then limit \<ge> p else limit \<le> p)"

definition all_orders :: "Book \<Rightarrow> RestingOrder list" where
  "all_orders bk = bk_side bk BID @ bk_side bk ASK"

definition find_order :: "OrderId \<Rightarrow> Book \<Rightarrow> RestingOrder option" where
  "find_order oid bk = find (\<lambda>r. ro_id r = oid) (all_orders bk)"

definition book_full :: "Book \<Rightarrow> bool" where
  "book_full bk \<longleftrightarrow> bk_capacity bk \<le> length (all_orders bk)"

definition set_side :: "Side \<Rightarrow> RestingOrder list \<Rightarrow> Book \<Rightarrow> Book" where
  "set_side s xs bk = bk\<lparr>bk_side := (bk_side bk)(s := xs)\<rparr>"

definition insert_order :: "RestingOrder \<Rightarrow> RestingOrder list \<Rightarrow> RestingOrder list" where
  "insert_order r xs =
     takeWhile (\<lambda>x. \<not> better (ro_side r) (ro_price r) (ro_price x)) xs @ r #
     dropWhile (\<lambda>x. \<not> better (ro_side r) (ro_price r) (ro_price x)) xs"

definition add_order :: "RestingOrder \<Rightarrow> Book \<Rightarrow> Book" where
  "add_order r bk = set_side (ro_side r) (insert_order r (bk_side bk (ro_side r))) bk"

definition remove_order :: "OrderId \<Rightarrow> Book \<Rightarrow> Book" where
  "remove_order oid bk = bk\<lparr>bk_side := (\<lambda>s. filter (\<lambda>r. ro_id r \<noteq> oid) (bk_side bk s))\<rparr>"

definition reduce_order :: "OrderId \<Rightarrow> Quantity \<Rightarrow> Book \<Rightarrow> Book" where
  "reduce_order oid q bk =
     bk\<lparr>bk_side := (\<lambda>s. map (\<lambda>r. if ro_id r = oid then r\<lparr>ro_open := q\<rparr> else r) (bk_side bk s))\<rparr>"

subsection \<open>Events and messages\<close>

definition executed_events :: "OrderId \<Rightarrow> ClientId \<Rightarrow> RestingOrder \<Rightarrow> Quantity \<Rightarrow> u64 \<Rightarrow> EngineEvent list" where
  "executed_events oid client r fill mn =
     [zero_event\<lparr> ev_order_id := oid, ev_match_number := mn, ev_client_id := client, ev_price := ro_price r,
        ev_quantity := fill, ev_type := EXECUTED, ev_reason := kRemovedLiquidity \<rparr>,
      zero_event\<lparr> ev_order_id := ro_id r, ev_match_number := mn, ev_client_id := ro_client r, ev_price := ro_price r,
        ev_quantity := fill, ev_type := EXECUTED, ev_reason := kAddedLiquidity \<rparr>]"

definition spec_header :: "u64 \<Rightarrow> ItchMessageType \<Rightarrow> ItchHeader" where
  "spec_header ts type = \<lparr> ih_message_type = type, ih_stock_locate = BOOK_STOCK_LOCATE,
     ih_tracking_number = 0, ih_timestamp = ts \<rparr>"

definition executed_msg :: "u64 \<Rightarrow> RestingOrder \<Rightarrow> Quantity \<Rightarrow> u64 \<Rightarrow> ITCH" where
  "executed_msg ts r fill mn = OrderExecuted \<lparr> ie_header = spec_header ts ORDER_EXECUTED,
     ie_order_reference_number = ro_id r, ie_executed_shares = fill, ie_match_number = mn \<rparr>"

definition delete_msg :: "u64 \<Rightarrow> OrderId \<Rightarrow> ITCH" where
  "delete_msg ts oid = OrderDelete \<lparr> id_header = spec_header ts ORDER_DELETE, id_order_reference_number = oid \<rparr>"

definition cancel_msg :: "u64 \<Rightarrow> OrderId \<Rightarrow> Quantity \<Rightarrow> ITCH" where
  "cancel_msg ts oid q = OrderCancel \<lparr> ic_header = spec_header ts ORDER_CANCEL, ic_order_reference_number = oid,
     ic_canceled_shares = q \<rparr>"

definition add_msg :: "u64 \<Rightarrow> RestingOrder \<Rightarrow> ITCH" where
  "add_msg ts r = AddOrder \<lparr> ia_header = spec_header ts ADD_ORDER, ia_order_reference_number = ro_id r,
     ia_buy_sell_indicator = to_ouch_side (ro_side r), ia_shares = ro_open r, ia_stock = kBookSymbol,
     ia_price = to_itch_price (ro_price r) \<rparr>"

definition replace_msg :: "u64 \<Rightarrow> OrderId \<Rightarrow> OrderId \<Rightarrow> Quantity \<Rightarrow> Price \<Rightarrow> ITCH" where
  "replace_msg ts orig new q p = OrderReplace \<lparr> ir_header = spec_header ts ORDER_REPLACE,
     ir_original_order_reference_number = orig, ir_new_order_reference_number = new, ir_shares = q,
     ir_price = to_itch_price p \<rparr>"

definition canceled_event :: "OrderId \<Rightarrow> ClientId \<Rightarrow> Price \<Rightarrow> Quantity \<Rightarrow> byte \<Rightarrow> EngineEvent" where
  "canceled_event oid client p q reason = zero_event\<lparr> ev_order_id := oid, ev_client_id := client,
     ev_price := p, ev_quantity := q, ev_type := CANCELED, ev_reason := reason \<rparr>"

subsection \<open>Matching\<close>

record Fills =
  fl_filled :: Quantity
  fl_rest :: "RestingOrder list"
  fl_next :: u64
  fl_events :: "EngineEvent list"
  fl_msgs :: "ITCH list"

text \<open>Walk the opposite side from the front while the price is acceptable and shares are wanted.\<close>

fun spec_match ::
  "u64 \<Rightarrow> OrderId \<Rightarrow> ClientId \<Rightarrow> (Price \<Rightarrow> bool) \<Rightarrow> Quantity \<Rightarrow> u64 \<Rightarrow> RestingOrder list \<Rightarrow> Fills" where
  "spec_match ts oid client ok q mn [] =
     \<lparr> fl_filled = 0, fl_rest = [], fl_next = mn, fl_events = [], fl_msgs = [] \<rparr>"
| "spec_match ts oid client ok q mn (r # rs) =
     (if q = 0 \<or> \<not> ok (ro_price r)
      then \<lparr> fl_filled = 0, fl_rest = r # rs, fl_next = mn, fl_events = [], fl_msgs = [] \<rparr>
      else let fill = min q (ro_open r)
           in if fill = ro_open r
              then let f = spec_match ts oid client ok (q - fill) (mn + 1) rs
                   in f\<lparr> fl_filled := fill + fl_filled f,
                         fl_events := executed_events oid client r fill mn @ fl_events f,
                         fl_msgs := executed_msg ts r fill mn # fl_msgs f \<rparr>
              else \<lparr> fl_filled = fill,
                     fl_rest = r\<lparr>ro_open := ro_open r - fill, ro_exec := ro_exec r + fill\<rparr> # rs,
                     fl_next = mn + 1, fl_events = executed_events oid client r fill mn,
                     fl_msgs = [executed_msg ts r fill mn] \<rparr>)"

definition spec_match_book ::
  "u64 \<Rightarrow> OrderId \<Rightarrow> ClientId \<Rightarrow> Side \<Rightarrow> OrderType \<Rightarrow> Price \<Rightarrow> Quantity \<Rightarrow> Book \<Rightarrow> Fills" where
  "spec_match_book ts oid client side type limit q bk =
     spec_match ts oid client (takes side type limit) q (bk_next_match bk) (bk_side bk (opposite side))"

definition after_fills :: "Side \<Rightarrow> Fills \<Rightarrow> Book \<Rightarrow> Book" where
  "after_fills side f bk = (set_side (opposite side) (fl_rest f) bk)\<lparr>bk_next_match := fl_next f\<rparr>"

definition spec_crosses :: "Side \<Rightarrow> OrderType \<Rightarrow> Price \<Rightarrow> Book \<Rightarrow> bool" where
  "spec_crosses side type limit bk =
     (case bk_side bk (opposite side) of [] \<Rightarrow> False | r # _ \<Rightarrow> takes side type limit (ro_price r))"

subsection \<open>Requests\<close>

record Outcome =
  oc_done :: bool
  oc_book :: Book
  oc_events :: "EngineEvent list"
  oc_msgs :: "ITCH list"

definition ignored :: "Book \<Rightarrow> Outcome" where
  "ignored bk = \<lparr> oc_done = False, oc_book = bk, oc_events = [], oc_msgs = [] \<rparr>"

text \<open>What is left after matching rests, or is canceled.\<close>

definition spec_remainder ::
  "u64 \<Rightarrow> bool \<Rightarrow> RestingOrder \<Rightarrow> Book \<Rightarrow> Book \<times> EngineEvent list \<times> ITCH list" where
  "spec_remainder ts may_rest r bk =
     (if ro_open r = 0 then (bk, [], [])
      else if may_rest then (add_order r bk, [], [add_msg ts r])
      else (bk, [canceled_event (ro_id r) (ro_client r) (ro_price r) (ro_open r) kImmediateOrCancel], []))"

definition spec_enter :: "u64 \<Rightarrow> EngineRequest \<Rightarrow> Book \<Rightarrow> Outcome" where
  "spec_enter ts req bk =
     (let may_rest = (rq_order_type req = LIMIT \<and> rq_time_in_force req = DAY)
      in if find_order (rq_order_id req) bk \<noteq> None then ignored bk
         else if may_rest \<and> book_full bk
           then \<lparr> oc_done = True, oc_book = bk,
                  oc_events = [zero_event\<lparr> ev_order_id := rq_order_id req, ev_client_id := rq_client_id req,
                                 ev_type := REJECTED, ev_reason := kBookFull \<rparr>],
                  oc_msgs = [] \<rparr>
         else let f = spec_match_book ts (rq_order_id req) (rq_client_id req) (rq_side req) (rq_order_type req)
                        (rq_price req) (rq_quantity req) bk;
                  r = \<lparr> ro_id = rq_order_id req, ro_client = rq_client_id req, ro_side = rq_side req,
                        ro_price = rq_price req, ro_open = rq_quantity req - fl_filled f, ro_exec = fl_filled f \<rparr>;
                  (bk', evs, msgs) = spec_remainder ts may_rest r (after_fills (rq_side req) f bk)
              in \<lparr> oc_done = True, oc_book = bk',
                   oc_events = [zero_event\<lparr> ev_order_id := rq_order_id req, ev_client_id := rq_client_id req,
                                  ev_price := rq_price req, ev_quantity := rq_quantity req, ev_type := ACCEPTED \<rparr>]
                     @ fl_events f @ evs,
                   oc_msgs = fl_msgs f @ msgs \<rparr>)"

definition spec_cancel :: "u64 \<Rightarrow> EngineRequest \<Rightarrow> Book \<Rightarrow> Outcome" where
  "spec_cancel ts req bk =
     (case find_order (rq_order_id req) bk of
        None \<Rightarrow> ignored bk
      | Some r \<Rightarrow>
          let target = open_after (rq_quantity req) (ro_exec r)
          in if ro_client r \<noteq> rq_client_id req \<or> target \<ge> ro_open r then ignored bk
             else \<lparr> oc_done = True,
                    oc_book = (if target = 0 then remove_order (ro_id r) bk else reduce_order (ro_id r) target bk),
                    oc_events = [canceled_event (ro_id r) (ro_client r) (ro_price r) (ro_open r - target) kUserRequested],
                    oc_msgs = [if target = 0 then delete_msg ts (ro_id r)
                               else cancel_msg ts (ro_id r) (ro_open r - target)] \<rparr>)"

definition spec_replace :: "u64 \<Rightarrow> EngineRequest \<Rightarrow> Book \<Rightarrow> Outcome" where
  "spec_replace ts req bk =
     (case find_order (rq_order_id req) bk of
        None \<Rightarrow> ignored bk
      | Some r \<Rightarrow>
          let open_qty = open_after (rq_quantity req) (ro_exec r);
              bk1 = remove_order (ro_id r) bk;
              day = (rq_time_in_force req = DAY);
              replaced = zero_event\<lparr> ev_order_id := rq_new_order_id req, ev_orig_order_id := ro_id r,
                           ev_client_id := rq_client_id req, ev_price := rq_price req, ev_quantity := open_qty,
                           ev_type := REPLACED \<rparr>
          in if ro_client r \<noteq> rq_client_id req \<or> find_order (rq_new_order_id req) bk \<noteq> None then ignored bk
             else if open_qty = 0
               then \<lparr> oc_done = True, oc_book = bk1,
                      oc_events = [canceled_event (ro_id r) (ro_client r) (ro_price r) (ro_open r) kUserRequested],
                      oc_msgs = [delete_msg ts (ro_id r)] \<rparr>
             else if day \<and> \<not> spec_crosses (ro_side r) LIMIT (rq_price req) bk1
               then \<lparr> oc_done = True,
                      oc_book = add_order \<lparr> ro_id = rq_new_order_id req, ro_client = rq_client_id req,
                                  ro_side = ro_side r, ro_price = rq_price req, ro_open = open_qty,
                                  ro_exec = ro_exec r \<rparr> bk1,
                      oc_events = [replaced],
                      oc_msgs = [replace_msg ts (ro_id r) (rq_new_order_id req) open_qty (rq_price req)] \<rparr>
             else let f = spec_match_book ts (rq_new_order_id req) (rq_client_id req) (ro_side r) LIMIT
                            (rq_price req) open_qty bk1;
                      r' = \<lparr> ro_id = rq_new_order_id req, ro_client = rq_client_id req, ro_side = ro_side r,
                             ro_price = rq_price req, ro_open = open_qty - fl_filled f,
                             ro_exec = ro_exec r + fl_filled f \<rparr>;
                      (bk', evs, msgs) = spec_remainder ts day r' (after_fills (ro_side r) f bk1)
                  in \<lparr> oc_done = True, oc_book = bk', oc_events = [replaced] @ fl_events f @ evs,
                       oc_msgs = [delete_msg ts (ro_id r)] @ fl_msgs f @ msgs \<rparr>)"

definition spec_process :: "u64 \<Rightarrow> EngineRequest \<Rightarrow> Book \<Rightarrow> Outcome" where
  "spec_process ts req bk =
     (case rq_type req of
        NEW \<Rightarrow> spec_enter ts req bk
      | CANCEL \<Rightarrow> spec_cancel ts req bk
      | REPLACE \<Rightarrow> spec_replace ts req bk)"

end
