(* ===== verification/Orderbook_Ladder.thy ===== *)
theory Orderbook_Ladder
  imports Orderbook Book_Spec
begin

text \<open>
  The book's two ladders. \<open>ladder_inv L ob\<close> says that the code's levels hold the order pointers \<open>L\<close>, that
  every order sits on the level of its side and price, and that the level counts and the cached
  best prices are those of \<open>L\<close>. Bid and ask code mirror each other; side-indexed accessors let one
  proof serve both.
\<close>

subsection \<open>Prices and level indices\<close>

lemma LEVELS_val: "LEVELS = 100000"
  by (simp add: LEVELS_def price_band_defs)

lemma in_band_unat: "in_band p \<longleftrightarrow> 1 \<le> unat p \<and> unat p \<le> 100000"
  by (simp add: in_band_def price_band_defs word_nat)

lemma level_index_in_band: "in_band p \<Longrightarrow> level_index p = unat p - 1"
proof -
  assume "in_band p"
  then have "MIN_PRICE \<le> p" by (simp add: in_band_def)
  then show ?thesis by (simp add: level_index_def unat_sub MIN_PRICE_def)
qed

lemma level_index_less: "in_band p \<Longrightarrow> level_index p < LEVELS"
  using level_index_in_band [of p] by (auto simp: in_band_unat LEVELS_val)

lemma level_index_inj: "in_band p \<Longrightarrow> in_band q \<Longrightarrow> level_index p = level_index q \<longleftrightarrow> p = q"
  by (auto simp: level_index_in_band in_band_unat word_unat_eq_iff)

lemma level_index_le: "in_band p \<Longrightarrow> in_band q \<Longrightarrow> level_index p \<le> level_index q \<longleftrightarrow> p \<le> q"
  by (auto simp: level_index_in_band in_band_unat word_nat)

lemma level_at_in_band: "in_band p \<Longrightarrow> level_at levels p = Some (levels (level_index p))"
  by (simp add: level_at_def level_index_less)

lemma level_at_out_of_band: "\<not> in_band p \<Longrightarrow> level_at levels p = None"
proof -
  assume *: "\<not> in_band p"
  have "\<not> level_index p < LEVELS"
  proof (cases "p = 0")
    case True
    then show ?thesis by (simp add: level_index_def LEVELS_val MIN_PRICE_def unsigned_minus_1_eq_mask mask_eq_exp_minus_1)
  next
    case False
    then have "MIN_PRICE \<le> p" by (simp add: MIN_PRICE_def word_nat word_unat_eq_iff)
    then have "level_index p = unat p - 1" by (simp add: level_index_def unat_sub MIN_PRICE_def)
    with * False show ?thesis by (simp add: in_band_unat LEVELS_val word_unat_eq_iff)
  qed
  then show ?thesis by (simp add: level_at_def)
qed

subsection \<open>Side-indexed accessors\<close>

fun side_levels :: "Side \<Rightarrow> Orderbook \<Rightarrow> nat \<Rightarrow> PriceLevelQueue" where
  "side_levels BID ob = bids ob"
| "side_levels ASK ob = asks ob"

fun side_best :: "Side \<Rightarrow> Orderbook \<Rightarrow> Price" where
  "side_best BID ob = best_bid_price ob"
| "side_best ASK ob = best_ask_price ob"

fun side_count :: "Side \<Rightarrow> Orderbook \<Rightarrow> usize" where
  "side_count BID ob = non_empty_bid_levels ob"
| "side_count ASK ob = non_empty_ask_levels ob"

fun put_levels :: "Side \<Rightarrow> (nat \<Rightarrow> PriceLevelQueue) \<Rightarrow> Orderbook \<Rightarrow> Orderbook" where
  "put_levels BID q ob = ob\<lparr>bids := q\<rparr>"
| "put_levels ASK q ob = ob\<lparr>asks := q\<rparr>"

fun put_best :: "Side \<Rightarrow> Price \<Rightarrow> Orderbook \<Rightarrow> Orderbook" where
  "put_best BID p ob = ob\<lparr>best_bid_price := p\<rparr>"
| "put_best ASK p ob = ob\<lparr>best_ask_price := p\<rparr>"

fun put_count :: "Side \<Rightarrow> usize \<Rightarrow> Orderbook \<Rightarrow> Orderbook" where
  "put_count BID n ob = ob\<lparr>non_empty_bid_levels := n\<rparr>"
| "put_count ASK n ob = ob\<lparr>non_empty_ask_levels := n\<rparr>"

fun worst :: "Side \<Rightarrow> Price" where
  "worst BID = MIN_PRICE"
| "worst ASK = MAX_PRICE"

fun update_best :: "Side \<Rightarrow> Orderbook \<Rightarrow> Orderbook option" where
  "update_best BID ob = update_best_bid ob"
| "update_best ASK ob = update_best_ask ob"

named_theorems side_simps \<open>reading a book after a side-indexed update\<close>

lemma side_read [side_simps]:
  "side_levels s (put_levels t q ob) = (if s = t then q else side_levels s ob)"
  "side_levels s (put_best t b ob) = side_levels s ob"
  "side_levels s (put_count t n ob) = side_levels s ob"
  "side_levels s (set_heap h ob) = side_levels s ob"
  "side_best s (put_levels t q ob) = side_best s ob"
  "side_best s (put_best t b ob) = (if s = t then b else side_best s ob)"
  "side_best s (put_count t n ob) = side_best s ob"
  "side_best s (set_heap h ob) = side_best s ob"
  "side_count s (put_levels t q ob) = side_count s ob"
  "side_count s (put_best t b ob) = side_count s ob"
  "side_count s (put_count t n ob) = (if s = t then n else side_count s ob)"
  "side_count s (set_heap h ob) = side_count s ob"
  by (cases s; cases t; simp add: set_heap_def)+

lemma pool_read [side_simps]:
  "ob_pool (put_levels t q ob) = ob_pool ob" "ob_pool (put_best t b ob) = ob_pool ob"
  "ob_pool (put_count t n ob) = ob_pool ob" "ob_pool (set_heap h ob) = (ob_pool ob)\<lparr>pool_arena := h\<rparr>"
  by (cases t; simp add: set_heap_def)+

text \<open>The fields outside the ladders and the pool that no maintenance step touches.\<close>

definition io_state :: "Orderbook \<Rightarrow> (OrderId \<Rightarrow> nat option) \<times> u64 \<times> EngineEvent Channel \<times> ITCH RingBuffer
    \<times> u64 \<times> TscClock \<times> (nat \<Rightarrow> Timestamp) \<times> bool" where
  "io_state ob = (orders ob, next_match_number ob, out_ring ob, market_data_ring ob, market_data_drops ob,
     ob_clock ob, tsc_reads ob, answered ob)"

lemma io_read [side_simps]:
  "io_state (put_levels t q ob) = io_state ob" "io_state (put_best t b ob) = io_state ob"
  "io_state (put_count t n ob) = io_state ob" "io_state (set_heap h ob) = io_state ob"
  by (cases t; simp add: io_state_def set_heap_def)+

lemma unlink_side:
  "unlink p ob =
     (let s = ord_side (heap ob p); price = ord_price (heap ob p)
      in do { level \<leftarrow> level_at (side_levels s ob) price;
              let (h, level') = plq_remove (heap ob) level p;
              let ob1 = put_levels s ((side_levels s ob)(level_index price := level')) (set_heap h ob);
              if plq_empty level' then
                let ob2 = put_count s (side_count s ob1 - 1) ob1
                in if side_count s ob2 = 0 then Some (put_best s (worst s) ob2)
                   else if price = side_best s ob2 then update_best s ob2
                   else Some ob2
              else Some ob1 })"
  by (cases "ord_side (heap ob p)") (simp_all add: unlink_def Let_def split_beta cong: if_cong)

lemma rest_link_side:
  "rest_link p ob =
     (let s = ord_side (heap ob p); price = ord_price (heap ob p)
      in do { level \<leftarrow> level_at (side_levels s ob) price;
              let (h, level') = plq_push (heap ob) level p;
              Some (put_best s (if better s price (side_best s ob) then price else side_best s ob)
                (put_levels s ((side_levels s ob)(level_index price := level'))
                  (put_count s (if plq_empty level then side_count s ob + 1 else side_count s ob)
                    (set_heap h ob)))) })"
  by (cases "ord_side (heap ob p)") (simp_all add: rest_link_def Let_def split_beta cong: if_cong)

lemma crosses_side:
  "crosses side type price ob \<longleftrightarrow> side_count (opposite side) ob \<noteq> 0 \<and> takes side type price (side_best (opposite side) ob)"
  by (cases side) (simp_all add: crosses_def takes_def)

subsection \<open>Level counts and best prices\<close>

fun ahead :: "Side \<Rightarrow> nat \<Rightarrow> nat \<Rightarrow> bool" where
  "ahead BID i j \<longleftrightarrow> j \<le> i"
| "ahead ASK i j \<longleftrightarrow> i \<le> j"

definition best_ok :: "Side \<Rightarrow> (nat \<Rightarrow> nat list) \<Rightarrow> Price \<Rightarrow> bool" where
  "best_ok s Ls b \<longleftrightarrow>
     (if \<forall>i. Ls i = [] then b = worst s
      else in_band b \<and> Ls (level_index b) \<noteq> [] \<and> (\<forall>i. Ls i \<noteq> [] \<longrightarrow> ahead s (level_index b) i))"

definition side_ok :: "Side \<Rightarrow> (nat \<Rightarrow> nat list) \<Rightarrow> Price \<Rightarrow> usize \<Rightarrow> bool" where
  "side_ok s Ls b n \<longleftrightarrow> (\<forall>i. Ls i \<noteq> [] \<longrightarrow> i < LEVELS) \<and> unat n = card {i. Ls i \<noteq> []} \<and> best_ok s Ls b"

lemma worst_in_band: "in_band (worst s)"
  by (cases s) (simp_all add: in_band_unat price_band_defs)

lemma side_ok_finite: "side_ok s Ls b n \<Longrightarrow> finite {i. Ls i \<noteq> []}"
  by (rule finite_subset [of _ "{..<LEVELS}"]) (auto simp: side_ok_def)

lemma side_ok_card: "side_ok s Ls b n \<Longrightarrow> unat n \<le> LEVELS"
proof -
  assume ok: "side_ok s Ls b n"
  then have "{i. Ls i \<noteq> []} \<subseteq> {..<LEVELS}" by (auto simp: side_ok_def)
  then have "card {i. Ls i \<noteq> []} \<le> card {..<LEVELS}" by (intro card_mono) auto
  with ok show ?thesis by (simp add: side_ok_def)
qed

lemma side_ok_zero: "side_ok s Ls b n \<Longrightarrow> n = 0 \<longleftrightarrow> (\<forall>i. Ls i = [])"
proof -
  assume ok: "side_ok s Ls b n"
  have "n = 0 \<longleftrightarrow> unat n = 0" by (simp add: word_unat_eq_iff)
  also have "\<dots> \<longleftrightarrow> {i. Ls i \<noteq> []} = {}" using ok side_ok_finite [OF ok] by (simp add: side_ok_def)
  finally show ?thesis by auto
qed

lemma best_ok_band: "best_ok s Ls b \<Longrightarrow> in_band b"
  by (auto simp: best_ok_def worst_in_band split: if_splits)

lemma ahead_index:
  assumes "in_band b" "in_band p"
  shows "ahead s (level_index b) (level_index p) \<longleftrightarrow> \<not> better s p b"
  using assms by (cases s) (auto simp: level_index_le not_less)

lemma ahead_trans: "ahead s i j \<Longrightarrow> ahead s j k \<Longrightarrow> ahead s i k"
  by (cases s) auto

lemma ahead_refl [simp]: "ahead s i i"
  by (cases s) auto

text \<open>An order joins a level.\<close>

lemma side_ok_insert:
  assumes ok: "side_ok s Ls b n" and p: "in_band p" and xs: "xs \<noteq> []"
  shows "side_ok s (Ls(level_index p := xs)) (if better s p b then p else b)
    (if Ls (level_index p) = [] then n + 1 else n)"
proof -
  let ?i = "level_index p" let ?L = "Ls(level_index p := xs)"
  have rng: "\<forall>i. ?L i \<noteq> [] \<longrightarrow> i < LEVELS" using ok level_index_less [OF p] by (auto simp: side_ok_def)
  have ne: "{i. ?L i \<noteq> []} = insert ?i {i. Ls i \<noteq> []}" using xs by auto
  have "unat n < 2 ^ 64 - 1" using side_ok_card [OF ok] by (simp add: LEVELS_val)
  then have inc: "unat (n + 1) = Suc (unat n)" by (intro unat_inc_bounded) simp
  have cnt: "unat (if Ls ?i = [] then n + 1 else n) = card {i. ?L i \<noteq> []}"
    using ok side_ok_finite [OF ok] inc unfolding ne by (auto simp: side_ok_def insert_absorb)
  have bb: "in_band b" using ok best_ok_band by (auto simp: side_ok_def)
  have "best_ok s ?L (if better s p b then p else b)"
  proof (cases "\<forall>i. Ls i = []")
    case True
    then have "b = worst s" using ok by (simp add: side_ok_def best_ok_def)
    then have eq: "(if better s p b then p else b) = p"
      using p by (cases s) (auto simp: in_band_def not_less)
    show ?thesis unfolding eq using True p xs by (auto simp: best_ok_def split: if_splits)
  next
    case False
    then have hb: "Ls (level_index b) \<noteq> []" "\<forall>i. Ls i \<noteq> [] \<longrightarrow> ahead s (level_index b) i"
      using ok by (auto simp: side_ok_def best_ok_def split: if_splits)
    have pa: "better s p b \<Longrightarrow> ahead s (level_index p) (level_index b)"
      using ahead_index [OF p bb] by (cases s) auto
    show ?thesis
    proof (cases "better s p b")
      case True
      with pa hb p xs show ?thesis
        by (auto simp: best_ok_def split: if_splits dest: ahead_trans)
    next
      case nb: False
      with ahead_index [OF bb p] have "ahead s (level_index b) (level_index p)" by simp
      with nb hb bb xs show ?thesis
        by (auto simp: best_ok_def split: if_splits)
    qed
  qed
  with rng cnt show ?thesis by (simp add: side_ok_def)
qed

text \<open>A level changes but stays non-empty.\<close>

lemma side_ok_keep:
  assumes "side_ok s Ls b n" "Ls i \<noteq> []" "xs \<noteq> []"
  shows "side_ok s (Ls(i := xs)) b n"
proof -
  have ne: "(Ls(i := xs)) j \<noteq> [] \<longleftrightarrow> Ls j \<noteq> []" for j using assms by auto
  then have "(\<forall>j. (Ls(i := xs)) j = []) \<longleftrightarrow> (\<forall>j. Ls j = [])" by blast
  with assms(1) show ?thesis unfolding side_ok_def best_ok_def ne by simp
qed

text \<open>A level becomes empty: three cases, as in the code.\<close>

lemma side_ok_empty_count:
  assumes ok: "side_ok s Ls b n" and i: "Ls i \<noteq> []"
  shows "\<forall>j. (Ls(i := [])) j \<noteq> [] \<longrightarrow> j < LEVELS" "unat (n - 1) = card {j. (Ls(i := [])) j \<noteq> []}"
    "n - 1 = 0 \<longleftrightarrow> (\<forall>j. (Ls(i := [])) j = [])"
proof -
  show "\<forall>j. (Ls(i := [])) j \<noteq> [] \<longrightarrow> j < LEVELS" using ok by (auto simp: side_ok_def)
  have ne: "{j. (Ls(i := [])) j \<noteq> []} = {j. Ls j \<noteq> []} - {i}" by auto
  have "n \<noteq> 0" using side_ok_zero [OF ok] i by auto
  then have "0 < n" by (simp add: word_neq_0_conv)
  then have "unat (n - 1) = unat n - 1" by (rule unat_dec)
  also have "\<dots> = card ({j. Ls j \<noteq> []} - {i})"
    using ok i side_ok_finite [OF ok] by (simp add: side_ok_def card_Diff_singleton)
  finally show c: "unat (n - 1) = card {j. (Ls(i := [])) j \<noteq> []}" unfolding ne .
  have "n - 1 = 0 \<longleftrightarrow> unat (n - 1) = 0" by (simp add: word_unat_eq_iff)
  also have "\<dots> \<longleftrightarrow> {j. (Ls(i := [])) j \<noteq> []} = {}"
    unfolding c ne using side_ok_finite [OF ok] by (simp add: card_eq_0_iff)
  finally show "n - 1 = 0 \<longleftrightarrow> (\<forall>j. (Ls(i := [])) j = [])" by auto
qed

lemma side_ok_empty_last:
  assumes "side_ok s Ls b n" "Ls i \<noteq> []" "n - 1 = 0"
  shows "side_ok s (Ls(i := [])) (worst s) (n - 1)"
  using side_ok_empty_count [OF assms(1,2)] assms(3) by (simp add: side_ok_def best_ok_def)

lemma side_ok_empty_other:
  assumes ok: "side_ok s Ls b n" and i: "Ls i \<noteq> []" and more: "n - 1 \<noteq> 0" and nb: "i \<noteq> level_index b"
  shows "side_ok s (Ls(i := [])) b (n - 1)"
proof -
  note C = side_ok_empty_count [OF ok i]
  from C(3) more have ex: "\<not> (\<forall>j. (Ls(i := [])) j = [])" by blast
  have "in_band b" "Ls (level_index b) \<noteq> []" "\<forall>j. Ls j \<noteq> [] \<longrightarrow> ahead s (level_index b) j"
    using ok i by (auto simp: side_ok_def best_ok_def split: if_splits)
  then have "best_ok s (Ls(i := [])) b" using ex nb by (auto simp: best_ok_def)
  with C show ?thesis by (simp add: side_ok_def)
qed

lemma side_ok_empty_best:
  assumes ok: "side_ok s Ls b n" and i: "Ls i \<noteq> []"
    and b': "in_band b'" "(Ls(i := [])) (level_index b') \<noteq> []"
    and beh: "\<And>j. (Ls(i := [])) j \<noteq> [] \<Longrightarrow> ahead s (level_index b') j"
  shows "side_ok s (Ls(i := [])) b' (n - 1)"
proof -
  note C = side_ok_empty_count [OF ok i]
  have "best_ok s (Ls(i := [])) b'" using b' beh unfolding best_ok_def by presburger
  with C show ?thesis by (simp add: side_ok_def)
qed

subsection \<open>The scans\<close>

lemma in_band_dec: "in_band p \<Longrightarrow> p > MIN_PRICE \<Longrightarrow> in_band (p - 1) \<and> level_index (p - 1) = level_index p - 1 \<and> 0 < level_index p"
proof -
  assume b: "in_band p" and g: "p > MIN_PRICE"
  then have "0 < p" "1 < unat p" by (simp_all add: MIN_PRICE_def word_nat)
  then have u: "unat (p - 1) = unat p - 1" by (simp add: unat_dec)
  with b \<open>1 < unat p\<close> have "in_band (p - 1)" by (auto simp: in_band_unat)
  with b u \<open>1 < unat p\<close> show ?thesis by (auto simp: level_index_in_band)
qed

lemma in_band_inc: "in_band p \<Longrightarrow> p < MAX_PRICE \<Longrightarrow> in_band (p + 1) \<and> level_index (p + 1) = Suc (level_index p)"
proof -
  assume b: "in_band p" and g: "p < MAX_PRICE"
  then have l: "unat p < 100000" by (simp add: MAX_PRICE_def word_nat)
  then have u: "unat (p + 1) = Suc (unat p)" by (intro unat_inc_bounded) simp
  with l have "in_band (p + 1)" by (simp add: in_band_unat)
  with b u show ?thesis by (simp add: level_index_in_band in_band_unat)
qed

lemma update_best_bid_spec:
  assumes "in_band (best_bid_price ob)" and "i \<le> level_index (best_bid_price ob)" and "\<not> plq_empty (bids ob i)"
  shows "\<exists>b. update_best_bid ob = Some (ob\<lparr>best_bid_price := b\<rparr>) \<and> in_band b
    \<and> \<not> plq_empty (bids ob (level_index b))
    \<and> (\<forall>j. level_index b < j \<and> j \<le> level_index (best_bid_price ob) \<longrightarrow> plq_empty (bids ob j))"
  using assms
proof (induction ob rule: update_best_bid.induct)
  case (1 ob)
  let ?b = "best_bid_price ob"
  have at: "level_at (bids ob) ?b = Some (bids ob (level_index ?b))" by (rule level_at_in_band [OF "1.prems"(1)])
  show ?case
  proof (cases "?b > MIN_PRICE \<and> plq_empty (bids ob (level_index ?b))")
    case True
    let ?ob = "ob\<lparr>best_bid_price := ?b - 1\<rparr>"
    note D = in_band_dec [OF "1.prems"(1)]
    have "i \<noteq> level_index ?b" using True "1.prems"(3) by auto
    with D True "1.prems"(2) have "i \<le> level_index (?b - 1)" by simp
    with "1.IH" [OF _ at] True D "1.prems"(3) obtain b where
      b: "update_best_bid ?ob = Some (?ob\<lparr>best_bid_price := b\<rparr>)" "in_band b" "\<not> plq_empty (bids ob (level_index b))"
      "\<forall>j. level_index b < j \<and> j \<le> level_index (?b - 1) \<longrightarrow> plq_empty (bids ob j)"
      by auto
    have "update_best_bid ob = update_best_bid ?ob"
      using True at by (subst update_best_bid.simps) simp
    moreover have "\<forall>j. level_index b < j \<and> j \<le> level_index ?b \<longrightarrow> plq_empty (bids ob j)"
    proof (intro allI impI)
      fix j assume "level_index b < j \<and> j \<le> level_index ?b"
      moreover have "level_index (?b - 1) = level_index ?b - 1" using D True by simp
      ultimately show "plq_empty (bids ob j)"
        using b(4) True by (cases "j = level_index ?b") auto
    qed
    ultimately show ?thesis using b by auto
  next
    case False
    have "\<not> plq_empty (bids ob (level_index ?b))"
    proof (cases "?b > MIN_PRICE")
      case True with False show ?thesis by simp
    next
      case le: False
      then have "level_index ?b = 0" using "1.prems"(1) by (auto simp: level_index_in_band in_band_unat MIN_PRICE_def word_nat)
      then show ?thesis using "1.prems"(2,3) by simp
    qed
    moreover from False at this have "update_best_bid ob = Some ob" by (subst update_best_bid.simps) simp
    ultimately show ?thesis using "1.prems"(1) by (intro exI [of _ ?b]) auto
  qed
qed

lemma update_best_ask_spec:
  assumes "in_band (best_ask_price ob)" and "level_index (best_ask_price ob) \<le> i" and "i < LEVELS" and "\<not> plq_empty (asks ob i)"
  shows "\<exists>b. update_best_ask ob = Some (ob\<lparr>best_ask_price := b\<rparr>) \<and> in_band b
    \<and> \<not> plq_empty (asks ob (level_index b))
    \<and> (\<forall>j. level_index (best_ask_price ob) \<le> j \<and> j < level_index b \<longrightarrow> plq_empty (asks ob j))"
  using assms
proof (induction ob rule: update_best_ask.induct)
  case (1 ob)
  let ?b = "best_ask_price ob"
  have at: "level_at (asks ob) ?b = Some (asks ob (level_index ?b))" by (rule level_at_in_band [OF "1.prems"(1)])
  show ?case
  proof (cases "?b < MAX_PRICE \<and> plq_empty (asks ob (level_index ?b))")
    case True
    let ?ob = "ob\<lparr>best_ask_price := ?b + 1\<rparr>"
    note D = in_band_inc [OF "1.prems"(1)]
    have "i \<noteq> level_index ?b" using True "1.prems"(4) by auto
    with D True "1.prems"(2) have "level_index (?b + 1) \<le> i" by simp
    with "1.IH" [OF _ at] True D "1.prems"(3,4) obtain b where
      b: "update_best_ask ?ob = Some (?ob\<lparr>best_ask_price := b\<rparr>)" "in_band b" "\<not> plq_empty (asks ob (level_index b))"
      "\<forall>j. level_index (?b + 1) \<le> j \<and> j < level_index b \<longrightarrow> plq_empty (asks ob j)"
      by auto
    have "update_best_ask ob = update_best_ask ?ob"
      using True at by (subst update_best_ask.simps) simp
    moreover have "\<forall>j. level_index ?b \<le> j \<and> j < level_index b \<longrightarrow> plq_empty (asks ob j)"
    proof (intro allI impI)
      fix j assume "level_index ?b \<le> j \<and> j < level_index b"
      moreover have "level_index (?b + 1) = Suc (level_index ?b)" using D True by simp
      ultimately show "plq_empty (asks ob j)"
        using b(4) True by (cases "j = level_index ?b") auto
    qed
    ultimately show ?thesis using b by auto
  next
    case False
    have "\<not> plq_empty (asks ob (level_index ?b))"
    proof (cases "?b < MAX_PRICE")
      case True with False show ?thesis by simp
    next
      case ge: False
      then have "level_index ?b = 99999" using "1.prems"(1) by (auto simp: level_index_in_band in_band_unat MAX_PRICE_def word_nat)
      then have "i = level_index ?b" using "1.prems"(2,3) by (simp add: LEVELS_val)
      then show ?thesis using "1.prems"(4) by simp
    qed
    moreover from False at this have "update_best_ask ob = Some ob" by (subst update_best_ask.simps) simp
    ultimately show ?thesis using "1.prems"(1) by (intro exI [of _ ?b]) auto
  qed
qed

lemma update_best_spec:
  assumes "in_band (side_best s ob)" and "ahead s (level_index (side_best s ob)) i" and "i < LEVELS"
    and "\<not> plq_empty (side_levels s ob i)"
  obtains b where "update_best s ob = Some (put_best s b ob)" "in_band b"
    "\<not> plq_empty (side_levels s ob (level_index b))"
    "\<And>j. ahead s (level_index (side_best s ob)) j \<Longrightarrow> \<not> plq_empty (side_levels s ob j) \<Longrightarrow> ahead s (level_index b) j"
proof (cases s)
  case BID
  with update_best_bid_spec [of ob i] assms obtain b where
    b: "update_best_bid ob = Some (ob\<lparr>best_bid_price := b\<rparr>)" "in_band b" "\<not> plq_empty (bids ob (level_index b))"
    "\<forall>j. level_index b < j \<and> j \<le> level_index (best_bid_price ob) \<longrightarrow> plq_empty (bids ob j)" by auto
  show thesis by (rule that [of b]) (use BID b in \<open>auto simp: not_less [symmetric]\<close>)
next
  case ASK
  with update_best_ask_spec [of ob i] assms obtain b where
    b: "update_best_ask ob = Some (ob\<lparr>best_ask_price := b\<rparr>)" "in_band b" "\<not> plq_empty (asks ob (level_index b))"
    "\<forall>j. level_index (best_ask_price ob) \<le> j \<and> j < level_index b \<longrightarrow> plq_empty (asks ob j)" by auto
  show thesis by (rule that [of b]) (use ASK b in \<open>auto simp: not_less [symmetric]\<close>)
qed

subsection \<open>The ladder invariant\<close>

type_synonym ladder = "Side \<times> nat \<Rightarrow> nat list"

definition members :: "ladder \<Rightarrow> nat set" where
  "members L = (\<Union>j. set (L j))"

definition placed :: "ladder \<Rightarrow> arena \<Rightarrow> bool" where
  "placed L h \<longleftrightarrow> (\<forall>s i p. p \<in> set (L (s, i)) \<longrightarrow>
     ord_side (h p) = s \<and> in_band (ord_price (h p)) \<and> level_index (ord_price (h p)) = i)"

definition separate :: "ladder \<Rightarrow> bool" where
  "separate L \<longleftrightarrow> (\<forall>j k. j \<noteq> k \<longrightarrow> set (L j) \<inter> set (L k) = {})"

definition ladder_inv :: "ladder \<Rightarrow> Orderbook \<Rightarrow> bool" where
  "ladder_inv L ob \<longleftrightarrow> (\<forall>j. queue_of (heap ob) (side_levels (fst j) ob (snd j)) (L j)) \<and> separate L
     \<and> placed L (heap ob) \<and> (\<forall>s. side_ok s (\<lambda>i. L (s, i)) (side_best s ob) (side_count s ob))"

lemma placed_views:
  "(\<And>x. view (h' x) = view (h x)) \<Longrightarrow> placed L h' = placed L h"
  unfolding placed_def by (metis view_sel(3,4))

lemma members_remove:
  assumes "separate L" "distinct (L j)" "p \<in> set (L j)"
  shows "L(j := remove1 p (L j)) = (\<lambda>k. filter (\<lambda>q. q \<noteq> p) (L k))"
proof
  fix k
  show "(L(j := remove1 p (L j))) k = filter (\<lambda>q. q \<noteq> p) (L k)"
  proof (cases "k = j")
    case True
    with assms show ?thesis by (simp add: distinct_remove1_removeAll removeAll_filter_not_eq)
      (metis (mono_tags, lifting) filter_cong)
  next
    case False
    with assms(1,3) have "p \<notin> set (L k)" unfolding separate_def by blast
    then have "filter (\<lambda>q. q \<noteq> p) (L k) = L k" by (auto simp: filter_id_conv)
    with False show ?thesis by simp
  qed
qed

text \<open>The frame of a ladder update: same pool bookkeeping and outputs, same orders up to links.\<close>

definition ladder_frame :: "Orderbook \<Rightarrow> Orderbook \<Rightarrow> bool" where
  "ladder_frame ob ob' \<longleftrightarrow> io_state ob' = io_state ob \<and> pool_free (ob_pool ob') = pool_free (ob_pool ob)
     \<and> pool_capacity (ob_pool ob') = pool_capacity (ob_pool ob) \<and> (\<forall>x. view (heap ob' x) = view (heap ob x))"

lemma ladder_invD:
  assumes "ladder_inv L ob"
  shows "queue_of (heap ob) (side_levels s ob i) (L (s, i))" "separate L" "placed L (heap ob)"
    "side_ok s (\<lambda>i. L (s, i)) (side_best s ob) (side_count s ob)" "distinct (L j)"
proof -
  from assms have "\<forall>j. queue_of (heap ob) (side_levels (fst j) ob (snd j)) (L j)" by (simp add: ladder_inv_def)
  then show "queue_of (heap ob) (side_levels s ob i) (L (s, i))" "distinct (L j)"
    by (metis fst_conv snd_conv, metis queue_of_def)
qed (use assms in \<open>auto simp: ladder_inv_def\<close>)

lemma ladder_best_ahead:
  assumes "ladder_inv L ob" "L (s, i) \<noteq> []"
  shows "in_band (side_best s ob)" "L (s, level_index (side_best s ob)) \<noteq> []"
    "ahead s (level_index (side_best s ob)) i" "i < LEVELS"
  using ladder_invD(4) [OF assms(1), of s] assms(2)
  by (auto simp: side_ok_def best_ok_def split: if_splits)

lemma ladder_empty:
  assumes "ladder_inv L ob"
  shows "plq_empty (side_levels s ob i) \<longleftrightarrow> L (s, i) = []"
  using queue_of_empty [OF ladder_invD(1) [OF assms]] .

text \<open>
  After a level's queue changed, only the changed side's count and best price remain to be shown.
\<close>

lemma ladder_inv_side:
  assumes inv: "ladder_inv L ob" and oth: "\<And>t k. t \<noteq> s \<Longrightarrow> L' (t, k) = L (t, k)"
    and rel: "\<forall>j. queue_of (heap ob') (side_levels (fst j) ob' (snd j)) (L' j)" and sep: "separate L'"
    and pl: "placed L' (heap ob')"
    and oth': "\<And>t. t \<noteq> s \<Longrightarrow> side_best t ob' = side_best t ob \<and> side_count t ob' = side_count t ob"
    and ok: "side_ok s (\<lambda>k. L' (s, k)) (side_best s ob') (side_count s ob')"
  shows "ladder_inv L' ob'"
proof -
  have "side_ok t (\<lambda>k. L' (t, k)) (side_best t ob') (side_count t ob')" for t
  proof (cases "t = s")
    case False
    then show ?thesis using ladder_invD(4) [OF inv, of t] oth oth' by simp
  qed (use ok in simp)
  then show ?thesis using rel sep pl by (simp add: ladder_inv_def)
qed

subsection \<open>Unlinking an order\<close>

text \<open>The queue surgery, before the counts and the best price are brought up to date.\<close>

lemma unlink_queues:
  assumes inv: "ladder_inv L ob" and p: "p \<in> set (L (s, i))"
    and rm: "plq_remove (heap ob) (side_levels s ob i) p = (h, q')"
    and L'_def: "L' = (\<lambda>k. filter (\<lambda>q. q \<noteq> p) (L k))"
    and ob1_def: "ob1 = put_levels s ((side_levels s ob)(i := q')) (set_heap h ob)"
  shows "\<forall>j. queue_of h (side_levels (fst j) ob1 (snd j)) (L' j)" "separate L'" "placed L' h"
    "\<And>x. view (h x) = view (heap ob x)" "\<And>t k. t \<noteq> s \<Longrightarrow> L' (t, k) = L (t, k)"
    "(\<lambda>k. L' (s, k)) = (\<lambda>k. L (s, k))(i := L' (s, i))"
proof -
  note D = ladder_invD [OF inv]
  have L': "L' = L((s, i) := remove1 p (L (s, i)))"
    unfolding L'_def by (rule members_remove [symmetric, OF D(2) D(5) p])
  have "\<forall>j. queue_of h (((\<lambda>j. side_levels (fst j) ob (snd j))((s, i) := q')) j) (L' j)"
    unfolding L'
    by (rule plq.levels_remove [where h = "heap ob" and Q = "\<lambda>j. side_levels (fst j) ob (snd j)" and k = "(s, i)"])
      (use inv rm p in \<open>auto simp: ladder_inv_def separate_def\<close>)
  moreover have "((\<lambda>j. side_levels (fst j) ob (snd j))((s, i) := q')) j = side_levels (fst j) ob1 (snd j)" for j
    by (cases j) (auto simp: ob1_def side_simps)
  ultimately show "\<forall>j. queue_of h (side_levels (fst j) ob1 (snd j)) (L' j)" by (simp only: simp_thms)
  have "set (L' j) \<subseteq> set (L j)" for j by (auto simp: L'_def)
  then show "separate L'" using D(2) unfolding separate_def by blast
  show v: "\<And>x. view (h x) = view (heap ob x)" using plq_remove_view [OF rm] .
  have "placed L' (heap ob)" using D(3) by (auto simp: placed_def L'_def)
  then show "placed L' h" using placed_views [of h "heap ob"] v by simp
  show "\<And>t k. t \<noteq> s \<Longrightarrow> L' (t, k) = L (t, k)" by (simp add: L')
  show "(\<lambda>k. L' (s, k)) = (\<lambda>k. L (s, k))(i := L' (s, i))" by (auto simp: L')
qed

lemma unlink_ok:
  assumes inv: "ladder_inv L ob" and p: "p \<in> set (L (s, i))"
  obtains ob' where "unlink p ob = Some ob'" "ladder_inv (\<lambda>k. filter (\<lambda>q. q \<noteq> p) (L k)) ob'"
    "ladder_frame ob ob'"
proof -
  define L' where "L' = (\<lambda>k. filter (\<lambda>q. q \<noteq> p) (L k))"
  let ?pr = "ord_price (heap ob p)" let ?n = "side_count s ob" let ?b = "side_best s ob"
  note D = ladder_invD [OF inv]
  have ne: "L (s, i) \<noteq> []" using p by auto
  note B = ladder_best_ahead [OF inv ne]
  from D(3) p have pl: "ord_side (heap ob p) = s" "in_band ?pr" "level_index ?pr = i" by (auto simp: placed_def)
  obtain h q' where rm: "plq_remove (heap ob) (side_levels s ob i) p = (h, q')" by fastforce
  define ob1 where "ob1 = put_levels s ((side_levels s ob)(i := q')) (set_heap h ob)"
  note Q = unlink_queues [OF inv p rm L'_def ob1_def]
  have Qs: "queue_of h (side_levels s ob1 k) (L' (s, k))" for k
    using Q(1) [rule_format, of "(s, k)"] by simp
  have e: "plq_empty q' \<longleftrightarrow> L' (s, i) = []"
    using queue_of_empty [OF Qs [of i]] by (simp add: ob1_def side_simps)
  have heap1: "heap ob1 = h" "side_best t ob1 = side_best t ob" "side_count t ob1 = side_count t ob"
    "io_state ob1 = io_state ob" "ob_pool ob1 = (ob_pool ob)\<lparr>pool_arena := h\<rparr>" for t
    by (simp_all add: ob1_def side_simps)
  let ?ob2 = "put_count s (?n - 1) ob1"
  have u: "unlink p ob = (if plq_empty q' then
      if ?n - 1 = 0 then Some (put_best s (worst s) ?ob2)
      else if ?pr = ?b then update_best s ?ob2 else Some ?ob2 else Some ob1)"
    using rm pl level_at_in_band [OF pl(2)] unfolding unlink_side ob1_def
    by (simp add: Let_def side_simps)
  have ok: "ladder_inv L' ob'" if "heap ob' = h" "\<And>t. side_levels t ob' = side_levels t ob1"
    "\<And>t. t \<noteq> s \<Longrightarrow> side_best t ob' = side_best t ob1 \<and> side_count t ob' = side_count t ob1"
    "side_ok s ((\<lambda>k. L (s, k))(i := L' (s, i))) (side_best s ob') (side_count s ob')" for ob'
    by (rule ladder_inv_side [OF inv Q(5)]) (use Q that heap1 in auto)
  have fr: "ladder_frame ob ob'" if "io_state ob' = io_state ob1" "ob_pool ob' = ob_pool ob1" for ob'
    using that Q(4) heap1 by (simp add: ladder_frame_def)
  show thesis
  proof (cases "plq_empty q'")
    case False
    have "side_ok s ((\<lambda>k. L (s, k))(i := L' (s, i))) ?b ?n"
      using side_ok_keep [OF D(4) ne] False e by simp
    then have "ladder_inv L' ob1" by (intro ok) (simp_all add: heap1)
    with False u show thesis by (intro that [of ob1]) (simp_all add: L'_def fr)
  next
    case True
    then have L0: "L' (s, i) = []" using e by simp
    note C = side_ok_empty_count [OF D(4) ne]
    consider (last) "?n - 1 = 0" | (best) "?n - 1 \<noteq> 0" "?pr = ?b" | (other) "?n - 1 \<noteq> 0" "?pr \<noteq> ?b" by blast
    then show thesis
    proof cases
      case last
      let ?ob3 = "put_best s (worst s) ?ob2"
      have "ladder_inv L' ?ob3"
        using side_ok_empty_last [OF D(4) ne last] by (intro ok) (simp_all add: side_simps heap1 L0)
      with True last u show thesis by (intro that [of ?ob3]) (simp_all add: L'_def fr side_simps)
    next
      case other
      have "i \<noteq> level_index ?b" using other pl level_index_inj [OF pl(2) B(1)] by simp
      from side_ok_empty_other [OF D(4) ne other(1) this] have "ladder_inv L' ?ob2"
        by (intro ok) (simp_all add: side_simps heap1 L0)
      with True other u show thesis by (intro that [of ?ob2]) (simp_all add: L'_def fr side_simps)
    next
      case best
      have el: "plq_empty (side_levels s ob1 k) \<longleftrightarrow> ((\<lambda>k. L (s, k))(i := [])) k = []" for k
        using queue_of_empty [OF Qs [of k]] Q(6) L0 by metis
      obtain j where j: "((\<lambda>k. L (s, k))(i := [])) j \<noteq> []" using best C(3) by auto
      then have "L (s, j) \<noteq> []" by (auto split: if_splits)
      note J = ladder_best_ahead [OF inv this]
      obtain b where b: "update_best s ?ob2 = Some (put_best s b ?ob2)" "in_band b"
        "\<not> plq_empty (side_levels s ob1 (level_index b))"
        "\<And>j. ahead s (level_index ?b) j \<Longrightarrow> \<not> plq_empty (side_levels s ob1 j) \<Longrightarrow> ahead s (level_index b) j"
        using update_best_spec [of s ?ob2 j] J j el by (auto simp: side_simps heap1)
      have beh: "ahead s (level_index b) k" if "((\<lambda>k. L (s, k))(i := [])) k \<noteq> []" for k
      proof (rule b(4))
        from that have "L (s, k) \<noteq> []" by (auto split: if_splits)
        from ladder_best_ahead [OF inv this] show "ahead s (level_index ?b) k" by simp
        show "\<not> plq_empty (side_levels s ob1 k)" using that el by simp
      qed
      let ?ob3 = "put_best s b ?ob2"
      have "side_ok s ((\<lambda>k. L (s, k))(i := [])) b (?n - 1)"
        by (rule side_ok_empty_best [OF D(4) ne b(2)]) (use b(3) el beh in auto)
      then have "ladder_inv L' ?ob3" by (intro ok) (simp_all add: side_simps heap1 L0)
      with True best u b(1) show thesis by (intro that [of ?ob3]) (simp_all add: L'_def fr side_simps)
    qed
  qed
qed

subsection \<open>Linking an order\<close>

lemma rest_link_ok:
  assumes inv: "ladder_inv L ob" and fresh: "p \<notin> members L"
    and links: "ord_prev (heap ob p) = None" "ord_next (heap ob p) = None"
    and s: "ord_side (heap ob p) = s" and band: "in_band (ord_price (heap ob p))"
    and i: "i = level_index (ord_price (heap ob p))"
  obtains ob' where "rest_link p ob = Some ob'" "ladder_inv (L((s, i) := L (s, i) @ [p])) ob'"
    "ladder_frame ob ob'"
proof -
  let ?L = "L((s, i) := L (s, i) @ [p])" let ?pr = "ord_price (heap ob p)"
  note D = ladder_invD [OF inv]
  have fresh': "\<forall>j. p \<notin> set (L j)" using fresh by (auto simp: members_def)
  obtain h q' where push: "plq_push (heap ob) (side_levels s ob i) p = (h, q')" by fastforce
  let ?b = "if better s ?pr (side_best s ob) then ?pr else side_best s ob"
  let ?n = "if plq_empty (side_levels s ob i) then side_count s ob + 1 else side_count s ob"
  define ob' where "ob' = put_best s ?b (put_levels s ((side_levels s ob)(i := q')) (put_count s ?n (set_heap h ob)))"
  have r: "rest_link p ob = Some ob'"
    using push s i level_at_in_band [OF band] unfolding rest_link_side ob'_def by (simp add: Let_def)
  have v: "view (h x) = view (heap ob x)" for x using plq_push_view [OF push] .
  have "\<forall>j. queue_of h (((\<lambda>j. side_levels (fst j) ob (snd j))((s, i) := q')) j) (?L j)"
    by (rule plq.levels_push [where h = "heap ob" and Q = "\<lambda>j. side_levels (fst j) ob (snd j)" and k = "(s, i)"])
      (use inv push fresh' links in \<open>auto simp: ladder_inv_def separate_def\<close>)
  moreover have "((\<lambda>j. side_levels (fst j) ob (snd j))((s, i) := q')) j = side_levels (fst j) ob' (snd j)" for j
    by (cases j) (auto simp: ob'_def side_simps)
  moreover have "heap ob' = h" by (simp add: ob'_def side_simps)
  ultimately have rel: "\<forall>j. queue_of (heap ob') (side_levels (fst j) ob' (snd j)) (?L j)"
    by (simp only: simp_thms)
  have sep: "separate ?L" using D(2) fresh' unfolding separate_def by auto
  have "placed ?L (heap ob)" using D(3) s i band by (auto simp: placed_def)
  then have pl: "placed ?L (heap ob')" using placed_views [of h "heap ob"] v by (simp add: ob'_def side_simps)
  have "(\<lambda>k. ?L (s, k)) = (\<lambda>k. L (s, k))(i := L (s, i) @ [p])" by auto
  moreover have "side_ok s ((\<lambda>k. L (s, k))(i := L (s, i) @ [p])) ?b ?n"
    using side_ok_insert [OF D(4) band, of "L (s, i) @ [p]"] ladder_empty [OF inv, of s i] i by simp
  ultimately have "ladder_inv ?L ob'"
    by (intro ladder_inv_side [OF inv _ rel sep pl, of s]) (auto simp: ob'_def side_simps)
  moreover have "ladder_frame ob ob'" using v by (simp add: ladder_frame_def ob'_def side_simps)
  ultimately show thesis using r that by blast
qed

text \<open>A price outside the band has no level: resting there would index outside the array.\<close>

lemma rest_link_out_of_band: "\<not> in_band (ord_price (heap ob p)) \<Longrightarrow> rest_link p ob = None"
  by (simp add: rest_link_def Let_def level_at_out_of_band)

end
