(* ===== verification/Orderbook_Refine.thy ===== *)
theory Orderbook_Refine
  imports Orderbook_Ladder
begin

text \<open>
  The code refines the contract: \<open>book_rel ob bk\<close> relates the book's memory to the two priority
  lists, and every handler, run on related states, returns (no undefined behaviour, no
  endless loop) with related states, exactly the contract's events on the outbound ring, and
  exactly its messages offered to the market data ring.
\<close>

subsection \<open>Ownership\<close>

definition owner_inv :: "nat set \<Rightarrow> Orderbook \<Rightarrow> bool" where
  "owner_inv U ob \<longleftrightarrow> pool_inv U (ob_pool ob)
     \<and> (\<forall>oid p. orders ob oid = Some p \<longleftrightarrow> p \<in> U \<and> ord_id (heap ob p) = oid)"

definition book_inv :: "ladder \<Rightarrow> Orderbook \<Rightarrow> bool" where
  "book_inv L ob \<longleftrightarrow> ladder_inv L ob \<and> owner_inv (members L) ob"

lemma pool_inv_card:
  assumes "pool_inv U pool"
  shows "card U + available pool = pool_capacity pool" "finite U"
proof -
  from assms have d: "distinct (pool_free pool)" "U \<inter> set (pool_free pool) = {}"
    and u: "U \<union> set (pool_free pool) = {..<pool_capacity pool}"
    by (auto simp: pool_inv_def)
  from u show f: "finite U" by (metis finite_Un finite_lessThan)
  have "card (U \<union> set (pool_free pool)) = card U + card (set (pool_free pool))"
    by (rule card_Un_disjoint) (use f d in auto)
  then show "card U + available pool = pool_capacity pool"
    using u d(1) by (simp add: distinct_card available_def)
qed

lemma owner_id_inj:
  "owner_inv U ob \<Longrightarrow> p \<in> U \<Longrightarrow> q \<in> U \<Longrightarrow> ord_id (heap ob p) = ord_id (heap ob q) \<longleftrightarrow> p = q"
  unfolding owner_inv_def by (metis option.inject)

lemma owner_frame:
  assumes "owner_inv U ob" "ladder_frame ob ob'"
  shows "owner_inv U ob'"
proof -
  have "ord_id (heap ob' x) = ord_id (heap ob x)" for x
    using assms(2) by (metis ladder_frame_def view_sel(1))
  moreover have "orders ob' = orders ob" using assms(2) by (simp add: ladder_frame_def io_state_def)
  ultimately show ?thesis using assms by (simp add: owner_inv_def pool_inv_def ladder_frame_def)
qed

subsection \<open>The abstraction\<close>

fun tick :: "Side \<Rightarrow> nat \<Rightarrow> nat" where
  "tick BID k = LEVELS - 1 - k"
| "tick ASK k = k"

definition ranked :: "Side \<Rightarrow> ladder \<Rightarrow> nat list" where
  "ranked s L = flat LEVELS (\<lambda>k. L (s, tick s k))"

definition abs_book :: "ladder \<Rightarrow> Orderbook \<Rightarrow> Book" where
  "abs_book L ob = \<lparr> bk_side = (\<lambda>s. map (\<lambda>p. view (heap ob p)) (ranked s L)),
     bk_capacity = pool_capacity (ob_pool ob), bk_next_match = next_match_number ob \<rparr>"

definition book_rel :: "Orderbook \<Rightarrow> Book \<Rightarrow> bool" where
  "book_rel ob bk \<longleftrightarrow> (\<exists>L. book_inv L ob \<and> bk = abs_book L ob)"

lemma abs_book_sel [simp]:
  "bk_side (abs_book L ob) s = map (\<lambda>p. view (heap ob p)) (ranked s L)"
  "bk_capacity (abs_book L ob) = pool_capacity (ob_pool ob)"
  "bk_next_match (abs_book L ob) = next_match_number ob"
  by (simp_all add: abs_book_def)

lemma book_eqI:
  fixes a b :: Book
  assumes "\<And>s. bk_side a s = bk_side b s" "bk_capacity a = bk_capacity b" "bk_next_match a = bk_next_match b"
  shows "a = b"
  using assms by (cases a, cases b) (auto simp: fun_eq_iff)

lemma tick_less: "k < LEVELS \<Longrightarrow> tick s k < LEVELS"
  by (cases s) auto

lemma tick_tick: "k < LEVELS \<Longrightarrow> tick s (tick s k) = k"
  by (cases s) auto

lemma tick_inj: "j < LEVELS \<Longrightarrow> k < LEVELS \<Longrightarrow> tick s j = tick s k \<longleftrightarrow> j = k"
  by (metis tick_tick)

lemma ahead_tick: "j < LEVELS \<Longrightarrow> k < LEVELS \<Longrightarrow> ahead s (tick s j) (tick s k) \<longleftrightarrow> j \<le> k"
  by (cases s) auto

lemma set_ranked:
  assumes "ladder_inv L ob"
  shows "set (ranked s L) = (\<Union>i. set (L (s, i)))"
proof -
  have "p \<in> set (L (s, i)) \<Longrightarrow> \<exists>k<LEVELS. p \<in> set (L (s, tick s k))" for p i
    using ladder_best_ahead(4) [OF assms, of s i] tick_less [of i s] tick_tick [of i s]
    by (metis length_greater_0_conv length_pos_if_in_set)
  then show ?thesis by (auto simp: ranked_def set_flat)
qed

lemma members_ranked: "ladder_inv L ob \<Longrightarrow> members L = set (ranked BID L) \<union> set (ranked ASK L)"
  unfolding members_def by (auto simp: set_ranked) (metis Side.exhaust)

lemma distinct_ranked: "ladder_inv L ob \<Longrightarrow> distinct (ranked s L)"
  unfolding ranked_def
proof (rule distinct_flat)
  fix i j assume inv: "ladder_inv L ob" and "i < LEVELS" "j < LEVELS" "i \<noteq> j"
  then have "(s, tick s i) \<noteq> (s, tick s j)" by (metis prod.inject tick_tick)
  then show "set (L (s, tick s i)) \<inter> set (L (s, tick s j)) = {}"
    using ladder_invD(2) [OF inv] unfolding separate_def by blast
qed (rule ladder_invD(5))

lemma ranked_sides_disjoint: "ladder_inv L ob \<Longrightarrow> set (ranked BID L) \<inter> set (ranked ASK L) = {}"
proof -
  assume inv: "ladder_inv L ob"
  have "set (L (BID, i)) \<inter> set (L (ASK, j)) = {}" for i j
    using ladder_invD(2) [OF inv] unfolding separate_def by blast
  then show ?thesis unfolding set_ranked [OF inv] by blast
qed

lemma ranked_members: "ladder_inv L ob \<Longrightarrow> p \<in> set (ranked s L) \<Longrightarrow> p \<in> members L"
  using members_ranked by (cases s) auto

lemma card_members:
  assumes "ladder_inv L ob"
  shows "card (members L) = length (ranked BID L) + length (ranked ASK L)"
  unfolding members_ranked [OF assms]
  using distinct_ranked [OF assms] ranked_sides_disjoint [OF assms]
  by (subst card_Un_disjoint) (auto simp: distinct_card)

lemma abs_all_orders: "all_orders (abs_book L ob) = map (\<lambda>p. view (heap ob p)) (ranked BID L @ ranked ASK L)"
  by (simp add: all_orders_def abs_book_def)

lemma book_full_iff:
  assumes "book_inv L ob"
  shows "book_full (abs_book L ob) \<longleftrightarrow> available (ob_pool ob) = 0"
proof -
  from assms have lad: "ladder_inv L ob" and "pool_inv (members L) (ob_pool ob)"
    by (auto simp: book_inv_def owner_inv_def)
  from pool_inv_card(1) [OF this(2)] card_members [OF lad]
  have "pool_capacity (ob_pool ob) = length (all_orders (abs_book L ob)) + available (ob_pool ob)"
    by (simp add: abs_all_orders)
  then show ?thesis by (simp add: book_full_def)
qed

lemma book_inv_ids_distinct:
  assumes "book_inv L ob"
  shows "distinct (map ro_id (all_orders (abs_book L ob)))"
proof -
  from assms have lad: "ladder_inv L ob" and own: "owner_inv (members L) ob" by (auto simp: book_inv_def)
  have "distinct (ranked BID L @ ranked ASK L)"
    using distinct_ranked [OF lad] ranked_sides_disjoint [OF lad] by auto
  moreover have "inj_on (\<lambda>p. ord_id (heap ob p)) (set (ranked BID L @ ranked ASK L))"
    using owner_id_inj [OF own] ranked_members [OF lad] by (intro inj_onI) auto
  ultimately show ?thesis
    unfolding abs_all_orders map_map comp_def view_sel by (simp only: distinct_map simp_thms)
qed

text \<open>The order map finds the order the contract finds.\<close>

lemma orders_find:
  assumes "book_inv L ob"
  shows "find_order oid (abs_book L ob) = map_option (\<lambda>p. view (heap ob p)) (orders ob oid)"
    "orders ob oid = Some p \<Longrightarrow> p \<in> members L \<and> ord_id (heap ob p) = oid"
proof -
  from assms have lad: "ladder_inv L ob" and own: "owner_inv (members L) ob" by (auto simp: book_inv_def)
  then show mem: "orders ob oid = Some p \<Longrightarrow> p \<in> members L \<and> ord_id (heap ob p) = oid" for p
    by (auto simp: owner_inv_def)
  have all: "set (all_orders (abs_book L ob)) = (\<lambda>p. view (heap ob p)) ` members L"
    by (simp add: abs_all_orders members_ranked [OF lad] image_Un)
  show "find_order oid (abs_book L ob) = map_option (\<lambda>p. view (heap ob p)) (orders ob oid)"
  proof (cases "orders ob oid")
    case None
    have "ord_id (heap ob q) \<noteq> oid" if "q \<in> members L" for q
      using None own that unfolding owner_inv_def by (metis option.distinct(1))
    then have "\<forall>r \<in> set (all_orders (abs_book L ob)). ro_id r \<noteq> oid" unfolding all by auto
    with None show ?thesis by (simp add: find_order_def find_None)
  next
    case (Some p)
    note M = mem [OF Some]
    have "find (\<lambda>r. ro_id r = oid) (all_orders (abs_book L ob)) = Some (view (heap ob p))"
    proof (rule find_unique)
      show "view (heap ob p) \<in> set (all_orders (abs_book L ob))" using M all by blast
      show "ro_id (view (heap ob p)) = oid" using M by simp
      fix y assume "y \<in> set (all_orders (abs_book L ob))" "ro_id y = oid"
      then show "y = view (heap ob p)" using M owner_id_inj [OF own] unfolding all by auto
    qed
    with Some show ?thesis by (simp add: find_order_def)
  qed
qed

subsection \<open>Removing, writing and resting, in the abstraction\<close>

lemma ladder_inv_cong:
  assumes "heap ob' = heap ob" "\<And>s. side_levels s ob' = side_levels s ob"
    "\<And>s. side_best s ob' = side_best s ob" "\<And>s. side_count s ob' = side_count s ob"
  shows "ladder_inv L ob' = ladder_inv L ob"
  using assms by (simp add: ladder_inv_def)

lemma side_ignore [side_simps]:
  "side_levels s (ob\<lparr>orders := m\<rparr>) = side_levels s ob"
  "side_best s (ob\<lparr>orders := m\<rparr>) = side_best s ob"
  "side_count s (ob\<lparr>orders := m\<rparr>) = side_count s ob"
  "side_levels s (ob\<lparr>ob_pool := pl\<rparr>) = side_levels s ob"
  "side_best s (ob\<lparr>ob_pool := pl\<rparr>) = side_best s ob"
  "side_count s (ob\<lparr>ob_pool := pl\<rparr>) = side_count s ob"
  by (cases s; simp)+

text \<open>The fields that only outputs change.\<close>

definition outputs :: "Orderbook \<Rightarrow> EngineEvent Channel \<times> ITCH RingBuffer \<times> u64 \<times> TscClock
    \<times> (nat \<Rightarrow> Timestamp) \<times> bool" where
  "outputs ob = (out_ring ob, market_data_ring ob, market_data_drops ob, ob_clock ob, tsc_reads ob, answered ob)"

lemma frame_facts:
  assumes "ladder_frame ob ob'"
  shows "outputs ob' = outputs ob" "orders ob' = orders ob" "next_match_number ob' = next_match_number ob"
    "pool_capacity (ob_pool ob') = pool_capacity (ob_pool ob)" "view (heap ob' x) = view (heap ob x)"
    "ord_id (heap ob' x) = ord_id (heap ob x)"
proof -
  show v: "view (heap ob' x) = view (heap ob x)" using assms by (simp add: ladder_frame_def)
  show "ord_id (heap ob' x) = ord_id (heap ob x)" using arg_cong [OF v, of ro_id] by simp
qed (use assms in \<open>simp_all add: ladder_frame_def io_state_def outputs_def\<close>)

lemma remove_refines:
  assumes inv: "book_inv L ob" and p: "p \<in> members L"
  obtains ob1 L' where "unlink p ob = Some ob1" "book_inv L' (release p ob1)"
    "abs_book L' (release p ob1) = remove_order (ord_id (heap ob p)) (abs_book L ob)"
    "outputs (release p ob1) = outputs ob"
proof -
  from inv have lad: "ladder_inv L ob" and own: "owner_inv (members L) ob" by (auto simp: book_inv_def)
  from p obtain s i where mem: "p \<in> set (L (s, i))" by (auto simp: members_def)
  define L' where "L' = (\<lambda>k. filter (\<lambda>q. q \<noteq> p) (L k))"
  obtain ob1 where u: "unlink p ob = Some ob1" and lad1: "ladder_inv L' ob1" and fr: "ladder_frame ob ob1"
    using unlink_ok [OF lad mem] unfolding L'_def by metis
  let ?ob = "release p ob1"
  note F = frame_facts [OF fr]
  have own1: "owner_inv (members L) ob1" by (rule owner_frame [OF own fr])
  have mem': "members L' = members L - {p}" by (auto simp: members_def L'_def)
  have h: "heap ?ob = heap ob1" by (simp add: release_def)
  have "ladder_inv L' ?ob"
    using lad1 by (subst ladder_inv_cong [of _ ob1]) (simp_all add: release_def side_simps)
  moreover have "owner_inv (members L') ?ob"
  proof -
    have "pool_inv (members L') (ob_pool ?ob)"
      unfolding mem' using own1 p deallocate_inv by (simp add: owner_inv_def release_def)
    moreover have "orders ?ob oid = Some q \<longleftrightarrow> q \<in> members L' \<and> ord_id (heap ?ob q) = oid" for oid q
      using own1 owner_id_inj [OF own1 _ p] unfolding mem' by (auto simp: owner_inv_def release_def)
    ultimately show ?thesis by (simp add: owner_inv_def)
  qed
  ultimately have bi: "book_inv L' ?ob" by (simp add: book_inv_def)
  have rk: "ranked s L' = filter (\<lambda>q. ord_id (heap ob q) \<noteq> ord_id (heap ob p)) (ranked s L)" for s
  proof -
    have "ranked s L' = filter (\<lambda>q. q \<noteq> p) (ranked s L)" by (simp add: ranked_def L'_def flat_filter)
    also have "\<dots> = filter (\<lambda>q. ord_id (heap ob q) \<noteq> ord_id (heap ob p)) (ranked s L)"
      by (rule filter_cong) (use owner_id_inj [OF own _ p] ranked_members [OF lad] in auto)
    finally show ?thesis .
  qed
  have "abs_book L' ?ob = remove_order (ord_id (heap ob p)) (abs_book L ob)"
    by (rule book_eqI) (simp_all add: remove_order_def h F rk filter_map comp_def, simp_all add: release_def F)
  with u bi F show thesis by (intro that [of ob1 L']) (simp_all add: release_def outputs_def)
qed

text \<open>Rewriting the quantities of a resting order.\<close>

definition set_quantities :: "OrderId \<Rightarrow> Quantity \<Rightarrow> Quantity \<Rightarrow> Book \<Rightarrow> Book" where
  "set_quantities oid a b bk =
     bk\<lparr>bk_side := (\<lambda>s. map (\<lambda>r. if ro_id r = oid then r\<lparr>ro_open := a, ro_exec := b\<rparr> else r) (bk_side bk s))\<rparr>"

lemma write_refines:
  assumes inv: "book_inv L ob" and p: "p \<in> members L"
    and ob': "ob' = write_order p ((heap ob p)\<lparr>ord_open := a, ord_exec := b\<rparr>) ob"
  shows "book_inv L ob'" "abs_book L ob' = set_quantities (ord_id (heap ob p)) a b (abs_book L ob)"
    "outputs ob' = outputs ob"
proof -
  from inv have lad: "ladder_inv L ob" and own: "owner_inv (members L) ob" by (auto simp: book_inv_def)
  have h: "heap ob' = (heap ob)(p := (heap ob p)\<lparr>ord_open := a, ord_exec := b\<rparr>)"
    by (simp add: ob' write_order_def set_heap_def)
  have keep: "ord_prev (heap ob' x) = ord_prev (heap ob x) \<and> ord_next (heap ob' x) = ord_next (heap ob x)"
    "ord_id (heap ob' x) = ord_id (heap ob x)" "ord_side (heap ob' x) = ord_side (heap ob x)"
    "ord_price (heap ob' x) = ord_price (heap ob x)" for x
    by (simp_all add: h)
  have oth: "side_levels s ob' = side_levels s ob" "side_best s ob' = side_best s ob" "side_count s ob' = side_count s ob" for s
    by (simp_all add: ob' write_order_def side_simps)
  have "\<forall>j. queue_of (heap ob') (side_levels (fst j) ob' (snd j)) (L j)"
    unfolding oth by (rule plq.levels_cong) (use lad keep in \<open>simp_all add: ladder_inv_def\<close>)
  then have "ladder_inv L ob'" using lad by (simp add: ladder_inv_def oth placed_def keep)
  moreover have "owner_inv (members L) ob'"
    using own by (simp add: owner_inv_def keep pool_inv_def) (simp add: ob' write_order_def set_heap_def)
  ultimately show "book_inv L ob'" by (simp add: book_inv_def)
  have v: "view (heap ob' q) = (if ord_id (heap ob q) = ord_id (heap ob p)
      then (view (heap ob q))\<lparr>ro_open := a, ro_exec := b\<rparr> else view (heap ob q))" if "q \<in> members L" for q
    using owner_id_inj [OF own that p] by (simp add: h view_def)
  show "abs_book L ob' = set_quantities (ord_id (heap ob p)) a b (abs_book L ob)"
  proof (rule book_eqI)
    fix s
    show "bk_side (abs_book L ob') s = bk_side (set_quantities (ord_id (heap ob p)) a b (abs_book L ob)) s"
      using v ranked_members [OF lad] by (simp add: set_quantities_def)
  qed (simp_all add: set_quantities_def ob' write_order_def set_heap_def)
  show "outputs ob' = outputs ob" by (simp add: ob' write_order_def set_heap_def outputs_def)
qed

subsection \<open>Linking, in the abstraction\<close>

lemma ranked_push:
  assumes lad: "ladder_inv L ob" and i: "i < LEVELS" and band: "in_band pr" "level_index pr = i"
    and pr: "ro_side r = s" "ro_price r = pr"
    and v: "\<And>q. q \<in> members L \<Longrightarrow> v q = view (heap ob q)" and vp: "v p = r"
  shows "map v (ranked s (L((s, i) := L (s, i) @ [p]))) = insert_order r (map (\<lambda>q. view (heap ob q)) (ranked s L))"
proof -
  define f where "f = (\<lambda>k. L (s, tick s k))"
  define k where "k = tick s i"
  have k: "k < LEVELS" "tick s k = i" using i tick_less tick_tick by (auto simp: k_def)
  define A where "A = flat k f @ f k" define B where "B = concat (map f [Suc k..<LEVELS])"
  have split: "ranked s L = A @ B"
    using flat_split [OF k(1), of f] by (simp add: ranked_def f_def A_def B_def)
  have "flat LEVELS (\<lambda>j. (L((s, i) := L (s, i) @ [p])) (s, tick s j)) = flat LEVELS (f(k := f k @ [p]))"
    by (rule flat_cong) (use k tick_inj in \<open>auto simp: f_def\<close>)
  then have push: "ranked s (L((s, i) := L (s, i) @ [p])) = A @ p # B"
    using flat_upd [OF k(1), of f] by (simp add: ranked_def A_def B_def)
  have rank: "\<not> better s pr (ord_price (heap ob q)) \<longleftrightarrow> j \<le> k" if "q \<in> set (f j)" "j < LEVELS" for q j
  proof -
    from that(1) ladder_invD(3) [OF lad] have q: "in_band (ord_price (heap ob q))" "level_index (ord_price (heap ob q)) = tick s j"
      by (auto simp: placed_def f_def)
    have "\<not> better s pr (ord_price (heap ob q)) \<longleftrightarrow> ahead s (tick s j) (tick s k)"
      using ahead_index [OF q(1) band(1), of s] q band k by simp
    then show ?thesis using ahead_tick [OF that(2) k(1)] by simp
  qed
  have inA: "\<not> better s pr (ord_price (heap ob q))" if q: "q \<in> set A" for q
  proof -
    from q have "\<exists>j\<le>k. q \<in> set (f j)" by (auto simp: A_def set_flat intro: less_imp_le)
    with rank k show ?thesis by (meson le_less_trans)
  qed
  have inB: "better s pr (ord_price (heap ob q))" if q: "q \<in> set B" for q
  proof -
    from q have "\<exists>j. k < j \<and> j < LEVELS \<and> q \<in> set (f j)" by (auto simp: B_def Suc_le_eq)
    with rank show ?thesis by (meson not_le)
  qed
  have mem: "q \<in> members L" if "q \<in> set A \<or> q \<in> set B" for q
    using that split ranked_members [OF lad, of q s] by auto
  let ?P = "\<lambda>x. \<not> better s pr (ro_price x)" let ?w = "\<lambda>q. view (heap ob q)"
  have sp: "takeWhile ?P (map ?w A @ map ?w B) = map ?w A" "dropWhile ?P (map ?w A @ map ?w B) = map ?w B"
    by (rule takeWhile_split; use inA inB in auto)+
  have "map v A = map ?w A" "map v B = map ?w B" using v mem by auto
  then show ?thesis unfolding push split insert_order_def pr map_append sp by (simp add: vp)
qed

subsection \<open>Outputs\<close>

definition stamp :: "Context \<Rightarrow> bool \<Rightarrow> Timestamp \<Rightarrow> EngineEvent \<Rightarrow> EngineEvent" where
  "stamp ctx ans tsc event = event\<lparr> ev_read_begin_tsc := rq_read_begin_tsc (ctx_req ctx),
     ev_recv_tsc := rq_recv_tsc (ctx_req ctx), ev_server_push_tsc := rq_server_push_tsc (ctx_req ctx),
     ev_engine_pop_tsc := ctx_engine_pop_tsc ctx, ev_answers_request := \<not> ans, ev_engine_push_tsc := tsc \<rparr>"

text \<open>A request's events as they leave: the first one answers it, each has its own counter reading.\<close>

fun stamp_events :: "Context \<Rightarrow> bool \<Rightarrow> (nat \<Rightarrow> Timestamp) \<Rightarrow> EngineEvent list \<Rightarrow> EngineEvent list" where
  "stamp_events ctx ans tsc [] = []"
| "stamp_events ctx ans tsc (e # es) = stamp ctx ans (tsc 0) e # stamp_events ctx True (\<lambda>k. tsc (Suc k)) es"

lemma stamp_events_append:
  "stamp_events ctx ans tsc (es @ fs) =
     stamp_events ctx ans tsc es @ stamp_events ctx (ans \<or> es \<noteq> []) (\<lambda>k. tsc (length es + k)) fs"
  by (induction es arbitrary: ans tsc) auto

definition md_publish :: "ITCH \<Rightarrow> ITCH RingBuffer \<times> u64 \<Rightarrow> ITCH RingBuffer \<times> u64" where
  "md_publish msg md = (let (pushed_ok, r) = rb_push msg (fst md) in (r, if pushed_ok then snd md else snd md + 1))"

definition emits :: "Context \<Rightarrow> EngineEvent list \<Rightarrow> ITCH list \<Rightarrow> Orderbook \<Rightarrow> Orderbook \<Rightarrow> bool" where
  "emits ctx evs msgs ob ob' \<longleftrightarrow> channel_inv (out_ring ob')
     \<and> channel_sent (out_ring ob') = channel_sent (out_ring ob) @ stamp_events ctx (answered ob) (tsc_reads ob) evs
     \<and> answered ob' = (answered ob \<or> evs \<noteq> []) \<and> tsc_reads ob' = (\<lambda>k. tsc_reads ob (length evs + k))
     \<and> (market_data_ring ob', market_data_drops ob') = fold md_publish msgs (market_data_ring ob, market_data_drops ob)
     \<and> ob_clock ob' = ob_clock ob"

lemma emits_trans:
  "emits ctx es ms ob ob1 \<Longrightarrow> emits ctx fs ns ob1 ob2 \<Longrightarrow> emits ctx (es @ fs) (ms @ ns) ob ob2"
  by (auto simp: emits_def stamp_events_append add.assoc)

lemma emits_none: "channel_inv (out_ring ob) \<Longrightarrow> outputs ob' = outputs ob \<Longrightarrow> emits ctx [] [] ob ob'"
  by (simp add: emits_def outputs_def)

lemma emits_inv: "emits ctx es ms ob ob' \<Longrightarrow> channel_inv (out_ring ob')"
  by (simp add: emits_def)

lemma emits_cong: "emits ctx es ms ob ob1 \<Longrightarrow> outputs ob2 = outputs ob1 \<Longrightarrow> emits ctx es ms ob ob2"
  by (simp add: emits_def outputs_def)

lemma emits_cong_left: "emits ctx es ms ob1 ob' \<Longrightarrow> outputs ob = outputs ob1 \<Longrightarrow> emits ctx es ms ob ob'"
  by (simp add: emits_def outputs_def)

text \<open>The rest of the state, which no output changes.\<close>

definition same_book :: "Orderbook \<Rightarrow> Orderbook \<Rightarrow> bool" where
  "same_book ob ob' \<longleftrightarrow> ob_pool ob' = ob_pool ob \<and> bids ob' = bids ob \<and> asks ob' = asks ob \<and> orders ob' = orders ob
     \<and> best_bid_price ob' = best_bid_price ob \<and> best_ask_price ob' = best_ask_price ob
     \<and> non_empty_bid_levels ob' = non_empty_bid_levels ob \<and> non_empty_ask_levels ob' = non_empty_ask_levels ob
     \<and> next_match_number ob' = next_match_number ob"

lemma same_book_side:
  assumes "same_book ob ob'"
  shows "side_levels s ob' = side_levels s ob" "side_best s ob' = side_best s ob" "side_count s ob' = side_count s ob"
  using assms by (cases s; simp add: same_book_def)+

lemma same_book_inv:
  assumes "same_book ob ob'"
  shows "book_inv L ob' = book_inv L ob" "abs_book L ob' = abs_book L ob" "heap ob' = heap ob"
    "orders ob' = orders ob" "next_match_number ob' = next_match_number ob"
proof -
  have p: "ob_pool ob' = ob_pool ob" "orders ob' = orders ob" "next_match_number ob' = next_match_number ob"
    using assms by (simp_all add: same_book_def)
  then show "heap ob' = heap ob" "orders ob' = orders ob" "next_match_number ob' = next_match_number ob" by simp_all
  have "ladder_inv L ob' = ladder_inv L ob"
    by (rule ladder_inv_cong) (simp_all add: p same_book_side [OF assms])
  then show "book_inv L ob' = book_inv L ob" by (simp add: book_inv_def owner_inv_def p)
  show "abs_book L ob' = abs_book L ob" by (simp add: abs_book_def p)
qed

lemma emit_refines:
  assumes "channel_inv (out_ring ob)"
  obtains ob' where "emit ctx ev ob = Some ob'" "emits ctx [ev] [] ob ob'" "same_book ob ob'"
proof -
  let ?e = "stamp ctx (answered ob) (tsc_reads ob 0) ev"
  obtain c where c: "push_spin ?e (out_ring ob) = Some c" "channel_inv c" "channel_sent c = channel_sent (out_ring ob) @ [?e]"
    by (rule push_spin_spec [OF assms])
  let ?ob = "ob\<lparr>answered := True, tsc_reads := (\<lambda>k. tsc_reads ob (Suc k)), out_ring := c\<rparr>"
  show thesis
    by (rule that [of ?ob]) (use c in \<open>simp_all add: emit_def stamp_def emits_def same_book_def Let_def\<close>)
qed

lemma publish_emits: "channel_inv (out_ring ob) \<Longrightarrow> emits ctx [] [msg] ob (publish msg ob)"
  by (simp add: publish_def emits_def md_publish_def split_beta)

lemma publish_same: "same_book ob (publish msg ob)"
  by (simp add: publish_def same_book_def split_beta)

subsection \<open>Resting\<close>

lemma itch_header_spec: "itch_header ctx type = spec_header (ctx_itch_timestamp ctx) type"
  by (simp add: itch_header_def spec_header_def)

lemma allocate_refines:
  assumes inv: "book_inv L ob" and room: "available (ob_pool ob) \<noteq> 0" and new: "orders ob (ord_id ord) = None"
  obtains p pool ob2 where "allocate ord (ob_pool ob) = (Some p, pool)" "p \<notin> members L"
    "ob2 = ob\<lparr>ob_pool := pool, orders := emplace (ord_id ord) p (orders ob)\<rparr>"
    "ladder_inv L ob2" "owner_inv (insert p (members L)) ob2" "heap ob2 = (heap ob)(p := ord)"
    "pool_capacity pool = pool_capacity (ob_pool ob)"
proof -
  from inv have lad: "ladder_inv L ob" and own: "owner_inv (members L) ob" by (auto simp: book_inv_def)
  obtain p pool where al: "allocate ord (ob_pool ob) = (Some p, pool)"
    using allocate_None_iff [of ord "ob_pool ob"] room by (cases "allocate ord (ob_pool ob)") fastforce
  have pi: "pool_inv (members L) (ob_pool ob)" using own by (simp add: owner_inv_def)
  note A = allocate_Some [OF al pi]
  define ob2 where "ob2 = ob\<lparr>ob_pool := pool, orders := emplace (ord_id ord) p (orders ob)\<rparr>"
  have h: "heap ob2 = (heap ob)(p := ord)" using A(3) by (simp add: ob2_def)
  have sl: "side_levels s ob2 = side_levels s ob" "side_best s ob2 = side_best s ob" "side_count s ob2 = side_count s ob" for s
    by (simp_all add: ob2_def side_simps)
  have nin: "\<forall>j. p \<notin> set (L j)" using A(1) by (auto simp: members_def)
  have "\<forall>j. queue_of (heap ob2) (side_levels (fst j) ob2 (snd j)) (L j)"
    unfolding sl h by (rule plq.levels_write_free) (use lad nin in \<open>simp_all add: ladder_inv_def\<close>)
  moreover have "placed L (heap ob2)" using ladder_invD(3) [OF lad] nin by (auto simp: placed_def h)
  ultimately have "ladder_inv L ob2" using lad by (simp add: ladder_inv_def sl)
  moreover have "owner_inv (insert p (members L)) ob2"
  proof -
    have "ord_id (heap ob q) \<noteq> ord_id ord" if "q \<in> members L" for q
      using own new that unfolding owner_inv_def by (metis option.distinct(1))
    then have "orders ob2 oid = Some q \<longleftrightarrow> q \<in> insert p (members L) \<and> ord_id (heap ob2 q) = oid" for oid q
      using own new A(1) unfolding owner_inv_def by (auto simp: ob2_def emplace_def A(3))
    then show ?thesis using A(6) by (simp add: owner_inv_def ob2_def)
  qed
  ultimately show thesis using al A(1,4) ob2_def h that by blast
qed

lemma rest_refines:
  assumes inv: "book_inv L ob" and room: "\<not> book_full (abs_book L ob)" and ch: "channel_inv (out_ring ob)"
    and new: "find_order oid (abs_book L ob) = None" and band: "in_band price"
    and r: "r = \<lparr> ro_id = oid, ro_client = client, ro_side = s, ro_price = price, ro_open = a, ro_exec = b \<rparr>"
  obtains ob' L' where "rest ctx (mk_Order oid client s price a b) pub ob = Some ob'" "book_inv L' ob'"
    "abs_book L' ob' = add_order r (abs_book L ob)"
    "emits ctx [] (if pub then [add_msg (ctx_itch_timestamp ctx) r] else []) ob ob'"
proof -
  let ?ord = "mk_Order oid client s price a b"
  have o: "ord_id ?ord = oid" "ord_side ?ord = s" "ord_price ?ord = price" "ord_prev ?ord = None"
    "ord_next ?ord = None" "ord_open ?ord = a" "view ?ord = r"
    by (simp_all add: mk_Order_def r view_def)
  have "available (ob_pool ob) \<noteq> 0" using room book_full_iff [OF inv] by simp
  moreover have "orders ob (ord_id ?ord) = None" using new orders_find(1) [OF inv, of oid] o by simp
  ultimately obtain p pool ob2 where al: "allocate ?ord (ob_pool ob) = (Some p, pool)" and fresh: "p \<notin> members L"
    and ob2: "ob2 = ob\<lparr>ob_pool := pool, orders := emplace (ord_id ?ord) p (orders ob)\<rparr>"
    and lad2: "ladder_inv L ob2" and own2: "owner_inv (insert p (members L)) ob2"
    and h2: "heap ob2 = (heap ob)(p := ?ord)" and cap: "pool_capacity pool = pool_capacity (ob_pool ob)"
    using allocate_refines [OF inv] by metis
  define i where "i = level_index price"
  define L' where "L' = L((s, i) := L (s, i) @ [p])"
  obtain ob3 where r3: "rest_link p ob2 = Some ob3" and lad3: "ladder_inv L' ob3" and fr: "ladder_frame ob2 ob3"
    using rest_link_ok [OF lad2 fresh, of s i] o band unfolding L'_def i_def h2 by auto
  note F = frame_facts [OF fr]
  have mem: "members L' = insert p (members L)" by (auto simp: members_def L'_def split: if_splits)
  have bi: "book_inv L' ob3" using lad3 owner_frame [OF own2 fr] by (simp add: book_inv_def mem)
  have v: "view (heap ob3 q) = (if q = p then r else view (heap ob q))" for q by (simp add: F h2 o)
  have lad: "ladder_inv L ob" using inv by (simp add: book_inv_def)
  have ab: "abs_book L' ob3 = add_order r (abs_book L ob)"
  proof (rule book_eqI)
    fix t
    show "bk_side (abs_book L' ob3) t = bk_side (add_order r (abs_book L ob)) t"
    proof (cases "t = s")
      case True
      have "map (\<lambda>q. view (heap ob3 q)) (ranked s L') = insert_order r (map (\<lambda>q. view (heap ob q)) (ranked s L))"
        unfolding L'_def
        by (rule ranked_push [OF lad, of i price]) (use band level_index_less fresh v r in \<open>auto simp: i_def\<close>)
      with True show ?thesis by (simp add: add_order_def set_side_def r)
    next
      case False
      then have "ranked t L' = ranked t L" by (simp add: ranked_def L'_def)
      moreover have "map (\<lambda>q. view (heap ob3 q)) (ranked t L) = map (\<lambda>q. view (heap ob q)) (ranked t L)"
        using fresh ranked_members [OF lad] v by (intro map_cong) auto
      ultimately show ?thesis using False by (simp add: add_order_def set_side_def r)
    qed
  qed (simp_all add: add_order_def set_side_def F ob2 cap)
  have out3: "outputs ob3 = outputs ob" using F(1) by (simp add: ob2 outputs_def)
  then have ch3: "channel_inv (out_ring ob3)" using ch by (simp add: outputs_def)
  have msg: "AddOrder \<lparr> ia_header = itch_header ctx ADD_ORDER, ia_order_reference_number = ord_id (heap ob3 p),
      ia_buy_sell_indicator = to_ouch_side (ord_side (heap ob3 p)), ia_shares = ord_open (heap ob3 p),
      ia_stock = kBookSymbol, ia_price = to_itch_price price \<rparr> = add_msg (ctx_itch_timestamp ctx) r" (is "?m = _")
  proof -
    have "view (heap ob3 p) = r" using v by simp
    then have "ord_id (heap ob3 p) = ro_id r" "ord_side (heap ob3 p) = ro_side r" "ord_open (heap ob3 p) = ro_open r"
      by (auto simp: view_def)
    then show ?thesis by (simp add: add_msg_def itch_header_spec r)
  qed
  have run: "rest ctx ?ord pub ob = Some (if pub then publish (add_msg (ctx_itch_timestamp ctx) r) ob3 else ob3)"
  proof -
    have pa: "pool_arena pool = (heap ob)(p := ?ord)" using h2 by (simp add: ob2)
    have "rest_link p (ob\<lparr>ob_pool := pool, orders := emplace oid p (orders ob)\<rparr>) = Some ob3"
      using r3 o by (simp add: ob2)
    then show ?thesis using al msg o by (simp add: rest_def pa)
  qed
  have em: "emits ctx [] [] ob ob3" by (rule emits_none [OF ch out3])
  show thesis
  proof (cases pub)
    case True
    from same_book_inv [OF publish_same] bi ab run True emits_trans [OF em publish_emits [OF ch3]]
    show thesis by (intro that [of "publish (add_msg (ctx_itch_timestamp ctx) r) ob3" L']) simp_all
  next
    case False
    with run bi ab em show thesis by (intro that [of ob3 L']) simp_all
  qed
qed

end
