(* ===== verification/Orderbook_Match.thy ===== *)
theory Orderbook_Match
  imports Orderbook_Refine
begin

text \<open>
  Matching: the front of the best level is the order the contract fills first, one fill of
  the ladder is one fill of the contract, and the loop of Orderbook::match
  ends and computes the fills of the contract.
\<close>

subsection \<open>The best level\<close>

lemma ladder_count_zero:
  assumes lad: "ladder_inv L ob"
  shows "side_count s ob = 0 \<longleftrightarrow> ranked s L = []"
proof -
  have "side_count s ob = 0 \<longleftrightarrow> (\<forall>i. L (s, i) = [])" by (rule side_ok_zero [OF ladder_invD(4) [OF lad]])
  also have "\<dots> \<longleftrightarrow> set (ranked s L) = {}" unfolding set_ranked [OF lad] by auto
  finally show ?thesis by simp
qed

text \<open>The front of the best level is the head of the priority list.\<close>

lemma front_refines:
  assumes lad: "ladder_inv L ob" and ne: "side_count s ob \<noteq> 0"
  obtains p where "level_at (side_levels s ob) (side_best s ob) = Some (side_levels s ob (level_index (side_best s ob)))"
    "plq_front (side_levels s ob (level_index (side_best s ob))) = Some p"
    "ranked s L = p # tl (ranked s L)" "ord_price (heap ob p) = side_best s ob" "p \<in> members L"
proof -
  let ?b = "side_best s ob" let ?i = "level_index (side_best s ob)"
  have "\<exists>i. L (s, i) \<noteq> []" using ne side_ok_zero [OF ladder_invD(4) [OF lad]] by blast
  then obtain i where "L (s, i) \<noteq> []" by blast
  note B = ladder_best_ahead [OF lad this]
  have lt: "?i < LEVELS" by (rule level_index_less [OF B(1)])
  define f where "f = (\<lambda>k. L (s, tick s k))"
  define k where "k = tick s ?i"
  have k: "k < LEVELS" "tick s k = ?i" using lt tick_less tick_tick by (auto simp: k_def)
  have "f j = []" if "j < k" for j
  proof (rule ccontr)
    assume "f j \<noteq> []"
    then have "ahead s ?i (tick s j)" using ladder_best_ahead(3) [OF lad] by (simp add: f_def)
    then have "k \<le> j" using ahead_tick [of k j s] k that by simp
    with that show False by simp
  qed
  then have "flat k f = []" by (simp add: flat_eq_Nil)
  then have rk: "ranked s L = L (s, ?i) @ concat (map f [Suc k..<LEVELS])"
    using flat_split [OF k(1), of f] by (simp add: ranked_def f_def k(2))
  obtain p ps where lp: "L (s, ?i) = p # ps" using B(2) by (cases "L (s, ?i)") auto
  have "plq_front (side_levels s ob ?i) = Some p"
    using queue_of_front [OF ladder_invD(1) [OF lad, of s ?i]] lp by simp
  moreover have "in_band (ord_price (heap ob p))" "level_index (ord_price (heap ob p)) = ?i"
    using ladder_invD(3) [OF lad, unfolded placed_def, rule_format, of p s ?i] lp by simp_all
  then have "ord_price (heap ob p) = ?b" using level_index_inj [OF _ B(1)] by simp
  moreover have "p \<in> set (L (s, ?i))" using lp by simp
  then have "p \<in> members L" by (auto simp: members_def)
  ultimately show thesis using that [of p] rk lp level_at_in_band [OF B(1)] by simp
qed

lemma crosses_refines:
  assumes inv: "book_inv L ob"
  shows "crosses side type price ob \<longleftrightarrow> spec_crosses side type price (abs_book L ob)"
proof -
  have lad: "ladder_inv L ob" using inv by (simp add: book_inv_def)
  let ?o = "opposite side"
  show ?thesis
  proof (cases "side_count ?o ob = 0")
    case True
    then show ?thesis using ladder_count_zero [OF lad, of ?o] by (simp add: crosses_side spec_crosses_def)
  next
    case False
    obtain p where "ranked ?o L = p # tl (ranked ?o L)" "ord_price (heap ob p) = side_best ?o ob"
      by (rule front_refines [OF lad False])
    then show ?thesis using False
      by (cases "ranked ?o L") (auto simp: crosses_side spec_crosses_def)
  qed
qed

subsection \<open>Matching\<close>

text \<open>Updates at the head of a side, as the contract writes them.\<close>

lemma set_side_other_id:
  assumes d: "distinct (map ro_id (all_orders bk))" and hd: "bk_side bk s = r # rs"
  shows "remove_order (ro_id r) bk = set_side s rs bk"
    "set_quantities (ro_id r) a b bk = set_side s (r\<lparr>ro_open := a, ro_exec := b\<rparr> # rs) bk"
proof -
  have "ro_id r \<notin> ro_id ` set rs" "ro_id r \<notin> ro_id ` set (bk_side bk (opposite s))"
    using d hd by (cases s; auto simp: all_orders_def)+
  then have ids: "ro_id x \<noteq> ro_id r" if "x \<in> set rs \<or> x \<in> set (bk_side bk (opposite s))" for x
    using that by (metis imageI)
  then have f: "filter (\<lambda>x. ro_id x \<noteq> ro_id r) rs = rs"
    "filter (\<lambda>x. ro_id x \<noteq> ro_id r) (bk_side bk (opposite s)) = bk_side bk (opposite s)"
    by (auto simp: filter_id_conv)
  have m: "map (\<lambda>x. if ro_id x = ro_id r then x\<lparr>ro_open := a, ro_exec := b\<rparr> else x) rs = rs"
    "map (\<lambda>x. if ro_id x = ro_id r then x\<lparr>ro_open := a, ro_exec := b\<rparr> else x) (bk_side bk (opposite s)) = bk_side bk (opposite s)"
    using ids by (auto intro: map_idI)
  have t: "t = s \<or> t = opposite s" for t by (cases s; cases t) auto
  have o: "opposite s \<noteq> s" by (cases s) auto
  show "remove_order (ro_id r) bk = set_side s rs bk"
  proof (rule book_eqI)
    fix u
    show "bk_side (remove_order (ro_id r) bk) u = bk_side (set_side s rs bk) u"
      using t [of u] f hd o by (auto simp: remove_order_def set_side_def)
  qed (simp_all add: remove_order_def set_side_def)
  show "set_quantities (ro_id r) a b bk = set_side s (r\<lparr>ro_open := a, ro_exec := b\<rparr> # rs) bk"
  proof (rule book_eqI)
    fix u
    show "bk_side (set_quantities (ro_id r) a b bk) u = bk_side (set_side s (r\<lparr>ro_open := a, ro_exec := b\<rparr> # rs) bk) u"
      using t [of u] m hd o by (auto simp: set_quantities_def set_side_def)
  qed (simp_all add: set_quantities_def set_side_def)
qed

lemma book_inv_next_match:
  "book_inv L (ob\<lparr>next_match_number := n\<rparr>) = book_inv L ob"
  "abs_book L (ob\<lparr>next_match_number := n\<rparr>) = (abs_book L ob)\<lparr>bk_next_match := n\<rparr>"
  "outputs (ob\<lparr>next_match_number := n\<rparr>) = outputs ob"
proof -
  have "ladder_inv L (ob\<lparr>next_match_number := n\<rparr>) = ladder_inv L ob"
  proof (rule ladder_inv_cong)
    fix s
    show "side_levels s (ob\<lparr>next_match_number := n\<rparr>) = side_levels s ob"
      "side_best s (ob\<lparr>next_match_number := n\<rparr>) = side_best s ob"
      "side_count s (ob\<lparr>next_match_number := n\<rparr>) = side_count s ob"
      by (cases s; simp)+
  qed simp
  then show "book_inv L (ob\<lparr>next_match_number := n\<rparr>) = book_inv L ob" by (simp add: book_inv_def owner_inv_def)
qed (simp_all add: abs_book_def outputs_def)

lemma match_fill_refines:
  assumes inv: "book_inv L ob" and ch: "channel_inv (out_ring ob)" and p: "p \<in> members L"
    and hd: "bk_side (abs_book L ob) s = r # rs" and r: "r = view (heap ob p)"
    and fill: "fill = min wanted (ro_open r)" and ts: "ts = ctx_itch_timestamp ctx" and mn: "mn = next_match_number ob"
  obtains ob' L' where "match_fill ctx oid client (ro_price r) p wanted ob = Some (fill, ob')" "book_inv L' ob'"
    "abs_book L' ob' = (set_side s (if fill = ro_open r then rs
        else r\<lparr>ro_open := ro_open r - fill, ro_exec := ro_exec r + fill\<rparr> # rs) (abs_book L ob))\<lparr>bk_next_match := mn + 1\<rparr>"
    "emits ctx (executed_events oid client r fill mn) [executed_msg ts r fill mn] ob ob'"
proof -
  let ?a = "ro_open r - fill" let ?b = "ro_exec r + fill"
  define ob1 where "ob1 = ob\<lparr>next_match_number := mn + 1\<rparr>"
  define ob2 where "ob2 = write_order p ((heap ob1 p)\<lparr>ord_open := ?a, ord_exec := ?b\<rparr>) ob1"
  have h1: "heap ob1 = heap ob" by (simp add: ob1_def)
  have inv1: "book_inv L ob1" and ab1: "abs_book L ob1 = (abs_book L ob)\<lparr>bk_next_match := mn + 1\<rparr>"
    and o1: "outputs ob1 = outputs ob"
    using inv book_inv_next_match [where n = "mn + 1" and ob = ob] by (simp_all add: ob1_def)
  note W = write_refines [OF inv1 p ob2_def]
  let ?e1 = "hd (executed_events oid client r fill mn)" let ?e2 = "hd (tl (executed_events oid client r fill mn))"
  have ch2: "channel_inv (out_ring ob2)" using ch W(3) o1 by (simp add: outputs_def)
  obtain ob3 where e3: "emit ctx ?e1 ob2 = Some ob3" "emits ctx [?e1] [] ob2 ob3" "same_book ob2 ob3"
    by (rule emit_refines [OF ch2])
  obtain ob4 where e4: "emit ctx ?e2 ob3 = Some ob4" "emits ctx [?e2] [] ob3 ob4" "same_book ob3 ob4"
    by (rule emit_refines [OF emits_inv [OF e3(2)]])
  let ?m = "executed_msg ts r fill mn"
  define ob5 where "ob5 = publish ?m ob4"
  have ch4: "channel_inv (out_ring ob4)" by (rule emits_inv [OF e4(2)])
  have em: "emits ctx (executed_events oid client r fill mn) [?m] ob ob5"
  proof -
    have "emits ctx ([?e1] @ [?e2] @ []) ([] @ [] @ [?m]) ob2 ob5"
      unfolding ob5_def by (intro emits_trans [OF e3(2)] emits_trans [OF e4(2)] publish_emits [OF ch4])
    then show ?thesis
      using emits_cong_left W(3) o1 by (simp add: executed_events_def)
  qed
  have h2: "heap ob2 p = (heap ob p)\<lparr>ord_open := ?a, ord_exec := ?b\<rparr>"
    by (simp add: ob2_def write_order_def set_heap_def h1)
  note S3 = same_book_inv [OF e3(3)] and S4 = same_book_inv [OF e4(3)] and S5 = same_book_inv [OF publish_same [of ob4 ?m]]
  have heaps: "heap ob3 = heap ob2" "heap ob4 = heap ob2" "heap ob5 = heap ob2"
    using S3(3) S4(3) S5(3) by (simp_all add: ob5_def)
  have inv5: "book_inv L ob5" and ab5: "abs_book L ob5 = set_quantities (ro_id r) ?a ?b (abs_book L ob1)"
    using W S3 S4 S5 by (simp_all add: ob5_def r h1)
  have d1: "distinct (map ro_id (all_orders (abs_book L ob1)))" by (rule book_inv_ids_distinct [OF inv1])
  have hd1: "bk_side (abs_book L ob1) s = r # rs" using hd h1 by simp
  let ?r' = "r\<lparr>ro_open := ?a, ro_exec := ?b\<rparr>"
  have ab5': "abs_book L ob5 = set_side s (?r' # rs) (abs_book L ob1)"
    using ab5 set_side_other_id(2) [OF d1 hd1] by simp
  have fl: "is_filled (heap ob5 p) \<longleftrightarrow> fill = ro_open r" by (auto simp: is_filled_def heaps h2)
  have run: "match_fill ctx oid client (ro_price r) p wanted ob =
    (if is_filled (heap ob5 p) then do { ob6 \<leftarrow> unlink p ob5; Some (fill, release p ob6) } else Some (fill, ob5))"
    using e3(1) e4(1) unfolding match_fill_def ob5_def
    by (simp add: fill mn ts r h1 heaps h2 executed_events_def executed_msg_def itch_header_spec Let_def
        ob1_def [symmetric, unfolded mn] ob2_def [symmetric, unfolded fill r h1 view_sel])
  show thesis
  proof (cases "fill = ro_open r")
    case False
    then show thesis using that [of ob5 L] run fl inv5 ab5' ab1 em by (simp add: set_side_def)
  next
    case True
    obtain ob6 L' where R: "unlink p ob5 = Some ob6" "book_inv L' (release p ob6)"
      "abs_book L' (release p ob6) = remove_order (ord_id (heap ob5 p)) (abs_book L ob5)"
      "outputs (release p ob6) = outputs ob5"
      by (rule remove_refines [OF inv5 p])
    have d5: "distinct (map ro_id (all_orders (abs_book L ob5)))" by (rule book_inv_ids_distinct [OF inv5])
    have "bk_side (abs_book L ob5) s = ?r' # rs" by (simp only: ab5') (simp add: set_side_def)
    from set_side_other_id(1) [OF d5 this] have "remove_order (ord_id (heap ob5 p)) (abs_book L ob5) = set_side s rs (abs_book L ob5)"
      by (simp add: heaps h2 r)
    also have "\<dots> = set_side s rs (abs_book L ob1)" by (simp add: ab5' set_side_def)
    finally show thesis
      using that [of "release p ob6" L'] run fl True R ab1 emits_cong [OF em R(4)] by (simp add: set_side_def)
  qed
qed

text \<open>The loop of \<open>match\<close> ends, and computes the fills of the contract.\<close>

lemma match_loop_unfold:
  assumes inv: "book_inv L ob" and hd: "bk_side (abs_book L ob) (opposite side) = r # rs"
    and go: "filled < quantity" "takes side type price (ro_price r)"
  obtains p where "p \<in> members L" "r = view (heap ob p)"
    "match_loop ctx oid client side type price quantity filled ob =
      do { step \<leftarrow> match_fill ctx oid client (ro_price r) p (quantity - filled) ob;
           match_loop ctx oid client side type price quantity (filled + fst step) (snd step) }"
proof -
  let ?o = "opposite side"
  have lad: "ladder_inv L ob" using inv by (simp add: book_inv_def)
  have ne: "side_count ?o ob \<noteq> 0" using ladder_count_zero [OF lad, of ?o] hd by auto
  obtain p where F: "level_at (side_levels ?o ob) (side_best ?o ob) = Some (side_levels ?o ob (level_index (side_best ?o ob)))"
    "plq_front (side_levels ?o ob (level_index (side_best ?o ob))) = Some p"
    "ranked ?o L = p # tl (ranked ?o L)" "ord_price (heap ob p) = side_best ?o ob" "p \<in> members L"
    by (rule front_refines [OF lad ne])
  have r: "r = view (heap ob p)" using hd F(3) by (metis abs_book_sel(1) list.inject list.simps(9))
  have cr: "crosses side type price ob" using crosses_refines [OF inv] hd go(2) by (simp add: spec_crosses_def)
  have "(if side = BID then asks ob else bids ob) = side_levels ?o ob"
    "(if side = BID then best_ask_price ob else best_bid_price ob) = side_best ?o ob"
    by (cases side; simp)+
  then have "match_loop ctx oid client side type price quantity filled ob =
      do { step \<leftarrow> match_fill ctx oid client (ro_price r) p (quantity - filled) ob;
           match_loop ctx oid client side type price quantity (filled + fst step) (snd step) }"
    using go cr F(1,2,4) by (subst match_loop.simps) (simp only: Let_def if_True simp_thms bind.bind_lunit r view_sel)
  with that [OF F(5) r] show thesis .
qed

lemma match_loop_stop:
  assumes "book_inv L ob"
    and "\<not> (filled < quantity \<and> spec_crosses side type price (abs_book L ob))"
  shows "match_loop ctx oid client side type price quantity filled ob = Some (filled, ob)"
proof -
  have "(filled < quantity \<and> crosses side type price ob) = False"
    using assms(2) crosses_refines [OF assms(1)] by auto
  then show ?thesis by (subst match_loop.simps) (simp only: if_False)
qed

lemma match_loop_refines:
  assumes "book_inv L ob" and "channel_inv (out_ring ob)" and "bk_side (abs_book L ob) (opposite side) = xs"
    and "filled \<le> quantity"
    and "f = spec_match (ctx_itch_timestamp ctx) oid client (takes side type price) (quantity - filled) (next_match_number ob) xs"
  shows "\<exists>ob' L'. match_loop ctx oid client side type price quantity filled ob = Some (filled + fl_filled f, ob')
    \<and> book_inv L' ob' \<and> abs_book L' ob' = after_fills side f (abs_book L ob) \<and> emits ctx (fl_events f) (fl_msgs f) ob ob'"
  using assms
proof (induction xs arbitrary: filled ob L f)
  case Nil
  let ?b = "abs_book L ob"
  have "\<not> spec_crosses side type price ?b" using Nil.prems(3) by (simp add: spec_crosses_def)
  then have "match_loop ctx oid client side type price quantity filled ob = Some (filled, ob)"
    by (intro match_loop_stop [OF Nil.prems(1)]) simp
  moreover have "after_fills side f ?b = ?b"
    using Nil.prems(3,5) by (intro book_eqI) (auto simp: after_fills_def set_side_def)
  ultimately show ?case using Nil.prems(1,2,5) emits_none by (intro exI [of _ ob] exI [of _ L]) simp
next
  case (Cons r rs)
  let ?b = "abs_book L ob" let ?q = "quantity - filled"
  note inv = Cons.prems(1) and ch = Cons.prems(2) and hd = Cons.prems(3) and le = Cons.prems(4) and f = Cons.prems(5)
  have lt: "filled < quantity \<longleftrightarrow> ?q \<noteq> 0" using le by (auto simp: order_less_le)
  show ?case
  proof (cases "?q = 0 \<or> \<not> takes side type price (ro_price r)")
    case True
    then have "\<not> (filled < quantity \<and> spec_crosses side type price ?b)" using hd lt by (simp add: spec_crosses_def)
    from match_loop_stop [OF inv this]
    have "match_loop ctx oid client side type price quantity filled ob = Some (filled, ob)" .
    moreover have "after_fills side f ?b = ?b"
      using hd f True by (intro book_eqI) (auto simp: after_fills_def set_side_def)
    ultimately show ?thesis using inv ch f True emits_none by (intro exI [of _ ob] exI [of _ L]) simp
  next
    case False
    then have go: "filled < quantity" "takes side type price (ro_price r)" using lt by auto
    let ?fill = "min ?q (ro_open r)" let ?mn = "next_match_number ob" let ?ts = "ctx_itch_timestamp ctx"
    obtain p where p: "p \<in> members L" "r = view (heap ob p)"
      and run: "match_loop ctx oid client side type price quantity filled ob =
        do { step \<leftarrow> match_fill ctx oid client (ro_price r) p ?q ob;
             match_loop ctx oid client side type price quantity (filled + fst step) (snd step) }"
      by (rule match_loop_unfold [OF inv hd go])
    obtain ob1 L1 where m: "match_fill ctx oid client (ro_price r) p ?q ob = Some (?fill, ob1)" "book_inv L1 ob1"
      "abs_book L1 ob1 = (set_side (opposite side) (if ?fill = ro_open r then rs
        else r\<lparr>ro_open := ro_open r - ?fill, ro_exec := ro_exec r + ?fill\<rparr> # rs) ?b)\<lparr>bk_next_match := ?mn + 1\<rparr>"
      "emits ctx (executed_events oid client r ?fill ?mn) [executed_msg ?ts r ?fill ?mn] ob ob1"
      by (rule match_fill_refines [OF inv ch p(1) hd p(2) refl refl refl])
    have ch1: "channel_inv (out_ring ob1)" by (rule emits_inv [OF m(4)])
    have mn1: "next_match_number ob1 = ?mn + 1" using arg_cong [OF m(3), of bk_next_match] by simp
    have le1: "filled + ?fill \<le> quantity"
    proof -
      have "unat ?q = unat quantity - unat filled" using le by (rule unat_sub)
      moreover have "unat ?fill \<le> unat ?q" by (simp add: word_le_nat_alt [symmetric])
      ultimately have "unat filled + unat ?fill \<le> unat quantity" using le by (simp add: word_le_nat_alt)
      moreover from this have "unat (filled + ?fill) = unat filled + unat ?fill"
        by (intro unat_add_bounded) (meson le_less_trans unsigned_less)
      ultimately show ?thesis by (simp add: word_le_nat_alt)
    qed
    show ?thesis
    proof (cases "?fill = ro_open r")
      case True
      let ?f = "spec_match ?ts oid client (takes side type price) (?q - ?fill) (?mn + 1) rs"
      have hd1: "bk_side (abs_book L1 ob1) (opposite side) = rs" by (simp only: m(3)) (simp add: True set_side_def)
      have "?f = spec_match ?ts oid client (takes side type price) (quantity - (filled + ?fill)) (next_match_number ob1) rs"
        by (simp add: mn1 diff_diff_eq)
      from Cons.IH [OF m(2) ch1 hd1 le1 this] obtain ob' L' where
        I: "match_loop ctx oid client side type price quantity (filled + ?fill) ob1 = Some (filled + ?fill + fl_filled ?f, ob')"
          "book_inv L' ob'" "abs_book L' ob' = after_fills side ?f (abs_book L1 ob1)"
          "emits ctx (fl_events ?f) (fl_msgs ?f) ob1 ob'" by blast
      have ff: "f = ?f\<lparr> fl_filled := ?fill + fl_filled ?f, fl_events := executed_events oid client r ?fill ?mn @ fl_events ?f,
          fl_msgs := executed_msg ?ts r ?fill ?mn # fl_msgs ?f \<rparr>"
        using f False True by (simp add: Let_def)
      have "abs_book L' ob' = after_fills side f ?b"
        unfolding I(3) m(3) ff by (intro book_eqI) (simp_all add: after_fills_def set_side_def True)
      moreover have "emits ctx (fl_events f) (fl_msgs f) ob ob'" using emits_trans [OF m(4) I(4)] by (simp add: ff)
      moreover have "match_loop ctx oid client side type price quantity filled ob = Some (filled + fl_filled f, ob')"
        by (simp add: run m(1) I(1) ff add.assoc)
      ultimately show ?thesis using I(2) by blast
    next
      case noteq: False
      then have fq: "?fill = ?q" by (auto simp: min_def split: if_splits)
      have ff: "f = \<lparr> fl_filled = ?fill, fl_rest = r\<lparr>ro_open := ro_open r - ?fill, ro_exec := ro_exec r + ?fill\<rparr> # rs,
          fl_next = ?mn + 1, fl_events = executed_events oid client r ?fill ?mn, fl_msgs = [executed_msg ?ts r ?fill ?mn] \<rparr>"
        using f False noteq by (simp add: Let_def)
      have "match_loop ctx oid client side type price quantity (filled + ?fill) ob1 = Some (filled + ?fill, ob1)"
        by (rule match_loop_stop [OF m(2)]) (simp add: fq)
      then have "match_loop ctx oid client side type price quantity filled ob = Some (filled + fl_filled f, ob1)"
        by (simp add: run m(1) ff)
      moreover have "abs_book L1 ob1 = after_fills side f ?b"
        unfolding m(3) ff by (simp add: after_fills_def noteq)
      ultimately show ?thesis using m(2,4) by (intro exI [of _ ob1] exI [of _ L1]) (simp add: ff)
    qed
  qed
qed

lemma match_refines:
  assumes "book_inv L ob" and "channel_inv (out_ring ob)"
    and "f = spec_match_book (ctx_itch_timestamp ctx) oid client side type price quantity (abs_book L ob)"
  obtains ob' L' where "match ctx oid client side type price quantity ob = Some (fl_filled f, ob')"
    "book_inv L' ob'" "abs_book L' ob' = after_fills side f (abs_book L ob)" "emits ctx (fl_events f) (fl_msgs f) ob ob'"
  using match_loop_refines [OF assms(1,2) refl, where filled = 0 and quantity = quantity and side = side and f = f and ctx = ctx and oid = oid
      and client = client and type = type and price = price] assms(3)
  by (simp add: match_def spec_match_book_def) blast

end
