(* ===== verification/Orderbook_Process.thy ===== *)
theory Orderbook_Process
  imports Orderbook_Match
begin

text \<open>
  The request handlers refine the contract: \<open>enter\<close>, \<open>cancel\<close>, \<open>replace\<close> and \<open>process\<close> return on
  every book that satisfies the invariant, with the contract's outcome.
\<close>

definition implements :: "Context \<Rightarrow> (bool \<times> Orderbook) option \<Rightarrow> Outcome \<Rightarrow> Orderbook \<Rightarrow> bool" where
  "implements ctx run outcome ob \<longleftrightarrow>
     (\<exists>ob'. run = Some (oc_done outcome, ob') \<and> book_rel ob' (oc_book outcome)
        \<and> emits ctx (oc_events outcome) (oc_msgs outcome) ob ob')"

lemma implementsI:
  assumes "run = Some (oc_done outcome, ob')" "book_inv L ob'" "oc_book outcome = abs_book L ob'"
    "emits ctx (oc_events outcome) (oc_msgs outcome) ob ob'"
  shows "implements ctx run outcome ob"
  using assms unfolding implements_def book_rel_def by blast

lemma implements_ignored:
  assumes "book_inv L ob" "channel_inv (out_ring ob)"
  shows "implements ctx (Some (False, ob)) (ignored (abs_book L ob)) ob"
  by (rule implementsI [of _ _ ob L]) (use assms emits_none in \<open>simp_all add: ignored_def\<close>)

subsection \<open>What matching leaves\<close>

lemma spec_match_drop:
  assumes "\<And>r a b. g (r\<lparr>ro_open := a, ro_exec := b\<rparr>) = g r"
  shows "\<exists>k. map g (fl_rest (spec_match ts oid client ok q mn xs)) = drop k (map g xs)"
proof (induction xs arbitrary: q mn)
  case Nil then show ?case by simp
next
  case (Cons r rs)
  show ?case
  proof (cases "q = 0 \<or> \<not> ok (ro_price r) \<or> min q (ro_open r) \<noteq> ro_open r")
    case True
    then show ?thesis using assms by (intro exI [of _ 0]) (auto simp: Let_def)
  next
    case False
    obtain k where "map g (fl_rest (spec_match ts oid client ok (q - min q (ro_open r)) (mn + 1) rs)) = drop k (map g rs)"
      using Cons.IH by blast
    then show ?thesis using False by (intro exI [of _ "Suc k"]) (simp add: Let_def)
  qed
qed

lemma find_order_None: "find_order oid bk = None \<longleftrightarrow> oid \<notin> ro_id ` set (all_orders bk)"
  by (auto simp: find_order_def find_None_iff)

lemma after_fills_keeps:
  assumes "f = spec_match_book ts oid client side type limit q bk"
  shows "find_order x bk = None \<Longrightarrow> find_order x (after_fills side f bk) = None"
    "\<not> book_full bk \<Longrightarrow> \<not> book_full (after_fills side f bk)"
proof -
  let ?xs = "bk_side bk (opposite side)"
  obtain k where k: "map ro_id (fl_rest f) = drop k (map ro_id ?xs)"
    using spec_match_drop [of ro_id] assms unfolding spec_match_book_def by fastforce
  have ids: "ro_id ` set (fl_rest f) \<subseteq> ro_id ` set ?xs"
    using arg_cong [OF k, of set] set_drop_subset [of k "map ro_id ?xs"] by simp
  have len: "length (fl_rest f) \<le> length ?xs" using arg_cong [OF k, of length] by simp
  have sides: "bk_side (after_fills side f bk) (opposite side) = fl_rest f" "bk_side (after_fills side f bk) side = bk_side bk side"
    "bk_capacity (after_fills side f bk) = bk_capacity bk"
    by (cases side; simp add: after_fills_def set_side_def)+
  show "find_order x bk = None \<Longrightarrow> find_order x (after_fills side f bk) = None"
    unfolding find_order_None all_orders_def using ids sides by (cases side) auto
  show "\<not> book_full bk \<Longrightarrow> \<not> book_full (after_fills side f bk)"
    unfolding book_full_def all_orders_def using len sides by (cases side) auto
qed

subsection \<open>What is left of an incoming order\<close>

definition settle :: "Context \<Rightarrow> bool \<Rightarrow> OrderId \<Rightarrow> ClientId \<Rightarrow> Side \<Rightarrow> Price \<Rightarrow> Quantity \<Rightarrow> Quantity \<Rightarrow> Orderbook \<Rightarrow>
    (bool \<times> Orderbook) option" where
  "settle ctx may_rest oid client side price remaining executed ob =
     (if remaining = 0 then Some (True, ob)
      else if may_rest then
        do { ob3 \<leftarrow> rest ctx (mk_Order oid client side price remaining executed) True ob; Some (True, ob3) }
      else
        do { ob3 \<leftarrow> emit ctx (zero_event\<lparr> ev_order_id := oid, ev_client_id := client, ev_price := price,
                     ev_quantity := remaining, ev_type := CANCELED, ev_reason := kImmediateOrCancel \<rparr>) ob;
             Some (True, ob3) })"

lemma settle_refines:
  assumes inv: "book_inv L ob" and ch: "channel_inv (out_ring ob)"
    and r: "r = \<lparr> ro_id = oid, ro_client = client, ro_side = side, ro_price = price, ro_open = remaining, ro_exec = executed \<rparr>"
    and ok: "may_rest \<Longrightarrow> \<not> book_full (abs_book L ob) \<and> find_order oid (abs_book L ob) = None \<and> in_band price"
    and out: "spec_remainder (ctx_itch_timestamp ctx) may_rest r (abs_book L ob) = (bk', evs, msgs)"
  obtains ob' L' where "settle ctx may_rest oid client side price remaining executed ob = Some (True, ob')"
    "book_inv L' ob'" "bk' = abs_book L' ob'" "emits ctx evs msgs ob ob'"
proof -
  consider "remaining = 0" | "remaining \<noteq> 0" "may_rest" | "remaining \<noteq> 0" "\<not> may_rest" by blast
  then show thesis
  proof cases
    case 1
    then have "bk' = abs_book L ob" "evs = []" "msgs = []" using out by (simp_all add: spec_remainder_def r)
    then show thesis using 1 inv ch emits_none by (intro that [of ob L]) (simp_all add: settle_def)
  next
    case 2
    note ok' = ok [OF 2(2)]
    obtain ob' L' where R: "rest ctx (mk_Order oid client side price remaining executed) True ob = Some ob'" "book_inv L' ob'"
      "abs_book L' ob' = add_order r (abs_book L ob)"
      "emits ctx [] (if True then [add_msg (ctx_itch_timestamp ctx) r] else []) ob ob'"
      using rest_refines [OF inv _ ch _ _ r, of ctx True] ok' by blast
    have "bk' = add_order r (abs_book L ob)" "evs = []" "msgs = [add_msg (ctx_itch_timestamp ctx) r]"
      using out 2 by (simp_all add: spec_remainder_def r)
    then show thesis using 2 R by (intro that [of ob' L']) (simp_all add: settle_def)
  next
    case 3
    let ?e = "canceled_event oid client price remaining kImmediateOrCancel"
    obtain ob' where E: "emit ctx ?e ob = Some ob'" "emits ctx [?e] [] ob ob'" "same_book ob ob'"
      by (rule emit_refines [OF ch])
    have "bk' = abs_book L ob" "evs = [?e]" "msgs = []" using out 3 by (simp_all add: spec_remainder_def r)
    then show thesis using 3 E inv same_book_inv [OF E(3)]
      by (intro that [of ob' L]) (simp_all add: settle_def canceled_event_def)
  qed
qed

subsection \<open>Enter\<close>

lemma enter_refines:
  assumes inv: "book_inv L ob" and ch: "channel_inv (out_ring ob)" and req: "req = ctx_req ctx"
    and band: "rq_order_type req = LIMIT \<Longrightarrow> rq_time_in_force req = DAY \<Longrightarrow> in_band (rq_price req)"
  shows "implements ctx (enter ctx ob) (spec_enter (ctx_itch_timestamp ctx) req (abs_book L ob)) ob"
proof -
  let ?bk = "abs_book L ob" let ?ts = "ctx_itch_timestamp ctx"
  let ?may = "rq_order_type req = LIMIT \<and> rq_time_in_force req = DAY"
  have dup: "find_order (rq_order_id req) ?bk \<noteq> None \<longleftrightarrow> orders ob (rq_order_id req) \<noteq> None"
    using orders_find(1) [OF inv] by simp
  have full: "book_full ?bk \<longleftrightarrow> available (ob_pool ob) = 0" by (rule book_full_iff [OF inv])
  consider "find_order (rq_order_id req) ?bk \<noteq> None"
    | "find_order (rq_order_id req) ?bk = None" "?may \<and> book_full ?bk"
    | "find_order (rq_order_id req) ?bk = None" "\<not> (?may \<and> book_full ?bk)" by blast
  then show ?thesis
  proof cases
    case 1
    then have "enter ctx ob = Some (False, ob)" "spec_enter ?ts req ?bk = ignored ?bk"
      using dup by (simp_all add: enter_def spec_enter_def req)
    then show ?thesis using implements_ignored [OF inv ch] by simp
  next
    case 2
    let ?e = "zero_event\<lparr> ev_order_id := rq_order_id req, ev_client_id := rq_client_id req,
                ev_type := REJECTED, ev_reason := kBookFull \<rparr>"
    obtain ob' where E: "emit ctx ?e ob = Some ob'" "emits ctx [?e] [] ob ob'" "same_book ob ob'"
      by (rule emit_refines [OF ch])
    have "enter ctx ob = Some (True, ob')" using 2 dup full E(1) by (simp add: enter_def req)
    moreover have "spec_enter ?ts req ?bk = \<lparr> oc_done = True, oc_book = ?bk, oc_events = [?e], oc_msgs = [] \<rparr>"
      using 2 by (simp add: spec_enter_def)
    ultimately show ?thesis using E inv same_book_inv [OF E(3)] by (intro implementsI [of _ _ ob' L]) simp_all
  next
    case 3
    let ?e = "zero_event\<lparr> ev_order_id := rq_order_id req, ev_client_id := rq_client_id req, ev_price := rq_price req,
                ev_quantity := rq_quantity req, ev_type := ACCEPTED \<rparr>"
    obtain ob1 where E: "emit ctx ?e ob = Some ob1" "emits ctx [?e] [] ob ob1" "same_book ob ob1"
      by (rule emit_refines [OF ch])
    note S1 = same_book_inv [OF E(3)]
    define f where "f = spec_match_book ?ts (rq_order_id req) (rq_client_id req) (rq_side req) (rq_order_type req)
      (rq_price req) (rq_quantity req) ?bk"
    obtain ob2 L2 where M: "match ctx (rq_order_id req) (rq_client_id req) (rq_side req) (rq_order_type req)
        (rq_price req) (rq_quantity req) ob1 = Some (fl_filled f, ob2)" "book_inv L2 ob2"
      "abs_book L2 ob2 = after_fills (rq_side req) f ?bk" "emits ctx (fl_events f) (fl_msgs f) ob1 ob2"
      by (rule match_refines [of L ob1 f]) (use inv S1 emits_inv [OF E(2)] f_def in simp_all)
    let ?r = "\<lparr> ro_id = rq_order_id req, ro_client = rq_client_id req, ro_side = rq_side req,
      ro_price = rq_price req, ro_open = rq_quantity req - fl_filled f, ro_exec = fl_filled f \<rparr>"
    obtain bk' evs msgs where out: "spec_remainder ?ts ?may ?r (abs_book L2 ob2) = (bk', evs, msgs)"
      by (metis prod_cases3)
    have ok: "\<not> book_full (abs_book L2 ob2) \<and> find_order (rq_order_id req) (abs_book L2 ob2) = None \<and> in_band (rq_price req)"
      if ?may using that 3 band after_fills_keeps [OF f_def] by (simp add: M(3))
    obtain ob3 L3 where T: "settle ctx ?may (rq_order_id req) (rq_client_id req) (rq_side req) (rq_price req)
        (rq_quantity req - fl_filled f) (fl_filled f) ob2 = Some (True, ob3)"
      "book_inv L3 ob3" "bk' = abs_book L3 ob3" "emits ctx evs msgs ob2 ob3"
      by (rule settle_refines [OF M(2) emits_inv [OF M(4)] refl ok out])
    have "enter ctx ob = settle ctx ?may (rq_order_id req) (rq_client_id req) (rq_side req) (rq_price req)
        (rq_quantity req - fl_filled f) (fl_filled f) ob2"
    proof -
      have g: "(orders ob (rq_order_id req) \<noteq> None) = False" "(?may \<and> available (ob_pool ob) = 0) = False"
        using 3 dup full by auto
      show ?thesis unfolding enter_def settle_def Let_def req [symmetric]
        by (simp only: g if_False E(1) M(1) bind.bind_lunit prod.case)
    qed
    moreover have "spec_enter ?ts req ?bk = \<lparr> oc_done = True, oc_book = bk', oc_events = [?e] @ fl_events f @ evs, oc_msgs = fl_msgs f @ msgs \<rparr>"
      using 3 out by (auto simp add: spec_enter_def f_def [symmetric] M(3) Let_def)
    moreover have "emits ctx ([?e] @ fl_events f @ evs) ([] @ fl_msgs f @ msgs) ob ob3"
      by (intro emits_trans [OF E(2)] emits_trans [OF M(4) T(4)])
    ultimately show ?thesis using T by (intro implementsI [of _ _ ob3 L3]) simp_all
  qed
qed

subsection \<open>Cancel\<close>

lemma find_order_unique:
  assumes d: "distinct (map ro_id (all_orders bk))" and f: "find_order oid bk = Some r"
    and x: "x \<in> set (bk_side bk s)" "ro_id x = oid"
  shows "x = r"
proof -
  have r: "r \<in> set (all_orders bk)" "ro_id r = oid" using find_SomeD [OF f [unfolded find_order_def]] by auto
  have "x \<in> set (all_orders bk)" using x(1) by (cases s) (auto simp: all_orders_def)
  with r x(2) d show ?thesis by (metis distinct_map inj_onD)
qed

lemma set_quantities_reduce:
  assumes "distinct (map ro_id (all_orders bk))" and "find_order oid bk = Some r"
  shows "set_quantities oid a (ro_exec r) bk = reduce_order oid a bk"
proof (rule book_eqI)
  fix s
  show "bk_side (set_quantities oid a (ro_exec r) bk) s = bk_side (reduce_order oid a bk) s"
    using find_order_unique [OF assms] by (auto simp: set_quantities_def reduce_order_def)
qed (simp_all add: set_quantities_def reduce_order_def)

text \<open>An order found in the map, as the handlers see it and as the contract sees it.\<close>

lemma found_refines:
  assumes inv: "book_inv L ob" and p: "orders ob oid = Some p"
  shows "find_order oid (abs_book L ob) = Some (view (heap ob p))" "p \<in> members L" "ord_id (heap ob p) = oid"
  using orders_find [OF inv, where oid = oid] p by auto

lemma erase_refines:
  assumes inv: "book_inv L ob" and ch: "channel_inv (out_ring ob)" and p: "p \<in> members L" and oid: "ord_id (heap ob p) = oid"
  obtains ob1 L' where "unlink p ob = Some ob1" "book_inv L' (release p ob1)"
    "abs_book L' (release p ob1) = remove_order oid (abs_book L ob)" "emits ctx [] [] ob (release p ob1)"
  using remove_refines [OF inv p] oid emits_none [OF ch] by metis

lemma cancel_refines:
  assumes inv: "book_inv L ob" and ch: "channel_inv (out_ring ob)" and req: "req = ctx_req ctx"
  shows "implements ctx (cancel ctx ob) (spec_cancel (ctx_itch_timestamp ctx) req (abs_book L ob)) ob"
proof (cases "orders ob (rq_order_id req)")
  case None
  then have "cancel ctx ob = Some (False, ob)" "spec_cancel (ctx_itch_timestamp ctx) req (abs_book L ob) = ignored (abs_book L ob)"
    using orders_find(1) [OF inv] by (simp_all add: cancel_def spec_cancel_def req)
  then show ?thesis using implements_ignored [OF inv ch] by simp
next
  case (Some p)
  let ?bk = "abs_book L ob" let ?ts = "ctx_itch_timestamp ctx" let ?oid = "rq_order_id req"
  define r where "r = view (heap ob p)"
  let ?t = "open_after (rq_quantity req) (ro_exec r)"
  note F = found_refines [OF inv Some, folded r_def]
  have rid: "ro_id r = ?oid" using F(3) by (simp add: r_def)
  show ?thesis
  proof (cases "ro_client r \<noteq> rq_client_id req \<or> ?t \<ge> ro_open r")
    case True
    then have "cancel ctx ob = Some (False, ob)" using Some by (auto simp: cancel_def req r_def Let_def)
    moreover have "spec_cancel ?ts req ?bk = ignored ?bk" using True F(1) by (simp add: spec_cancel_def)
    ultimately show ?thesis using implements_ignored [OF inv ch] by simp
  next
    case False
    let ?e = "canceled_event ?oid (ro_client r) (ro_price r) (ro_open r - ?t) kUserRequested"
    obtain ob1 where E: "emit ctx ?e ob = Some ob1" "emits ctx [?e] [] ob ob1" "same_book ob ob1"
      by (rule emit_refines [OF ch])
    note S1 = same_book_inv [OF E(3)]
    have inv1: "book_inv L ob1" and ab1: "abs_book L ob1 = ?bk" using inv S1 by simp_all
    have ch1: "channel_inv (out_ring ob1)" by (rule emits_inv [OF E(2)])
    have oid1: "ord_id (heap ob1 p) = ?oid" using F(3) S1(3) by simp
    have run: "cancel ctx ob = (if ?t = 0
        then do { ob2 \<leftarrow> unlink p ob1; Some (True, publish (delete_msg ?ts ?oid) (release p ob2)) }
        else Some (True, publish (cancel_msg ?ts ?oid (ro_open r - ?t)) (write_order p ((heap ob1 p)\<lparr>ord_open := ?t\<rparr>) ob1)))"
      using Some False E(1) S1(3) F(3)
      by (simp add: cancel_def req [symmetric] r_def Let_def canceled_event_def delete_msg_def cancel_msg_def itch_header_spec
          write_order_def set_heap_def)
    show ?thesis
    proof (cases "?t = 0")
      case True
      obtain ob2 L2 where R: "unlink p ob1 = Some ob2" "book_inv L2 (release p ob2)"
        "abs_book L2 (release p ob2) = remove_order ?oid (abs_book L ob1)" "emits ctx [] [] ob1 (release p ob2)"
        by (rule erase_refines [OF inv1 ch1 F(2) oid1, of ctx])
      let ?ob' = "publish (delete_msg ?ts ?oid) (release p ob2)"
      note S = same_book_inv [OF publish_same [of "release p ob2" "delete_msg ?ts ?oid"]]
      have "spec_cancel ?ts req ?bk = \<lparr> oc_done = True, oc_book = remove_order ?oid ?bk, oc_events = [?e], oc_msgs = [delete_msg ?ts ?oid] \<rparr>"
        using False True F(1) rid by (simp add: spec_cancel_def)
      moreover have "emits ctx ([?e] @ [] @ []) ([] @ [] @ [delete_msg ?ts ?oid]) ob ?ob'"
        by (intro emits_trans [OF E(2)] emits_trans [OF R(4)] publish_emits emits_inv [OF R(4)])
      ultimately show ?thesis using run True R S ab1 by (intro implementsI [of _ _ ?ob' L2]) simp_all
    next
      case nz: False
      let ?ob2 = "write_order p ((heap ob1 p)\<lparr>ord_open := ?t\<rparr>) ob1"
      have w: "?ob2 = write_order p ((heap ob1 p)\<lparr>ord_open := ?t, ord_exec := ro_exec r\<rparr>) ob1"
        using S1(3) by (simp add: r_def)
      note W = write_refines [OF inv1 F(2) w]
      let ?m = "cancel_msg ?ts ?oid (ro_open r - ?t)" let ?ob' = "publish ?m ?ob2"
      note S = same_book_inv [OF publish_same [of ?ob2 ?m]]
      have ab2: "abs_book L ?ob2 = reduce_order ?oid ?t ?bk"
        using W(2) F S1(3) ab1 set_quantities_reduce [OF book_inv_ids_distinct [OF inv] F(1)] by simp
      have "spec_cancel ?ts req ?bk = \<lparr> oc_done = True, oc_book = reduce_order ?oid ?t ?bk, oc_events = [?e], oc_msgs = [?m] \<rparr>"
        using False nz F(1) rid by (simp add: spec_cancel_def Let_def)
      moreover have "emits ctx ([?e] @ []) ([] @ [?m]) ob ?ob'"
      proof (rule emits_trans [OF E(2)])
        have "channel_inv (out_ring ?ob2)" using ch1 W(3) by (simp add: outputs_def)
        from emits_cong_left [OF publish_emits [OF this]] W(3) show "emits ctx [] [?m] ob1 ?ob'" by simp
      qed
      ultimately show ?thesis using run nz W S ab2 by (intro implementsI [of _ _ ?ob' L]) simp_all
    qed
  qed
qed

subsection \<open>Replace\<close>

lemma find_remove_None: "find_order x bk = None \<Longrightarrow> find_order x (remove_order y bk) = None"
  by (auto simp: find_order_None all_orders_def remove_order_def)

text \<open>A replacement that still has shares, after the original has left the book and the client has been told.\<close>

definition reenter :: "Context \<Rightarrow> bool \<Rightarrow> OrderId \<Rightarrow> Side \<Rightarrow> Quantity \<Rightarrow> Quantity \<Rightarrow> Orderbook \<Rightarrow> (bool \<times> Orderbook) option" where
  "reenter ctx day orig_id side open_qty executed ob3 =
     (let req = ctx_req ctx
      in if day \<and> \<not> crosses side LIMIT (rq_price req) ob3 then
           do { ob4 \<leftarrow> rest ctx (mk_Order (rq_new_order_id req) (rq_client_id req) side (rq_price req) open_qty executed) False ob3;
                Some (True, publish (replace_msg (ctx_itch_timestamp ctx) orig_id (rq_new_order_id req) open_qty (rq_price req)) ob4) }
         else do {
           (filled, ob5) \<leftarrow> match ctx (rq_new_order_id req) (rq_client_id req) side LIMIT (rq_price req) open_qty
                              (publish (delete_msg (ctx_itch_timestamp ctx) orig_id) ob3);
           settle ctx day (rq_new_order_id req) (rq_client_id req) side (rq_price req) (open_qty - filled) (executed + filled) ob5 })"

definition spec_reenter :: "u64 \<Rightarrow> EngineRequest \<Rightarrow> bool \<Rightarrow> OrderId \<Rightarrow> Side \<Rightarrow> Quantity \<Rightarrow> Quantity \<Rightarrow> Book \<Rightarrow> Outcome" where
  "spec_reenter ts req day orig_id side open_qty executed bk =
     (if day \<and> \<not> spec_crosses side LIMIT (rq_price req) bk
      then \<lparr> oc_done = True, oc_book = add_order \<lparr> ro_id = rq_new_order_id req, ro_client = rq_client_id req,
             ro_side = side, ro_price = rq_price req, ro_open = open_qty, ro_exec = executed \<rparr> bk,
             oc_events = [], oc_msgs = [replace_msg ts orig_id (rq_new_order_id req) open_qty (rq_price req)] \<rparr>
      else let f = spec_match_book ts (rq_new_order_id req) (rq_client_id req) side LIMIT (rq_price req) open_qty bk;
               (bk', evs, msgs) = spec_remainder ts day \<lparr> ro_id = rq_new_order_id req, ro_client = rq_client_id req,
                 ro_side = side, ro_price = rq_price req, ro_open = open_qty - fl_filled f,
                 ro_exec = executed + fl_filled f \<rparr> (after_fills side f bk)
           in \<lparr> oc_done = True, oc_book = bk', oc_events = fl_events f @ evs,
                oc_msgs = [delete_msg ts orig_id] @ fl_msgs f @ msgs \<rparr>)"

lemma reenter_refines:
  assumes inv: "book_inv L ob" and ch: "channel_inv (out_ring ob)" and req: "req = ctx_req ctx"
    and room: "\<not> book_full (abs_book L ob)" and new: "find_order (rq_new_order_id req) (abs_book L ob) = None"
    and band: "day \<Longrightarrow> in_band (rq_price req)" and ts: "ts = ctx_itch_timestamp ctx"
  shows "implements ctx (reenter ctx day orig_id side open_qty executed ob)
    (spec_reenter ts req day orig_id side open_qty executed (abs_book L ob)) ob"
proof -
  let ?new = "rq_new_order_id req" let ?cl = "rq_client_id req" let ?p = "rq_price req" let ?bk = "abs_book L ob"
  have cr: "crosses side LIMIT ?p ob \<longleftrightarrow> spec_crosses side LIMIT ?p ?bk" by (rule crosses_refines [OF inv])
  show ?thesis
  proof (cases "day \<and> \<not> spec_crosses side LIMIT ?p ?bk")
    case True
    let ?r = "\<lparr> ro_id = ?new, ro_client = ?cl, ro_side = side, ro_price = ?p, ro_open = open_qty, ro_exec = executed \<rparr>"
    obtain ob4 L4 where R: "rest ctx (mk_Order ?new ?cl side ?p open_qty executed) False ob = Some ob4" "book_inv L4 ob4"
      "abs_book L4 ob4 = add_order ?r ?bk" "emits ctx [] (if False then [add_msg (ctx_itch_timestamp ctx) ?r] else []) ob ob4"
      by (rule rest_refines [OF inv room ch new band [OF conjunct1 [OF True]] refl])
    let ?m = "replace_msg ts orig_id ?new open_qty ?p"
    note S = same_book_inv [OF publish_same [of ob4 ?m]]
    have "reenter ctx day orig_id side open_qty executed ob = Some (True, publish ?m ob4)"
      using True cr R(1) by (simp add: reenter_def req ts Let_def)
    moreover have "emits ctx [] [?m] ob (publish ?m ob4)"
      using emits_trans [OF R(4) publish_emits [OF emits_inv [OF R(4)]]] by simp
    ultimately show ?thesis using True R S by (intro implementsI [of _ _ "publish ?m ob4" L4]) (simp_all add: spec_reenter_def)
  next
    case False
    let ?d = "delete_msg ts orig_id"
    define f where "f = spec_match_book ts ?new ?cl side LIMIT ?p open_qty ?bk"
    obtain bk' evs msgs where out: "spec_remainder ts day \<lparr> ro_id = ?new, ro_client = ?cl, ro_side = side,
        ro_price = ?p, ro_open = open_qty - fl_filled f, ro_exec = executed + fl_filled f \<rparr>
        (after_fills side f ?bk) = (bk', evs, msgs)" by (metis prod_cases3)
    define ob4 where "ob4 = publish ?d ob"
    note S = same_book_inv [OF publish_same [of ob ?d], folded ob4_def]
    have P: "emits ctx [] [?d] ob ob4" unfolding ob4_def by (rule publish_emits [OF ch])
    obtain ob5 L5 where M: "match ctx ?new ?cl side LIMIT ?p open_qty ob4 = Some (fl_filled f, ob5)" "book_inv L5 ob5"
      "abs_book L5 ob5 = after_fills side f ?bk" "emits ctx (fl_events f) (fl_msgs f) ob4 ob5"
      by (rule match_refines [of L ob4 f]) (use inv S emits_inv [OF P] f_def ts in simp_all)
    have ok: "\<not> book_full (abs_book L5 ob5) \<and> find_order ?new (abs_book L5 ob5) = None \<and> in_band ?p" if day
      using that room new band after_fills_keeps [OF f_def] by (simp add: M(3))
    obtain ob6 L6 where T: "settle ctx day ?new ?cl side ?p (open_qty - fl_filled f) (executed + fl_filled f) ob5 = Some (True, ob6)"
      "book_inv L6 ob6" "bk' = abs_book L6 ob6" "emits ctx evs msgs ob5 ob6"
      by (rule settle_refines [OF M(2) emits_inv [OF M(4)] refl ok]) (use out ts M(3) in simp_all)
    have "(day \<and> \<not> crosses side LIMIT ?p ob) = False" using False cr by simp
    then have "reenter ctx day orig_id side open_qty executed ob = Some (True, ob6)"
      unfolding reenter_def Let_def req [symmetric] ts [symmetric] ob4_def [symmetric]
      by (simp only: if_False M(1) T(1) bind.bind_lunit prod.case)
    moreover have "emits ctx ([] @ fl_events f @ evs) ([?d] @ fl_msgs f @ msgs) ob ob6"
      by (intro emits_trans [OF P] emits_trans [OF M(4) T(4)])
    moreover have "spec_reenter ts req day orig_id side open_qty executed ?bk =
        \<lparr> oc_done = True, oc_book = bk', oc_events = fl_events f @ evs, oc_msgs = [?d] @ fl_msgs f @ msgs \<rparr>"
      using False out unfolding spec_reenter_def Let_def f_def [symmetric] by (simp only: if_False prod.case)
    ultimately show ?thesis using T by (intro implementsI [of _ _ ob6 L6]) simp_all
  qed
qed

lemma implements_after:
  assumes "emits ctx es ms ob ob1" "implements ctx run outcome ob1"
  shows "implements ctx run (outcome\<lparr>oc_events := es @ oc_events outcome, oc_msgs := ms @ oc_msgs outcome\<rparr>) ob"
  using assms emits_trans unfolding implements_def by fastforce

lemma replace_refines:
  assumes inv: "book_inv L ob" and ch: "channel_inv (out_ring ob)" and req: "req = ctx_req ctx"
    and band: "rq_time_in_force req = DAY \<Longrightarrow> in_band (rq_price req)"
  shows "implements ctx (replace ctx ob) (spec_replace (ctx_itch_timestamp ctx) req (abs_book L ob)) ob"
proof (cases "orders ob (rq_order_id req)")
  case None
  then have "replace ctx ob = Some (False, ob)" "spec_replace (ctx_itch_timestamp ctx) req (abs_book L ob) = ignored (abs_book L ob)"
    using orders_find(1) [OF inv] by (simp_all add: replace_def spec_replace_def req)
  then show ?thesis using implements_ignored [OF inv ch] by simp
next
  case (Some p)
  let ?bk = "abs_book L ob" let ?ts = "ctx_itch_timestamp ctx" let ?oid = "rq_order_id req" let ?new = "rq_new_order_id req"
  let ?day = "rq_time_in_force req = DAY"
  define r where "r = view (heap ob p)"
  let ?q = "open_after (rq_quantity req) (ro_exec r)"
  note F = found_refines [OF inv Some, folded r_def]
  have rid: "ro_id r = ?oid" using F(3) by (simp add: r_def)
  have dup: "find_order ?new ?bk \<noteq> None \<longleftrightarrow> orders ob ?new \<noteq> None" using orders_find(1) [OF inv] by simp
  let ?ig = "ro_client r \<noteq> rq_client_id req \<or> find_order ?new ?bk \<noteq> None"
  let ?rep = "zero_event\<lparr> ev_order_id := ?new, ev_orig_order_id := ?oid, ev_client_id := rq_client_id req,
      ev_price := rq_price req, ev_quantity := ?q, ev_type := REPLACED \<rparr>"
  consider "?ig" | "\<not> ?ig" "?q = 0" | "\<not> ?ig" "?q \<noteq> 0" by blast
  then show ?thesis
  proof cases
    case 1
    then have "replace ctx ob = Some (False, ob)" using Some dup by (auto simp: replace_def req r_def Let_def)
    moreover have "spec_replace ?ts req ?bk = ignored ?bk" using 1 F(1) by (simp add: spec_replace_def)
    ultimately show ?thesis using implements_ignored [OF inv ch] by simp
  next
    case 2
    let ?e = "canceled_event ?oid (ro_client r) (ro_price r) (ro_open r) kUserRequested"
    obtain ob1 where E: "emit ctx ?e ob = Some ob1" "emits ctx [?e] [] ob ob1" "same_book ob ob1"
      by (rule emit_refines [OF ch])
    note S1 = same_book_inv [OF E(3)]
    have inv1: "book_inv L ob1" and oid1: "ord_id (heap ob1 p) = ?oid" using inv S1 F(3) by simp_all
    obtain ob2 L2 where R: "unlink p ob1 = Some ob2" "book_inv L2 (release p ob2)"
      "abs_book L2 (release p ob2) = remove_order ?oid (abs_book L ob1)" "emits ctx [] [] ob1 (release p ob2)"
      by (rule erase_refines [OF inv1 emits_inv [OF E(2)] F(2) oid1, of ctx])
    let ?m = "delete_msg ?ts ?oid" let ?ob' = "publish ?m (release p ob2)"
    note S = same_book_inv [OF publish_same [of "release p ob2" ?m]]
    have "replace ctx ob = Some (True, ?ob')"
      using Some 2 dup E(1) R(1) F(3)
      by (simp add: replace_def req [symmetric] r_def Let_def canceled_event_def delete_msg_def itch_header_spec)
    moreover have "spec_replace ?ts req ?bk = \<lparr> oc_done = True, oc_book = remove_order ?oid ?bk, oc_events = [?e], oc_msgs = [?m] \<rparr>"
      using 2 F(1) rid by (simp add: spec_replace_def)
    moreover have "emits ctx ([?e] @ [] @ []) ([] @ [] @ [?m]) ob ?ob'"
      by (intro emits_trans [OF E(2)] emits_trans [OF R(4)] publish_emits emits_inv [OF R(4)])
    ultimately show ?thesis using R S S1 by (intro implementsI [of _ _ ?ob' L2]) simp_all
  next
    case 3
    let ?bk1 = "remove_order ?oid ?bk"
    obtain ob1 L1 where R: "unlink p ob = Some ob1" "book_inv L1 (release p ob1)"
      "abs_book L1 (release p ob1) = ?bk1" "emits ctx [] [] ob (release p ob1)"
      by (rule erase_refines [OF inv ch F(2,3), of ctx])
    obtain ob3 where E: "emit ctx ?rep (release p ob1) = Some ob3" "emits ctx [?rep] [] (release p ob1) ob3" "same_book (release p ob1) ob3"
      by (rule emit_refines [OF emits_inv [OF R(4)]])
    note S3 = same_book_inv [OF E(3)]
    have inv3: "book_inv L1 ob3" and ab3: "abs_book L1 ob3 = ?bk1" using R S3 by simp_all
    have "available (ob_pool ob3) \<noteq> 0" using E(3) by (simp add: same_book_def release_def)
    then have room: "\<not> book_full ?bk1" using book_full_iff [OF inv3] ab3 by simp
    have new: "find_order ?new ?bk1 = None" using 3 by (intro find_remove_None) simp
    let ?o = "spec_reenter ?ts req ?day ?oid (ro_side r) ?q (ro_exec r) ?bk1"
    have I: "implements ctx (reenter ctx ?day ?oid (ro_side r) ?q (ro_exec r) ob3)
        (?o\<lparr>oc_events := ([] @ [?rep]) @ oc_events ?o, oc_msgs := ([] @ []) @ oc_msgs ?o\<rparr>) ob"
      by (rule implements_after [OF emits_trans [OF R(4) E(2)]])
        (use reenter_refines [OF inv3 emits_inv [OF E(2)] req _ _ band refl] room new ab3 in simp)
    have "replace ctx ob = reenter ctx ?day ?oid (ro_side r) ?q (ro_exec r) ob3"
      using Some 3 dup R(1) E(1) F(3)
      by (simp add: replace_def req [symmetric] r_def Let_def reenter_def settle_def delete_msg_def replace_msg_def itch_header_spec
          case_prod_unfold)
    moreover have "spec_replace ?ts req ?bk = ?o\<lparr>oc_events := [?rep] @ oc_events ?o\<rparr>"
      using 3 F(1) rid by (simp add: spec_replace_def spec_reenter_def Let_def case_prod_unfold)
    ultimately show ?thesis using I by simp
  qed
qed

subsection \<open>Process\<close>

text \<open>
  The one precondition the book has on its requests: an order that may rest has a price the ladder
  has a level for.
\<close>

definition req_ok :: "EngineRequest \<Rightarrow> bool" where
  "req_ok req \<longleftrightarrow> (case rq_type req of
       NEW \<Rightarrow> rq_order_type req = LIMIT \<and> rq_time_in_force req = DAY \<longrightarrow> in_band (rq_price req)
     | CANCEL \<Rightarrow> True
     | REPLACE \<Rightarrow> rq_time_in_force req = DAY \<longrightarrow> in_band (rq_price req))"

definition request_context :: "EngineRequest \<Rightarrow> Timestamp \<Rightarrow> Orderbook \<Rightarrow> Context" where
  "request_context req tsc ob = \<lparr> ctx_req = req, ctx_engine_pop_tsc = tsc,
     ctx_itch_timestamp = ns_since_midnight (ob_clock ob) tsc \<rparr>"

lemma process_refines:
  assumes rel: "book_rel ob bk" and ch: "channel_inv (out_ring ob)" and ok: "req_ok req"
  shows "implements (request_context req tsc ob) (process req tsc ob)
    (spec_process (ns_since_midnight (ob_clock ob) tsc) req bk) (ob\<lparr>answered := False\<rparr>)"
proof -
  let ?ob = "ob\<lparr>answered := False\<rparr>" let ?ctx = "request_context req tsc ob"
  obtain L where inv: "book_inv L ob" and bk: "bk = abs_book L ob" using rel by (auto simp: book_rel_def)
  have s: "same_book ob ?ob" by (simp add: same_book_def)
  have inv1: "book_inv L ?ob" and ab1: "abs_book L ?ob = bk" using same_book_inv [OF s] inv bk by simp_all
  have ch1: "channel_inv (out_ring ?ob)" using ch by simp
  have c: "req = ctx_req ?ctx" "ctx_itch_timestamp ?ctx = ns_since_midnight (ob_clock ob) tsc"
    by (simp_all add: request_context_def)
  have p: "process req tsc ob = (case rq_type req of NEW \<Rightarrow> enter ?ctx ?ob | CANCEL \<Rightarrow> cancel ?ctx ?ob | REPLACE \<Rightarrow> replace ?ctx ?ob)"
    by (cases "rq_type req") (simp_all add: process_def request_context_def Let_def)
  show ?thesis
  proof (cases "rq_type req")
    case NEW
    with enter_refines [OF inv1 ch1 c(1)] ok p show ?thesis by (simp add: spec_process_def c(2) ab1 req_ok_def)
  next
    case CANCEL
    with cancel_refines [OF inv1 ch1 c(1)] p show ?thesis by (simp add: spec_process_def c(2) ab1)
  next
    case REPLACE
    with replace_refines [OF inv1 ch1 c(1)] ok p show ?thesis by (simp add: spec_process_def c(2) ab1 req_ok_def)
  qed
qed

subsection \<open>The new book\<close>

definition empty_book :: "nat \<Rightarrow> Book" where
  "empty_book capacity = \<lparr> bk_side = (\<lambda>_. []), bk_capacity = capacity, bk_next_match = 1 \<rparr>"

lemma new_book_rel: "book_rel (new_Orderbook capacity out md clock tsc) (empty_book capacity)"
proof -
  let ?ob = "new_Orderbook capacity out md clock tsc" let ?L = "\<lambda>_. [] :: nat list"
  have m: "members ?L = {}" by (simp add: members_def)
  have s: "side_levels s ?ob = (\<lambda>_. empty_PLQ)" "side_best s ?ob = worst s" "side_count s ?ob = 0" for s
    by (cases s; simp add: new_Orderbook_def)+
  have "ladder_inv ?L ?ob"
    unfolding ladder_inv_def by (simp add: s queue_of_new separate_def placed_def side_ok_def best_ok_def)
  moreover have "owner_inv (members ?L) ?ob"
    unfolding m using new_OrderPool_inv [of capacity] by (simp add: owner_inv_def new_Orderbook_def)
  moreover have "ranked s ?L = []" for s by (simp add: ranked_def flat_eq_Nil)
  then have "empty_book capacity = abs_book ?L ?ob"
    by (intro book_eqI) (simp_all add: empty_book_def, simp_all add: new_Orderbook_def new_OrderPool_def)
  ultimately show ?thesis unfolding book_rel_def book_inv_def by blast
qed

end
