(* ===== verification/Book_Invariants.thy ===== *)
theory Book_Invariants
  imports Orderbook_Process "HOL-Library.Multiset"
begin

text \<open>
  What every reachable book satisfies, proved on the contract: each side is ranked by price and
  arrival, every resting order has shares left and has not overflowed its chain, no order rests twice,
  the pool is not exceeded, and the best bid is below the best ask.
\<close>

definition order_ok :: "Side \<Rightarrow> RestingOrder \<Rightarrow> bool" where
  "order_ok s r \<longleftrightarrow> ro_side r = s \<and> in_band (ro_price r) \<and> ro_open r \<noteq> 0
     \<and> unat (ro_open r) + unat (ro_exec r) < 2 ^ 32"

definition side_wf :: "Side \<Rightarrow> RestingOrder list \<Rightarrow> bool" where
  "side_wf s xs \<longleftrightarrow> sorted_wrt (\<lambda>a b. \<not> better s (ro_price b) (ro_price a)) xs \<and> (\<forall>r\<in>set xs. order_ok s r)"

definition uncrossed :: "Book \<Rightarrow> bool" where
  "uncrossed bk \<longleftrightarrow> (\<forall>s. \<forall>r\<in>set (bk_side bk s). \<forall>x\<in>set (bk_side bk (opposite s)). \<not> takes s LIMIT (ro_price r) (ro_price x))"

definition bk_wf :: "Book \<Rightarrow> bool" where
  "bk_wf bk \<longleftrightarrow> (\<forall>s. side_wf s (bk_side bk s)) \<and> distinct (map ro_id (all_orders bk))
     \<and> length (all_orders bk) \<le> bk_capacity bk \<and> uncrossed bk"

lemma opposite_opposite [simp]: "opposite (opposite s) = s"
  by (cases s) simp_all

lemma side_cases: "t = s \<or> t = opposite s"
  by (cases s; cases t) simp_all

lemma opposite_neq [simp]: "opposite s \<noteq> s" "s \<noteq> opposite s"
  by (cases s; simp)+

lemma all_orders_perm: "mset (all_orders bk) = mset (bk_side bk s) + mset (bk_side bk (opposite s))"
  by (cases s) (simp_all add: all_orders_def)

lemma distinct_ids_iff:
  "distinct (map ro_id (all_orders bk)) \<longleftrightarrow> distinct (map ro_id (bk_side bk s)) \<and> distinct (map ro_id (bk_side bk (opposite s)))
     \<and> ro_id ` set (bk_side bk s) \<inter> ro_id ` set (bk_side bk (opposite s)) = {}"
  by (cases s) (auto simp: all_orders_def)

lemma length_all_orders: "length (all_orders bk) = length (bk_side bk s) + length (bk_side bk (opposite s))"
  by (cases s) (simp_all add: all_orders_def)

lemma set_all_orders: "set (all_orders bk) = set (bk_side bk s) \<union> set (bk_side bk (opposite s))"
  by (cases s) (auto simp: all_orders_def)

subsection \<open>Insertion\<close>

lemma set_insert_order: "set (insert_order r xs) = insert r (set xs)"
proof -
  have "set (takeWhile P xs) \<union> set (dropWhile P xs) = set xs" for P :: "RestingOrder \<Rightarrow> bool"
    by (metis set_append takeWhile_dropWhile_id)
  then show ?thesis by (auto simp: insert_order_def)
qed

lemma mset_insert_order: "mset (insert_order r xs) = add_mset r (mset xs)"
proof -
  have "mset (takeWhile P xs) + mset (dropWhile P xs) = mset xs" for P :: "RestingOrder \<Rightarrow> bool"
    by (metis mset_append takeWhile_dropWhile_id)
  then show ?thesis by (simp add: insert_order_def)
qed

lemma better_trans: "better s p q \<Longrightarrow> \<not> better s p' q \<Longrightarrow> \<not> better s p' p"
  by (cases s) auto

lemma dropWhile_sorted:
  assumes "sorted_wrt (\<lambda>a b. \<not> better s (ro_price b) (ro_price a)) xs"
    and "x \<in> set (dropWhile (\<lambda>x. \<not> better s p (ro_price x)) xs)"
  shows "better s p (ro_price x)"
  using assms
proof (induction xs)
  case Nil then show ?case by simp
next
  case (Cons y ys)
  show ?case
  proof (cases "better s p (ro_price y)")
    case True
    then have "x = y \<or> x \<in> set ys" using Cons.prems(2) by auto
    then show ?thesis using True Cons.prems(1) by (cases s) (auto simp: not_less)
  next
    case False
    then show ?thesis using Cons by simp
  qed
qed

lemma insert_order_sorted:
  assumes "sorted_wrt (\<lambda>a b. \<not> better (ro_side r) (ro_price b) (ro_price a)) xs"
  shows "sorted_wrt (\<lambda>a b. \<not> better (ro_side r) (ro_price b) (ro_price a)) (insert_order r xs)"
proof -
  let ?s = "ro_side r" let ?P = "\<lambda>x. \<not> better ?s (ro_price r) (ro_price x)"
  let ?R = "\<lambda>a b. \<not> better ?s (ro_price b) (ro_price a)"
  define A where "A = takeWhile ?P xs"
  define B where "B = dropWhile ?P xs"
  have "sorted_wrt ?R (A @ B)" using assms by (simp add: A_def B_def)
  moreover have "\<not> better ?s (ro_price b) (ro_price r)" if "b \<in> set B" for b
    using dropWhile_sorted [OF assms that [unfolded B_def]] by (cases ?s) auto
  moreover have "\<not> better ?s (ro_price r) (ro_price a)" if "a \<in> set A" for a
    using set_takeWhileD [OF that [unfolded A_def]] by simp
  ultimately have "sorted_wrt ?R (A @ r # B)" by (auto simp: sorted_wrt_append)
  then show ?thesis by (simp add: insert_order_def A_def B_def)
qed

lemma insert_order_wf:
  assumes "side_wf (ro_side r) xs" "order_ok (ro_side r) r"
  shows "side_wf (ro_side r) (insert_order r xs)"
  using assms insert_order_sorted [of r xs] by (simp add: side_wf_def set_insert_order)

lemma bk_side_add: "bk_side (add_order r bk) (ro_side r) = insert_order r (bk_side bk (ro_side r))"
  "bk_side (add_order r bk) (opposite (ro_side r)) = bk_side bk (opposite (ro_side r))"
  "bk_capacity (add_order r bk) = bk_capacity bk" "bk_next_match (add_order r bk) = bk_next_match bk"
  by (simp_all add: add_order_def set_side_def)

lemma takes_opposite: "takes (opposite s) LIMIT p q \<longleftrightarrow> takes s LIMIT q p"
  by (cases s) (auto simp: takes_def)

lemma add_order_wf:
  assumes wf: "bk_wf bk" and ok: "order_ok (ro_side r) r" and room: "\<not> book_full bk" and new: "find_order (ro_id r) bk = None"
    and cross: "\<forall>x\<in>set (bk_side bk (opposite (ro_side r))). \<not> takes (ro_side r) LIMIT (ro_price r) (ro_price x)"
  shows "bk_wf (add_order r bk)"
proof -
  let ?s = "ro_side r" let ?bk = "add_order r bk"
  note B = bk_side_add
  have sides: "side_wf t (bk_side ?bk t)" for t
    using side_cases [of t ?s] wf insert_order_wf [OF _ ok] B by (auto simp: bk_wf_def)
  have ids: "ro_id r \<notin> ro_id ` set (bk_side bk ?s)" "ro_id r \<notin> ro_id ` set (bk_side bk (opposite ?s))"
    using new unfolding find_order_None set_all_orders [of bk ?s] by auto
  have d: "distinct (map ro_id (all_orders bk))" using wf by (simp add: bk_wf_def)
  have "distinct (map ro_id (insert_order r (bk_side bk ?s)))"
  proof -
    have "mset (map ro_id (insert_order r (bk_side bk ?s))) = mset (ro_id r # map ro_id (bk_side bk ?s))"
      by (simp add: mset_insert_order)
    from mset_eq_imp_distinct_iff [OF this] d ids(1) show ?thesis unfolding distinct_ids_iff [of bk ?s] by simp
  qed
  then have dist: "distinct (map ro_id (all_orders ?bk))"
    unfolding distinct_ids_iff [of ?bk ?s] B using d ids unfolding distinct_ids_iff [of bk ?s]
    by (auto simp: set_insert_order)
  have len: "length (all_orders ?bk) \<le> bk_capacity ?bk"
  proof -
    have "length (insert_order r (bk_side bk ?s)) = Suc (length (bk_side bk ?s))"
      using arg_cong [OF mset_insert_order [of r "bk_side bk ?s"], of size] by simp
    then show ?thesis using room unfolding length_all_orders [of ?bk ?s] B book_full_def length_all_orders [of bk ?s] by simp
  qed
  have "uncrossed ?bk"
    unfolding uncrossed_def
  proof (intro allI ballI)
    fix t x y assume x: "x \<in> set (bk_side ?bk t)" and y: "y \<in> set (bk_side ?bk (opposite t))"
    have u: "\<And>s a b. a \<in> set (bk_side bk s) \<Longrightarrow> b \<in> set (bk_side bk (opposite s)) \<Longrightarrow> \<not> takes s LIMIT (ro_price a) (ro_price b)"
      using wf by (auto simp: bk_wf_def uncrossed_def)
    show "\<not> takes t LIMIT (ro_price x) (ro_price y)"
    proof (cases "t = ?s")
      case True
      then show ?thesis using x y u [of x ?s y] cross B by (auto simp: set_insert_order)
    next
      case False
      then have t: "t = opposite ?s" using side_cases by blast
      then have "x \<in> set (bk_side bk (opposite ?s))" "y = r \<or> y \<in> set (bk_side bk ?s)"
        using x y B by (auto simp: set_insert_order)
      then show ?thesis using u [of y ?s x] cross unfolding t takes_opposite by auto
    qed
  qed
  with sides dist len show ?thesis by (simp add: bk_wf_def)
qed

subsection \<open>Matching\<close>

lemma unat_min: "unat (min a b) = min (unat a) (unat b)" for a b :: "'a::len word"
  by (simp add: min_def word_le_nat_alt)

lemma fill_order_ok:
  assumes "order_ok s r" "fill \<le> ro_open r" "fill \<noteq> ro_open r"
  shows "order_ok s (r\<lparr>ro_open := ro_open r - fill, ro_exec := ro_exec r + fill\<rparr>)"
proof -
  have o: "unat (ro_open r - fill) = unat (ro_open r) - unat fill" using assms(2) by (rule unat_sub)
  have le: "unat fill \<le> unat (ro_open r)" using assms(2) by (simp add: word_le_nat_alt)
  have "unat (ro_exec r) + unat fill < 2 ^ 32" using assms(1) le by (simp add: order_ok_def)
  then have "unat (ro_exec r + fill) = unat (ro_exec r) + unat fill" by (intro unat_add_bounded) simp
  then show ?thesis using assms o le by (simp add: order_ok_def)
qed

lemma spec_match_wf:
  assumes "side_wf s xs"
  shows "side_wf s (fl_rest (spec_match ts oid client ok q mn xs))"
  using assms
proof (induction xs arbitrary: q mn)
  case Nil then show ?case by simp
next
  case (Cons r rs)
  have rs: "side_wf s rs" using Cons.prems by (simp add: side_wf_def)
  have "order_ok s (r\<lparr>ro_open := ro_open r - min q (ro_open r), ro_exec := ro_exec r + min q (ro_open r)\<rparr>)"
    if "min q (ro_open r) \<noteq> ro_open r"
    using fill_order_ok [of s r "min q (ro_open r)"] that Cons.prems by (simp add: side_wf_def)
  then show ?case using Cons.prems Cons.IH [OF rs] by (auto simp: Let_def side_wf_def)
qed

lemma spec_match_filled_le: "fl_filled (spec_match ts oid client ok q mn xs) \<le> q"
proof (induction xs arbitrary: q mn)
  case Nil then show ?case by simp
next
  case (Cons r rs)
  let ?fill = "min q (ro_open r)" let ?F = "fl_filled (spec_match ts oid client ok (q - ?fill) (mn + 1) rs)"
  have "unat (q - ?fill) = unat q - unat ?fill" by (rule unat_sub) simp
  moreover have "unat ?F \<le> unat (q - ?fill)" using Cons.IH by (simp add: word_le_nat_alt)
  moreover have "unat ?fill \<le> unat q" by (simp add: unat_min)
  ultimately have s: "unat ?fill + unat ?F \<le> unat q" by simp
  then have "unat (?fill + ?F) = unat ?fill + unat ?F"
    by (intro unat_add_bounded) (meson le_less_trans unsigned_less)
  with s have "?fill + ?F \<le> q" by (simp add: word_le_nat_alt)
  then show ?case by (auto simp: Let_def)
qed

text \<open>Shares are left over only when nothing acceptable is left on the other side.\<close>

lemma spec_match_stops:
  assumes "q - fl_filled (spec_match ts oid client ok q mn xs) \<noteq> 0"
  shows "fl_rest (spec_match ts oid client ok q mn xs) = []
    \<or> \<not> ok (ro_price (hd (fl_rest (spec_match ts oid client ok q mn xs))))"
  using assms
proof (induction xs arbitrary: q mn)
  case Nil then show ?case by simp
next
  case (Cons r rs)
  show ?case
  proof (cases "q = 0 \<or> \<not> ok (ro_price r)")
    case True
    then show ?thesis using Cons.prems by (auto split: if_splits)
  next
    case False
    let ?fill = "min q (ro_open r)"
    show ?thesis
    proof (cases "?fill = ro_open r")
      case True
      with Cons.prems False Cons.IH [of "q - ?fill" "mn + 1"] show ?thesis by (simp add: Let_def diff_diff_eq)
    next
      case nf: False
      then have "?fill = q" by (auto simp: min_def split: if_splits)
      with Cons.prems False nf show ?thesis by (simp add: Let_def)
    qed
  qed
qed

lemma takes_sorted:
  assumes "side_wf (opposite s) xs" "xs \<noteq> [] \<Longrightarrow> \<not> takes s type p (ro_price (hd xs))" "x \<in> set xs"
  shows "\<not> takes s type p (ro_price x)"
proof -
  obtain y ys where xs: "xs = y # ys" using assms(3) by (cases xs) auto
  have "x = y \<or> \<not> better (opposite s) (ro_price x) (ro_price y)" using assms(1,3) by (auto simp: xs side_wf_def)
  then show ?thesis using assms(2) by (cases s) (auto simp: xs takes_def)
qed

lemma bk_side_after_fills:
  "bk_side (after_fills s f bk) s = bk_side bk s" "bk_side (after_fills s f bk) (opposite s) = fl_rest f"
  "bk_capacity (after_fills s f bk) = bk_capacity bk" "bk_next_match (after_fills s f bk) = fl_next f"
  by (simp_all add: after_fills_def set_side_def)

lemma after_fills_wf:
  assumes wf: "bk_wf bk" and f: "f = spec_match_book ts oid client s type limit q bk"
  shows "bk_wf (after_fills s f bk)"
proof -
  let ?bk = "after_fills s f bk" let ?xs = "bk_side bk (opposite s)"
  note B = bk_side_after_fills
  have fx: "f = spec_match ts oid client (takes s type limit) q (bk_next_match bk) ?xs" using f by (simp add: spec_match_book_def)
  have ids: "\<exists>k. map ro_id (fl_rest f) = drop k (map ro_id ?xs)" and prices: "\<exists>k. map ro_price (fl_rest f) = drop k (map ro_price ?xs)"
    unfolding fx by (intro spec_match_drop; simp)+
  obtain k where k: "map ro_id (fl_rest f) = drop k (map ro_id ?xs)" using ids by blast
  have sub: "ro_id ` set (fl_rest f) \<subseteq> ro_id ` set ?xs"
    using arg_cong [OF k, of set] set_drop_subset [of k "map ro_id ?xs"] by simp
  have psub: "ro_price ` set (fl_rest f) \<subseteq> ro_price ` set ?xs"
  proof -
    obtain j where j: "map ro_price (fl_rest f) = drop j (map ro_price ?xs)" using prices by blast
    show ?thesis using arg_cong [OF j, of set] set_drop_subset [of j "map ro_price ?xs"] by simp
  qed
  have len: "length (fl_rest f) \<le> length ?xs" using arg_cong [OF k, of length] by simp
  have dk: "distinct (map ro_id (fl_rest f))" unfolding k
    using wf unfolding bk_wf_def distinct_ids_iff [of bk s] by (intro distinct_drop) simp
  have "side_wf t (bk_side ?bk t)" for t
    using side_cases [of t s] B wf spec_match_wf [of "opposite s" ?xs] fx by (auto simp: bk_wf_def)
  moreover have "distinct (map ro_id (all_orders ?bk))"
    using wf dk sub unfolding bk_wf_def distinct_ids_iff [of ?bk s] distinct_ids_iff [of bk s] B by blast
  moreover have "length (all_orders ?bk) \<le> bk_capacity ?bk"
    using wf len unfolding bk_wf_def length_all_orders [of _ s] B by simp
  moreover have "uncrossed ?bk"
  proof -
    have u: "\<not> takes s LIMIT (ro_price a) (ro_price b)" if a: "a \<in> set (bk_side bk s)" and b: "b \<in> set (fl_rest f)" for a b
    proof -
      obtain b' where "b' \<in> set ?xs" "ro_price b = ro_price b'" using psub b by auto
      then show ?thesis using wf a by (auto simp: bk_wf_def uncrossed_def)
    qed
    show ?thesis unfolding uncrossed_def
    proof (intro allI ballI)
      fix t x y assume "x \<in> set (bk_side ?bk t)" "y \<in> set (bk_side ?bk (opposite t))"
      then show "\<not> takes t LIMIT (ro_price x) (ro_price y)"
        using side_cases [of t s] u B by (auto simp: takes_opposite)
    qed
  qed
  ultimately show ?thesis by (simp add: bk_wf_def)
qed

subsection \<open>Removing and reducing\<close>

lemma remove_order_wf:
  assumes "bk_wf bk"
  shows "bk_wf (remove_order oid bk)"
proof -
  have "distinct (map ro_id (all_orders (remove_order oid bk)))"
    using assms unfolding bk_wf_def distinct_ids_iff [of _ BID] by (auto simp: remove_order_def distinct_map_filter)
  moreover have "length (all_orders (remove_order oid bk)) \<le> bk_capacity (remove_order oid bk)"
    using assms unfolding bk_wf_def length_all_orders [of _ BID]
    by (simp add: remove_order_def) (meson add_le_mono le_trans length_filter_le)
  ultimately show ?thesis
    using assms by (auto simp: bk_wf_def uncrossed_def side_wf_def remove_order_def sorted_wrt_filter)
qed

lemma reduce_order_wf:
  assumes wf: "bk_wf bk" and f: "find_order oid bk = Some r" and q: "q \<noteq> 0" "q \<le> ro_open r"
  shows "bk_wf (reduce_order oid q bk)"
proof -
  define g where "g = (\<lambda>x::RestingOrder. if ro_id x = oid then x\<lparr>ro_open := q\<rparr> else x)"
  have sides: "bk_side (reduce_order oid q bk) s = map g (bk_side bk s)" for s by (simp add: reduce_order_def g_def)
  have cap: "bk_capacity (reduce_order oid q bk) = bk_capacity bk" by (simp add: reduce_order_def)
  have d: "distinct (map ro_id (all_orders bk))" using wf by (simp add: bk_wf_def)
  have same: "ro_id (g x) = ro_id x" "ro_price (g x) = ro_price x" for x by (simp_all add: g_def)
  have ids: "map ro_id (all_orders (reduce_order oid q bk)) = map ro_id (all_orders bk)"
    by (simp add: all_orders_def sides same)
  have len: "length (all_orders (reduce_order oid q bk)) = length (all_orders bk)"
    using arg_cong [OF ids, of length] by simp
  have ok: "order_ok s (g x)" if x: "x \<in> set (bk_side bk s)" for s x
  proof -
    have "order_ok s x" using wf x by (simp add: bk_wf_def side_wf_def)
    moreover have "unat q \<le> unat (ro_open x)" if "ro_id x = oid"
      using find_order_unique [OF d f x that] q(2) by (simp add: word_le_nat_alt)
    ultimately show ?thesis using q(1) by (auto simp: order_ok_def g_def)
  qed
  show ?thesis
    using wf ok unfolding bk_wf_def uncrossed_def side_wf_def ids len cap sides
    by (simp add: sorted_wrt_map same)
qed

subsection \<open>Requests\<close>

lemma remainder_wf:
  assumes wf: "bk_wf bk" and f: "f = spec_match_book ts oid client (ro_side r) LIMIT (ro_price r) q bk"
    and r: "ro_open r = q - fl_filled f" "unat (ro_exec r) + unat (ro_open r) < 2 ^ 32"
    and rest: "may_rest \<Longrightarrow> in_band (ro_price r) \<and> \<not> book_full bk \<and> find_order (ro_id r) bk = None"
  shows "bk_wf (fst (spec_remainder ts' may_rest r (after_fills (ro_side r) f bk)))"
proof -
  let ?s = "ro_side r" let ?bk = "after_fills ?s f bk"
  have wf': "bk_wf ?bk" by (rule after_fills_wf [OF wf f])
  show ?thesis
  proof (cases "ro_open r \<noteq> 0 \<and> may_rest")
    case True
    have fx: "f = spec_match ts oid client (takes ?s LIMIT (ro_price r)) q (bk_next_match bk) (bk_side bk (opposite ?s))"
      using f by (simp add: spec_match_book_def)
    have stop: "fl_rest f \<noteq> [] \<Longrightarrow> \<not> takes ?s LIMIT (ro_price r) (ro_price (hd (fl_rest f)))"
      using spec_match_stops [of q ts oid client "takes ?s LIMIT (ro_price r)" "bk_next_match bk" "bk_side bk (opposite ?s)"]
        True r(1) fx by auto
    have "side_wf (opposite ?s) (fl_rest f)" using wf' bk_side_after_fills(2) [of ?s f bk] unfolding bk_wf_def by metis
    from takes_sorted [OF this stop]
    have "\<forall>x\<in>set (bk_side ?bk (opposite ?s)). \<not> takes ?s LIMIT (ro_price r) (ro_price x)"
      by (simp add: bk_side_after_fills)
    moreover have "order_ok ?s r" using True r rest by (simp add: order_ok_def add.commute)
    ultimately have "bk_wf (add_order r ?bk)"
      using add_order_wf [OF wf'] after_fills_keeps [OF f] rest True by blast
    then show ?thesis using True by (simp add: spec_remainder_def)
  next
    case False
    then show ?thesis using wf' by (auto simp: spec_remainder_def)
  qed
qed

lemma spec_enter_wf:
  assumes wf: "bk_wf bk" and band: "rq_order_type req = LIMIT \<Longrightarrow> rq_time_in_force req = DAY \<Longrightarrow> in_band (rq_price req)"
  shows "bk_wf (oc_book (spec_enter ts req bk))"
proof -
  let ?may = "rq_order_type req = LIMIT \<and> rq_time_in_force req = DAY"
  define f where "f = spec_match_book ts (rq_order_id req) (rq_client_id req) (rq_side req) (rq_order_type req)
    (rq_price req) (rq_quantity req) bk"
  let ?r = "\<lparr> ro_id = rq_order_id req, ro_client = rq_client_id req, ro_side = rq_side req,
    ro_price = rq_price req, ro_open = rq_quantity req - fl_filled f, ro_exec = fl_filled f \<rparr>"
  let ?rem = "spec_remainder ts ?may ?r (after_fills (rq_side req) f bk)"
  have "fl_filled f \<le> rq_quantity req" by (simp add: f_def spec_match_book_def spec_match_filled_le)
  then have sum: "unat (fl_filled f) + unat (rq_quantity req - fl_filled f) < 2 ^ 32"
    using unsigned_less [of "rq_quantity req"] by (simp add: unat_sub word_le_nat_alt)
  have "bk_wf (fst ?rem)" if "find_order (rq_order_id req) bk = None" "\<not> (?may \<and> book_full bk)"
  proof (cases ?may)
    case True
    then have "f = spec_match_book ts (rq_order_id req) (rq_client_id req) (ro_side ?r) LIMIT (ro_price ?r) (rq_quantity req) bk"
      by (simp add: f_def)
    from remainder_wf [OF wf this, of ?may ts] that sum band True show ?thesis by simp
  next
    case False
    then have "fst ?rem = after_fills (rq_side req) f bk" by (auto simp: spec_remainder_def)
    then show ?thesis using after_fills_wf [OF wf f_def] by simp
  qed
  then show ?thesis
    using wf by (auto simp: spec_enter_def ignored_def f_def [symmetric] Let_def case_prod_unfold)
qed

lemma spec_cancel_wf:
  assumes wf: "bk_wf bk"
  shows "bk_wf (oc_book (spec_cancel ts req bk))"
proof (cases "find_order (rq_order_id req) bk")
  case (Some r)
  let ?t = "open_after (rq_quantity req) (ro_exec r)"
  have rid: "ro_id r = rq_order_id req" using find_SomeD [OF Some [unfolded find_order_def]] by simp
  have "bk_wf (reduce_order (ro_id r) ?t bk)" if "?t \<noteq> 0" "\<not> ?t \<ge> ro_open r"
    using reduce_order_wf [OF wf, of "ro_id r" r ?t] Some rid that by simp
  then show ?thesis using Some wf remove_order_wf [OF wf] by (auto simp: spec_cancel_def ignored_def Let_def)
qed (simp add: spec_cancel_def ignored_def wf)

lemma open_after_sum: "unat (open_after liable e) + unat e < 2 ^ 32 \<or> open_after liable e = 0"
proof (cases "liable > e")
  case True
  then have "unat (liable - e) = unat liable - unat e" "unat e \<le> unat liable"
    by (simp_all add: unat_sub word_le_nat_alt word_less_nat_alt)
  moreover have "unat liable < 2 ^ 32" using unsigned_less [of liable] by simp
  ultimately show ?thesis using True by (simp add: open_after_def)
qed (simp add: open_after_def)

lemma spec_reenter_wf:
  assumes wf: "bk_wf bk" and room: "\<not> book_full bk" and new: "find_order (rq_new_order_id req) bk = None"
    and band: "day \<Longrightarrow> in_band (rq_price req)" and q: "open_qty \<noteq> 0" "unat open_qty + unat executed < 2 ^ 32"
  shows "bk_wf (oc_book (spec_reenter ts req day oid side open_qty executed bk))"
proof (cases "day \<and> \<not> spec_crosses side LIMIT (rq_price req) bk")
  case True
  let ?r = "\<lparr> ro_id = rq_new_order_id req, ro_client = rq_client_id req, ro_side = side, ro_price = rq_price req,
    ro_open = open_qty, ro_exec = executed \<rparr>"
  let ?xs = "bk_side bk (opposite side)"
  have "\<not> takes side LIMIT (rq_price req) (ro_price (hd ?xs))" if "?xs \<noteq> []"
    using that True by (cases ?xs) (auto simp: spec_crosses_def)
  from takes_sorted [OF _ this] have "\<forall>x\<in>set ?xs. \<not> takes side LIMIT (rq_price req) (ro_price x)"
    using wf by (simp add: bk_wf_def)
  then have "bk_wf (add_order ?r bk)"
    using add_order_wf [OF wf, of ?r] room new band True q by (simp add: order_ok_def)
  then show ?thesis using True by (simp add: spec_reenter_def)
next
  case False
  define f where "f = spec_match_book ts (rq_new_order_id req) (rq_client_id req) side LIMIT (rq_price req) open_qty bk"
  let ?r = "\<lparr> ro_id = rq_new_order_id req, ro_client = rq_client_id req, ro_side = side, ro_price = rq_price req,
    ro_open = open_qty - fl_filled f, ro_exec = executed + fl_filled f \<rparr>"
  have "fl_filled f \<le> open_qty" by (simp add: f_def spec_match_book_def spec_match_filled_le)
  then have le: "unat (fl_filled f) \<le> unat open_qty" "unat (open_qty - fl_filled f) = unat open_qty - unat (fl_filled f)"
    by (simp_all add: unat_sub word_le_nat_alt)
  then have "unat (executed + fl_filled f) = unat executed + unat (fl_filled f)"
    using q(2) by (intro unat_add_bounded) simp
  then have sum: "unat (ro_exec ?r) + unat (ro_open ?r) < 2 ^ 32" using le q(2) by simp
  have "f = spec_match_book ts (rq_new_order_id req) (rq_client_id req) (ro_side ?r) LIMIT (ro_price ?r) open_qty bk"
    by (simp add: f_def)
  from remainder_wf [OF wf this _ sum, of day ts] room new band
  have "bk_wf (fst (spec_remainder ts day ?r (after_fills side f bk)))" by simp
  then show ?thesis using False
    by (auto simp: spec_reenter_def f_def [symmetric] Let_def case_prod_unfold)
qed

lemma length_remove_order:
  assumes "find_order oid bk = Some r"
  shows "length (all_orders (remove_order oid bk)) < length (all_orders bk)"
proof -
  have r: "r \<in> set (all_orders bk)" "ro_id r = oid" using find_SomeD [OF assms [unfolded find_order_def]] by auto
  have "all_orders (remove_order oid bk) = filter (\<lambda>r. ro_id r \<noteq> oid) (all_orders bk)"
    by (simp add: all_orders_def remove_order_def)
  then show ?thesis using length_filter_less [of r "all_orders bk" "\<lambda>r. ro_id r \<noteq> oid"] r by simp
qed

lemma spec_replace_reenter:
  assumes "find_order (rq_order_id req) bk = Some r" "ro_client r = rq_client_id req" "find_order (rq_new_order_id req) bk = None"
    and q: "q = open_after (rq_quantity req) (ro_exec r)" "q \<noteq> 0"
    and o': "o' = spec_reenter ts req (rq_time_in_force req = DAY) (ro_id r) (ro_side r) q (ro_exec r) (remove_order (ro_id r) bk)"
  shows "spec_replace ts req bk = o'\<lparr>oc_events := zero_event\<lparr> ev_order_id := rq_new_order_id req, ev_orig_order_id := ro_id r,
      ev_client_id := rq_client_id req, ev_price := rq_price req, ev_quantity := q, ev_type := REPLACED \<rparr> # oc_events o'\<rparr>"
  using assms by (simp add: spec_replace_def spec_reenter_def Let_def case_prod_unfold)

lemma spec_replace_wf:
  assumes wf: "bk_wf bk" and band: "rq_time_in_force req = DAY \<Longrightarrow> in_band (rq_price req)"
  shows "bk_wf (oc_book (spec_replace ts req bk))"
proof (cases "find_order (rq_order_id req) bk")
  case (Some r)
  let ?q = "open_after (rq_quantity req) (ro_exec r)" let ?bk = "remove_order (ro_id r) bk"
  have rid: "ro_id r = rq_order_id req" using find_SomeD [OF Some [unfolded find_order_def]] by simp
  show ?thesis
  proof (cases "ro_client r = rq_client_id req \<and> find_order (rq_new_order_id req) bk = None \<and> ?q \<noteq> 0")
    case True
    have "\<not> book_full ?bk"
      using length_remove_order [OF Some] wf rid by (simp add: book_full_def bk_wf_def remove_order_def)
    moreover have "find_order (rq_new_order_id req) ?bk = None" using True by (intro find_remove_None) simp
    ultimately have "bk_wf (oc_book (spec_reenter ts req (rq_time_in_force req = DAY) (ro_id r) (ro_side r) ?q (ro_exec r) ?bk))"
      using spec_reenter_wf [OF remove_order_wf [OF wf]] band True open_after_sum [of "rq_quantity req" "ro_exec r"] by blast
    then show ?thesis using spec_replace_reenter [OF Some _ _ refl _ refl] True by simp
  next
    case False
    then show ?thesis using Some wf remove_order_wf [OF wf] by (auto simp: spec_replace_def ignored_def Let_def)
  qed
qed (simp add: spec_replace_def ignored_def wf)

lemma spec_process_wf:
  assumes "bk_wf bk" "req_ok req"
  shows "bk_wf (oc_book (spec_process ts req bk))"
  using assms spec_enter_wf spec_cancel_wf spec_replace_wf
  by (auto simp: spec_process_def req_ok_def split: EngineRequestType.splits)

lemma empty_book_wf: "bk_wf (empty_book capacity)"
  by (simp add: bk_wf_def empty_book_def side_wf_def uncrossed_def all_orders_def)

end
