(* ===== verification/Market_Data.thy ===== *)
theory Market_Data
  imports Book_Invariants
begin

text \<open>
  The ITCH messages a request produces, read the way a subscriber reads them: the subscriber keeps the displayed
  orders by reference number and applies each message to them. Replaying the messages of a request
  on the displayed book before it gives the displayed book after it, and every message is one the
  codec carries without loss.
\<close>

record PublicOrder =
  po_side :: byte
  po_shares :: u32
  po_price :: u32

type_synonym PublicBook = "OrderId \<Rightarrow> PublicOrder option"

definition displayed :: "RestingOrder \<Rightarrow> PublicOrder" where
  "displayed r = \<lparr> po_side = to_ouch_side (ro_side r), po_shares = ro_open r, po_price = to_itch_price (ro_price r) \<rparr>"

definition public :: "Book \<Rightarrow> PublicBook" where
  "public bk oid = map_option displayed (find_order oid bk)"

definition take_shares :: "u64 \<Rightarrow> u32 \<Rightarrow> PublicBook \<Rightarrow> PublicBook" where
  "take_shares oid n M = (case M oid of
       None \<Rightarrow> M
     | Some po \<Rightarrow> if po_shares po = n then M(oid := None) else M(oid \<mapsto> po\<lparr>po_shares := po_shares po - n\<rparr>))"

fun itch_apply :: "ITCH \<Rightarrow> PublicBook \<Rightarrow> PublicBook" where
  "itch_apply (AddOrder m) M = M(ia_order_reference_number m \<mapsto>
     \<lparr> po_side = ia_buy_sell_indicator m, po_shares = ia_shares m, po_price = ia_price m \<rparr>)"
| "itch_apply (OrderExecuted m) M = take_shares (ie_order_reference_number m) (ie_executed_shares m) M"
| "itch_apply (OrderExecutedWithPrice m) M = take_shares (iw_order_reference_number m) (iw_executed_shares m) M"
| "itch_apply (OrderCancel m) M = take_shares (ic_order_reference_number m) (ic_canceled_shares m) M"
| "itch_apply (OrderDelete m) M = M(id_order_reference_number m := None)"
| "itch_apply (OrderReplace m) M = (case M (ir_original_order_reference_number m) of
     None \<Rightarrow> M
   | Some po \<Rightarrow> (M(ir_original_order_reference_number m := None))(ir_new_order_reference_number m \<mapsto>
       \<lparr> po_side = po_side po, po_shares = ir_shares m, po_price = ir_price m \<rparr>))"
| "itch_apply (Trade m) M = M"
| "itch_apply ItchNone M = M"

subsection \<open>The displayed book under the contract's updates\<close>

abbreviation ids_distinct :: "Book \<Rightarrow> bool" where
  "ids_distinct bk \<equiv> distinct (map ro_id (all_orders bk))"

lemma find_order_iff:
  assumes "ids_distinct bk"
  shows "find_order oid bk = Some r \<longleftrightarrow> r \<in> set (all_orders bk) \<and> ro_id r = oid"
proof
  assume "find_order oid bk = Some r"
  then show "r \<in> set (all_orders bk) \<and> ro_id r = oid" using find_SomeD by (fastforce simp: find_order_def)
next
  assume r: "r \<in> set (all_orders bk) \<and> ro_id r = oid"
  then obtain y where y: "find_order oid bk = Some y" using find_order_None [of oid bk] by fastforce
  then have "y \<in> set (all_orders bk)" "ro_id y = oid" using find_SomeD by (fastforce simp: find_order_def)+
  then have "y = r" using r assms by (metis distinct_map inj_onD)
  with y show "find_order oid bk = Some r" by simp
qed

text \<open>What a view \<open>g\<close> of the resting orders shows, by order id.\<close>

definition held :: "(RestingOrder \<Rightarrow> 'a) \<Rightarrow> Book \<Rightarrow> OrderId \<Rightarrow> 'a option" where
  "held g bk oid = map_option g (find_order oid bk)"

lemma held_eqI:
  assumes d: "ids_distinct bk'"
    and sub: "\<And>r. r \<in> set (all_orders bk') \<Longrightarrow> M (ro_id r) = Some (g r)"
    and out: "\<And>oid. oid \<notin> ro_id ` set (all_orders bk') \<Longrightarrow> M oid = None"
  shows "held g bk' = M"
proof
  fix oid
  show "held g bk' oid = M oid"
  proof (cases "find_order oid bk'")
    case None
    then show ?thesis using out by (simp add: held_def find_order_None)
  next
    case (Some r)
    then have r: "r \<in> set (all_orders bk')" "ro_id r = oid" using find_order_iff [OF d] by auto
    then show ?thesis using sub [OF r(1)] Some by (simp add: held_def)
  qed
qed

lemma held_Some: "ids_distinct bk \<Longrightarrow> r \<in> set (all_orders bk) \<Longrightarrow> held g bk (ro_id r) = Some (g r)"
  using find_order_iff [of bk "ro_id r" r] by (simp add: held_def)

lemma held_None: "oid \<notin> ro_id ` set (all_orders bk) \<Longrightarrow> held g bk oid = None"
  using find_order_None [of oid bk] by (simp add: held_def)

lemma held_add:
  assumes "ids_distinct bk" "ids_distinct (add_order r bk)" "find_order (ro_id r) bk = None"
  shows "held g (add_order r bk) = (held g bk)(ro_id r \<mapsto> g r)"
proof (rule held_eqI [OF assms(2)])
  have all: "set (all_orders (add_order r bk)) = insert r (set (all_orders bk))"
    unfolding set_all_orders [of _ "ro_side r"] bk_side_add by (simp add: set_insert_order)
  show "((held g bk)(ro_id r \<mapsto> g r)) (ro_id x) = Some (g x)" if "x \<in> set (all_orders (add_order r bk))" for x
    using that assms(3) held_Some [OF assms(1)] unfolding all find_order_None by (auto simp: image_iff)
  show "((held g bk)(ro_id r \<mapsto> g r)) oid = None" if "oid \<notin> ro_id ` set (all_orders (add_order r bk))" for oid
    using that held_None unfolding all by auto
qed

lemma held_remove:
  assumes "ids_distinct bk"
  shows "held g (remove_order oid bk) = (held g bk)(oid := None)"
proof -
  have all: "all_orders (remove_order oid bk) = filter (\<lambda>r. ro_id r \<noteq> oid) (all_orders bk)"
    by (simp add: all_orders_def remove_order_def)
  have d: "ids_distinct (remove_order oid bk)" unfolding all by (rule distinct_map_filter [OF assms])
  show ?thesis
  proof (rule held_eqI [OF d])
    show "((held g bk)(oid := None)) (ro_id x) = Some (g x)" if "x \<in> set (all_orders (remove_order oid bk))" for x
      using that held_Some [OF assms] unfolding all by auto
    show "((held g bk)(oid := None)) x = None" if "x \<notin> ro_id ` set (all_orders (remove_order oid bk))" for x
      using that held_None [of x bk] unfolding all by auto
  qed
qed

lemma held_change:
  assumes d: "ids_distinct bk" and f: "find_order oid bk = Some r" and id: "\<And>x. ro_id (h x) = ro_id x"
    and all: "all_orders bk' = map (\<lambda>x. if ro_id x = oid then h x else x) (all_orders bk)"
  shows "held g bk' = (held g bk)(oid \<mapsto> g (h r))"
proof -
  have ids: "map ro_id (all_orders bk') = map ro_id (all_orders bk)" unfolding all by (simp add: id)
  have r: "r \<in> set (all_orders bk)" "ro_id r = oid" using f find_order_iff [OF d] by auto
  show ?thesis
  proof (rule held_eqI)
    show "ids_distinct bk'" unfolding ids by (rule d)
    fix x assume "x \<in> set (all_orders bk')"
    then obtain y where y: "y \<in> set (all_orders bk)" "x = (if ro_id y = oid then h y else y)" unfolding all by auto
    show "((held g bk)(oid \<mapsto> g (h r))) (ro_id x) = Some (g x)"
    proof (cases "ro_id y = oid")
      case True
      then have "y = r" using y(1) r d by (metis distinct_map inj_onD)
      then show ?thesis using r(2) y(2) by (simp add: id)
    next
      case False
      then show ?thesis using held_Some [OF d y(1)] y(2) by simp
    qed
  next
    fix x assume "x \<notin> ro_id ` set (all_orders bk')"
    then have "x \<notin> ro_id ` set (all_orders bk)" using arg_cong [OF ids, of set] by simp
    then show "((held g bk)(oid \<mapsto> g (h r))) x = None" using held_None [of x bk] r by auto
  qed
qed

lemma held_reduce:
  assumes "ids_distinct bk" "find_order oid bk = Some r"
  shows "held g (reduce_order oid q bk) = (held g bk)(oid \<mapsto> g (r\<lparr>ro_open := q\<rparr>))"
  by (rule held_change [OF assms]) (simp_all add: all_orders_def reduce_order_def)

text \<open>Changing the head of a side: it goes, or keeps some of its shares.\<close>

lemma held_head:
  assumes d: "ids_distinct bk" and hd: "bk_side bk s = r # rs"
  shows "held g (set_side s rs bk) = (held g bk)(ro_id r := None)"
    "held g (set_side s (r\<lparr>ro_open := a, ro_exec := b\<rparr> # rs) bk) = (held g bk)(ro_id r \<mapsto> g (r\<lparr>ro_open := a, ro_exec := b\<rparr>))"
proof -
  have f: "find_order (ro_id r) bk = Some r"
    unfolding find_order_iff [OF d] set_all_orders [of bk s] by (simp add: hd)
  show "held g (set_side s rs bk) = (held g bk)(ro_id r := None)"
    using held_remove [OF d, of g "ro_id r"] set_side_other_id(1) [OF d hd] by simp
  have "held g (set_quantities (ro_id r) a b bk) = (held g bk)(ro_id r \<mapsto> g (r\<lparr>ro_open := a, ro_exec := b\<rparr>))"
    by (rule held_change [OF d f, where h = "\<lambda>x. x\<lparr>ro_open := a, ro_exec := b\<rparr>"]) (simp_all add: all_orders_def set_quantities_def)
  then show "held g (set_side s (r\<lparr>ro_open := a, ro_exec := b\<rparr> # rs) bk) = (held g bk)(ro_id r \<mapsto> g (r\<lparr>ro_open := a, ro_exec := b\<rparr>))"
    using set_side_other_id(2) [OF d hd, of a b] by simp
qed

lemma held_next: "held g (bk\<lparr>bk_next_match := n\<rparr>) = held g bk"
  by (simp add: held_def find_order_def all_orders_def fun_eq_iff)

lemma public_held: "public bk = held displayed bk"
  by (simp add: public_def held_def fun_eq_iff)

lemmas public_Some = held_Some [of _ _ displayed, folded public_held]
  and public_add = held_add [of _ _ displayed, folded public_held]
  and public_remove = held_remove [of _ displayed, folded public_held]
  and public_next = held_next [of displayed, folded public_held]

lemma displayed_open [simp]:
  "displayed (r\<lparr>ro_open := a\<rparr>) = (displayed r)\<lparr>po_shares := a\<rparr>"
  "displayed (r\<lparr>ro_open := a, ro_exec := b\<rparr>) = (displayed r)\<lparr>po_shares := a\<rparr>"
  by (simp_all add: displayed_def)

lemmas public_reduce = held_reduce [where g = displayed, folded public_held, unfolded displayed_open]
  and public_head = held_head [where g = displayed, folded public_held, unfolded displayed_open]

subsection \<open>Replaying a request\<close>

lemma ids_distinct_side:
  assumes "ids_distinct bk" "bk_side bk s = r # rs"
  shows "ids_distinct (set_side s rs bk)"
  using assms unfolding distinct_ids_iff [of _ s] by (auto simp: set_side_def)

lemma replay_fills:
  assumes "ids_distinct bk" "bk_side bk (opposite side) = xs"
    and "f = spec_match ts oid client ok q mn xs"
  shows "fold itch_apply (fl_msgs f) (public bk) = public (set_side (opposite side) (fl_rest f) bk)"
  using assms
proof (induction xs arbitrary: bk q mn f)
  case Nil
  then have "set_side (opposite side) (fl_rest f) bk = bk" by (intro book_eqI) (auto simp: set_side_def)
  then show ?case using Nil by simp
next
  case (Cons r rs)
  let ?o = "opposite side" let ?fill = "min q (ro_open r)"
  note d = Cons.prems(1) and hd = Cons.prems(2) and f = Cons.prems(3)
  have pr: "public bk (ro_id r) = Some (displayed r)"
    by (rule public_Some [OF d]) (simp add: set_all_orders [of bk ?o] hd)
  have msg: "itch_apply (executed_msg ts r ?fill mn) (public bk) = (if ro_open r = ?fill then (public bk)(ro_id r := None)
      else (public bk)(ro_id r \<mapsto> (displayed r)\<lparr>po_shares := ro_open r - ?fill\<rparr>))"
    by (simp add: executed_msg_def take_shares_def pr displayed_def)
  show ?case
  proof (cases "q = 0 \<or> \<not> ok (ro_price r)")
    case True
    then have "set_side ?o (fl_rest f) bk = bk" using f hd by (intro book_eqI) (auto simp: set_side_def)
    then show ?thesis using True f by auto
  next
    case False
    show ?thesis
    proof (cases "?fill = ro_open r")
      case True
      let ?bk = "set_side ?o rs bk"
      define g where "g = spec_match ts oid client ok (q - ?fill) (mn + 1) rs"
      have "fold itch_apply (fl_msgs g) (public ?bk) = public (set_side ?o (fl_rest g) ?bk)"
        by (rule Cons.IH [OF ids_distinct_side [OF d hd] _ g_def]) (simp add: set_side_def)
      moreover have "fl_msgs f = executed_msg ts r ?fill mn # fl_msgs g" "fl_rest f = fl_rest g"
        using f False True by (simp_all add: Let_def g_def)
      moreover have "set_side ?o (fl_rest g) ?bk = set_side ?o (fl_rest g) bk" by (simp add: set_side_def)
      ultimately show ?thesis using msg True public_head(1) [OF d hd] by simp
    next
      case nf: False
      then have "fl_msgs f = [executed_msg ts r ?fill mn]"
        "fl_rest f = r\<lparr>ro_open := ro_open r - ?fill, ro_exec := ro_exec r + ?fill\<rparr> # rs"
        using f False by (simp_all add: Let_def)
      then show ?thesis using msg nf public_head(2) [OF d hd] by simp
    qed
  qed
qed

lemma replay_after_fills:
  assumes "ids_distinct bk" "f = spec_match_book ts oid client side type p q bk"
  shows "fold itch_apply (fl_msgs f) (public bk) = public (after_fills side f bk)"
  using replay_fills [OF assms(1) refl] assms(2) by (simp add: spec_match_book_def after_fills_def public_next)

lemma replay_remainder:
  assumes wf: "bk_wf bk" "bk_wf (fst (spec_remainder ts may_rest r bk))" and new: "may_rest \<Longrightarrow> find_order (ro_id r) bk = None"
  shows "fold itch_apply (snd (snd (spec_remainder ts may_rest r bk))) (public bk) = public (fst (spec_remainder ts may_rest r bk))"
proof (cases "ro_open r \<noteq> 0 \<and> may_rest")
  case True
  have "itch_apply (add_msg ts r) (public bk) = (public bk)(ro_id r \<mapsto> displayed r)"
    by (simp add: add_msg_def displayed_def)
  also have "\<dots> = public (add_order r bk)"
    using public_add [of bk r] wf new True by (simp add: bk_wf_def spec_remainder_def)
  finally show ?thesis using True by (simp add: spec_remainder_def)
next
  case False
  then show ?thesis by (auto simp: spec_remainder_def)
qed

lemma replay_enter:
  assumes wf: "bk_wf bk" and band: "rq_order_type req = LIMIT \<Longrightarrow> rq_time_in_force req = DAY \<Longrightarrow> in_band (rq_price req)"
  shows "fold itch_apply (oc_msgs (spec_enter ts req bk)) (public bk) = public (oc_book (spec_enter ts req bk))"
proof -
  let ?may = "rq_order_type req = LIMIT \<and> rq_time_in_force req = DAY"
  show ?thesis
  proof (cases "find_order (rq_order_id req) bk \<noteq> None \<or> ?may \<and> book_full bk")
    case True
    then show ?thesis by (auto simp: spec_enter_def ignored_def)
  next
    case False
    define f where "f = spec_match_book ts (rq_order_id req) (rq_client_id req) (rq_side req) (rq_order_type req)
      (rq_price req) (rq_quantity req) bk"
    let ?rem = "spec_remainder ts ?may \<lparr> ro_id = rq_order_id req, ro_client = rq_client_id req, ro_side = rq_side req,
      ro_price = rq_price req, ro_open = rq_quantity req - fl_filled f, ro_exec = fl_filled f \<rparr> (after_fills (rq_side req) f bk)"
    have o: "oc_msgs (spec_enter ts req bk) = fl_msgs f @ snd (snd ?rem)" "oc_book (spec_enter ts req bk) = fst ?rem"
      using False by (auto simp: spec_enter_def f_def [symmetric] Let_def case_prod_unfold)
    have "bk_wf (fst ?rem)" using spec_enter_wf [OF wf band, of ts] o(2) by simp
    from replay_remainder [OF after_fills_wf [OF wf f_def] this] after_fills_keeps(1) [OF f_def] False
      replay_after_fills [OF _ f_def] wf
    show ?thesis by (simp add: o bk_wf_def)
  qed
qed

lemma replay_cancel:
  assumes wf: "bk_wf bk"
  shows "fold itch_apply (oc_msgs (spec_cancel ts req bk)) (public bk) = public (oc_book (spec_cancel ts req bk))"
proof (cases "find_order (rq_order_id req) bk")
  case (Some r)
  let ?t = "open_after (rq_quantity req) (ro_exec r)"
  have d: "ids_distinct bk" using wf by (simp add: bk_wf_def)
  have rid: "ro_id r = rq_order_id req" using find_SomeD [OF Some [unfolded find_order_def]] by simp
  have pr: "public bk (ro_id r) = Some (displayed r)" using Some rid by (simp add: public_def)
  have "itch_apply (delete_msg ts (ro_id r)) (public bk) = public (remove_order (ro_id r) bk)"
    using public_remove [OF d] by (simp add: delete_msg_def)
  moreover have "itch_apply (cancel_msg ts (ro_id r) (ro_open r - ?t)) (public bk) = public (reduce_order (ro_id r) ?t bk)"
    if "?t \<noteq> 0"
    using public_reduce [OF d, of "ro_id r" r ?t] Some rid pr that
    by (simp add: cancel_msg_def take_shares_def displayed_def)
  ultimately show ?thesis using Some by (auto simp: spec_cancel_def ignored_def Let_def)
qed (simp add: spec_cancel_def ignored_def)

lemma replay_reenter:
  assumes wf: "bk_wf bk" and f: "find_order oid bk = Some r" and new: "find_order (rq_new_order_id req) bk = None"
    and band: "day \<Longrightarrow> in_band (rq_price req)" and q: "q \<noteq> 0" "unat q + unat e < 2 ^ 32"
    and o': "o' = spec_reenter ts req day oid (ro_side r) q e (remove_order oid bk)"
  shows "fold itch_apply (oc_msgs o') (public bk) = public (oc_book o')"
proof -
  let ?bk = "remove_order oid bk" let ?new = "rq_new_order_id req"
  have d: "ids_distinct bk" using wf by (simp add: bk_wf_def)
  have wf1: "bk_wf ?bk" by (rule remove_order_wf [OF wf])
  have new1: "find_order ?new ?bk = None" by (rule find_remove_None [OF new])
  have room: "\<not> book_full ?bk"
    using length_remove_order [OF f] wf by (simp add: book_full_def bk_wf_def remove_order_def)
  have wf2: "bk_wf (oc_book o')" unfolding o' by (rule spec_reenter_wf [OF wf1 room new1 band q])
  have del: "itch_apply (delete_msg ts oid) (public bk) = public ?bk" using public_remove [OF d] by (simp add: delete_msg_def)
  show ?thesis
  proof (cases "day \<and> \<not> spec_crosses (ro_side r) LIMIT (rq_price req) ?bk")
    case True
    let ?r = "\<lparr> ro_id = ?new, ro_client = rq_client_id req, ro_side = ro_side r, ro_price = rq_price req, ro_open = q, ro_exec = e \<rparr>"
    have pr: "public bk oid = Some (displayed r)" using f by (simp add: public_def)
    have ne: "?new \<noteq> oid" using f new by auto
    have o1: "oc_msgs o' = [replace_msg ts oid ?new q (rq_price req)]" "oc_book o' = add_order ?r ?bk"
      using True by (simp_all add: o' spec_reenter_def)
    have "itch_apply (replace_msg ts oid ?new q (rq_price req)) (public bk) = ((public bk)(oid := None))(?new \<mapsto> displayed ?r)"
      by (simp add: replace_msg_def pr displayed_def)
    also have "\<dots> = public (add_order ?r ?bk)"
      using public_add [of ?bk ?r] wf1 wf2 new1 public_remove [OF d, of oid] o1 by (simp add: bk_wf_def)
    finally show ?thesis by (simp add: o1)
  next
    case False
    define g where "g = spec_match_book ts ?new (rq_client_id req) (ro_side r) LIMIT (rq_price req) q ?bk"
    let ?rem = "spec_remainder ts day \<lparr> ro_id = ?new, ro_client = rq_client_id req, ro_side = ro_side r,
      ro_price = rq_price req, ro_open = q - fl_filled g, ro_exec = e + fl_filled g \<rparr> (after_fills (ro_side r) g ?bk)"
    have o1: "oc_msgs o' = delete_msg ts oid # fl_msgs g @ snd (snd ?rem)" "oc_book o' = fst ?rem"
      using False by (auto simp: o' spec_reenter_def g_def [symmetric] Let_def case_prod_unfold)
    from replay_remainder [OF after_fills_wf [OF wf1 g_def], of ts day] wf2 after_fills_keeps(1) [OF g_def new1]
      replay_after_fills [OF _ g_def] wf1 del
    show ?thesis by (simp add: o1 bk_wf_def)
  qed
qed

lemma replay_replace:
  assumes wf: "bk_wf bk" and band: "rq_time_in_force req = DAY \<Longrightarrow> in_band (rq_price req)"
  shows "fold itch_apply (oc_msgs (spec_replace ts req bk)) (public bk) = public (oc_book (spec_replace ts req bk))"
proof (cases "find_order (rq_order_id req) bk")
  case (Some r)
  let ?q = "open_after (rq_quantity req) (ro_exec r)"
  have d: "ids_distinct bk" using wf by (simp add: bk_wf_def)
  have rid: "ro_id r = rq_order_id req" using find_SomeD [OF Some [unfolded find_order_def]] by simp
  show ?thesis
  proof (cases "ro_client r = rq_client_id req \<and> find_order (rq_new_order_id req) bk = None \<and> ?q \<noteq> 0")
    case True
    let ?o = "spec_reenter ts req (rq_time_in_force req = DAY) (ro_id r) (ro_side r) ?q (ro_exec r) (remove_order (ro_id r) bk)"
    have "unat ?q + unat (ro_exec r) < 2 ^ 32" using open_after_sum [of "rq_quantity req" "ro_exec r"] True by blast
    then have "fold itch_apply (oc_msgs ?o) (public bk) = public (oc_book ?o)"
      using replay_reenter [OF wf _ _ band _ _ refl, where oid = "ro_id r" and r = r and q = ?q and e = "ro_exec r" and ts = ts]
        Some rid True by simp
    then show ?thesis using spec_replace_reenter [OF Some _ _ refl _ refl] True by simp
  next
    case False
    have "itch_apply (delete_msg ts (ro_id r)) (public bk) = public (remove_order (ro_id r) bk)"
      using public_remove [OF d] by (simp add: delete_msg_def)
    then show ?thesis using False Some by (auto simp: spec_replace_def ignored_def Let_def)
  qed
qed (simp add: spec_replace_def ignored_def)

lemma replay_process:
  assumes "bk_wf bk" "req_ok req"
  shows "fold itch_apply (oc_msgs (spec_process ts req bk)) (public bk) = public (oc_book (spec_process ts req bk))"
  using assms replay_enter replay_cancel replay_replace
  by (auto simp: spec_process_def req_ok_def split: EngineRequestType.splits)

subsection \<open>Well-formed messages\<close>

lemma contract_msgs_wf:
  assumes "ts < 2 ^ 48"
  shows "wf_itch (executed_msg ts r n mn)" "wf_itch (delete_msg ts oid)" "wf_itch (cancel_msg ts oid n)"
    "wf_itch (add_msg ts r)" "wf_itch (replace_msg ts oid oid' n p)"
  using assms by (simp_all add: executed_msg_def delete_msg_def cancel_msg_def add_msg_def replace_msg_def
      spec_header_def wf_itch_defs kBookSymbol_def alpha_def)

lemma spec_match_msgs_wf:
  assumes "ts < 2 ^ 48"
  shows "\<forall>m \<in> set (fl_msgs (spec_match ts oid client ok q mn xs)). wf_itch m"
  using contract_msgs_wf(1) [OF assms] by (induction xs arbitrary: q mn) (auto simp: Let_def)

lemma process_msgs_wf:
  assumes "ts < 2 ^ 48"
  shows "\<forall>m \<in> set (oc_msgs (spec_process ts req bk)). wf_itch m"
proof -
  note W = contract_msgs_wf [OF assms] spec_match_msgs_wf [OF assms]
  have R: "\<forall>m \<in> set (snd (snd (spec_remainder ts may r bk))). wf_itch m" for may r bk
    using W by (simp add: spec_remainder_def)
  show ?thesis
    using W R by (auto simp: spec_process_def spec_enter_def spec_cancel_def spec_replace_def ignored_def
        spec_match_book_def Let_def case_prod_unfold split: EngineRequestType.splits option.splits)
qed

end
