(* ===== verification/Engine.thy ===== *)
theory Engine
  imports Market_Data
begin

text \<open>
  The matching thread (\<open>engine/include/engine.hpp\<close>, \<open>engine/src/engine.cpp\<close>): it takes requests off the
  inbound ring, one ahead of the one it executes, and hands them to the book. The server on the other
  side of the ring is the environment: it has a list of requests to send, and before each pop it
  makes some number of push attempts, given by a schedule.
\<close>

record Engine =
  eng_book :: Orderbook
  eng_in_ring :: "EngineRequest RingBuffer"
  eng_cur :: "EngineRequest option"
  eng_to_send :: "EngineRequest list"
  eng_feed :: "nat \<Rightarrow> nat"

definition new_Engine :: "Orderbook \<Rightarrow> EngineRequest RingBuffer \<Rightarrow> EngineRequest list \<Rightarrow> (nat \<Rightarrow> nat) \<Rightarrow> Engine" where
  "new_Engine book in_ring to_send sched =
     \<lparr> eng_book = book, eng_in_ring = in_ring, eng_cur = None, eng_to_send = to_send, eng_feed = sched \<rparr>"

text \<open>Push attempts of the server; one that finds the ring full is repeated.\<close>

fun rb_feed :: "nat \<Rightarrow> 'a list \<Rightarrow> 'a RingBuffer \<Rightarrow> 'a list \<times> 'a RingBuffer" where
  "rb_feed 0 xs r = (xs, r)"
| "rb_feed (Suc n) [] r = ([], r)"
| "rb_feed (Suc n) (x # xs) r =
     (case rb_push x r of (ok, r') \<Rightarrow> rb_feed n (if ok then xs else x # xs) r')"

definition in_pop :: "Engine \<Rightarrow> EngineRequest option \<times> Engine" where
  "in_pop e =
     (let (xs, r) = rb_feed (eng_feed e 0) (eng_to_send e) (eng_in_ring e);
          (v, r') = rb_pop r
      in (v, e\<lparr>eng_in_ring := r', eng_to_send := xs, eng_feed := (\<lambda>k. eng_feed e (Suc k))\<rparr>))"

definition executeRequest :: "EngineRequest \<Rightarrow> Engine \<Rightarrow> Engine option" where
  "executeRequest req e =
     (let engine_pop_tsc = tsc_reads (eng_book e) 0;
          book = (eng_book e)\<lparr>tsc_reads := (\<lambda>k. tsc_reads (eng_book e) (Suc k))\<rparr>
      in do { (handled, book') \<leftarrow> process req engine_pop_tsc book; Some (e\<lparr>eng_book := book'\<rparr>) })"

text \<open>One pass of the loop body. Prefetching the next request's structures has no effect on the state.\<close>

definition matching_iteration :: "Engine \<Rightarrow> Engine option" where
  "matching_iteration e =
     (let (cur, e1) = (case eng_cur e of Some c \<Rightarrow> (Some c, e) | None \<Rightarrow> in_pop e)
      in case cur of
           None \<Rightarrow> Some (e1\<lparr>eng_cur := None\<rparr>)
         | Some req \<Rightarrow>
             let (nxt, e2) = in_pop e1
             in do { e3 \<leftarrow> executeRequest req e2; Some (e3\<lparr>eng_cur := nxt\<rparr>) })"

text \<open>The loop runs until it sees the stop flag; the argument is the number of passes before that.\<close>

fun handleMatching :: "nat \<Rightarrow> Engine \<Rightarrow> Engine option" where
  "handleMatching 0 e = Some e"
| "handleMatching (Suc n) e = do { e' \<leftarrow> matching_iteration e; handleMatching n e' }"

text \<open>The test interface: execute whatever is in the ring.\<close>

partial_function (option) engine_step :: "Engine \<Rightarrow> Engine option" where
  "engine_step e =
     (case rb_pop (eng_in_ring e) of
        (None, r) \<Rightarrow> Some (e\<lparr>eng_in_ring := r\<rparr>)
      | (Some req, r) \<Rightarrow> do { e' \<leftarrow> executeRequest req (e\<lparr>eng_in_ring := r\<rparr>); engine_step e' })"

subsection \<open>What the thread has to do\<close>

definition pending :: "Engine \<Rightarrow> EngineRequest list" where
  "pending e = (case eng_cur e of None \<Rightarrow> [] | Some c \<Rightarrow> [c]) @ rb_contents (eng_in_ring e) @ eng_to_send e"

text \<open>The contract, run over a sequence of requests with the time of day each is taken up at.\<close>

fun spec_steps :: "(u64 \<times> EngineRequest) list \<Rightarrow> Book \<Rightarrow> Book \<times> EngineEvent list \<times> ITCH list" where
  "spec_steps [] bk = (bk, [], [])"
| "spec_steps ((ts, req) # rs) bk =
     (let outcome = spec_process ts req bk;
          (bk', evs, msgs) = spec_steps rs (oc_book outcome)
      in (bk', oc_events outcome @ evs, oc_msgs outcome @ msgs))"

text \<open>An event without the marks that depend on when and for which request it was sent.\<close>

definition unstamp :: "EngineEvent \<Rightarrow> EngineEvent" where
  "unstamp ev = ev\<lparr> ev_read_begin_tsc := 0, ev_recv_tsc := 0, ev_server_push_tsc := 0, ev_engine_pop_tsc := 0,
     ev_engine_push_tsc := 0, ev_answers_request := False \<rparr>"

lemma unstamp_stamp [simp]: "unstamp (stamp ctx ans tsc ev) = unstamp ev"
  by (simp add: unstamp_def stamp_def)

lemma unstamp_stamp_events [simp]: "map unstamp (stamp_events ctx ans tsc evs) = map unstamp evs"
  by (induction evs arbitrary: ans tsc) simp_all

definition book_ready :: "Orderbook \<Rightarrow> Book \<Rightarrow> bool" where
  "book_ready ob bk \<longleftrightarrow> book_rel ob bk \<and> bk_wf bk \<and> channel_inv (out_ring ob)"

definition engine_ready :: "Engine \<Rightarrow> Book \<Rightarrow> bool" where
  "engine_ready e bk \<longleftrightarrow> book_ready (eng_book e) bk \<and> rb_inv (eng_in_ring e) \<and> (\<forall>req \<in> set (pending e). req_ok req)"

text \<open>\<open>served rs ob bk ob' bk'\<close>: from one book to the other by the requests \<open>rs\<close>, with the contract's outputs.\<close>

definition served :: "(u64 \<times> EngineRequest) list \<Rightarrow> Orderbook \<Rightarrow> Book \<Rightarrow> Orderbook \<Rightarrow> Book \<Rightarrow> bool" where
  "served rs ob bk ob' bk' \<longleftrightarrow> (\<exists>evs msgs new.
     spec_steps rs bk = (bk', evs, msgs)
     \<and> channel_sent (out_ring ob') = channel_sent (out_ring ob) @ new \<and> map unstamp new = map unstamp evs
     \<and> (market_data_ring ob', market_data_drops ob') = fold md_publish msgs (market_data_ring ob, market_data_drops ob))"

lemma served_nil: "served [] ob bk ob bk"
  by (simp add: served_def)

lemma spec_steps_append:
  "spec_steps (rs @ qs) bk = (case spec_steps rs bk of (bk1, evs, msgs) \<Rightarrow>
     case spec_steps qs bk1 of (bk2, evs2, msgs2) \<Rightarrow> (bk2, evs @ evs2, msgs @ msgs2))"
  by (induction rs arbitrary: bk) (auto simp: Let_def split: prod.splits)

lemma served_trans:
  assumes "served rs ob bk ob1 bk1" "served qs ob1 bk1 ob2 bk2"
  shows "served (rs @ qs) ob bk ob2 bk2"
  using assms unfolding served_def spec_steps_append by fastforce

lemma execute_served:
  assumes ready: "book_ready (eng_book e) bk" and ok: "req_ok req"
  obtains e' ts bk' where "executeRequest req e = Some e'" "e' = e\<lparr>eng_book := eng_book e'\<rparr>" "book_ready (eng_book e') bk'"
    "served [(ts, req)] (eng_book e) bk (eng_book e') bk'"
proof -
  let ?tsc = "tsc_reads (eng_book e) 0" let ?ob = "(eng_book e)\<lparr>tsc_reads := (\<lambda>k. tsc_reads (eng_book e) (Suc k))\<rparr>"
  let ?ts = "ns_since_midnight (ob_clock ?ob) ?tsc" let ?o = "spec_process ?ts req bk"
  have same: "same_book (eng_book e) ?ob" by (simp add: same_book_def)
  have "book_rel ?ob bk" using ready same_book_inv [OF same] by (auto simp: book_ready_def book_rel_def)
  moreover have "channel_inv (out_ring ?ob)" using ready by (simp add: book_ready_def)
  ultimately obtain ob' where p: "process req ?tsc ?ob = Some (oc_done ?o, ob')" and rel: "book_rel ob' (oc_book ?o)"
    and em: "emits (request_context req ?tsc ?ob) (oc_events ?o) (oc_msgs ?o) (?ob\<lparr>answered := False\<rparr>) ob'"
    using process_refines [OF _ _ ok] unfolding implements_def by blast
  have "bk_wf (oc_book ?o)" using ready ok by (intro spec_process_wf) (simp_all add: book_ready_def)
  then have rdy: "book_ready ob' (oc_book ?o)" using rel emits_inv [OF em] by (simp add: book_ready_def)
  have srv: "served [(?ts, req)] (eng_book e) bk ob' (oc_book ?o)"
    using em by (auto simp: served_def emits_def Let_def)
  have x: "executeRequest req e = Some (e\<lparr>eng_book := ob'\<rparr>)" using p by (simp add: executeRequest_def)
  show thesis by (rule that [OF x]) (use rdy srv in simp_all)
qed

lemma rb_feed_spec:
  assumes "rb_inv r" "rb_feed n xs r = (ys, r')"
  shows "rb_inv r' \<and> rb_limit r' = rb_limit r \<and> (\<exists>us. xs = us @ ys \<and> rb_contents r' = rb_contents r @ us)"
  using assms
proof (induction n xs r rule: rb_feed.induct)
  case (3 n x xs r)
  obtain b r1 where p: "rb_push x r = (b, r1)" by fastforce
  note P = rb_push_spec [OF "3.prems"(1) p]
  from "3.prems"(2) p have "rb_feed n (if b then xs else x # xs) r1 = (ys, r')" by simp
  with "3.IH" [OF p [symmetric]] P show ?case by (cases b) auto
qed auto

lemma rb_feed_progress:
  assumes inv: "rb_inv r" and f: "rb_feed n xs r = (ys, r')" and "0 < n" "xs \<noteq> []" "0 < rb_limit r"
  shows "rb_contents r' \<noteq> []"
proof (cases "rb_contents r = []")
  case True
  obtain x zs m where xs: "xs = x # zs" and n: "n = Suc m" using assms(3,4) by (metis gr0_implies_Suc neq_Nil_conv)
  obtain b r1 where p: "rb_push x r = (b, r1)" by fastforce
  note P = rb_push_spec [OF inv p]
  have b: b using P(3) True assms(5) by simp
  from f xs n p b have "rb_feed m zs r1 = (ys, r')" by simp
  with rb_feed_spec [of r1 m zs ys r'] P b show ?thesis by auto
next
  case False
  then show ?thesis using rb_feed_spec [OF inv f] by auto
qed

text \<open>A pop of the thread takes the next pending request, or finds none in the ring.\<close>

lemma in_pop_spec:
  assumes inv: "rb_inv (eng_in_ring e)" and p: "in_pop e = (v, e')"
  shows "rb_inv (eng_in_ring e')" "rb_limit (eng_in_ring e') = rb_limit (eng_in_ring e)"
    "eng_book e' = eng_book e" "eng_cur e' = eng_cur e" "eng_feed e' = (\<lambda>k. eng_feed e (Suc k))"
    "rb_contents (eng_in_ring e) @ eng_to_send e =
      (case v of None \<Rightarrow> [] | Some x \<Rightarrow> [x]) @ rb_contents (eng_in_ring e') @ eng_to_send e'"
    "v = None \<Longrightarrow> rb_contents (eng_in_ring e) = [] \<and> rb_contents (eng_in_ring e') = []"
    "v = None \<Longrightarrow> 0 < rb_limit (eng_in_ring e) \<Longrightarrow> eng_feed e 0 = 0 \<or> eng_to_send e = []"
proof -
  obtain xs r where f: "rb_feed (eng_feed e 0) (eng_to_send e) (eng_in_ring e) = (xs, r)" by fastforce
  obtain r' where q: "rb_pop r = (v, r')" and e': "e' = e\<lparr>eng_in_ring := r', eng_to_send := xs, eng_feed := (\<lambda>k. eng_feed e (Suc k))\<rparr>"
    using p f by (auto simp: in_pop_def split: prod.splits)
  note F = rb_feed_spec [OF inv f]
  then have "rb_inv r" by blast
  note P = rb_pop_spec [OF this q]
  show "rb_inv (eng_in_ring e')" "rb_limit (eng_in_ring e') = rb_limit (eng_in_ring e)"
    "eng_book e' = eng_book e" "eng_cur e' = eng_cur e" "eng_feed e' = (\<lambda>k. eng_feed e (Suc k))"
    using F P by (simp_all add: e')
  show "rb_contents (eng_in_ring e) @ eng_to_send e =
      (case v of None \<Rightarrow> [] | Some x \<Rightarrow> [x]) @ rb_contents (eng_in_ring e') @ eng_to_send e'"
    using F P by (cases v) (auto simp: e')
  show "v = None \<Longrightarrow> rb_contents (eng_in_ring e) = [] \<and> rb_contents (eng_in_ring e') = []"
    using F P by (auto simp: e')
  show "v = None \<Longrightarrow> 0 < rb_limit (eng_in_ring e) \<Longrightarrow> eng_feed e 0 = 0 \<or> eng_to_send e = []"
    using rb_feed_progress [OF inv f] P by auto
qed

text \<open>
  One pass: it executes the request at hand, if there is one, and keeps the order of the others.
\<close>

lemma iteration_served:
  assumes ready: "engine_ready e bk"
  obtains e' rs bk' where "matching_iteration e = Some e'" "engine_ready e' bk'" "pending e = map snd rs @ pending e'"
    "served rs (eng_book e) bk (eng_book e') bk'" "rb_limit (eng_in_ring e') = rb_limit (eng_in_ring e)"
    "rs = [] \<and> 0 < rb_limit (eng_in_ring e) \<longrightarrow> pending e = [] \<or> eng_feed e 0 = 0 \<and> eng_feed e' = (\<lambda>k. eng_feed e (Suc k))"
    "\<exists>i. eng_feed e' = (\<lambda>k. eng_feed e (k + i))"
proof -
  have rdy: "book_ready (eng_book e) bk" and inv: "rb_inv (eng_in_ring e)" and oks: "\<forall>req \<in> set (pending e). req_ok req"
    using ready by (auto simp: engine_ready_def)
  obtain cur e1 where c: "(case eng_cur e of Some c \<Rightarrow> (Some c, e) | None \<Rightarrow> in_pop e) = (cur, e1)" by fastforce
  have e1: "rb_inv (eng_in_ring e1)" "rb_limit (eng_in_ring e1) = rb_limit (eng_in_ring e)" "eng_book e1 = eng_book e"
    "pending e = (case cur of None \<Rightarrow> [] | Some x \<Rightarrow> [x]) @ rb_contents (eng_in_ring e1) @ eng_to_send e1"
    "cur = None \<Longrightarrow> eng_cur e = None \<and> in_pop e = (None, e1)" "\<exists>i. eng_feed e1 = (\<lambda>k. eng_feed e (k + i))"
  proof -
    have "eng_feed e = (\<lambda>k. eng_feed e (k + 0))" by simp
    moreover have "(\<lambda>k. eng_feed e (Suc k)) = (\<lambda>k. eng_feed e (k + 1))" by simp
    ultimately show "rb_inv (eng_in_ring e1)" "rb_limit (eng_in_ring e1) = rb_limit (eng_in_ring e)" "eng_book e1 = eng_book e"
      "pending e = (case cur of None \<Rightarrow> [] | Some x \<Rightarrow> [x]) @ rb_contents (eng_in_ring e1) @ eng_to_send e1"
      "cur = None \<Longrightarrow> eng_cur e = None \<and> in_pop e = (None, e1)" "\<exists>i. eng_feed e1 = (\<lambda>k. eng_feed e (k + i))"
      using c inv in_pop_spec [OF inv, of cur e1]
      by (auto simp: pending_def split: option.splits intro: exI [of _ 0] exI [of _ "Suc 0"])
  qed
  show thesis
  proof (cases cur)
    case None
    let ?e = "e1\<lparr>eng_cur := None\<rparr>"
    have n: "eng_cur e = None" "in_pop e = (None, e1)" using e1(5) [OF None] by auto
    note I = in_pop_spec [OF inv n(2)]
    have "matching_iteration e = Some ?e" using c None by (simp add: matching_iteration_def)
    moreover have "pending ?e = pending e" using e1(4) None by (simp add: pending_def)
    moreover from this have "engine_ready ?e bk" using ready e1 by (simp add: engine_ready_def)
    moreover have "pending e = [] \<or> eng_feed e 0 = 0" if "0 < rb_limit (eng_in_ring e)"
      using n(1) I(7,8) that by (auto simp: pending_def)
    moreover have "\<exists>i. eng_feed ?e = (\<lambda>k. eng_feed e (k + i))" using e1(6) by simp
    ultimately show thesis
      using I(5) e1(2,3) served_nil by (intro that [of ?e bk "[]"]) simp_all
  next
    case (Some req)
    obtain nxt e2 where p: "in_pop e1 = (nxt, e2)" by fastforce
    note I = in_pop_spec [OF e1(1) p]
    have ok: "req_ok req" using oks e1(4) Some by simp
    have "book_ready (eng_book e2) bk" using rdy e1(3) I(3) by simp
    from execute_served [OF this ok] obtain e3 ts bk' where
      x: "executeRequest req e2 = Some e3" "e3 = e2\<lparr>eng_book := eng_book e3\<rparr>" "book_ready (eng_book e3) bk'"
        "served [(ts, req)] (eng_book e2) bk (eng_book e3) bk'" by metis
    let ?e = "e3\<lparr>eng_cur := nxt\<rparr>"
    have f: "eng_in_ring e3 = eng_in_ring e2" "eng_to_send e3 = eng_to_send e2" "eng_feed e3 = eng_feed e2"
      by (subst x(2), simp)+
    have run: "matching_iteration e = Some ?e" using c Some p x(1) by (simp add: matching_iteration_def)
    have pend: "pending e = req # pending ?e"
      using e1(4) Some I(6) by (cases nxt) (simp_all add: pending_def f)
    then have "\<forall>q \<in> set (pending ?e). req_ok q" using oks by simp
    then have rdy': "engine_ready ?e bk'" using x(3) I(1) by (simp add: engine_ready_def f)
    obtain i where i: "eng_feed e1 = (\<lambda>k. eng_feed e (k + i))" using e1(6) by blast
    have "eng_feed ?e = (\<lambda>k. eng_feed e (k + Suc i))" by (simp add: f I(5) i)
    then have feed: "\<exists>i. eng_feed ?e = (\<lambda>k. eng_feed e (k + i))" by blast
    show thesis
      by (rule that [OF run rdy' _ _ _ _ feed, of "[(ts, req)]"]) (use pend x(4) e1(2,3) I(2,3) f in simp_all)
  qed
qed

lemma iterations_served:
  assumes "engine_ready e bk"
  shows "\<exists>e' rs bk'. handleMatching n e = Some e' \<and> engine_ready e' bk' \<and> pending e = map snd rs @ pending e'
    \<and> served rs (eng_book e) bk (eng_book e') bk' \<and> rb_limit (eng_in_ring e') = rb_limit (eng_in_ring e)"
  using assms
proof (induction n arbitrary: e bk)
  case 0
  have "handleMatching 0 e = Some e \<and> engine_ready e bk \<and> pending e = map snd [] @ pending e
    \<and> served [] (eng_book e) bk (eng_book e) bk \<and> rb_limit (eng_in_ring e) = rb_limit (eng_in_ring e)"
    using 0 served_nil by simp
  then show ?case by blast
next
  case (Suc n)
  obtain e1 rs bk1 where 1: "matching_iteration e = Some e1" "engine_ready e1 bk1" "pending e = map snd rs @ pending e1"
    "served rs (eng_book e) bk (eng_book e1) bk1" "rb_limit (eng_in_ring e1) = rb_limit (eng_in_ring e)"
    by (rule iteration_served [OF Suc.prems])
  obtain e2 qs bk2 where 2: "handleMatching n e1 = Some e2" "engine_ready e2 bk2" "pending e1 = map snd qs @ pending e2"
    "served qs (eng_book e1) bk1 (eng_book e2) bk2" "rb_limit (eng_in_ring e2) = rb_limit (eng_in_ring e1)"
    using Suc.IH [OF 1(2)] by blast
  have "handleMatching (Suc n) e = Some e2 \<and> engine_ready e2 bk2 \<and> pending e = map snd (rs @ qs) @ pending e2
    \<and> served (rs @ qs) (eng_book e) bk (eng_book e2) bk2 \<and> rb_limit (eng_in_ring e2) = rb_limit (eng_in_ring e)"
    using 1 2 served_trans [OF 1(4) 2(4)] by simp
  then show ?case by blast
qed

subsection \<open>Every request is executed\<close>

definition fair :: "(nat \<Rightarrow> nat) \<Rightarrow> bool" where
  "fair sched \<longleftrightarrow> (\<forall>k. \<exists>j\<ge>k. 0 < sched j)"

lemma fair_shift: "fair sched \<Longrightarrow> fair (\<lambda>k. sched (k + i))"
  unfolding fair_def
proof
  fix k assume "\<forall>k. \<exists>j\<ge>k. 0 < sched j"
  then obtain j where "k + i \<le> j" "0 < sched j" by blast
  then have "k \<le> j - i \<and> 0 < sched (j - i + i)" by simp
  then show "\<exists>j\<ge>k. 0 < sched (j + i)" by blast
qed

lemma handleMatching_add: "handleMatching m e = Some e1 \<Longrightarrow> handleMatching (m + n) e = handleMatching n e1"
  by (induction m arbitrary: e) (auto split: Option.bind_splits)

text \<open>Once there is a request to take, a pass executes it within the delay of the server.\<close>

lemma iteration_progress:
  assumes "engine_ready e bk" "0 < rb_limit (eng_in_ring e)" "pending e \<noteq> []" "fair (eng_feed e)"
  obtains e1 bk1 where "handleMatching 1 e = Some e1" "engine_ready e1 bk1" "fair (eng_feed e1)"
    "rb_limit (eng_in_ring e1) = rb_limit (eng_in_ring e)"
    "length (pending e1) < length (pending e)
      \<or> pending e1 = pending e \<and> eng_feed e 0 = 0 \<and> eng_feed e1 = (\<lambda>k. eng_feed e (Suc k))"
proof -
  obtain e1 rs bk1 where 1: "matching_iteration e = Some e1" "engine_ready e1 bk1" "pending e = map snd rs @ pending e1"
    "served rs (eng_book e) bk (eng_book e1) bk1" "rb_limit (eng_in_ring e1) = rb_limit (eng_in_ring e)"
    "rs = [] \<and> 0 < rb_limit (eng_in_ring e) \<longrightarrow> pending e = [] \<or> eng_feed e 0 = 0 \<and> eng_feed e1 = (\<lambda>k. eng_feed e (Suc k))"
    "\<exists>i. eng_feed e1 = (\<lambda>k. eng_feed e (k + i))"
    by (rule iteration_served [OF assms(1)])
  obtain i where "eng_feed e1 = (\<lambda>k. eng_feed e (k + i))" using 1(7) by blast
  then have "fair (eng_feed e1)" using fair_shift [OF assms(4), of i] by simp
  moreover have "length (pending e1) < length (pending e)
      \<or> pending e1 = pending e \<and> eng_feed e 0 = 0 \<and> eng_feed e1 = (\<lambda>k. eng_feed e (Suc k))"
    using 1(3,6) assms(2,3) by (cases "rs = []") auto
  ultimately show thesis using that [of e1 bk1] 1(1,2,5) by simp
qed

lemma engine_progress:
  assumes "engine_ready e bk" "0 < rb_limit (eng_in_ring e)" "pending e \<noteq> []" "fair (eng_feed e)" "0 < eng_feed e j"
  shows "\<exists>m e' bk'. handleMatching m e = Some e' \<and> engine_ready e' bk' \<and> length (pending e') < length (pending e)
    \<and> fair (eng_feed e') \<and> rb_limit (eng_in_ring e') = rb_limit (eng_in_ring e)"
  using assms
proof (induction j arbitrary: e bk)
  case (0 e bk)
  obtain e1 bk1 where 1: "handleMatching 1 e = Some e1" "engine_ready e1 bk1" "fair (eng_feed e1)"
    "rb_limit (eng_in_ring e1) = rb_limit (eng_in_ring e)"
    "length (pending e1) < length (pending e)
      \<or> pending e1 = pending e \<and> eng_feed e 0 = 0 \<and> eng_feed e1 = (\<lambda>k. eng_feed e (Suc k))"
    by (rule iteration_progress [OF 0(1-4)])
  then have "length (pending e1) < length (pending e)" using 0(5) by simp
  then show ?case using 1 by blast
next
  case (Suc j)
  obtain e1 bk1 where 1: "handleMatching 1 e = Some e1" "engine_ready e1 bk1" "fair (eng_feed e1)"
    "rb_limit (eng_in_ring e1) = rb_limit (eng_in_ring e)"
    "length (pending e1) < length (pending e)
      \<or> pending e1 = pending e \<and> eng_feed e 0 = 0 \<and> eng_feed e1 = (\<lambda>k. eng_feed e (Suc k))"
    by (rule iteration_progress [OF Suc.prems(1-4)])
  show ?case
  proof (cases "length (pending e1) < length (pending e)")
    case True
    then show ?thesis using 1 by blast
  next
    case False
    then have same: "pending e1 = pending e" "0 < eng_feed e1 j" using 1(5) Suc.prems(5) by auto
    obtain m e' bk' where m: "handleMatching m e1 = Some e'" "engine_ready e' bk'"
      "length (pending e') < length (pending e1)" "fair (eng_feed e')" "rb_limit (eng_in_ring e') = rb_limit (eng_in_ring e1)"
      using Suc.IH [OF 1(2) _ _ 1(3) same(2)] Suc.prems(2,3) 1(4) same(1) by auto
    have "handleMatching (1 + m) e = Some e'" using handleMatching_add [OF 1(1)] m(1) by simp
    then show ?thesis using m(2-5) 1(4) same(1) by (intro exI [of _ "1 + m"] exI [of _ e'] exI [of _ bk']) simp
  qed
qed

lemma engine_drains:
  assumes "engine_ready e bk" "0 < rb_limit (eng_in_ring e)" "fair (eng_feed e)"
  shows "\<exists>m e'. handleMatching m e = Some e' \<and> pending e' = []"
  using assms
proof (induction "length (pending e)" arbitrary: e bk rule: less_induct)
  case less
  show ?case
  proof (cases "pending e = []")
    case True
    then show ?thesis by (intro exI [of _ 0]) simp
  next
    case False
    obtain j where "0 < eng_feed e j" using less.prems(3) by (auto simp: fair_def)
    from engine_progress [OF less.prems(1,2) False less.prems(3) this] obtain m e1 bk1 where
      m: "handleMatching m e = Some e1" "engine_ready e1 bk1" "length (pending e1) < length (pending e)"
        "fair (eng_feed e1)" "rb_limit (eng_in_ring e1) = rb_limit (eng_in_ring e)" by blast
    obtain n e2 where "handleMatching n e1 = Some e2" "pending e2 = []"
      using less.hyps [OF m(3,2)] m(4,5) less.prems(2) by auto
    then show ?thesis using handleMatching_add [OF m(1), of n] by auto
  qed
qed

subsection \<open>The test interface\<close>

lemma step_served:
  assumes "book_ready (eng_book e) bk" "rb_inv (eng_in_ring e)" "\<forall>req \<in> set (rb_contents (eng_in_ring e)). req_ok req"
  shows "\<exists>e' rs bk'. engine_step e = Some e' \<and> book_ready (eng_book e') bk' \<and> map snd rs = rb_contents (eng_in_ring e)
    \<and> served rs (eng_book e) bk (eng_book e') bk' \<and> rb_contents (eng_in_ring e') = []"
  using assms
proof (induction "rb_contents (eng_in_ring e)" arbitrary: e bk)
  case Nil
  obtain v r where p: "rb_pop (eng_in_ring e) = (v, r)" by fastforce
  note P = rb_pop_spec [OF Nil.prems(2) p]
  have v: "v = None" "rb_contents r = []" using P(2) Nil.hyps by (auto split: option.splits)
  let ?e = "e\<lparr>eng_in_ring := r\<rparr>"
  have "engine_step e = Some ?e" using p v by (subst engine_step.simps) simp
  then have "engine_step e = Some ?e \<and> book_ready (eng_book ?e) bk \<and> map snd [] = rb_contents (eng_in_ring e)
    \<and> served [] (eng_book e) bk (eng_book ?e) bk \<and> rb_contents (eng_in_ring ?e) = []"
    using Nil v served_nil by simp
  then show ?case by blast
next
  case (Cons req qs)
  obtain v r where p: "rb_pop (eng_in_ring e) = (v, r)" by fastforce
  note P = rb_pop_spec [OF Cons.prems(2) p]
  have v: "v = Some req" "rb_contents r = qs" using P(2) Cons.hyps(2) by (auto split: option.splits)
  let ?e = "e\<lparr>eng_in_ring := r\<rparr>"
  have "book_ready (eng_book ?e) bk" "req_ok req" using Cons.prems(1,3) Cons.hyps(2) [symmetric] by simp_all
  from execute_served [OF this] obtain e1 ts bk1 where x: "executeRequest req ?e = Some e1" "e1 = ?e\<lparr>eng_book := eng_book e1\<rparr>"
    "book_ready (eng_book e1) bk1" "served [(ts, req)] (eng_book ?e) bk (eng_book e1) bk1" by metis
  have r1: "eng_in_ring e1 = r" by (subst x(2)) simp
  have step: "engine_step e = engine_step e1" using p v x(1) by (subst engine_step.simps) simp
  have inv1: "rb_inv (eng_in_ring e1)" "\<forall>q \<in> set (rb_contents (eng_in_ring e1)). req_ok q"
    using r1 P(1) v Cons.prems(3) Cons.hyps(2) [symmetric] by simp_all
  from Cons.hyps(1) [OF _ x(3) inv1] r1 v obtain e' rs bk' where
    I: "engine_step e1 = Some e'" "book_ready (eng_book e') bk'" "map snd rs = rb_contents (eng_in_ring e1)"
      "served rs (eng_book e1) bk1 (eng_book e') bk'" "rb_contents (eng_in_ring e') = []" by auto
  have "served ([(ts, req)] @ rs) (eng_book e) bk (eng_book e') bk'" using served_trans [of "[(ts, req)]" "eng_book e"] x(4) I(4) by simp
  then show ?case using I step r1 v Cons.hyps(2)
    by (intro exI [of _ e'] exI [of _ "(ts, req) # rs"] exI [of _ bk']) simp
qed

end
