(* ===== verification/Book_Behaviour.thy ===== *)
theory Book_Behaviour
  imports Engine
begin

text \<open>
  Facts on the contract and on reachable books from which the properties of the book follow: the states
  the book can be in, what the fills of a request look like, and where shares and priority go.
\<close>

subsection \<open>Reachable books\<close>

text \<open>
  The books that arise from a new one by requests of the gateway; in between, the counter
  may show anything.
\<close>

inductive book_reachable :: "Orderbook \<Rightarrow> bool" where
  start: "channel_inv out \<Longrightarrow> book_reachable (new_Orderbook capacity out md clock tsc)"
| request: "book_reachable ob \<Longrightarrow> req_ok req \<Longrightarrow> process req tsc ob = Some (handled, ob') \<Longrightarrow> book_reachable ob'"
| clock: "book_reachable ob \<Longrightarrow> book_reachable (ob\<lparr>tsc_reads := reads\<rparr>)"

lemma process_ready:
  assumes "book_ready ob bk" "req_ok req" "outcome = spec_process (ns_since_midnight (ob_clock ob) tsc) req bk"
  obtains ob' where "process req tsc ob = Some (oc_done outcome, ob')" "book_ready ob' (oc_book outcome)"
    "emits (request_context req tsc ob) (oc_events outcome) (oc_msgs outcome) (ob\<lparr>answered := False\<rparr>) ob'"
proof -
  have r: "book_rel ob bk" "channel_inv (out_ring ob)" "bk_wf bk" using assms(1) by (auto simp: book_ready_def)
  obtain ob' where p: "process req tsc ob = Some (oc_done outcome, ob')" "book_rel ob' (oc_book outcome)"
    "emits (request_context req tsc ob) (oc_events outcome) (oc_msgs outcome) (ob\<lparr>answered := False\<rparr>) ob'"
    using process_refines [OF r(1,2) assms(2)] assms(3) unfolding implements_def by blast
  have "bk_wf (oc_book outcome)" using spec_process_wf [OF r(3) assms(2)] assms(3) by simp
  then show thesis using that [OF p(1)] p emits_inv [OF p(3)] by (simp add: book_ready_def)
qed

lemma reachable_ready: "book_reachable ob \<Longrightarrow> \<exists>bk. book_ready ob bk"
proof (induction rule: book_reachable.induct)
  case (start out capacity md clock tsc)
  have "book_ready (new_Orderbook capacity out md clock tsc) (empty_book capacity)"
    using new_book_rel empty_book_wf start by (simp add: book_ready_def new_Orderbook_def)
  then show ?case by blast
next
  case (request ob req tsc handled ob')
  then obtain bk where "book_ready ob bk" by blast
  from process_ready [OF this request.hyps(2) refl, of tsc] request.hyps(3) show ?case by auto
next
  case (clock ob reads)
  have "same_book ob (ob\<lparr>tsc_reads := reads\<rparr>)" by (simp add: same_book_def)
  from same_book_inv [OF this] clock.IH show ?case by (auto simp: book_ready_def book_rel_def)
qed

text \<open>A state of the code stands for one book only.\<close>

lemma seg_unique: "seg h prv x ps None l \<Longrightarrow> seg h prv x qs None l' \<Longrightarrow> ps = qs"
proof (induction ps arbitrary: prv x qs)
  case Nil then show ?case by (cases qs) auto
next
  case (Cons p ps) then show ?case by (cases qs) auto
qed

lemma book_rel_unique:
  assumes "book_rel ob bk" "book_rel ob bk'"
  shows "bk = bk'"
proof -
  obtain L L' where L: "book_inv L ob" "bk = abs_book L ob" "book_inv L' ob" "bk' = abs_book L' ob"
    using assms by (auto simp: book_rel_def)
  have "L (s, i) = L' (s, i)" for s i
    using ladder_invD(1) [of L ob s i] ladder_invD(1) [of L' ob s i] L(1,3) seg_unique
    unfolding book_inv_def queue_of_def by blast
  then have "L = L'" by auto
  then show ?thesis using L by simp
qed

lemma reachable_rel_ready: "book_reachable ob \<Longrightarrow> book_rel ob bk \<Longrightarrow> book_ready ob bk"
  using reachable_ready book_rel_unique by (metis book_ready_def)

subsection \<open>Fills\<close>

text \<open>The resting side of the executions among some events: whose order, and how many shares.\<close>

definition passive_fills :: "EngineEvent list \<Rightarrow> (OrderId \<times> Quantity) list" where
  "passive_fills evs = map (\<lambda>e. (ev_order_id e, ev_quantity e))
     (filter (\<lambda>e. ev_type e = EXECUTED \<and> ev_reason e = kAddedLiquidity) evs)"

definition traded :: "EngineEvent list \<Rightarrow> nat" where
  "traded evs = sum_list (map (\<lambda>(oid, n). unat n) (passive_fills evs))"

text \<open>
  Fills that respect priority: they go to the orders of a side in their order, without leaving one out, at
  acceptable prices, and each order but the last is filled completely.
\<close>

fun priority_fills :: "(Price \<Rightarrow> bool) \<Rightarrow> RestingOrder list \<Rightarrow> (OrderId \<times> Quantity) list \<Rightarrow> bool" where
  "priority_fills ok xs [] \<longleftrightarrow> True"
| "priority_fills ok [] (f # fs) \<longleftrightarrow> False"
| "priority_fills ok (x # xs) ((oid, n) # fs) \<longleftrightarrow> oid = ro_id x \<and> ok (ro_price x) \<and> 0 < n \<and> n \<le> ro_open x
     \<and> (fs \<noteq> [] \<longrightarrow> n = ro_open x) \<and> priority_fills ok xs fs"

lemma passive_fills_append: "passive_fills (es @ fs) = passive_fills es @ passive_fills fs"
  by (simp add: passive_fills_def)

lemma passive_fills_stamped [simp]: "passive_fills (stamp_events ctx ans tsc evs) = passive_fills evs"
  by (induction evs arbitrary: ans tsc) (auto simp: passive_fills_def stamp_def)

lemma passive_fills_executed [simp]: "passive_fills (executed_events oid client r n mn) = [(ro_id r, n)]"
  by (simp add: passive_fills_def executed_events_def zero_event_def engine_reason_defs)

lemma passive_fills_other [simp]: "\<forall>e \<in> set evs. ev_type e \<noteq> EXECUTED \<Longrightarrow> passive_fills evs = []"
  by (auto simp: passive_fills_def filter_empty_conv)

lemma fill_sum:
  "unat (min q a + fl_filled (spec_match ts oid client ok (q - min q a) mn xs))
    = unat (min q a) + unat (fl_filled (spec_match ts oid client ok (q - min q a) mn xs))"
proof (rule unat_add_bounded)
  let ?F = "fl_filled (spec_match ts oid client ok (q - min q a) mn xs)"
  have "unat (q - min q a) = unat q - unat (min q a)" by (rule unat_sub) simp
  moreover have "unat ?F \<le> unat (q - min q a)" using spec_match_filled_le by (simp add: word_le_nat_alt)
  moreover have "unat (min q a) \<le> unat q" by (simp add: unat_min)
  ultimately have "unat (min q a) + unat ?F \<le> unat q" by simp
  then show "unat (min q a) + unat ?F < 2 ^ LENGTH(32)" by (meson le_less_trans unsigned_less)
qed

lemma match_priority:
  assumes "\<forall>r \<in> set xs. ro_open r \<noteq> 0"
  shows "priority_fills ok xs (passive_fills (fl_events (spec_match ts oid client ok q mn xs)))
    \<and> traded (fl_events (spec_match ts oid client ok q mn xs)) = unat (fl_filled (spec_match ts oid client ok q mn xs))"
  using assms
proof (induction xs arbitrary: q mn)
  case Nil then show ?case by (simp add: passive_fills_def traded_def)
next
  case (Cons r rs)
  let ?fill = "min q (ro_open r)" let ?f = "spec_match ts oid client ok (q - ?fill) (mn + 1) rs"
  show ?case
  proof (cases "q = 0 \<or> \<not> ok (ro_price r)")
    case True
    then show ?thesis by (auto simp: passive_fills_def traded_def)
  next
    case go: False
    have pos: "0 < ?fill" using go Cons.prems by (simp add: word_greater_zero_iff min_def)
    show ?thesis
    proof (cases "?fill = ro_open r")
      case True
      have "unat (?fill + fl_filled ?f) = unat ?fill + unat (fl_filled ?f)" by (rule fill_sum)
      then show ?thesis using go True pos Cons.IH [of "q - ?fill" "mn + 1"] Cons.prems
        by (simp add: Let_def passive_fills_append traded_def)
    next
      case False
      then show ?thesis using go pos by (simp add: Let_def traded_def)
    qed
  qed
qed

subsection \<open>Shares\<close>

definition shares :: "Book \<Rightarrow> nat" where
  "shares bk = sum_list (map (\<lambda>r. unat (ro_open r)) (all_orders bk))"

definition event_shares :: "EngineEventType \<Rightarrow> EngineEvent list \<Rightarrow> nat" where
  "event_shares ty evs = sum_list (map (\<lambda>e. unat (ev_quantity e)) (filter (\<lambda>e. ev_type e = ty) evs))"

definition side_shares :: "RestingOrder list \<Rightarrow> nat" where
  "side_shares xs = sum_list (map (\<lambda>r. unat (ro_open r)) xs)"

lemma shares_sides: "shares bk = side_shares (bk_side bk s) + side_shares (bk_side bk (opposite s))"
  by (cases s) (simp_all add: shares_def side_shares_def all_orders_def)

lemma event_shares_append: "event_shares ty (es @ fs) = event_shares ty es + event_shares ty fs"
  by (simp add: event_shares_def)

lemma event_shares_stamped: "event_shares ty (stamp_events ctx ans tsc evs) = event_shares ty evs"
  by (induction evs arbitrary: ans tsc) (auto simp: event_shares_def stamp_def)

lemma event_shares_simps:
  "event_shares ty [] = 0"
  "event_shares ty (e # es) = (if ev_type e = ty then unat (ev_quantity e) else 0) + event_shares ty es"
  by (simp_all add: event_shares_def)

text \<open>Both parties of a fill are told, and the shares leave the side that was resting.\<close>

lemma match_shares:
  assumes f_def: "f = spec_match ts oid client ok q mn xs"
  shows "side_shares xs = side_shares (fl_rest f) + unat (fl_filled f)"
    "event_shares EXECUTED (fl_events f) = 2 * unat (fl_filled f)"
    "ty \<noteq> EXECUTED \<Longrightarrow> event_shares ty (fl_events f) = 0"
proof -
  have "side_shares xs = side_shares (fl_rest (spec_match ts oid client ok q mn xs)) + unat (fl_filled (spec_match ts oid client ok q mn xs))
    \<and> event_shares EXECUTED (fl_events (spec_match ts oid client ok q mn xs)) = 2 * unat (fl_filled (spec_match ts oid client ok q mn xs))
    \<and> (\<forall>ty. ty \<noteq> EXECUTED \<longrightarrow> event_shares ty (fl_events (spec_match ts oid client ok q mn xs)) = 0)"
  proof (induction xs arbitrary: q mn)
    case Nil then show ?case by (simp add: event_shares_simps side_shares_def)
  next
    case (Cons r rs)
    let ?fill = "min q (ro_open r)" let ?f = "spec_match ts oid client ok (q - ?fill) (mn + 1) rs"
    have ev: "event_shares EXECUTED (executed_events oid client r n k) = 2 * unat n"
      "ty \<noteq> EXECUTED \<Longrightarrow> event_shares ty (executed_events oid client r n k) = 0" for n k ty
      by (auto simp: executed_events_def event_shares_simps)
    have fill: "unat ?fill \<le> unat (ro_open r)" "unat (ro_open r - ?fill) = unat (ro_open r) - unat ?fill"
      by (simp_all add: unat_min unat_sub)
    show ?case
    proof (cases "q = 0 \<or> \<not> ok (ro_price r)")
      case True
      then show ?thesis by (auto simp: event_shares_simps)
    next
      case go: False
      show ?thesis
      proof (cases "?fill = ro_open r")
        case True
        have "unat (?fill + fl_filled ?f) = unat ?fill + unat (fl_filled ?f)" by (rule fill_sum)
      then show ?thesis using go True Cons.IH [of "q - ?fill" "mn + 1"] ev
          by (simp add: Let_def event_shares_append side_shares_def)
      next
        case False
        then show ?thesis using go ev fill by (simp add: Let_def side_shares_def)
      qed
    qed
  qed
  then show "side_shares xs = side_shares (fl_rest f) + unat (fl_filled f)"
    "event_shares EXECUTED (fl_events f) = 2 * unat (fl_filled f)"
    "ty \<noteq> EXECUTED \<Longrightarrow> event_shares ty (fl_events f) = 0" unfolding f_def by auto
qed

text \<open>Taking one element of a list out, or changing it, in a sum.\<close>

lemma sum_list_remove:
  fixes h :: "'a \<Rightarrow> nat"
  assumes "distinct (map g xs)" "r \<in> set xs"
  shows "sum_list (map h xs) = sum_list (map h (filter (\<lambda>x. g x \<noteq> g r) xs)) + h r"
  using assms
proof (induction xs)
  case (Cons x xs)
  show ?case
  proof (cases "x = r")
    case True
    then have "filter (\<lambda>x. g x \<noteq> g r) xs = xs" using Cons.prems(1) by (simp add: filter_id_conv) (metis image_eqI)
    then show ?thesis using True by simp
  next
    case False
    then have "r \<in> set xs" "g x \<noteq> g r" using Cons.prems by auto
    then show ?thesis using Cons by simp
  qed
qed simp

lemma sum_list_change:
  fixes h :: "'a \<Rightarrow> nat"
  assumes "distinct (map g xs)" "r \<in> set xs"
  shows "sum_list (map h (map (\<lambda>x. if g x = g r then u x else x) xs)) + h r = sum_list (map h xs) + h (u r)"
  using assms
proof (induction xs)
  case (Cons x xs)
  show ?case
  proof (cases "x = r")
    case True
    then have "map (\<lambda>x. if g x = g r then u x else x) xs = xs" using Cons.prems(1) by (intro map_idI) (auto simp: image_iff)
    then show ?thesis using True by simp
  next
    case False
    then have "r \<in> set xs" "g x \<noteq> g r" using Cons.prems by auto
    then show ?thesis using Cons by simp
  qed
qed simp

lemma shares_found:
  assumes d: "ids_distinct bk" and f: "find_order oid bk = Some r"
  shows "shares bk = shares (remove_order oid bk) + unat (ro_open r)"
    "shares (reduce_order oid q bk) + unat (ro_open r) = shares bk + unat q"
proof -
  have r: "r \<in> set (all_orders bk)" "ro_id r = oid" using f find_order_iff [OF d] by auto
  have "all_orders (remove_order oid bk) = filter (\<lambda>x. ro_id x \<noteq> ro_id r) (all_orders bk)"
    using r(2) by (simp add: all_orders_def remove_order_def)
  then show "shares bk = shares (remove_order oid bk) + unat (ro_open r)"
    using sum_list_remove [OF d r(1), of "\<lambda>r. unat (ro_open r)"] by (simp add: shares_def)
  have "all_orders (reduce_order oid q bk) = map (\<lambda>x. if ro_id x = ro_id r then x\<lparr>ro_open := q\<rparr> else x) (all_orders bk)"
    using r(2) by (simp add: all_orders_def reduce_order_def)
  then show "shares (reduce_order oid q bk) + unat (ro_open r) = shares bk + unat q"
    using sum_list_change [OF d r(1), of "\<lambda>r. unat (ro_open r)" "\<lambda>x. x\<lparr>ro_open := q\<rparr>"] by (simp add: shares_def)
qed

lemma shares_add: "shares (add_order r bk) = shares bk + unat (ro_open r)"
proof -
  have "side_shares (insert_order r xs) = side_shares xs + unat (ro_open r)" for xs
  proof -
    have "side_shares ys = sum_mset (image_mset (\<lambda>r. unat (ro_open r)) (mset ys))" for ys
      by (simp add: side_shares_def sum_mset_sum_list [symmetric])
    then show ?thesis by (simp add: mset_insert_order)
  qed
  then show ?thesis by (simp add: shares_sides [of _ "ro_side r"] bk_side_add)
qed

lemma enter_conserves:
  "shares bk + event_shares ACCEPTED (oc_events (spec_enter ts req bk)) = shares (oc_book (spec_enter ts req bk))
    + event_shares EXECUTED (oc_events (spec_enter ts req bk)) + event_shares CANCELED (oc_events (spec_enter ts req bk))"
proof (cases "find_order (rq_order_id req) bk \<noteq> None \<or> rq_order_type req = LIMIT \<and> rq_time_in_force req = DAY \<and> book_full bk")
  case True
  then show ?thesis by (auto simp: spec_enter_def ignored_def event_shares_simps)
next
  case False
  let ?may = "rq_order_type req = LIMIT \<and> rq_time_in_force req = DAY" let ?q = "rq_quantity req" let ?s = "rq_side req"
  define f where "f = spec_match_book ts (rq_order_id req) (rq_client_id req) ?s (rq_order_type req) (rq_price req) ?q bk"
  let ?r = "\<lparr> ro_id = rq_order_id req, ro_client = rq_client_id req, ro_side = ?s,
    ro_price = rq_price req, ro_open = ?q - fl_filled f, ro_exec = fl_filled f \<rparr>"
  let ?rem = "spec_remainder ts ?may ?r (after_fills ?s f bk)"
  have f: "f = spec_match ts (rq_order_id req) (rq_client_id req) (takes ?s (rq_order_type req) (rq_price req)) ?q
      (bk_next_match bk) (bk_side bk (opposite ?s))" by (simp add: f_def spec_match_book_def)
  note M = match_shares [OF f]
  have af: "shares bk = shares (after_fills ?s f bk) + unat (fl_filled f)"
    using M(1) by (simp add: shares_sides [of _ ?s] bk_side_after_fills f)
  have q: "unat ?q = unat (fl_filled f) + unat (?q - fl_filled f)"
    using spec_match_filled_le f by (simp add: unat_sub word_le_nat_alt)
  have rem: "shares (fst ?rem) + event_shares CANCELED (fst (snd ?rem)) = shares (after_fills ?s f bk) + unat (?q - fl_filled f)"
    "event_shares EXECUTED (fst (snd ?rem)) = 0" "event_shares ACCEPTED (fst (snd ?rem)) = 0"
    by (simp_all add: spec_remainder_def shares_add event_shares_simps canceled_event_def)
  have o: "oc_book (spec_enter ts req bk) = fst ?rem"
    "oc_events (spec_enter ts req bk) = [zero_event\<lparr> ev_order_id := rq_order_id req, ev_client_id := rq_client_id req,
        ev_price := rq_price req, ev_quantity := ?q, ev_type := ACCEPTED \<rparr>] @ fl_events f @ fst (snd ?rem)"
    using False by (auto simp: spec_enter_def f_def [symmetric] Let_def case_prod_unfold)
  show ?thesis using M(2,3) af q rem unfolding o f [symmetric]
    by (simp add: event_shares_append event_shares_simps)
qed

lemma cancel_conserves:
  assumes "bk_wf bk"
  shows "shares bk = shares (oc_book (spec_cancel ts req bk)) + event_shares CANCELED (oc_events (spec_cancel ts req bk))"
    "event_shares ACCEPTED (oc_events (spec_cancel ts req bk)) = 0" "event_shares EXECUTED (oc_events (spec_cancel ts req bk)) = 0"
proof -
  have d: "ids_distinct bk" using assms by (simp add: bk_wf_def)
  show "shares bk = shares (oc_book (spec_cancel ts req bk)) + event_shares CANCELED (oc_events (spec_cancel ts req bk))"
  proof (cases "find_order (rq_order_id req) bk")
    case (Some r)
    let ?t = "open_after (rq_quantity req) (ro_exec r)"
    have rid: "ro_id r = rq_order_id req" using find_SomeD [OF Some [unfolded find_order_def]] by simp
    have "unat (ro_open r - ?t) = unat (ro_open r) - unat ?t" "unat ?t \<le> unat (ro_open r)" if "\<not> ?t \<ge> ro_open r"
      using that by (simp_all add: unat_sub word_le_nat_alt)
    then show ?thesis using Some shares_found [OF d Some] rid
      by (auto simp: spec_cancel_def ignored_def Let_def event_shares_simps canceled_event_def)
  qed (simp add: spec_cancel_def ignored_def event_shares_simps)
qed (simp_all add: spec_cancel_def ignored_def Let_def event_shares_simps canceled_event_def split: option.splits)

end
