(* ===== verification/Book_Requests.thy ===== *)
theory Book_Requests
  imports Book_Behaviour
begin

text \<open>
  What one call of \<open>process\<close> on a reachable book does, in the terms of its contract: the events it appends
  to the outbound ring, the messages it appends to the market data ring, and where the orders of the book
  are afterwards.
\<close>

subsection \<open>From the code to the contract\<close>

definition new_events :: "Orderbook \<Rightarrow> Orderbook \<Rightarrow> EngineEvent list" where
  "new_events ob ob' = drop (length (channel_sent (out_ring ob))) (channel_sent (out_ring ob'))"

definition new_msgs :: "Orderbook \<Rightarrow> Orderbook \<Rightarrow> ITCH list" where
  "new_msgs ob ob' = drop (length (rb_contents (market_data_ring ob))) (rb_contents (market_data_ring ob'))"

lemma process_outcome:
  assumes "book_reachable ob" "book_rel ob bk" "req_ok req" "process req tsc ob = Some (handled, ob')"
    and o: "outcome = spec_process (ns_since_midnight (ob_clock ob) tsc) req bk"
  shows "handled = oc_done outcome" "book_rel ob' (oc_book outcome)" "bk_wf bk"
    "new_events ob ob' = stamp_events (request_context req tsc ob) False (tsc_reads ob) (oc_events outcome)"
    "(market_data_ring ob', market_data_drops ob') = fold md_publish (oc_msgs outcome) (market_data_ring ob, market_data_drops ob)"
proof -
  have ready: "book_ready ob bk" by (rule reachable_rel_ready [OF assms(1,2)])
  obtain ob1 where p: "process req tsc ob = Some (oc_done outcome, ob1)" "book_ready ob1 (oc_book outcome)"
    "emits (request_context req tsc ob) (oc_events outcome) (oc_msgs outcome) (ob\<lparr>answered := False\<rparr>) ob1"
    by (rule process_ready [OF ready assms(3) o])
  have ob1: "ob1 = ob'" "handled = oc_done outcome" using p(1) assms(4) by simp_all
  show "handled = oc_done outcome" "book_rel ob' (oc_book outcome)" "bk_wf bk"
    using p(2) ready ob1 by (simp_all add: book_ready_def)
  show "new_events ob ob' = stamp_events (request_context req tsc ob) False (tsc_reads ob) (oc_events outcome)"
    "(market_data_ring ob', market_data_drops ob') = fold md_publish (oc_msgs outcome) (market_data_ring ob, market_data_drops ob)"
    using p(3) ob1 by (simp_all add: emits_def new_events_def)
qed

lemma process_book:
  assumes "book_reachable ob" "book_rel ob bk" "req_ok req" "process req tsc ob = Some (handled, ob')" "book_rel ob' bk'"
  shows "bk' = oc_book (spec_process (ns_since_midnight (ob_clock ob) tsc) req bk)"
  using book_rel_unique [OF assms(5) process_outcome(2) [OF assms(1-4) refl]] .

subsection \<open>Answers\<close>

lemma answers_stamped:
  "map ev_answers_request (stamp_events ctx ans tsc evs) = (case evs of [] \<Rightarrow> [] | e # es \<Rightarrow> (\<not> ans) # replicate (length es) False)"
proof (cases evs)
  case (Cons e es)
  have "map ev_answers_request (stamp_events ctx True tsc es) = replicate (length es) False" for tsc
    by (induction es arbitrary: tsc) (simp_all add: stamp_def)
  then show ?thesis using Cons by (simp add: stamp_def)
qed simp

lemma length_stamped [simp]: "length (stamp_events ctx ans tsc evs) = length evs"
  by (induction evs arbitrary: ans tsc) simp_all

text \<open>A handled request has an answer, which comes first and goes to the requester; an ignored one has none.\<close>

lemma process_answer:
  "oc_done (spec_process ts req bk) \<longleftrightarrow> oc_events (spec_process ts req bk) \<noteq> []"
  "oc_done (spec_process ts req bk) \<Longrightarrow> ev_client_id (hd (oc_events (spec_process ts req bk))) = rq_client_id req"
  by (auto simp: spec_process_def spec_enter_def spec_cancel_def spec_replace_def ignored_def Let_def canceled_event_def
      case_prod_unfold split: EngineRequestType.splits option.splits if_splits)

subsection \<open>Market data\<close>

lemma md_publish_push: "rb_push m r = (b, r1) \<Longrightarrow> md_publish m (r, d) = (r1, if b then d else d + 1)"
  by (simp add: md_publish_def)

lemma publish_all:
  assumes "rb_inv r" "length (rb_contents r) + length msgs \<le> rb_limit r"
  shows "\<exists>r'. fold md_publish msgs (r, d) = (r', d) \<and> rb_contents r' = rb_contents r @ msgs"
  using assms
proof (induction msgs arbitrary: r)
  case (Cons m ms)
  obtain b r1 where p: "rb_push m r = (b, r1)" by fastforce
  note P = rb_push_spec [OF Cons.prems(1) p]
  have b: "b" using P(3) Cons.prems(2) by simp
  have "rb_contents r1 = rb_contents r @ [m]" "rb_inv r1" "rb_limit r1 = rb_limit r" using P b by auto
  with Cons.IH [of r1] Cons.prems(2) b show ?case by (simp add: md_publish_push [OF p])
qed simp

lemma publish_some:
  assumes "rb_inv r" "fold md_publish msgs (r, d) = (r', d')"
  shows "rb_inv r' \<and> set (rb_contents r') \<subseteq> set (rb_contents r) \<union> set msgs"
  using assms
proof (induction msgs arbitrary: r d)
  case (Cons m ms)
  obtain b r1 where p: "rb_push m r = (b, r1)" by fastforce
  note P = rb_push_spec [OF Cons.prems(1) p]
  have "set (rb_contents r1) \<subseteq> insert m (set (rb_contents r))" "rb_inv r1" using P by (cases b; auto)+
  moreover have "fold md_publish ms (r1, if b then d else d + 1) = (r', d')" using Cons.prems(2) by (simp add: md_publish_push [OF p])
  ultimately show ?case using Cons.IH [of r1] by fastforce
qed simp

lemma spec_match_length: "length (fl_msgs (spec_match ts oid client ok q mn xs)) \<le> length xs"
  by (induction xs arbitrary: q mn) (auto simp: Let_def)

lemma remainder_length: "length (snd (snd (spec_remainder ts may r bk))) \<le> 1"
  by (simp add: spec_remainder_def)

lemma length_msgs: "length (oc_msgs (spec_process ts req bk)) \<le> length (all_orders bk) + 2"
proof -
  have m: "length (fl_msgs (spec_match_book ts oid c s ty l q b)) \<le> length (all_orders b)" for oid c s ty l q b
    using spec_match_length [of ts oid c "takes s ty l" q "bk_next_match b" "bk_side b (opposite s)"]
    by (simp add: spec_match_book_def length_all_orders [of b s])
  have sum: "length (fl_msgs (spec_match_book ts oid c s ty l q b)) + length (snd (snd (spec_remainder ts may x b'))) \<le> Suc (length (all_orders b))"
    for oid c s ty l q b may x b'
    using m [of oid c s ty l q b] remainder_length [of ts may x b'] by linarith
  have e: "length (oc_msgs (spec_enter ts req bk)) \<le> length (all_orders bk) + 1"
    using sum by (simp add: spec_enter_def ignored_def Let_def case_prod_unfold)
  have r: "length (oc_msgs (spec_replace ts req bk)) \<le> length (all_orders bk) + 2"
  proof (cases "find_order (rq_order_id req) bk")
    case (Some r)
    have rid: "ro_id r = rq_order_id req" using find_SomeD [OF Some [unfolded find_order_def]] by simp
    have "length (fl_msgs (spec_match_book ts oid c s ty l q (remove_order (ro_id r) bk)))
        + length (snd (snd (spec_remainder ts may x b))) \<le> Suc (length (all_orders bk))" for oid c s ty l q may x b
      using sum [of oid c s ty l q "remove_order (ro_id r) bk" may x b] length_remove_order [OF Some] unfolding rid by linarith
    then show ?thesis using Some by (simp add: spec_replace_def ignored_def Let_def case_prod_unfold)
  qed (simp add: spec_replace_def ignored_def)
  show ?thesis using e r
    by (auto simp: spec_process_def spec_cancel_def ignored_def Let_def split: EngineRequestType.splits option.splits)
qed

subsection \<open>Where orders are\<close>

text \<open>The last of the orders that a new order does not beat.\<close>

definition last_at_price :: "OrderId \<Rightarrow> Side \<Rightarrow> RestingOrder list \<Rightarrow> bool" where
  "last_at_price oid s xs \<longleftrightarrow> (\<exists>pre r post. xs = pre @ r # post \<and> ro_id r = oid
     \<and> (\<forall>x\<in>set pre. \<not> better s (ro_price r) (ro_price x)) \<and> (\<forall>x\<in>set post. better s (ro_price r) (ro_price x)))"

lemma insert_order_last:
  assumes "side_wf (ro_side r) xs"
  shows "last_at_price (ro_id r) (ro_side r) (insert_order r xs)"
proof -
  have "\<forall>x\<in>set (dropWhile (\<lambda>x. \<not> better (ro_side r) (ro_price r) (ro_price x)) xs). better (ro_side r) (ro_price r) (ro_price x)"
    by (intro ballI) (rule dropWhile_sorted, use assms in \<open>simp_all add: side_wf_def\<close>)
  moreover have "\<forall>x\<in>set (takeWhile (\<lambda>x. \<not> better (ro_side r) (ro_price r) (ro_price x)) xs). \<not> better (ro_side r) (ro_price r) (ro_price x)"
    by (auto dest: set_takeWhileD)
  ultimately show ?thesis unfolding last_at_price_def insert_order_def by blast
qed

lemma add_order_last:
  assumes "bk_wf bk"
  shows "last_at_price (ro_id r) (ro_side r) (bk_side (add_order r bk) (ro_side r))"
  using assms insert_order_last by (simp add: bk_side_add bk_wf_def)

text \<open>Orders after a request were there before, apart from the one it enters.\<close>

lemma after_fills_ids:
  assumes "f = spec_match_book ts oid client s type limit q bk"
  shows "ro_id ` set (bk_side (after_fills s f bk) s') \<subseteq> ro_id ` set (bk_side bk s')"
proof -
  have "ro_id ` set (fl_rest (spec_match ts oid client ok q mn xs)) \<subseteq> ro_id ` set xs" for ok mn xs
    by (induction xs arbitrary: q mn) (auto simp: Let_def)
  then show ?thesis using assms bk_side_after_fills [of s f bk]
    using side_cases [of s' s] by (elim disjE) (simp_all add: spec_match_book_def)
qed

definition ids_within :: "Book \<Rightarrow> Book \<Rightarrow> bool" where
  "ids_within bk' bk \<longleftrightarrow> (\<forall>s. ro_id ` set (bk_side bk' s) \<subseteq> ro_id ` set (bk_side bk s))"

definition entered :: "OrderId \<Rightarrow> Book \<Rightarrow> Book \<Rightarrow> bool" where
  "entered oid bk bk' \<longleftrightarrow> ids_within bk' bk \<or> (\<exists>r b. bk' = add_order r b \<and> bk_wf b \<and> ro_id r = oid)"

lemma ids_within_refl [simp]: "ids_within bk bk"
  by (simp add: ids_within_def)

lemma ids_within_trans: "ids_within c b \<Longrightarrow> ids_within b a \<Longrightarrow> ids_within c a"
  unfolding ids_within_def by blast

lemma ids_within_none: "ids_within bk' bk \<Longrightarrow> find_order oid bk = None \<Longrightarrow> find_order oid bk' = None"
  unfolding ids_within_def by (simp add: find_order_None set_all_orders [of _ BID]) blast

lemma ids_within_remove [simp]: "ids_within (remove_order oid bk) bk"
  by (auto simp: ids_within_def remove_order_def)

lemma ids_within_reduce [simp]: "ids_within (reduce_order oid q bk) bk"
  by (auto simp: ids_within_def reduce_order_def)

lemma ids_within_fills:
  assumes "f = spec_match_book ts oid client s type limit q bk"
  shows "ids_within (after_fills s f bk) bk"
  using after_fills_ids [OF assms] by (simp add: ids_within_def)

lemma entered_last:
  assumes "entered oid bk bk'" "bk_wf bk'" "find_order oid bk = None" "find_order oid bk' = Some r"
  shows "last_at_price oid (ro_side r) (bk_side bk' (ro_side r))"
proof -
  have "\<not> ids_within bk' bk" using ids_within_none assms(3,4) by fastforce
  then obtain x b where x: "bk' = add_order x b" "bk_wf b" "ro_id x = oid" using assms(1) by (auto simp: entered_def)
  have "x \<in> set (all_orders bk')"
    using x(1) by (simp add: set_all_orders [of _ "ro_side x"] bk_side_add set_insert_order)
  then have "find_order oid bk' = Some x" using x(3) assms(2) by (simp add: find_order_iff bk_wf_def)
  then show ?thesis using add_order_last [OF x(2), of x] x assms(4) by simp
qed

lemma entered_withinI [simp]: "ids_within bk' bk \<Longrightarrow> entered oid bk bk'"
  by (simp add: entered_def)

lemma entered_add: "bk_wf b \<Longrightarrow> entered (ro_id r) bk (add_order r b)"
  by (auto simp: entered_def)

lemma remainder_entered:
  assumes "bk_wf bk"
  shows "entered (ro_id r) bk (fst (spec_remainder ts may r bk))" "\<not> may \<Longrightarrow> fst (spec_remainder ts may r bk) = bk"
  using assms by (auto simp: entered_def spec_remainder_def)

lemma entered_within: "entered oid b bk' \<Longrightarrow> ids_within b bk \<Longrightarrow> entered oid bk bk'"
  unfolding entered_def using ids_within_trans by blast

lemma enter_entered:
  assumes wf: "bk_wf bk"
  shows "entered (rq_order_id req) bk (oc_book (spec_enter ts req bk))"
    "\<not> (rq_order_type req = LIMIT \<and> rq_time_in_force req = DAY) \<Longrightarrow> ids_within (oc_book (spec_enter ts req bk)) bk"
proof -
  let ?may = "rq_order_type req = LIMIT \<and> rq_time_in_force req = DAY" let ?s = "rq_side req"
  define f where "f = spec_match_book ts (rq_order_id req) (rq_client_id req) ?s (rq_order_type req) (rq_price req) (rq_quantity req) bk"
  let ?r = "\<lparr> ro_id = rq_order_id req, ro_client = rq_client_id req, ro_side = ?s,
    ro_price = rq_price req, ro_open = rq_quantity req - fl_filled f, ro_exec = fl_filled f \<rparr>"
  note w = ids_within_fills [OF f_def]
  have a: "bk_wf (after_fills ?s f bk)" by (rule after_fills_wf [OF wf f_def])
  have e: "oc_book (spec_enter ts req bk) = bk \<or> oc_book (spec_enter ts req bk) = fst (spec_remainder ts ?may ?r (after_fills ?s f bk))"
    by (simp add: spec_enter_def ignored_def f_def [symmetric] Let_def case_prod_unfold)
  from e show "entered (rq_order_id req) bk (oc_book (spec_enter ts req bk))"
    using entered_within [OF remainder_entered(1) [OF a, of ?r ts ?may] w] by (auto simp: entered_def)
  from e show "ids_within (oc_book (spec_enter ts req bk)) bk" if no: "\<not> ?may"
    using remainder_entered(2) [OF a no, of ts ?r] w by auto
qed

lemma replace_entered:
  assumes wf: "bk_wf bk"
  shows "entered (rq_new_order_id req) bk (oc_book (spec_replace ts req bk))"
    "rq_time_in_force req \<noteq> DAY \<Longrightarrow> ids_within (oc_book (spec_replace ts req bk)) bk"
proof -
  have "entered (rq_new_order_id req) bk (oc_book (spec_replace ts req bk))
    \<and> (rq_time_in_force req \<noteq> DAY \<longrightarrow> ids_within (oc_book (spec_replace ts req bk)) bk)"
  proof (cases "find_order (rq_order_id req) bk")
    case None then show ?thesis by (simp add: spec_replace_def ignored_def entered_def)
  next
    case (Some r)
    let ?bk = "remove_order (ro_id r) bk" let ?q = "open_after (rq_quantity req) (ro_exec r)"
    define f where "f = spec_match_book ts (rq_new_order_id req) (rq_client_id req) (ro_side r) LIMIT (rq_price req) ?q ?bk"
    let ?r = "\<lparr> ro_id = rq_new_order_id req, ro_client = rq_client_id req, ro_side = ro_side r,
      ro_price = rq_price req, ro_open = ?q - fl_filled f, ro_exec = ro_exec r + fl_filled f \<rparr>"
    let ?d = "rq_time_in_force req = DAY"
    have w1: "bk_wf ?bk" by (rule remove_order_wf [OF wf])
    have a: "bk_wf (after_fills (ro_side r) f ?bk)" by (rule after_fills_wf [OF w1 f_def])
    have m: "entered (rq_new_order_id req) bk (fst (spec_remainder ts ?d ?r (after_fills (ro_side r) f ?bk)))"
      using entered_within [OF remainder_entered(1) [OF a, of ?r ts ?d] ids_within_trans [OF ids_within_fills [OF f_def] ids_within_remove]] by simp
    have n: "ids_within (fst (spec_remainder ts ?d ?r (after_fills (ro_side r) f ?bk))) bk" if "\<not> ?d"
      using remainder_entered(2) [OF a that, of ts ?r] ids_within_trans [OF ids_within_fills [OF f_def] ids_within_remove] by simp
    show ?thesis using Some m n ids_within_remove [of "ro_id r" bk] entered_add [OF w1, of "\<lparr> ro_id = rq_new_order_id req,
        ro_client = rq_client_id req, ro_side = ro_side r, ro_price = rq_price req, ro_open = ?q, ro_exec = ro_exec r \<rparr>" bk]
      by (simp add: spec_replace_def ignored_def f_def [symmetric] Let_def case_prod_unfold)
  qed
  then show "entered (rq_new_order_id req) bk (oc_book (spec_replace ts req bk))"
    "rq_time_in_force req \<noteq> DAY \<Longrightarrow> ids_within (oc_book (spec_replace ts req bk)) bk" by simp_all
qed

subsection \<open>The ladder and the pool\<close>

lemma better_irrefl [simp]: "\<not> better s p p"
  by (cases s) simp_all

lemma side_wf_hd: "side_wf s xs \<Longrightarrow> r \<in> set xs \<Longrightarrow> \<not> better s (ro_price r) (ro_price (hd xs))"
  by (cases xs) (auto simp: side_wf_def)

lemma best_exact:
  assumes "book_rel ob bk"
  shows "side_count s ob = 0 \<longleftrightarrow> bk_side bk s = []" "bk_side bk s \<noteq> [] \<Longrightarrow> side_best s ob = ro_price (hd (bk_side bk s))"
proof -
  obtain L where L: "ladder_inv L ob" "bk = abs_book L ob" using assms by (auto simp: book_rel_def book_inv_def)
  then show z: "side_count s ob = 0 \<longleftrightarrow> bk_side bk s = []" by (simp add: ladder_count_zero)
  assume "bk_side bk s \<noteq> []"
  then have "side_count s ob \<noteq> 0" using z by simp
  then obtain p where "ranked s L = p # tl (ranked s L)" "ord_price (heap ob p) = side_best s ob"
    using front_refines [OF L(1)] by metis
  then show "side_best s ob = ro_price (hd (bk_side bk s))" using L(2) by (metis abs_book_sel(1) list.map(2) list.sel(1) view_sel(4))
qed

lemma pool_exact:
  assumes "book_rel ob bk"
  shows "in_use (ob_pool ob) = length (all_orders bk)" "in_use (ob_pool ob) + available (ob_pool ob) = bk_capacity bk"
    "find_order oid bk = map_option (\<lambda>p. view (heap ob p)) (orders ob oid)"
proof -
  obtain L where L: "book_inv L ob" "bk = abs_book L ob" using assms by (auto simp: book_rel_def)
  have lad: "ladder_inv L ob" and own: "owner_inv (members L) ob" using L(1) by (auto simp: book_inv_def)
  have c: "card (members L) + available (ob_pool ob) = pool_capacity (ob_pool ob)"
    using own pool_inv_card by (auto simp: owner_inv_def)
  have n: "length (all_orders bk) = card (members L)" using card_members [OF lad] L(2) by (simp add: all_orders_def)
  show "in_use (ob_pool ob) = length (all_orders bk)" "in_use (ob_pool ob) + available (ob_pool ob) = bk_capacity bk"
    using c n L(2) by (simp_all add: in_use_def available_def)
  show "find_order oid bk = map_option (\<lambda>p. view (heap ob p)) (orders ob oid)" using orders_find(1) [OF L(1)] L(2) by simp
qed

text \<open>The prices of a side at which the code's ladder has orders.\<close>

definition quoted :: "Side \<Rightarrow> Orderbook \<Rightarrow> Price set" where
  "quoted s ob = {price. in_band price \<and> \<not> plq_empty (side_levels s ob (level_index price))}"

lemma in_band_level: "i < LEVELS \<Longrightarrow> \<exists>price. in_band price \<and> level_index price = i"
proof (intro exI conjI)
  assume i: "i < LEVELS"
  then have u: "unat (of_nat (Suc i) :: Price) = Suc i" by (simp add: LEVELS_val unat_of_nat take_bit_nat_eq_self del: of_nat_Suc)
  with i show b: "in_band (of_nat (Suc i))" by (simp only: in_band_unat LEVELS_val) linarith
  show "level_index (of_nat (Suc i)) = i" using level_index_in_band [OF b] u by simp
qed

lemma queue_head_None: "queue_of h q ps \<Longrightarrow> plq_empty q \<longleftrightarrow> ps = []"
  by (cases ps) (auto simp: queue_of_def plq_empty_def)

lemma quoted_exact:
  assumes "book_rel ob bk"
  shows "unat (side_count s ob) = card (quoted s ob)" "finite (quoted s ob)"
    "quoted s ob = {} \<Longrightarrow> side_best s ob = worst s"
    "quoted s ob \<noteq> {} \<Longrightarrow> side_best s ob \<in> quoted s ob"
    "price \<in> quoted s ob \<Longrightarrow> \<not> better s price (side_best s ob)"
proof -
  obtain L where L: "ladder_inv L ob" using assms by (auto simp: book_rel_def book_inv_def)
  have e: "plq_empty (side_levels s ob i) \<longleftrightarrow> L (s, i) = []" for i
    by (rule queue_head_None [OF ladder_invD(1) [OF L]])
  have ok: "\<And>i. L (s, i) \<noteq> [] \<Longrightarrow> i < LEVELS" "unat (side_count s ob) = card {i. L (s, i) \<noteq> []}"
    "best_ok s (\<lambda>i. L (s, i)) (side_best s ob)"
    using ladder_invD(4) [OF L, of s] by (auto simp: side_ok_def)
  have img: "level_index ` quoted s ob = {i. L (s, i) \<noteq> []}"
    using in_band_level ok(1) by (fastforce simp: quoted_def e)
  have inj: "inj_on level_index (quoted s ob)" by (auto simp: inj_on_def quoted_def level_index_inj)
  show "unat (side_count s ob) = card (quoted s ob)" using ok(2) card_image [OF inj] by (simp add: img)
  show "finite (quoted s ob)" using finite_imageD [OF _ inj] side_ok_finite [OF ladder_invD(4) [OF L]] by (simp add: img)
  have all: "(\<forall>i. L (s, i) = []) \<longleftrightarrow> quoted s ob = {}" using img by blast
  show "side_best s ob = worst s" if "quoted s ob = {}" using ok(3) that by (simp add: best_ok_def all)
  have ne: "in_band (side_best s ob)" "L (s, level_index (side_best s ob)) \<noteq> []"
    "\<And>i. L (s, i) \<noteq> [] \<Longrightarrow> ahead s (level_index (side_best s ob)) i" if "quoted s ob \<noteq> {}"
    using ok(3) that by (auto simp: best_ok_def all)
  then show "side_best s ob \<in> quoted s ob" if "quoted s ob \<noteq> {}" using that by (simp add: quoted_def e)
  show "\<not> better s price (side_best s ob)" if p: "price \<in> quoted s ob"
  proof -
    have "ahead s (level_index (side_best s ob)) (level_index price)" "in_band (side_best s ob)" "in_band price"
      using ne p by (auto simp: quoted_def e)
    then show ?thesis by (cases s) (simp_all add: level_index_le not_less)
  qed
qed

text \<open>Which slots the order map hands out, and where the orders in them hang.\<close>

lemma slots_exact:
  assumes "book_rel ob bk"
  shows "distinct (pool_free (ob_pool ob))" "ran (orders ob) \<inter> set (pool_free (ob_pool ob)) = {}"
    "ran (orders ob) \<union> set (pool_free (ob_pool ob)) = {..<pool_capacity (ob_pool ob)}"
    "in_use (ob_pool ob) = card (dom (orders ob))"
    "orders ob oid = Some p \<Longrightarrow> ord_id (heap ob p) = oid \<and> in_band (ord_price (heap ob p))
       \<and> (\<exists>ps. queue_of (heap ob) (side_levels (ord_side (heap ob p)) ob (level_index (ord_price (heap ob p)))) ps \<and> p \<in> set ps)"
proof -
  obtain L where L: "ladder_inv L ob" "owner_inv (members L) ob" using assms by (auto simp: book_rel_def book_inv_def)
  have o: "orders ob oid = Some p \<longleftrightarrow> p \<in> members L \<and> ord_id (heap ob p) = oid" for oid p
    using L(2) by (simp add: owner_inv_def)
  have ran: "ran (orders ob) = members L" by (auto simp: ran_def o)
  have pool: "pool_inv (members L) (ob_pool ob)" using L(2) by (simp add: owner_inv_def)
  then show "distinct (pool_free (ob_pool ob))" "ran (orders ob) \<inter> set (pool_free (ob_pool ob)) = {}"
    "ran (orders ob) \<union> set (pool_free (ob_pool ob)) = {..<pool_capacity (ob_pool ob)}"
    by (simp_all add: pool_inv_def ran)
  have "bij_betw (\<lambda>p. ord_id (heap ob p)) (members L) (dom (orders ob))"
    by (auto simp: bij_betw_def dom_def o owner_id_inj [OF L(2)] intro: inj_onI)
  then show "in_use (ob_pool ob) = card (dom (orders ob))"
    using in_use_card [OF pool] bij_betw_same_card by metis
  assume "orders ob oid = Some p"
  then have m: "ord_id (heap ob p) = oid" "p \<in> members L" by (simp_all add: o)
  from m(2) obtain s i where q: "p \<in> set (L (s, i))" by (auto simp: members_def)
  then have "ord_side (heap ob p) = s" "in_band (ord_price (heap ob p))" "level_index (ord_price (heap ob p)) = i"
    using ladder_invD(3) [OF L(1)] by (auto simp: placed_def)
  with m(1) q ladder_invD(1) [OF L(1), of s i]
  show "ord_id (heap ob p) = oid \<and> in_band (ord_price (heap ob p))
       \<and> (\<exists>ps. queue_of (heap ob) (side_levels (ord_side (heap ob p)) ob (level_index (ord_price (heap ob p)))) ps \<and> p \<in> set ps)"
    by blast
qed

text \<open>Resting an order outside the band indexes past the end of the ladder.\<close>

lemma rest_out_of_band:
  assumes "\<not> in_band (ord_price ord)"
  shows "rest ctx ord flag ob = None"
proof -
  obtain slot pool where a: "allocate ord (ob_pool ob) = (slot, pool)" by fastforce
  have "ord_price (pool_arena pool p) = ord_price ord" if "slot = Some p" for p
    using a that by (auto simp: allocate_def Let_def split: if_splits)
  then have "rest_link p (ob\<lparr>ob_pool := pool, orders := m\<rparr>) = None" if "slot = Some p" for p m
    using assms that by (intro rest_link_out_of_band) simp
  then show ?thesis using a by (cases slot) (simp_all add: rest_def Let_def)
qed

lemma enter_out_of_band:
  assumes rel: "book_rel ob bk" and ch: "channel_inv (out_ring ob)" and req: "rq_order_type (ctx_req ctx) = LIMIT" "rq_time_in_force (ctx_req ctx) = DAY"
    "\<not> in_band (rq_price (ctx_req ctx))" "rq_quantity (ctx_req ctx) \<noteq> 0"
    and bk: "find_order (rq_order_id (ctx_req ctx)) bk = None" "\<not> book_full bk" "\<not> spec_crosses (rq_side (ctx_req ctx)) LIMIT (rq_price (ctx_req ctx)) bk"
  shows "enter ctx ob = None"
proof -
  obtain L where inv: "book_inv L ob" and ab: "bk = abs_book L ob" using rel by (auto simp: book_rel_def)
  let ?r = "ctx_req ctx"
  define e where "e = zero_event\<lparr> ev_order_id := rq_order_id ?r, ev_client_id := rq_client_id ?r,
    ev_price := rq_price ?r, ev_quantity := rq_quantity ?r, ev_type := ACCEPTED \<rparr>"
  obtain ob1 where e1: "emit ctx e ob = Some ob1" and s: "same_book ob ob1" by (rule emit_refines [OF ch])
  have i1: "book_inv L ob1" "abs_book L ob1 = bk" using same_book_inv [OF s] inv ab by auto
  have m: "match ctx (rq_order_id ?r) (rq_client_id ?r) (rq_side ?r) LIMIT (rq_price ?r) (rq_quantity ?r) ob1 = Some (0, ob1)"
    using match_loop_stop [OF i1(1)] bk(3) i1(2) by (simp add: match_def)
  have "orders ob (rq_order_id ?r) = None" using pool_exact(3) [OF rel, of "rq_order_id ?r"] bk(1) by simp
  moreover have "available (ob_pool ob) \<noteq> 0" using pool_exact(1,2) [OF rel] bk(2) by (auto simp: book_full_def)
  moreover have "rest ctx (mk_Order (rq_order_id ?r) (rq_client_id ?r) (rq_side ?r) (rq_price ?r) (rq_quantity ?r) 0) True ob1 = None"
    by (rule rest_out_of_band) (simp add: mk_Order_def req(3))
  ultimately show ?thesis using e1 m req(1,2,4) by (simp add: enter_def Let_def e_def)
qed

subsection \<open>Fills of a request\<close>

definition may_rest :: "EngineRequest \<Rightarrow> bool" where
  "may_rest req \<longleftrightarrow> rq_order_type req = LIMIT \<and> rq_time_in_force req = DAY"

lemma enter_accepted:
  assumes "find_order (rq_order_id req) bk = None" "\<not> (may_rest req \<and> book_full bk)"
    and f: "f = spec_match_book ts (rq_order_id req) (rq_client_id req) (rq_side req) (rq_order_type req) (rq_price req) (rq_quantity req) bk"
  shows "\<exists>evs. oc_events (spec_enter ts req bk) = zero_event\<lparr> ev_order_id := rq_order_id req, ev_client_id := rq_client_id req,
        ev_price := rq_price req, ev_quantity := rq_quantity req, ev_type := ACCEPTED \<rparr> # fl_events f @ evs
      \<and> (\<forall>e\<in>set evs. ev_type e \<noteq> EXECUTED)"
    "bk_side (oc_book (spec_enter ts req bk)) (opposite (rq_side req)) = fl_rest f"
    "bk_next_match (oc_book (spec_enter ts req bk)) = fl_next f"
  using assms(1,2) unfolding f
  by (auto simp: spec_enter_def may_rest_def Let_def case_prod_unfold spec_remainder_def canceled_event_def
      add_order_def set_side_def after_fills_def)

lemma enter_priority:
  assumes wf: "bk_wf bk" and new: "find_order (rq_order_id req) bk = None" "\<not> (may_rest req \<and> book_full bk)"
  shows "priority_fills (takes (rq_side req) (rq_order_type req) (rq_price req)) (bk_side bk (opposite (rq_side req)))
      (passive_fills (oc_events (spec_enter ts req bk)))"
    "traded (oc_events (spec_enter ts req bk)) \<le> unat (rq_quantity req)"
    "traded (oc_events (spec_enter ts req bk)) < unat (rq_quantity req) \<Longrightarrow>
      x \<in> set (bk_side (oc_book (spec_enter ts req bk)) (opposite (rq_side req))) \<Longrightarrow>
      \<not> takes (rq_side req) (rq_order_type req) (rq_price req) (ro_price x)"
proof -
  let ?s = "rq_side req" let ?ok = "takes ?s (rq_order_type req) (rq_price req)" let ?q = "rq_quantity req"
  let ?xs = "bk_side bk (opposite ?s)"
  define f where "f = spec_match ts (rq_order_id req) (rq_client_id req) ?ok ?q (bk_next_match bk) ?xs"
  have fb: "f = spec_match_book ts (rq_order_id req) (rq_client_id req) ?s (rq_order_type req) (rq_price req) ?q bk"
    by (simp add: f_def spec_match_book_def)
  have side: "side_wf (opposite ?s) ?xs" using wf by (simp add: bk_wf_def)
  note E = enter_accepted [OF new fb]
  obtain evs where evs: "oc_events (spec_enter ts req bk) = zero_event\<lparr> ev_order_id := rq_order_id req, ev_client_id := rq_client_id req,
        ev_price := rq_price req, ev_quantity := ?q, ev_type := ACCEPTED \<rparr> # fl_events f @ evs" "\<forall>e\<in>set evs. ev_type e \<noteq> EXECUTED"
    using E(1) by blast
  have p: "passive_fills (oc_events (spec_enter ts req bk)) = passive_fills (fl_events f)"
    using evs by (simp add: passive_fills_append passive_fills_def filter_empty_conv)
  then have t: "traded (oc_events (spec_enter ts req bk)) = traded (fl_events f)" by (simp add: traded_def)
  have "\<forall>r\<in>set ?xs. ro_open r \<noteq> 0" using side by (simp add: side_wf_def order_ok_def)
  note M = match_priority [OF this, of ?ok ts "rq_order_id req" "rq_client_id req" ?q "bk_next_match bk", folded f_def]
  show "priority_fills ?ok ?xs (passive_fills (oc_events (spec_enter ts req bk)))" using M p by simp
  have le: "fl_filled f \<le> ?q" unfolding f_def by (rule spec_match_filled_le)
  then show "traded (oc_events (spec_enter ts req bk)) \<le> unat ?q" using M t by (simp add: word_le_nat_alt)
  assume "traded (oc_events (spec_enter ts req bk)) < unat ?q"
    and x: "x \<in> set (bk_side (oc_book (spec_enter ts req bk)) (opposite ?s))"
  then have "?q - fl_filled f \<noteq> 0" using M t by auto
  then have "fl_rest f \<noteq> [] \<Longrightarrow> \<not> ?ok (ro_price (hd (fl_rest f)))" using spec_match_stops unfolding f_def by blast
  moreover have "side_wf (opposite ?s) (fl_rest f)" unfolding f_def by (rule spec_match_wf [OF side])
  ultimately show "\<not> ?ok (ro_price x)" using takes_sorted x E(2) by simp
qed

subsection \<open>A cancel in place\<close>

lemma cancel_others:
  "filter (\<lambda>r. ro_id r \<noteq> rq_order_id req) (bk_side (oc_book (spec_cancel ts req bk)) s) = filter (\<lambda>r. ro_id r \<noteq> rq_order_id req) (bk_side bk s)"
proof -
  have red: "filter (\<lambda>r. ro_id r \<noteq> oid) (map (\<lambda>r. if ro_id r = oid then r\<lparr>ro_open := q\<rparr> else r) xs) = filter (\<lambda>r. ro_id r \<noteq> oid) xs" for oid q xs
    by (induction xs) auto
  have "ro_id r = rq_order_id req" if "find_order (rq_order_id req) bk = Some r" for r
    using find_SomeD [OF that [unfolded find_order_def]] by simp
  then show ?thesis
    by (auto simp: spec_cancel_def ignored_def Let_def remove_order_def reduce_order_def red split: option.splits)
qed

lemma cancel_in_place:
  assumes wf: "bk_wf bk" and still: "find_order (rq_order_id req) (oc_book (spec_cancel ts req bk)) \<noteq> None"
  shows "map ro_id (bk_side (oc_book (spec_cancel ts req bk)) s) = map ro_id (bk_side bk s)"
    "map ro_price (bk_side (oc_book (spec_cancel ts req bk)) s) = map ro_price (bk_side bk s)"
    "\<forall>r\<in>set (bk_side (oc_book (spec_cancel ts req bk)) s). \<exists>x\<in>set (bk_side bk s). ro_id x = ro_id r \<and> ro_open r \<le> ro_open x"
proof -
  have "oc_book (spec_cancel ts req bk) = bk \<or> (\<exists>q r. find_order (rq_order_id req) bk = Some r \<and> q \<le> ro_open r
      \<and> oc_book (spec_cancel ts req bk) = reduce_order (rq_order_id req) q bk)"
  proof (cases "find_order (rq_order_id req) bk")
    case (Some r)
    have rid: "ro_id r = rq_order_id req" using find_SomeD [OF Some [unfolded find_order_def]] by simp
    have "oc_book (spec_cancel ts req bk) \<noteq> remove_order (rq_order_id req) bk" using still by (auto simp: find_order_None remove_order_def all_orders_def)
    then have "\<exists>q. q \<le> ro_open r \<and> oc_book (spec_cancel ts req bk) = reduce_order (rq_order_id req) q bk"
      if "\<not> (ro_client r \<noteq> rq_client_id req \<or> open_after (rq_quantity req) (ro_exec r) \<ge> ro_open r)"
      using Some rid that by (intro exI [of _ "open_after (rq_quantity req) (ro_exec r)"]) (auto simp: spec_cancel_def Let_def split: if_splits)
    moreover have "oc_book (spec_cancel ts req bk) = bk"
      if "ro_client r \<noteq> rq_client_id req \<or> open_after (rq_quantity req) (ro_exec r) \<ge> ro_open r"
      using Some that by (simp add: spec_cancel_def ignored_def)
    ultimately show ?thesis using Some by blast
  qed (simp add: spec_cancel_def ignored_def)
  then consider "oc_book (spec_cancel ts req bk) = bk"
    | q r where "find_order (rq_order_id req) bk = Some r" "q \<le> ro_open r" "oc_book (spec_cancel ts req bk) = reduce_order (rq_order_id req) q bk" by blast
  note c = this
  show "map ro_id (bk_side (oc_book (spec_cancel ts req bk)) s) = map ro_id (bk_side bk s)"
    "map ro_price (bk_side (oc_book (spec_cancel ts req bk)) s) = map ro_price (bk_side bk s)"
    by (rule c; simp add: reduce_order_def)+
  show "\<forall>r\<in>set (bk_side (oc_book (spec_cancel ts req bk)) s). \<exists>x\<in>set (bk_side bk s). ro_id x = ro_id r \<and> ro_open r \<le> ro_open x"
  proof (rule c)
    fix q r assume r: "find_order (rq_order_id req) bk = Some r" "q \<le> ro_open r"
      and o: "oc_book (spec_cancel ts req bk) = reduce_order (rq_order_id req) q bk"
    have "q \<le> ro_open x" if "x \<in> set (bk_side bk s)" "ro_id x = rq_order_id req" for x
      using find_order_unique [OF _ r(1) that] wf r(2) by (simp add: bk_wf_def)
    then show ?thesis unfolding o by (force simp: reduce_order_def)
  qed auto
qed

end
