(* ===== verification/Book_Props.thy ===== *)
theory Book_Props
  imports Book_Requests
begin

text \<open>
  The properties of the order book and of the matching thread. They are about \<open>process\<close> on reachable books;
  \<open>book_rel ob bk\<close> says that the pointers, ladders and maps of \<open>ob\<close> hold exactly the two ranked
  lists of \<open>bk\<close>. The properties that have hypotheses are applied to a small book, built by
  running the code from a new one.
\<close>

subsection \<open>A small book\<close>

definition demo_ask :: EngineRequest where
  "demo_ask = \<lparr> rq_read_begin_tsc = 1, rq_recv_tsc = 2, rq_server_push_tsc = 3, rq_order_id = 11, rq_new_order_id = 0,
     rq_client_id = 7, rq_price = 500, rq_quantity = 10, rq_type = NEW, rq_side = ASK, rq_order_type = LIMIT,
     rq_time_in_force = DAY \<rparr>"

definition demo_bid :: EngineRequest where
  "demo_bid = demo_ask\<lparr> rq_order_id := 12, rq_client_id := 8, rq_price := 400, rq_side := BID \<rparr>"

definition demo_take :: EngineRequest where
  "demo_take = demo_ask\<lparr> rq_order_id := 13, rq_client_id := 9, rq_price := 600, rq_quantity := 15, rq_side := BID \<rparr>"

definition demo_reduce :: EngineRequest where
  "demo_reduce = demo_ask\<lparr> rq_type := CANCEL, rq_quantity := 4 \<rparr>"

definition demo_resting :: "EngineRequest \<Rightarrow> RestingOrder" where
  "demo_resting req = \<lparr> ro_id = rq_order_id req, ro_client = rq_client_id req, ro_side = rq_side req,
     ro_price = rq_price req, ro_open = rq_quantity req, ro_exec = 0 \<rparr>"

definition demo_book :: Book where
  "demo_book = \<lparr> bk_side = (\<lambda>s. [demo_resting (if s = BID then demo_bid else demo_ask)]), bk_capacity = 4, bk_next_match = 1 \<rparr>"

definition demo_start :: Orderbook where
  "demo_start = new_Orderbook 4 (new_Channel 8 zero_event (\<lambda>_. 1)) (new_RingBuffer 8 ItchNone)
     \<lparr> anchor_tsc = 0, anchor_ns_since_midnight = 0, ns_per_tick_q32 = 4294967296 \<rparr> (\<lambda>k. of_nat k)"

lemmas demo_defs = demo_ask_def demo_bid_def demo_take_def demo_reduce_def demo_resting_def demo_book_def

lemma demo_start_ok: "book_reachable demo_start" "rb_inv (market_data_ring demo_start)" "rb_limit (market_data_ring demo_start) = 7"
  "rb_contents (market_data_ring demo_start) = []" "book_rel demo_start (empty_book 4)"
proof -
  have "channel_inv (new_Channel 8 zero_event (\<lambda>_. 1))" by (rule new_Channel_inv [where k = 3]) auto
  then show "book_reachable demo_start" unfolding demo_start_def by (rule book_reachable.start)
  show "rb_inv (market_data_ring demo_start)" "rb_limit (market_data_ring demo_start) = 7" "rb_contents (market_data_ring demo_start) = []"
    using new_RingBuffer_inv [of "8::u32" 3 ItchNone] by (simp_all add: demo_start_def new_Orderbook_def)
  show "book_rel demo_start (empty_book 4)" unfolding demo_start_def by (rule new_book_rel)
qed

lemma demo_ok [simp]: "req_ok demo_ask" "req_ok demo_bid" "req_ok demo_take" "req_ok demo_reduce"
  by (simp_all add: demo_defs req_ok_def in_band_def price_band_defs)

lemma demo_run:
  assumes "book_reachable ob" "book_rel ob bk" "req_ok req"
  obtains ob' where "process req tsc ob = Some (oc_done (spec_process (ns_since_midnight (ob_clock ob) tsc) req bk), ob')"
    "book_reachable ob'" "book_rel ob' (oc_book (spec_process (ns_since_midnight (ob_clock ob) tsc) req bk))"
proof -
  from process_ready [OF reachable_rel_ready [OF assms(1,2)] assms(3) refl, of tsc] obtain ob' where
    p: "process req tsc ob = Some (oc_done (spec_process (ns_since_midnight (ob_clock ob) tsc) req bk), ob')"
    "book_ready ob' (oc_book (spec_process (ns_since_midnight (ob_clock ob) tsc) req bk))" by metis
  show thesis
    by (rule that [OF p(1)]) (use p book_reachable.request [OF assms(1,3) p(1)] in \<open>simp_all add: book_ready_def\<close>)
qed

lemmas contract_simps = empty_book_def spec_process_def spec_enter_def spec_cancel_def ignored_def find_order_def all_orders_def
  book_full_def spec_match_book_def spec_remainder_def after_fills_def set_side_def add_order_def insert_order_def takes_def
  reduce_order_def remove_order_def open_after_def Let_def

lemma demo_steps:
  "oc_book (spec_process ts demo_bid (oc_book (spec_process ts' demo_ask (empty_book 4)))) = demo_book"
proof (rule book_eqI)
  fix s
  show "bk_side (oc_book (spec_process ts demo_bid (oc_book (spec_process ts' demo_ask (empty_book 4))))) s = bk_side demo_book s"
    by (cases s) (simp_all add: demo_defs contract_simps)
qed (simp_all add: demo_defs contract_simps)

lemma demo_reached: obtains ob where "book_reachable ob" "book_rel ob demo_book"
proof -
  obtain ob1 where 1: "book_reachable ob1" "book_rel ob1 (oc_book (spec_process (ns_since_midnight (ob_clock demo_start) 0) demo_ask (empty_book 4)))"
    by (rule demo_run [OF demo_start_ok(1,5) demo_ok(1), of 0])
  obtain ob2 where "book_reachable ob2" "book_rel ob2 demo_book"
    by (rule demo_run [OF 1 demo_ok(2), of 0]) (simp add: demo_steps)
  then show thesis by (rule that)
qed

subsection \<open>The book implements its contract\<close>

text \<open>
  C1. On every reachable book, \<open>process\<close> returns for every request the gateway can send (no null pointer,
  no ladder access out of range, no endless loop) and does what the contract says: it ends in a state
  that stands for the contract's book, with the contract's answer, having sent the contract's events
  and published the contract's messages in order.
\<close>

theorem process_implements_contract:
  assumes "book_reachable ob" "req_ok req"
  shows "\<exists>bk. book_rel ob bk \<and> implements (request_context req tsc ob) (process req tsc ob)
    (spec_process (ns_since_midnight (ob_clock ob) tsc) req bk) (ob\<lparr>answered := False\<rparr>)"
proof -
  obtain bk where "book_ready ob bk" using reachable_ready [OF assms(1)] by blast
  then show ?thesis using process_refines assms(2) by (auto simp: book_ready_def)
qed

theorem process_implements_contract_witness:
  "book_reachable demo_start \<and> req_ok demo_ask \<and> (\<exists>bk. book_rel demo_start bk
     \<and> implements (request_context demo_ask 5 demo_start) (process demo_ask 5 demo_start)
         (spec_process (ns_since_midnight (ob_clock demo_start) 5) demo_ask bk) (demo_start\<lparr>answered := False\<rparr>))"
  using process_implements_contract [OF demo_start_ok(1) demo_ok(1), of 5] demo_start_ok(1) by simp

text \<open>
  C2. The book is never crossed: whenever both sides of a reachable book have orders, the best bid is below
  the best ask.
\<close>

theorem book_never_crossed:
  assumes "book_reachable ob" "non_empty_bid_levels ob \<noteq> 0" "non_empty_ask_levels ob \<noteq> 0"
  shows "best_bid_price ob < best_ask_price ob"
proof -
  obtain bk where r: "book_rel ob bk" "bk_wf bk" using reachable_ready [OF assms(1)] by (auto simp: book_ready_def)
  have ne: "bk_side bk BID \<noteq> []" "bk_side bk ASK \<noteq> []" using best_exact(1) [OF r(1)] assms(2,3) by (metis side_count.simps)+
  have "\<not> takes BID LIMIT (ro_price (hd (bk_side bk BID))) (ro_price (hd (bk_side bk ASK)))"
    using r(2) ne unfolding bk_wf_def uncrossed_def by (metis hd_in_set opposite.simps(1))
  then show ?thesis using best_exact(2) [OF r(1) ne(1)] best_exact(2) [OF r(1) ne(2)] by (simp add: takes_def not_le)
qed

theorem book_never_crossed_witness:
  "\<exists>ob. book_reachable ob \<and> non_empty_bid_levels ob \<noteq> 0 \<and> non_empty_ask_levels ob \<noteq> 0 \<and> best_bid_price ob < best_ask_price ob"
proof -
  obtain ob where ob: "book_reachable ob" "book_rel ob demo_book" by (rule demo_reached)
  have "non_empty_bid_levels ob \<noteq> 0" "non_empty_ask_levels ob \<noteq> 0"
    using best_exact(1) [OF ob(2), of BID] best_exact(1) [OF ob(2), of ASK] by (simp_all add: demo_book_def)
  then show ?thesis using book_never_crossed [OF ob(1)] ob(1) by blast
qed

text \<open>
  C21. The cached best prices and level counts are exact. On every reachable book the counter of non-empty levels of
  a side is the number of prices at which the ladder's queue is not empty; the cached best price is then
  the highest of them for bids and the lowest for asks, and it is the end of the band when there is none.
\<close>

theorem best_prices_exact:
  assumes "book_reachable ob"
  shows "unat (non_empty_bid_levels ob) = card {price. in_band price \<and> \<not> plq_empty (bids ob (level_index price))}
    \<and> unat (non_empty_ask_levels ob) = card {price. in_band price \<and> \<not> plq_empty (asks ob (level_index price))}
    \<and> best_bid_price ob = (if non_empty_bid_levels ob = 0 then MIN_PRICE
         else Max {price. in_band price \<and> \<not> plq_empty (bids ob (level_index price))})
    \<and> best_ask_price ob = (if non_empty_ask_levels ob = 0 then MAX_PRICE
         else Min {price. in_band price \<and> \<not> plq_empty (asks ob (level_index price))})"
proof -
  obtain bk where r: "book_rel ob bk" using reachable_ready [OF assms] by (auto simp: book_ready_def)
  have zero: "side_count s ob = 0 \<longleftrightarrow> quoted s ob = {}" for s
    using quoted_exact(1,2) [OF r, of s] by (auto simp: unat_eq_0 [symmetric])
  have bid: "best_bid_price ob = Max (quoted BID ob)" if "quoted BID ob \<noteq> {}"
    using quoted_exact(2,4,5) [OF r, where s = BID] that by (intro Max_eqI [symmetric]) (auto simp: not_less)
  have ask: "best_ask_price ob = Min (quoted ASK ob)" if "quoted ASK ob \<noteq> {}"
    using quoted_exact(2,4,5) [OF r, where s = ASK] that by (intro Min_eqI [symmetric]) (auto simp: not_less)
  show ?thesis
    using bid ask zero [of BID] zero [of ASK] quoted_exact(1,3) [OF r, of BID] quoted_exact(1,3) [OF r, of ASK]
    by (simp add: quoted_def)
qed

theorem best_prices_exact_witness:
  "\<exists>ob. book_reachable ob \<and> non_empty_bid_levels ob \<noteq> 0 \<and> best_bid_price ob = 400
    \<and> Max {price. in_band price \<and> \<not> plq_empty (bids ob (level_index price))} = 400"
proof -
  obtain ob where ob: "book_reachable ob" "book_rel ob demo_book" by (rule demo_reached)
  have b: "non_empty_bid_levels ob \<noteq> 0" "best_bid_price ob = 400"
    using best_exact [OF ob(2), of BID] by (simp_all add: demo_defs)
  then have "Max {price. in_band price \<and> \<not> plq_empty (bids ob (level_index price))} = 400"
    using best_prices_exact [OF ob(1)] by simp
  then show ?thesis using ob(1) b by blast
qed

subsection \<open>Trading\<close>

text \<open>
  C3. Price-time priority: the executions of a new order go to the resting orders of the opposite side in
  their priority order, none is passed over, every one but the last is filled completely, all are at
  acceptable prices, and no more than the order's quantity trades. When less trades, no order with an
  acceptable price is left.
\<close>

theorem price_time_priority:
  assumes "book_reachable ob" "book_rel ob bk" "req_ok req" "rq_type req = NEW"
    and "find_order (rq_order_id req) bk = None" "\<not> (may_rest req \<and> book_full bk)"
    and "process req tsc ob = Some (handled, ob')" "book_rel ob' bk'"
  shows "priority_fills (takes (rq_side req) (rq_order_type req) (rq_price req)) (bk_side bk (opposite (rq_side req)))
      (passive_fills (new_events ob ob'))
    \<and> traded (new_events ob ob') \<le> unat (rq_quantity req)
    \<and> (traded (new_events ob ob') < unat (rq_quantity req) \<longrightarrow>
        (\<forall>x\<in>set (bk_side bk' (opposite (rq_side req))). \<not> takes (rq_side req) (rq_order_type req) (rq_price req) (ro_price x)))"
proof -
  let ?ts = "ns_since_midnight (ob_clock ob) tsc"
  note P = process_outcome [OF assms(1-3,7) refl]
  have e: "spec_process ?ts req bk = spec_enter ?ts req bk" using assms(4) by (simp add: spec_process_def)
  have bk': "bk' = oc_book (spec_enter ?ts req bk)" using process_book [OF assms(1-3,7,8)] e by simp
  have "passive_fills (new_events ob ob') = passive_fills (oc_events (spec_enter ?ts req bk))"
    "traded (new_events ob ob') = traded (oc_events (spec_enter ?ts req bk))"
    using P(4) e by (simp_all add: traded_def)
  then show ?thesis using enter_priority [OF P(3) assms(5,6), of ?ts] bk' by simp
qed

theorem price_time_priority_witness:
  "\<exists>ob ob'. book_reachable ob \<and> book_rel ob demo_book \<and> process demo_take 5 ob = Some (True, ob')
     \<and> priority_fills (takes BID LIMIT 600) [demo_resting demo_ask] (passive_fills (new_events ob ob'))
     \<and> traded (new_events ob ob') \<le> 15"
proof -
  obtain ob where ob: "book_reachable ob" "book_rel ob demo_book" by (rule demo_reached)
  let ?o = "spec_process (ns_since_midnight (ob_clock ob) 5) demo_take demo_book"
  obtain ob' where ob': "process demo_take 5 ob = Some (oc_done ?o, ob')" "book_rel ob' (oc_book ?o)" by (rule demo_run [OF ob demo_ok(3)])
  have "oc_done ?o" by (simp add: demo_defs contract_simps case_prod_unfold)
  moreover have "rq_type demo_take = NEW" "find_order (rq_order_id demo_take) demo_book = None" "\<not> (may_rest demo_take \<and> book_full demo_book)"
    by (simp_all add: demo_defs contract_simps)
  ultimately show ?thesis
    using price_time_priority [OF ob demo_ok(3) _ _ _ ob'] ob ob' by (auto simp: demo_defs)
qed

text \<open>
  C4. Shares are conserved: over a new order or a cancel, the shares resting before plus those accepted equal
  the shares resting after plus those reported executed and canceled (an execution is reported once to
  each of its two parties).
\<close>

theorem shares_conserved:
  assumes "book_reachable ob" "book_rel ob bk" "req_ok req" "rq_type req = NEW \<or> rq_type req = CANCEL"
    and "process req tsc ob = Some (handled, ob')" "book_rel ob' bk'"
  shows "shares bk + event_shares ACCEPTED (new_events ob ob') =
    shares bk' + event_shares EXECUTED (new_events ob ob') + event_shares CANCELED (new_events ob ob')"
  using process_outcome(3,4) [OF assms(1-3,5) refl] process_book [OF assms(1-3,5,6)] assms(4) enter_conserves cancel_conserves
  by (auto simp: spec_process_def event_shares_stamped)

theorem shares_conserved_witness:
  "\<exists>ob ob' bk'. book_reachable ob \<and> book_rel ob demo_book \<and> process demo_take 5 ob = Some (True, ob') \<and> book_rel ob' bk'
     \<and> shares demo_book + event_shares ACCEPTED (new_events ob ob') =
         shares bk' + event_shares EXECUTED (new_events ob ob') + event_shares CANCELED (new_events ob ob')"
proof -
  obtain ob where ob: "book_reachable ob" "book_rel ob demo_book" by (rule demo_reached)
  let ?o = "spec_process (ns_since_midnight (ob_clock ob) 5) demo_take demo_book"
  obtain ob' where ob': "process demo_take 5 ob = Some (oc_done ?o, ob')" "book_rel ob' (oc_book ?o)" by (rule demo_run [OF ob demo_ok(3)])
  have "oc_done ?o" by (simp add: demo_defs contract_simps case_prod_unfold)
  moreover have "rq_type demo_take = NEW" by (simp add: demo_defs)
  ultimately show ?thesis using shares_conserved [OF ob demo_ok(3) _ ob'] ob ob' by auto
qed

text \<open>
  C5. The market data feed describes the book: with room for them in the ring, the messages published for a request,
  applied in order to the displayed orders before it, give the displayed orders after it, and none is dropped.
\<close>

theorem feed_replays_book:
  assumes "book_reachable ob" "book_rel ob bk" "req_ok req" "process req tsc ob = Some (handled, ob')" "book_rel ob' bk'"
    and "rb_inv (market_data_ring ob)"
      "length (rb_contents (market_data_ring ob)) + length (all_orders bk) + 2 \<le> rb_limit (market_data_ring ob)"
  shows "fold itch_apply (new_msgs ob ob') (public bk) = public bk' \<and> market_data_drops ob' = market_data_drops ob"
proof -
  let ?o = "spec_process (ns_since_midnight (ob_clock ob) tsc) req bk"
  note P = process_outcome [OF assms(1-4) refl]
  have "length (rb_contents (market_data_ring ob)) + length (oc_msgs ?o) \<le> rb_limit (market_data_ring ob)"
    using assms(7) length_msgs [of "ns_since_midnight (ob_clock ob) tsc" req bk] by linarith
  from publish_all [OF assms(6) this, of "market_data_drops ob"] P(5)
  have "new_msgs ob ob' = oc_msgs ?o" "market_data_drops ob' = market_data_drops ob" by (auto simp: new_msgs_def)
  then show ?thesis using replay_process [OF P(3) assms(3)] process_book [OF assms(1-5)] by simp
qed

theorem feed_replays_book_witness:
  "\<exists>ob' bk'. process demo_ask 5 demo_start = Some (True, ob') \<and> book_rel ob' bk'
     \<and> fold itch_apply (new_msgs demo_start ob') (public (empty_book 4)) = public bk'"
proof -
  let ?o = "spec_process (ns_since_midnight (ob_clock demo_start) 5) demo_ask (empty_book 4)"
  obtain ob' where ob': "process demo_ask 5 demo_start = Some (oc_done ?o, ob')" "book_rel ob' (oc_book ?o)"
    by (rule demo_run [OF demo_start_ok(1,5) demo_ok(1)])
  have "length (rb_contents (market_data_ring demo_start)) + length (all_orders (empty_book 4)) + 2 \<le> rb_limit (market_data_ring demo_start)"
    using demo_start_ok(3,4) by (simp add: all_orders_def empty_book_def)
  from feed_replays_book [OF demo_start_ok(1,5) demo_ok(1) ob' demo_start_ok(2) this]
  show ?thesis using ob' by (auto simp: demo_defs contract_simps)
qed

text \<open>
  C28. Whatever a request publishes, dropped or not, every message that reaches the ring is one the ITCH codec
  encodes without loss.
\<close>

theorem feed_well_formed:
  assumes "book_reachable ob" "req_ok req" "process req tsc ob = Some (handled, ob')"
    and "rb_inv (market_data_ring ob)" "\<forall>m\<in>set (rb_contents (market_data_ring ob)). wf_itch m"
  shows "\<forall>m\<in>set (rb_contents (market_data_ring ob')). wf_itch m"
proof -
  obtain bk where rel: "book_rel ob bk" using reachable_ready [OF assms(1)] by (auto simp: book_ready_def)
  note P = process_outcome [OF assms(1) rel assms(2,3) refl]
  show ?thesis using publish_some [OF assms(4) P(5) [symmetric]] process_msgs_wf [OF ns_since_midnight_48] assms(5) by blast
qed

theorem feed_well_formed_witness:
  "\<exists>ob'. process demo_ask 5 demo_start = Some (True, ob') \<and> (\<forall>m\<in>set (rb_contents (market_data_ring ob')). wf_itch m)"
proof -
  let ?o = "spec_process (ns_since_midnight (ob_clock demo_start) 5) demo_ask (empty_book 4)"
  obtain ob' where ob': "process demo_ask 5 demo_start = Some (oc_done ?o, ob')" by (rule demo_run [OF demo_start_ok(1,5) demo_ok(1)])
  have "\<forall>m\<in>set (rb_contents (market_data_ring demo_start)). wf_itch m" using demo_start_ok(4) by simp
  from feed_well_formed [OF demo_start_ok(1) demo_ok(1) ob' demo_start_ok(2) this]
  show ?thesis using ob' by (auto simp: demo_defs contract_simps)
qed

subsection \<open>Entering, canceling, replacing\<close>

text \<open>
  C24. An order that may not rest (a market order, one that is immediate-or-cancel, or an immediate-or-cancel
  replacement of a resting order) never does: after it, only orders that rested before it rest.
\<close>

theorem immediate_never_rests:
  assumes "book_reachable ob" "book_rel ob bk"
    and "rq_type req = NEW \<and> \<not> may_rest req \<or> rq_type req = REPLACE \<and> rq_time_in_force req \<noteq> DAY"
    and "process req tsc ob = Some (handled, ob')" "book_rel ob' bk'"
  shows "\<forall>s. ro_id ` set (bk_side bk' s) \<subseteq> ro_id ` set (bk_side bk s)"
proof -
  have ok: "req_ok req" using assms(3) by (auto simp: req_ok_def may_rest_def)
  have wf: "bk_wf bk" by (rule process_outcome(3) [OF assms(1,2) ok assms(4) refl])
  have "ids_within (oc_book (spec_process ts req bk)) bk" for ts
    using enter_entered(2) [OF wf, of req ts] replace_entered(2) [OF wf, of req ts] assms(3)
    by (auto simp: may_rest_def spec_process_def)
  then show ?thesis using process_book [OF assms(1,2) ok assms(4,5)] by (simp add: ids_within_def)
qed

theorem immediate_never_rests_witness:
  "\<exists>ob ob' bk'. book_reachable ob \<and> book_rel ob demo_book
     \<and> process (demo_bid\<lparr>rq_type := REPLACE, rq_new_order_id := 14, rq_time_in_force := IOC\<rparr>) 5 ob = Some (True, ob')
     \<and> book_rel ob' bk' \<and> (\<forall>s. ro_id ` set (bk_side bk' s) \<subseteq> ro_id ` set (bk_side demo_book s))"
proof -
  obtain ob where ob: "book_reachable ob" "book_rel ob demo_book" by (rule demo_reached)
  let ?r = "demo_bid\<lparr>rq_type := REPLACE, rq_new_order_id := 14, rq_time_in_force := IOC\<rparr>"
  have r: "req_ok ?r" "rq_type ?r = NEW \<and> \<not> may_rest ?r \<or> rq_type ?r = REPLACE \<and> rq_time_in_force ?r \<noteq> DAY"
    by (simp_all add: req_ok_def demo_defs)
  let ?o = "spec_process (ns_since_midnight (ob_clock ob) 5) ?r demo_book"
  obtain ob' where ob': "process ?r 5 ob = Some (oc_done ?o, ob')" "book_rel ob' (oc_book ?o)" by (rule demo_run [OF ob r(1)])
  have "oc_done ?o = True" by (simp add: demo_defs contract_simps spec_replace_def case_prod_unfold)
  with immediate_never_rests [OF ob r(2) ob'] ob ob' show ?thesis by auto
qed

text \<open>
  C25. A client can neither cancel nor replace another client's order: such a request returns false,
  sends nothing and leaves the book as it is.
\<close>

theorem foreign_request_ignored:
  assumes "book_reachable ob" "book_rel ob bk" "rq_type req \<noteq> NEW" "find_order (rq_order_id req) bk = Some r" "ro_client r \<noteq> rq_client_id req"
  shows "process req tsc ob = Some (False, ob\<lparr>answered := False\<rparr>)"
proof -
  obtain p where "orders ob (rq_order_id req) = Some p" "r = view (heap ob p)"
    using pool_exact(3) [OF assms(2), of "rq_order_id req"] assms(4) by (cases "orders ob (rq_order_id req)") auto
  then show ?thesis using assms(3,5) by (cases "rq_type req") (simp_all add: process_def cancel_def replace_def Let_def)
qed

theorem foreign_request_ignored_witness:
  "\<exists>ob. book_reachable ob \<and> book_rel ob demo_book \<and> find_order (rq_order_id (demo_reduce\<lparr>rq_client_id := 66\<rparr>)) demo_book = Some (demo_resting demo_ask)
     \<and> process (demo_reduce\<lparr>rq_client_id := 66\<rparr>) 5 ob = Some (False, ob\<lparr>answered := False\<rparr>)"
proof -
  obtain ob where ob: "book_reachable ob" "book_rel ob demo_book" by (rule demo_reached)
  have "rq_type (demo_reduce\<lparr>rq_client_id := 66\<rparr>) \<noteq> NEW"
    "find_order (rq_order_id (demo_reduce\<lparr>rq_client_id := 66\<rparr>)) demo_book = Some (demo_resting demo_ask)"
    "ro_client (demo_resting demo_ask) \<noteq> rq_client_id (demo_reduce\<lparr>rq_client_id := 66\<rparr>)"
    by (simp_all add: demo_defs contract_simps)
  with foreign_request_ignored [OF ob this, of 5] ob show ?thesis by blast
qed

text \<open>
  C23. A cancel leaves every other order untouched and in its place. When it leaves the order itself on the
  book, no order changes its position or price, and none has more shares than before.
\<close>

theorem cancel_keeps_priority:
  assumes "book_reachable ob" "book_rel ob bk" "rq_type req = CANCEL" "process req tsc ob = Some (handled, ob')" "book_rel ob' bk'"
  shows "filter (\<lambda>r. ro_id r \<noteq> rq_order_id req) (bk_side bk' s) = filter (\<lambda>r. ro_id r \<noteq> rq_order_id req) (bk_side bk s)
    \<and> (find_order (rq_order_id req) bk' \<noteq> None \<longrightarrow>
        map ro_id (bk_side bk' s) = map ro_id (bk_side bk s) \<and> map ro_price (bk_side bk' s) = map ro_price (bk_side bk s)
        \<and> (\<forall>r\<in>set (bk_side bk' s). \<exists>x\<in>set (bk_side bk s). ro_id x = ro_id r \<and> ro_open r \<le> ro_open x))"
proof -
  have ok: "req_ok req" using assms(3) by (simp add: req_ok_def)
  have "bk_wf bk" by (rule process_outcome(3) [OF assms(1,2) ok assms(4) refl])
  then show ?thesis
    using process_book [OF assms(1,2) ok assms(4,5)] assms(3) cancel_others cancel_in_place by (simp add: spec_process_def)
qed

theorem cancel_keeps_priority_witness:
  "\<exists>ob ob' bk'. book_reachable ob \<and> book_rel ob demo_book \<and> process demo_reduce 5 ob = Some (True, ob') \<and> book_rel ob' bk'
     \<and> find_order 11 bk' \<noteq> None \<and> map ro_id (bk_side bk' ASK) = [11]"
proof -
  obtain ob where ob: "book_reachable ob" "book_rel ob demo_book" by (rule demo_reached)
  let ?o = "spec_process (ns_since_midnight (ob_clock ob) 5) demo_reduce demo_book"
  obtain ob' where ob': "process demo_reduce 5 ob = Some (oc_done ?o, ob')" "book_rel ob' (oc_book ?o)" by (rule demo_run [OF ob demo_ok(4)])
  have "oc_done ?o" "find_order 11 (oc_book ?o) \<noteq> None" "rq_type demo_reduce = CANCEL" "rq_order_id demo_reduce = 11"
    "map ro_id (bk_side demo_book ASK) = [11]"
    by (simp_all add: demo_defs contract_simps case_prod_unfold)
  with cancel_keeps_priority [OF ob this(3) ob', of ASK] ob ob' show ?thesis by (intro exI [of _ ob] exI [of _ ob'] exI [of _ "oc_book ?o"]) simp
qed

text \<open>
  C22. An order that a request puts on the book (a new order, or a replacement, which loses its place) goes
  behind every order of its side at its price or a better one, and before every worse one.
\<close>

theorem newcomer_queues_last:
  assumes "book_reachable ob" "book_rel ob bk" "req_ok req" "process req tsc ob = Some (handled, ob')" "book_rel ob' bk'"
    and "oid = (if rq_type req = REPLACE then rq_new_order_id req else rq_order_id req)"
    and "find_order oid bk = None" "find_order oid bk' = Some r"
  shows "last_at_price oid (ro_side r) (bk_side bk' (ro_side r))"
proof -
  let ?ts = "ns_since_midnight (ob_clock ob) tsc"
  have wf: "bk_wf bk" by (rule process_outcome(3) [OF assms(1-4) refl])
  have bk': "bk' = oc_book (spec_process ?ts req bk)" by (rule process_book [OF assms(1-5)])
  have wf': "bk_wf bk'" unfolding bk' by (rule spec_process_wf [OF wf assms(3)])
  have "entered oid bk bk'"
  proof (cases "rq_type req")
    case CANCEL
    have "ids_within (oc_book (spec_cancel ?ts req bk)) bk" by (simp add: spec_cancel_def ignored_def Let_def split: option.splits)
    then show ?thesis using CANCEL by (simp add: bk' spec_process_def)
  qed (use enter_entered(1) [OF wf] replace_entered [OF wf] assms(6) in \<open>simp_all add: bk' spec_process_def\<close>)
  from entered_last [OF this wf' assms(7,8)] show ?thesis .
qed

theorem newcomer_queues_last_witness:
  "\<exists>ob ob' bk'. book_reachable ob \<and> book_rel ob demo_book \<and> process (demo_ask\<lparr>rq_order_id := 20\<rparr>) 5 ob = Some (True, ob') \<and> book_rel ob' bk'
     \<and> length (bk_side bk' ASK) = 2 \<and> last_at_price 20 ASK (bk_side bk' ASK)"
proof -
  obtain ob where ob: "book_reachable ob" "book_rel ob demo_book" by (rule demo_reached)
  let ?r = "demo_ask\<lparr>rq_order_id := 20\<rparr>"
  have r: "req_ok ?r" by (simp add: demo_defs req_ok_def in_band_def price_band_defs)
  let ?o = "spec_process (ns_since_midnight (ob_clock ob) 5) ?r demo_book"
  obtain ob' where ob': "process ?r 5 ob = Some (oc_done ?o, ob')" "book_rel ob' (oc_book ?o)" by (rule demo_run [OF ob r])
  have f: "(20 :: OrderId) = (if rq_type ?r = REPLACE then rq_new_order_id ?r else rq_order_id ?r)" "find_order 20 demo_book = None"
    "find_order 20 (oc_book ?o) = Some ((demo_resting demo_ask)\<lparr>ro_id := 20\<rparr>)"
    and "oc_done ?o" "length (bk_side (oc_book ?o) ASK) = 2" "ro_side ((demo_resting demo_ask)\<lparr>ro_id := 20\<rparr>) = ASK"
    by (simp_all add: demo_defs contract_simps case_prod_unfold)
  with newcomer_queues_last [OF ob r ob' f] ob ob' show ?thesis by (intro exI [of _ ob] exI [of _ ob'] exI [of _ "oc_book ?o"]) simp
qed

text \<open>
  C26. A request is answered once: it is handled exactly when it produces events, its first event and no other carries
  the answer mark, and that event goes to the client who sent the request.
\<close>

theorem answered_once:
  assumes "book_reachable ob" "req_ok req" "process req tsc ob = Some (handled, ob')"
  shows "(handled \<longleftrightarrow> new_events ob ob' \<noteq> [])
    \<and> map ev_answers_request (new_events ob ob') = (if handled then True # replicate (length (new_events ob ob') - 1) False else [])
    \<and> (handled \<longrightarrow> ev_client_id (hd (new_events ob ob')) = rq_client_id req)"
proof -
  obtain bk where rel: "book_rel ob bk" using reachable_ready [OF assms(1)] by (auto simp: book_ready_def)
  define evs where "evs = oc_events (spec_process (ns_since_midnight (ob_clock ob) tsc) req bk)"
  note P = process_outcome [OF assms(1) rel assms(2,3) refl, folded evs_def]
  have a: "handled \<longleftrightarrow> evs \<noteq> []" "handled \<Longrightarrow> ev_client_id (hd evs) = rq_client_id req"
    using process_answer P(1) unfolding evs_def by blast+
  then show ?thesis unfolding P(4) answers_stamped by (cases evs) (simp_all add: stamp_def)
qed

theorem answered_once_witness:
  "\<exists>ob ob'. book_reachable ob \<and> process demo_take 5 ob = Some (True, ob') \<and> ev_client_id (hd (new_events ob ob')) = 9"
proof -
  obtain ob where ob: "book_reachable ob" "book_rel ob demo_book" by (rule demo_reached)
  let ?o = "spec_process (ns_since_midnight (ob_clock ob) 5) demo_take demo_book"
  obtain ob' where ob': "process demo_take 5 ob = Some (oc_done ?o, ob')" by (rule demo_run [OF ob demo_ok(3)])
  have "oc_done ?o = True" "rq_client_id demo_take = 9" by (simp_all add: demo_defs contract_simps case_prod_unfold)
  with answered_once [OF ob(1) demo_ok(3) ob'] ob ob' show ?thesis by auto
qed

text \<open>
  C30. The book relies on the gateway's price check: a limit day order outside the price band that does not match has
  no ladder level, and \<open>process\<close> on it indexes the ladder out of range.
\<close>

theorem out_of_band_is_undefined:
  assumes "book_reachable ob" "book_rel ob bk" "rq_type req = NEW" "may_rest req" "\<not> in_band (rq_price req)" "rq_quantity req \<noteq> 0"
    and "find_order (rq_order_id req) bk = None" "\<not> book_full bk" "\<not> spec_crosses (rq_side req) LIMIT (rq_price req) bk"
  shows "process req tsc ob = None"
proof -
  have "book_ready ob bk" by (rule reachable_rel_ready [OF assms(1,2)])
  moreover have "same_book ob (ob\<lparr>answered := False\<rparr>)" by (simp add: same_book_def)
  ultimately have "book_rel (ob\<lparr>answered := False\<rparr>) bk" "channel_inv (out_ring (ob\<lparr>answered := False\<rparr>))"
    using same_book_inv by (fastforce simp: book_ready_def book_rel_def)+
  from enter_out_of_band [OF this, of "request_context req tsc ob"] assms(3-9)
  show ?thesis by (simp add: process_def request_context_def may_rest_def)
qed

theorem out_of_band_is_undefined_witness: "process (demo_ask\<lparr>rq_price := 100001\<rparr>) 5 demo_start = None"
proof -
  let ?r = "demo_ask\<lparr>rq_price := 100001\<rparr>"
  have "rq_type ?r = NEW" "may_rest ?r" "\<not> in_band (rq_price ?r)" "rq_quantity ?r \<noteq> 0"
    "find_order (rq_order_id ?r) (empty_book 4) = None" "\<not> book_full (empty_book 4)"
    "\<not> spec_crosses (rq_side ?r) LIMIT (rq_price ?r) (empty_book 4)"
    by (simp_all add: demo_defs may_rest_def in_band_def price_band_defs contract_simps spec_crosses_def)
  from out_of_band_is_undefined [OF demo_start_ok(1,5) this] show ?thesis .
qed

text \<open>
  C27. The pool neither leaks nor double-books. On every reachable book the free list has no slot twice, the order
  map hands out exactly the other slots of the arena, one per order id, so that as many slots are in use as the map
  has orders; and the slot an id maps to holds the order with this id, linked into the queue of its own side
  and price.
\<close>

theorem pool_accounts_for_orders:
  assumes "book_reachable ob"
  shows "distinct (pool_free (ob_pool ob)) \<and> ran (orders ob) \<inter> set (pool_free (ob_pool ob)) = {}
    \<and> ran (orders ob) \<union> set (pool_free (ob_pool ob)) = {..<pool_capacity (ob_pool ob)}
    \<and> in_use (ob_pool ob) = card (dom (orders ob))
    \<and> (\<forall>oid p. orders ob oid = Some p \<longrightarrow> ord_id (heap ob p) = oid \<and> in_band (ord_price (heap ob p))
         \<and> (\<exists>ps. queue_of (heap ob) ((if ord_side (heap ob p) = BID then bids ob else asks ob)
                (level_index (ord_price (heap ob p)))) ps \<and> p \<in> set ps))"
proof -
  obtain bk where r: "book_rel ob bk" using reachable_ready [OF assms] by (auto simp: book_ready_def)
  have s: "(if x = BID then bids ob else asks ob) = side_levels x ob" for x by (cases x) simp_all
  show ?thesis unfolding s using slots_exact [OF r] by blast
qed

theorem pool_accounts_for_orders_witness:
  "\<exists>ob p. book_reachable ob \<and> orders ob 11 = Some p \<and> ord_id (heap ob p) = 11 \<and> p \<notin> set (pool_free (ob_pool ob))
    \<and> in_use (ob_pool ob) = 2 \<and> card (dom (orders ob)) = 2"
proof -
  obtain ob where ob: "book_reachable ob" "book_rel ob demo_book" by (rule demo_reached)
  have "in_use (ob_pool ob) = 2" using pool_exact(1) [OF ob(2)] by (simp add: demo_book_def all_orders_def)
  moreover have "find_order 11 demo_book \<noteq> None" by (simp add: demo_defs find_order_def all_orders_def)
  then obtain p where "orders ob 11 = Some p" using pool_exact(3) [OF ob(2), of 11] by auto
  ultimately show ?thesis using pool_accounts_for_orders [OF ob(1)] ob(1) by (auto dest: ranI intro!: exI [of _ ob])
qed

subsection \<open>The matching thread\<close>

text \<open>
  C6. However the server's pushes interleave with the matching thread, after any number of passes the book
  has served a prefix of the requests in the order they were sent, each once and as the contract says, and
  the others are still pending in that order.
\<close>

theorem engine_serves_in_order:
  assumes "engine_ready e bk"
  shows "\<exists>e' rs bk'. handleMatching n e = Some e' \<and> engine_ready e' bk' \<and> pending e = map snd rs @ pending e'
    \<and> served rs (eng_book e) bk (eng_book e') bk'"
  using iterations_served [OF assms, of n] by blast

definition demo_engine :: Engine where
  "demo_engine = new_Engine demo_start (new_RingBuffer 8 demo_ask) [demo_ask, demo_bid] (\<lambda>k. k mod 2)"

lemma demo_engine_ok: "engine_ready demo_engine (empty_book 4)" "0 < rb_limit (eng_in_ring demo_engine)" "fair (eng_feed demo_engine)"
  "pending demo_engine = [demo_ask, demo_bid]"
proof -
  have r: "rb_inv (new_RingBuffer 8 demo_ask)" "rb_limit (new_RingBuffer 8 demo_ask) = 7" "rb_contents (new_RingBuffer 8 demo_ask) = []"
    using new_RingBuffer_inv [of "8::u32" 3 demo_ask] by simp_all
  show p: "pending demo_engine = [demo_ask, demo_bid]" "0 < rb_limit (eng_in_ring demo_engine)"
    using r by (simp_all add: demo_engine_def new_Engine_def pending_def)
  have "0 < (2 * k + 1) mod 2 \<and> k \<le> 2 * k + 1" for k :: nat by simp
  then show "fair (eng_feed demo_engine)" unfolding fair_def demo_engine_def new_Engine_def by (metis Engine.select_convs(5))
  have "book_ready demo_start (empty_book 4)" by (rule reachable_rel_ready [OF demo_start_ok(1,5)])
  then show "engine_ready demo_engine (empty_book 4)"
    using p r by (simp add: engine_ready_def) (simp add: demo_engine_def new_Engine_def)
qed

theorem engine_serves_in_order_witness:
  "\<exists>e' rs bk'. handleMatching 3 demo_engine = Some e' \<and> [demo_ask, demo_bid] = map snd rs @ pending e'
    \<and> served rs (eng_book demo_engine) (empty_book 4) (eng_book e') bk'"
  using engine_serves_in_order [OF demo_engine_ok(1), of 3] demo_engine_ok(4) by auto

text \<open>
  C7. No request is left behind: if the server keeps getting turns to push, the matching thread reaches a
  state in which nothing is pending, and by then the book has served every request that was pending,
  in the order they were sent, each once and as the contract says.
\<close>

theorem engine_serves_all:
  assumes "engine_ready e bk" "0 < rb_limit (eng_in_ring e)" "fair (eng_feed e)"
  shows "\<exists>n e' rs bk'. handleMatching n e = Some e' \<and> pending e' = [] \<and> map snd rs = pending e
    \<and> served rs (eng_book e) bk (eng_book e') bk'"
proof -
  obtain n e' where n: "handleMatching n e = Some e'" "pending e' = []" using engine_drains [OF assms] by blast
  with iterations_served [OF assms(1), of n] show ?thesis by (intro exI [of _ n] exI [of _ e']) auto
qed

theorem engine_serves_all_witness:
  "\<exists>n e' rs bk'. handleMatching n demo_engine = Some e' \<and> pending e' = [] \<and> map snd rs = [demo_ask, demo_bid]
    \<and> served rs (eng_book demo_engine) (empty_book 4) (eng_book e') bk'"
  using engine_serves_all [OF demo_engine_ok(1-3)] by (simp add: demo_engine_ok(4))

text \<open>
  C29. The single-step interface executes everything in the inbound ring, in order, and returns.
\<close>

theorem step_empties_ring:
  assumes "book_ready (eng_book e) bk" "rb_inv (eng_in_ring e)" "\<forall>req \<in> set (rb_contents (eng_in_ring e)). req_ok req"
  shows "\<exists>e' rs bk'. engine_step e = Some e' \<and> book_ready (eng_book e') bk' \<and> map snd rs = rb_contents (eng_in_ring e)
    \<and> served rs (eng_book e) bk (eng_book e') bk' \<and> rb_contents (eng_in_ring e') = []"
  by (rule step_served [OF assms])

theorem step_empties_ring_witness:
  "\<exists>e'. engine_step (demo_engine\<lparr>eng_in_ring := snd (rb_push demo_bid (new_RingBuffer 8 demo_ask))\<rparr>) = Some e' \<and> rb_contents (eng_in_ring e') = []"
proof -
  obtain b r where p: "rb_push demo_bid (new_RingBuffer 8 demo_ask) = (b, r)" by fastforce
  have i: "rb_inv (new_RingBuffer 8 demo_ask)" "rb_contents (new_RingBuffer 8 demo_ask) = []"
    using new_RingBuffer_inv [of "8::u32" 3 demo_ask] by simp_all
  note P = rb_push_spec [OF i(1) p]
  have "rb_inv r" "set (rb_contents r) \<subseteq> {demo_bid}" using P i(2) by (cases b; auto)+
  moreover have "book_ready (eng_book demo_engine) (empty_book 4)" using demo_engine_ok(1) by (simp add: engine_ready_def)
  moreover from calculation have "\<forall>x\<in>set (rb_contents r). req_ok x" by auto
  ultimately show ?thesis using step_empties_ring [of "demo_engine\<lparr>eng_in_ring := r\<rparr>" "empty_book 4"] p by auto
qed

end
