(* ===== verification/Soup_Proto.thy ===== *)
theory Soup_Proto
  imports Order_Types Ouch_Inbound Ouch_Outbound
begin

text \<open>
  The SoupBinTCP session layer (\<open>infra/soupbintcp_proto.hpp\<close>): a length-prefixed packet framing, login
  packets with ASCII numbers, and OUCH messages carried inside. An encoder writes into the span it is
  given and returns the number of bytes written; a packet type is whatever byte the stream holds.
\<close>

type_synonym SoupPacketType = byte

definition kSoupHeaderLen :: nat where "kSoupHeaderLen = 3"
definition kSoupHeartbeatIntervalNs :: u64 where "kSoupHeartbeatIntervalNs = 1000000000"

definition DEBUG :: SoupPacketType where "DEBUG = ch CHR ''+''"
definition LOGIN_ACCEPTED :: SoupPacketType where "LOGIN_ACCEPTED = ch CHR ''A''"
definition LOGIN_REJECTED :: SoupPacketType where "LOGIN_REJECTED = ch CHR ''J''"
definition SEQUENCED_DATA :: SoupPacketType where "SEQUENCED_DATA = ch CHR ''S''"
definition SERVER_HEARTBEAT :: SoupPacketType where "SERVER_HEARTBEAT = ch CHR ''H''"
definition END_OF_SESSION :: SoupPacketType where "END_OF_SESSION = ch CHR ''Z''"
definition LOGIN_REQUEST :: SoupPacketType where "LOGIN_REQUEST = ch CHR ''L''"
definition UNSEQUENCED_DATA :: SoupPacketType where "UNSEQUENCED_DATA = ch CHR ''U''"
definition CLIENT_HEARTBEAT :: SoupPacketType where "CLIENT_HEARTBEAT = ch CHR ''R''"
definition LOGOUT_REQUEST :: SoupPacketType where "LOGOUT_REQUEST = ch CHR ''O''"

lemmas soup_type_defs = DEBUG_def LOGIN_ACCEPTED_def LOGIN_REJECTED_def SEQUENCED_DATA_def SERVER_HEARTBEAT_def
  END_OF_SESSION_def LOGIN_REQUEST_def UNSEQUENCED_DATA_def CLIENT_HEARTBEAT_def LOGOUT_REQUEST_def

definition kNotAuthorized :: byte where "kNotAuthorized = ch CHR ''A''"
definition kSessionNotAvailable :: byte where "kSessionNotAvailable = ch CHR ''S''"

record SoupLoginRequest =
  sl_username :: "byte list"
  sl_password :: "byte list"
  sl_requested_session :: "byte list"
  sl_requested_sequence_number :: u64

record SoupLoginAccepted =
  sa_session :: "byte list"
  sa_sequence_number :: u64

definition kSoupLoginRequestLen :: nat where "kSoupLoginRequestLen = 6 + 10 + 10 + 20"
definition kSoupLoginAcceptedLen :: nat where "kSoupLoginAcceptedLen = 10 + 20"
definition kSoupNumericLen :: nat where "kSoupNumericLen = 20"

lemmas soup_len_defs = kSoupHeaderLen_def kSoupLoginRequestLen_def kSoupLoginAcceptedLen_def kSoupNumericLen_def

definition soup_session_id :: "byte list \<Rightarrow> byte list" where
  "soup_session_id name = (let n = min (length name) 10
     in fold (\<lambda>i out. out[10 - n + i := name ! i]) [0..<n] (replicate 10 (ch CHR '' '')))"

subsection \<open>Encoding\<close>

text \<open>A function on the bytes of a subspan, applied in place.\<close>

definition on_subspan :: "nat \<Rightarrow> nat \<Rightarrow> (byte list \<Rightarrow> byte list) \<Rightarrow> byte list \<Rightarrow> byte list" where
  "on_subspan off n f out = splice off (f (take n (drop off out))) out"

definition write_header :: "SoupPacketType \<Rightarrow> nat \<Rightarrow> byte list \<Rightarrow> bool \<times> byte list" where
  "write_header type payload_len out =
     (if length out < kSoupHeaderLen + payload_len \<or> payload_len + 1 > 65535 then (False, out)
      else let w = ww_put (W8 type) (ww_put (W16 (of_nat (payload_len + 1))) (wire_writer out))
           in (ww_ok w, ww_out w))"

fun write_numeric_loop :: "nat \<Rightarrow> u64 \<Rightarrow> byte list \<Rightarrow> byte list" where
  "write_numeric_loop 0 v out = out"
| "write_numeric_loop (Suc i) v out =
     (if v = 0 \<and> i + 1 < length out then write_numeric_loop i v (out[i := ch CHR '' ''])
      else write_numeric_loop i (v div 10) (out[i := ucast (48 + v mod 10)]))"

definition write_numeric :: "u64 \<Rightarrow> byte list \<Rightarrow> byte list" where
  "write_numeric v out = write_numeric_loop (length out) v out"

text \<open>The digit loop stops at a space or the end; a byte that is no digit fails the whole number.\<close>

fun read_digits :: "byte list \<Rightarrow> u64 \<Rightarrow> (u64 \<times> byte list) option" where
  "read_digits [] v = Some (v, [])"
| "read_digits (c # cs) v =
     (if c = ch CHR '' '' then Some (v, c # cs)
      else if c < ch CHR ''0'' \<or> c > ch CHR ''9'' then None
      else read_digits cs (v * 10 + ucast (c - ch CHR ''0'')))"

definition read_numeric :: "byte list \<Rightarrow> u64 option" where
  "read_numeric bs =
     (let digits = dropWhile (\<lambda>c. c = ch CHR '' '') bs
      in if digits = [] then None
         else case read_digits digits 0 of
                None \<Rightarrow> None
              | Some (v, tail) \<Rightarrow> if list_all (\<lambda>c. c = ch CHR '' '') tail then Some v else None)"

definition write_alpha :: "byte list \<Rightarrow> byte list \<Rightarrow> byte list" where
  "write_alpha v out = splice 0 v out"

definition read_alpha :: "nat \<Rightarrow> byte list \<Rightarrow> byte list" where
  "read_alpha N bs = take N bs"

definition encode_soup_empty :: "SoupPacketType \<Rightarrow> byte list \<Rightarrow> nat \<times> byte list" where
  "encode_soup_empty type out = (let (ok, out1) = write_header type 0 out in (if ok then kSoupHeaderLen else 0, out1))"

definition encode_soup_login_request :: "SoupLoginRequest \<Rightarrow> byte list \<Rightarrow> nat \<times> byte list" where
  "encode_soup_login_request login out =
     (let (ok, out1) = write_header LOGIN_REQUEST kSoupLoginRequestLen out
      in if \<not> ok then (0, out1)
         else (kSoupHeaderLen + kSoupLoginRequestLen,
               on_subspan kSoupHeaderLen kSoupLoginRequestLen
                 (\<lambda>payload. on_subspan 26 kSoupNumericLen (write_numeric (sl_requested_sequence_number login))
                   (on_subspan 16 10 (write_alpha (sl_requested_session login))
                     (on_subspan 6 10 (write_alpha (sl_password login))
                       (on_subspan 0 6 (write_alpha (sl_username login)) payload)))) out1))"

definition encode_soup_login_accepted :: "SoupLoginAccepted \<Rightarrow> byte list \<Rightarrow> nat \<times> byte list" where
  "encode_soup_login_accepted accepted out =
     (let (ok, out1) = write_header LOGIN_ACCEPTED kSoupLoginAcceptedLen out
      in if \<not> ok then (0, out1)
         else (kSoupHeaderLen + kSoupLoginAcceptedLen,
               on_subspan kSoupHeaderLen kSoupLoginAcceptedLen
                 (\<lambda>payload. on_subspan 10 kSoupNumericLen (write_numeric (sa_sequence_number accepted))
                   (on_subspan 0 10 (write_alpha (sa_session accepted)) payload)) out1))"

definition encode_soup_login_rejected :: "byte \<Rightarrow> byte list \<Rightarrow> nat \<times> byte list" where
  "encode_soup_login_rejected reason out =
     (let (ok, out1) = write_header LOGIN_REJECTED 1 out
      in if \<not> ok then (0, out1) else (kSoupHeaderLen + 1, out1[kSoupHeaderLen := reason]))"

definition encode_soup_unsequenced :: "OuchInboundFrame \<Rightarrow> byte list \<Rightarrow> nat \<times> byte list" where
  "encode_soup_unsequenced msg out =
     (let len = encoded_size_inbound msg
      in if len = 0 then (0, out)
         else let (ok, out1) = write_header UNSEQUENCED_DATA len out
              in if \<not> ok then (0, out1)
                 else let (n, payload) = encode_inbound_ouch msg (take len (drop kSoupHeaderLen out1))
                      in (if n = len then kSoupHeaderLen + len else 0, splice kSoupHeaderLen payload out1))"

definition encode_soup_sequenced :: "OuchOutboundFrame \<Rightarrow> byte list \<Rightarrow> nat \<times> byte list" where
  "encode_soup_sequenced msg out =
     (let len = encoded_size_outbound msg
      in if len = 0 then (0, out)
         else let (ok, out1) = write_header SEQUENCED_DATA len out
              in if \<not> ok then (0, out1)
                 else let (n, payload) = encode_outbound_ouch msg (take len (drop kSoupHeaderLen out1))
                      in (if n = len then kSoupHeaderLen + len else 0, splice kSoupHeaderLen payload out1))"

subsection \<open>Decoding\<close>

record SoupPacket =
  sp_type :: SoupPacketType
  sp_payload :: "byte list"

datatype SoupParseStatus = PACKET | INCOMPLETE | MALFORMED

record SoupParseResult =
  spr_status :: SoupParseStatus
  spr_packet :: SoupPacket
  spr_consumed :: nat

definition no_packet :: "SoupParseStatus \<Rightarrow> SoupParseResult" where
  "no_packet s = \<lparr> spr_status = s, spr_packet = \<lparr> sp_type = 0, sp_payload = [] \<rparr>, spr_consumed = 0 \<rparr>"

definition load_u16 :: "byte list \<Rightarrow> u16" where
  "load_u16 bs = be_word (take 2 bs)"

definition parse_soup_packet :: "byte list \<Rightarrow> SoupParseResult" where
  "parse_soup_packet stream =
     (if length stream < 2 then no_packet INCOMPLETE
      else let len = unat (load_u16 stream)
           in if len = 0 then no_packet MALFORMED
              else if length stream < 2 + len then no_packet INCOMPLETE
              else \<lparr> spr_status = PACKET,
                     spr_packet = \<lparr> sp_type = stream ! 2, sp_payload = take (len - 1) (drop kSoupHeaderLen stream) \<rparr>,
                     spr_consumed = 2 + len \<rparr>)"

definition decode_soup_login_request :: "byte list \<Rightarrow> SoupLoginRequest option" where
  "decode_soup_login_request payload =
     (if length payload \<noteq> kSoupLoginRequestLen then None
      else case read_numeric (take kSoupNumericLen (drop 26 payload)) of
             None \<Rightarrow> None
           | Some sequence \<Rightarrow> Some \<lparr> sl_username = read_alpha 6 (take 6 payload),
               sl_password = read_alpha 10 (take 10 (drop 6 payload)),
               sl_requested_session = read_alpha 10 (take 10 (drop 16 payload)),
               sl_requested_sequence_number = sequence \<rparr>)"

definition decode_soup_login_accepted :: "byte list \<Rightarrow> SoupLoginAccepted option" where
  "decode_soup_login_accepted payload =
     (if length payload \<noteq> kSoupLoginAcceptedLen then None
      else case read_numeric (take kSoupNumericLen (drop 10 payload)) of
             None \<Rightarrow> None
           | Some sequence \<Rightarrow> Some \<lparr> sa_session = read_alpha 10 (take 10 payload), sa_sequence_number = sequence \<rparr>)"

subsection \<open>Numbers survive the wire\<close>

fun digits :: "nat \<Rightarrow> byte list" where
  "digits n = (if n = 0 then [] else digits (n div 10) @ [of_nat (48 + n mod 10)])"

declare digits.simps [simp del]

lemma digits_0 [simp]: "digits 0 = []"
  by (simp add: digits.simps)

lemma digits_Nil [simp]: "digits n = [] \<longleftrightarrow> n = 0"
  by (subst digits.simps) simp

lemma length_digits: "n < 10 ^ i \<Longrightarrow> length (digits n) \<le> i"
proof (induction i arbitrary: n)
  case (Suc i)
  then have "length (digits (n div 10)) \<le> i" by (intro Suc.IH) (simp add: less_mult_imp_div_less mult.commute)
  then show ?case by (subst digits.simps) simp
qed simp

lemma digit_byte:
  assumes "d < 10"
  shows "unat (of_nat (48 + d) :: byte) = 48 + d" "(of_nat (48 + d) :: byte) - ch CHR ''0'' = of_nat d"
    "(ucast (of_nat d :: byte) :: u64) = of_nat d"
proof -
  show u: "unat (of_nat (48 + d) :: byte) = 48 + d" using assms by (intro unat_of_nat_small) simp
  show "(of_nat (48 + d) :: byte) - ch CHR ''0'' = of_nat d" by simp
  have "unat (of_nat d :: byte) = d" using assms by (intro unat_of_nat_small) simp
  then show "(ucast (of_nat d :: byte) :: u64) = of_nat d" by (metis of_nat_unat)
qed

lemma digit_not_other:
  assumes "d < 10"
  shows "(of_nat (48 + d) :: byte) \<noteq> ch CHR '' ''" "\<not> (of_nat (48 + d) :: byte) < ch CHR ''0''"
    "\<not> (of_nat (48 + d) :: byte) > ch CHR ''9''"
  using assms digit_byte(1) [OF assms] by (auto simp: word_nat word_unat_eq_iff simp del: of_nat_add)

lemma read_digits_digits:
  "read_digits (digits n @ cs) v = read_digits cs (v * 10 ^ length (digits n) + of_nat n)"
proof (induction n arbitrary: cs v rule: digits.induct)
  case (1 n)
  show ?case
  proof (cases "n = 0")
    case False
    let ?d = "n mod 10" let ?q = "n div 10"
    have d: "?d < 10" by simp
    have "read_digits (digits n @ cs) v = read_digits (of_nat (48 + ?d) # cs) (v * 10 ^ length (digits ?q) + of_nat ?q)"
      using False by (subst digits.simps) (simp only: if_False append.simps append_assoc "1.IH" [OF False])
    also have "\<dots> = read_digits cs ((v * 10 ^ length (digits ?q) + of_nat ?q) * 10 + of_nat ?d)"
      by (simp only: read_digits.simps digit_not_other [OF d] digit_byte(2,3) [OF d] if_False simp_thms)
    also have "(v * 10 ^ length (digits ?q) + of_nat ?q) * 10 + of_nat ?d = v * 10 ^ Suc (length (digits ?q)) + of_nat (?q * 10 + ?d)"
      by (simp only: of_nat_add of_nat_mult power_Suc) (simp add: algebra_simps)
    also have "?q * 10 + ?d = n" by simp
    also have "Suc (length (digits ?q)) = length (digits n)" using False by (subst (2) digits.simps) simp
    finally show ?thesis .
  qed simp
qed

fun pad_digits :: "nat \<Rightarrow> u64 \<Rightarrow> byte list" where
  "pad_digits 0 v = []"
| "pad_digits (Suc i) v = (if v = 0 then pad_digits i v @ [ch CHR '' ''] else pad_digits i (v div 10) @ [ucast (48 + v mod 10)])"

lemma length_pad_digits [simp]: "length (pad_digits i v) = i"
  by (induction i v rule: pad_digits.induct) simp_all

lemma write_numeric_loop_pad: "i < length out \<Longrightarrow> write_numeric_loop i v out = pad_digits i v @ drop i out"
proof (induction i arbitrary: v out)
  case (Suc i)
  have "drop i (out[i := x]) = x # drop (Suc i) out" for x
    using Suc.prems by (simp add: drop_update_swap Cons_nth_drop_Suc [symmetric])
  then show ?case using Suc by simp
qed simp

lemma byte_digit: "(ucast (48 + v mod 10 :: u64) :: byte) = of_nat (48 + unat v mod 10)"
proof -
  have m: "unat (v mod 10) = unat v mod 10" by (simp add: unat_mod)
  have "unat (48 + v mod 10) = 48 + unat v mod 10" by (subst unat_add_bounded) (simp_all add: m)
  then show ?thesis by (metis of_nat_unat)
qed

lemma pad_digits_spaces:
  assumes "unat v < 10 ^ i"
  shows "pad_digits i v = replicate (i - length (digits (unat v))) (ch CHR '' '') @ digits (unat v)"
  using assms
proof (induction i arbitrary: v)
  case (Suc i)
  show ?case
  proof (cases "v = 0")
    case True
    then show ?thesis using Suc.IH [of 0] by (simp add: replicate_append_same)
  next
    case False
    have q: "unat (v div 10) = unat v div 10" by (simp add: unat_div)
    have "unat (v div 10) < 10 ^ i" using Suc.prems unfolding q by (simp add: less_mult_imp_div_less mult.commute)
    note IH = Suc.IH [OF this]
    have n: "unat v \<noteq> 0" using False by (simp add: unat_eq_zero)
    then have "digits (unat v) = digits (unat v div 10) @ [of_nat (48 + unat v mod 10)]" by (subst digits.simps) simp
    then show ?thesis using False IH by (simp add: q byte_digit del: of_nat_add)
  qed
qed simp

definition shown :: "nat \<Rightarrow> byte list" where
  "shown n = (if n = 0 then [ch CHR ''0''] else digits n)"

lemma write_numeric_shown:
  assumes "length out = 20"
  shows "write_numeric v out = replicate (20 - length (shown (unat v))) (ch CHR '' '') @ shown (unat v)" "length (shown (unat v)) \<le> 20"
proof -
  have w: "write_numeric v out = pad_digits 19 (v div 10) @ [ucast (48 + v mod 10)]"
  proof -
    have "write_numeric v out = write_numeric_loop 19 (v div 10) (out[19 := ucast (48 + v mod 10)])"
      using assms by (simp add: write_numeric_def eval_nat_numeral)
    also have "\<dots> = pad_digits 19 (v div 10) @ drop 19 (out[19 := ucast (48 + v mod 10)])"
      using assms by (intro write_numeric_loop_pad) simp
    also have "drop 19 (out[19 := ucast (48 + v mod 10)]) = [ucast (48 + v mod 10)]"
      using assms by (simp add: drop_update_swap Cons_nth_drop_Suc [symmetric])
    finally show ?thesis .
  qed
  have q: "unat (v div 10) = unat v div 10" by (simp add: unat_div)
  have "unat v < 2 ^ 64" using unsigned_less [of v] by simp
  then have "unat (v div 10) < 10 ^ 19" unfolding q by simp
  note P = pad_digits_spaces [OF this]
  have dg: "digits (unat v) = digits (unat v div 10) @ [of_nat (48 + unat v mod 10)]" if "unat v \<noteq> 0"
    using that by (subst digits.simps) simp
  show "write_numeric v out = replicate (20 - length (shown (unat v))) (ch CHR '' '') @ shown (unat v)"
  proof (cases "unat v = 0")
    case True
    then have "v = 0" by (simp add: unat_eq_zero)
    then show ?thesis using w P by (simp add: shown_def)
  next
    case False
    then show ?thesis unfolding w P byte_digit q shown_def using dg by (simp del: of_nat_add)
  qed
  have "unat v < 10 ^ 20" using \<open>unat v < 2 ^ 64\<close> by simp
  then show "length (shown (unat v)) \<le> 20" using length_digits by (simp add: shown_def)
qed

lemma shown_digit: "\<exists>d ds. shown n = d # ds \<and> d \<noteq> ch CHR '' ''"
proof -
  have "\<exists>d ds. digits n = d # ds \<and> d \<noteq> ch CHR '' ''" if "n \<noteq> 0" for n
    using that
  proof (induction n rule: digits.induct)
    case (1 n)
    have e: "digits n = digits (n div 10) @ [of_nat (48 + n mod 10)]" using "1.prems" by (subst digits.simps) simp
    show ?case
    proof (cases "n div 10 = 0")
      case True
      then show ?thesis unfolding e using digit_not_other(1) [of "n mod 10"] by simp
    next
      case False
      then show ?thesis unfolding e using "1.IH" [OF "1.prems" False] by auto
    qed
  qed
  then show ?thesis by (auto simp: shown_def)
qed

lemma read_numeric_shown: "read_numeric (replicate k (ch CHR '' '') @ shown n) = Some (of_nat n)"
proof -
  obtain d ds where d: "shown n = d # ds" "d \<noteq> ch CHR '' ''" using shown_digit by blast
  have "dropWhile (\<lambda>c. c = ch CHR '' '') (replicate k (ch CHR '' '') @ shown n) = shown n"
    using d by (simp add: dropWhile_append3)
  moreover have "read_digits (shown n) 0 = Some (of_nat n, [])"
    using read_digits_digits [of n "[]" 0] by (simp add: shown_def)
  ultimately show ?thesis using d by (simp add: read_numeric_def)
qed

lemma numeric_roundtrip: "length out = 20 \<Longrightarrow> read_numeric (write_numeric v out) = Some v"
  unfolding write_numeric_shown(1) read_numeric_shown by simp

lemma length_write_numeric [simp]: "length out = 20 \<Longrightarrow> length (write_numeric v out) = 20"
  using write_numeric_shown(2) by (simp add: write_numeric_shown(1))

subsection \<open>Packets survive the stream\<close>

definition soup_frame :: "SoupPacketType \<Rightarrow> byte list \<Rightarrow> byte list" where
  "soup_frame type payload = be_bytes 2 (of_nat (length payload + 1) :: u16) @ type # payload"

lemma length_soup_frame [simp]: "length (soup_frame type payload) = 3 + length payload"
  by (simp add: soup_frame_def)

lemma load_u16_frame:
  assumes "length payload + 1 \<le> 65535"
  shows "unat (load_u16 (soup_frame type payload @ rear)) = length payload + 1"
proof -
  have "load_u16 (soup_frame type payload @ rear) = (of_nat (length payload + 1) :: u16)"
    by (simp add: load_u16_def soup_frame_def be_word_be_bytes take_bit_word_full)
  then show ?thesis using assms by (simp only:) (rule unat_of_nat_small, simp)
qed

lemma parse_frame:
  assumes "length payload + 1 \<le> 65535"
  shows "parse_soup_packet (soup_frame type payload @ rear) = \<lparr> spr_status = PACKET,
    spr_packet = \<lparr> sp_type = type, sp_payload = payload \<rparr>, spr_consumed = 3 + length payload \<rparr>"
  using load_u16_frame [OF assms, of type rear]
  by (simp add: parse_soup_packet_def Let_def kSoupHeaderLen_def) (simp add: soup_frame_def nth_append)

text \<open>Once a packet is there, more bytes behind it do not change it.\<close>

lemma parse_more:
  assumes "spr_status (parse_soup_packet stream) \<noteq> INCOMPLETE"
  shows "parse_soup_packet (stream @ rear) = parse_soup_packet stream"
proof -
  have l: "\<not> length stream < 2" using assms by (auto simp: parse_soup_packet_def no_packet_def)
  then have "load_u16 (stream @ rear) = load_u16 stream" by (simp add: load_u16_def)
  moreover have "length stream \<ge> 2 + unat (load_u16 stream) \<or> unat (load_u16 stream) = 0"
    using assms l by (auto simp: parse_soup_packet_def no_packet_def Let_def split: if_splits)
  ultimately show ?thesis using l
    by (auto simp: parse_soup_packet_def Let_def nth_append kSoupHeaderLen_def)
qed

lemma write_header_frame:
  assumes "3 + n \<le> length out" "n + 1 \<le> 65535"
  shows "write_header type n out = (True, be_bytes 2 (of_nat (n + 1) :: u16) @ type # drop 3 out)"
proof -
  have [simp]: "be_bytes (Suc 0) type = [type]" by (simp add: be_bytes_def)
  show ?thesis using assms
    by (simp add: write_header_def Let_def ww_put_def ww_claim_def wire_writer_def splice_def kSoupHeaderLen_def numeral_3_eq_3)
qed

lemma write_header_fails:
  assumes "length out < 3 + n \<or> n + 1 > 65535"
  shows "write_header type n out = (False, out)"
  using assms by (auto simp: write_header_def kSoupHeaderLen_def)

lemma splice_payload: "splice 3 bs (be_bytes 2 v @ t # drop 3 out) = be_bytes 2 v @ t # bs @ drop (3 + length bs) out"
  by (simp add: splice_def add.commute)

lemma encode_sequenced_frame:
  assumes "msg \<noteq> OutboundNone" "0 < encoded_size_outbound msg" "encoded_size_outbound msg + 1 \<le> 65535"
    "3 + encoded_size_outbound msg \<le> length out"
  shows "fst (encode_soup_sequenced msg out) = 3 + encoded_size_outbound msg"
    "take (3 + encoded_size_outbound msg) (snd (encode_soup_sequenced msg out)) = soup_frame SEQUENCED_DATA (wire_outbound msg)"
proof -
  let ?n = "encoded_size_outbound msg"
  obtain k payload where e: "encode_outbound_ouch msg (take ?n (drop 3 out)) = (k, payload)" by fastforce
  have len: "?n \<le> length (take ?n (drop 3 out))" using assms(4) by simp
  note E = encode_outbound_spec [OF assms(1) len]
  have k: "k = ?n" "take ?n payload = wire_outbound msg" using E e by simp_all
  then have w: "payload = wire_outbound msg @ drop ?n payload" by (metis append_take_drop_id)
  have s: "snd (encode_soup_sequenced msg out) = be_bytes 2 (of_nat (?n + 1) :: u16) @ SEQUENCED_DATA # payload @ drop (3 + length payload) out"
    using assms(2-4) e by (simp add: encode_soup_sequenced_def Let_def write_header_frame kSoupHeaderLen_def splice_payload)
  show "fst (encode_soup_sequenced msg out) = 3 + ?n"
    using assms(2-4) e k by (simp add: encode_soup_sequenced_def Let_def write_header_frame kSoupHeaderLen_def)
  have "?n = length (wire_outbound msg)" by (rule encoded_size_outbound_wire)
  then show "take (3 + ?n) (snd (encode_soup_sequenced msg out)) = soup_frame SEQUENCED_DATA (wire_outbound msg)"
    unfolding s by (subst w) (simp add: soup_frame_def)
qed

lemma encode_unsequenced_frame:
  assumes "msg \<noteq> InboundNone" "0 < encoded_size_inbound msg" "encoded_size_inbound msg + 1 \<le> 65535"
    "3 + encoded_size_inbound msg \<le> length out"
  shows "fst (encode_soup_unsequenced msg out) = 3 + encoded_size_inbound msg"
    "take (3 + encoded_size_inbound msg) (snd (encode_soup_unsequenced msg out)) = soup_frame UNSEQUENCED_DATA (wire_inbound msg)"
proof -
  let ?n = "encoded_size_inbound msg"
  obtain k payload where e: "encode_inbound_ouch msg (take ?n (drop 3 out)) = (k, payload)" by fastforce
  have len: "?n \<le> length (take ?n (drop 3 out))" using assms(4) by simp
  note E = encode_inbound_spec [OF assms(1) len]
  have k: "k = ?n" "take ?n payload = wire_inbound msg" using E e by simp_all
  then have w: "payload = wire_inbound msg @ drop ?n payload" by (metis append_take_drop_id)
  have s: "snd (encode_soup_unsequenced msg out) = be_bytes 2 (of_nat (?n + 1) :: u16) @ UNSEQUENCED_DATA # payload @ drop (3 + length payload) out"
    using assms(2-4) e by (simp add: encode_soup_unsequenced_def Let_def write_header_frame kSoupHeaderLen_def splice_payload)
  show "fst (encode_soup_unsequenced msg out) = 3 + ?n"
    using assms(2-4) e k by (simp add: encode_soup_unsequenced_def Let_def write_header_frame kSoupHeaderLen_def)
  have "?n = length (wire_inbound msg)" by (rule encoded_size_inbound_wire)
  then show "take (3 + ?n) (snd (encode_soup_unsequenced msg out)) = soup_frame UNSEQUENCED_DATA (wire_inbound msg)"
    unfolding s by (subst w) (simp add: soup_frame_def)
qed

text \<open>The payload of a login packet is its fields one after the other.\<close>

definition wf_login :: "SoupLoginRequest \<Rightarrow> bool" where
  "wf_login login \<longleftrightarrow> length (sl_username login) = 6 \<and> length (sl_password login) = 10 \<and> length (sl_requested_session login) = 10"

lemma encode_login_frame:
  assumes "wf_login login" "49 \<le> length out"
  shows "\<exists>number. length number = 20 \<and> read_numeric number = Some (sl_requested_sequence_number login)
    \<and> fst (encode_soup_login_request login out) = 49
    \<and> take 49 (snd (encode_soup_login_request login out))
      = soup_frame LOGIN_REQUEST (sl_username login @ sl_password login @ sl_requested_session login @ number)"
proof (intro exI conjI)
  let ?num = "write_numeric (sl_requested_sequence_number login) (take 20 (drop 29 out))"
  have l: "length (take 20 (drop 29 out)) = 20" using assms(2) by simp
  show "length ?num = 20" "read_numeric ?num = Some (sl_requested_sequence_number login)" using l by (simp_all add: numeric_roundtrip)
  show "fst (encode_soup_login_request login out) = 49"
    using assms(2) by (simp add: encode_soup_login_request_def write_header_frame soup_len_defs)
  show "take 49 (snd (encode_soup_login_request login out))
      = soup_frame LOGIN_REQUEST (sl_username login @ sl_password login @ sl_requested_session login @ ?num)"
    using assms by (simp add: encode_soup_login_request_def write_header_frame soup_len_defs on_subspan_def splice_def
        write_alpha_def wf_login_def soup_frame_def min_def take_drop add.commute)
qed

lemma encode_accepted_frame:
  assumes "length (sa_session acc) = 10" "33 \<le> length out"
  shows "\<exists>number. length number = 20 \<and> read_numeric number = Some (sa_sequence_number acc)
    \<and> fst (encode_soup_login_accepted acc out) = 33
    \<and> take 33 (snd (encode_soup_login_accepted acc out)) = soup_frame LOGIN_ACCEPTED (sa_session acc @ number)"
proof (intro exI conjI)
  let ?num = "write_numeric (sa_sequence_number acc) (take 20 (drop 13 out))"
  have l: "length (take 20 (drop 13 out)) = 20" using assms(2) by simp
  show "length ?num = 20" "read_numeric ?num = Some (sa_sequence_number acc)" using l by (simp_all add: numeric_roundtrip)
  show "fst (encode_soup_login_accepted acc out) = 33"
    using assms(2) by (simp add: encode_soup_login_accepted_def write_header_frame soup_len_defs)
  show "take 33 (snd (encode_soup_login_accepted acc out)) = soup_frame LOGIN_ACCEPTED (sa_session acc @ ?num)"
    using assms by (simp add: encode_soup_login_accepted_def write_header_frame soup_len_defs on_subspan_def splice_def
        write_alpha_def soup_frame_def min_def take_drop add.commute)
qed

lemma encode_rejected_frame:
  assumes "4 \<le> length out"
  shows "fst (encode_soup_login_rejected reason out) = 4"
    "take 4 (snd (encode_soup_login_rejected reason out)) = soup_frame LOGIN_REJECTED [reason]"
proof -
  obtain a b c d cs where out: "out = a # b # c # d # cs" using assms
    by (auto simp: Suc_le_length_iff eval_nat_numeral)
  show "fst (encode_soup_login_rejected reason out) = 4" "take 4 (snd (encode_soup_login_rejected reason out)) = soup_frame LOGIN_REJECTED [reason]"
    using assms by (simp_all add: encode_soup_login_rejected_def write_header_frame kSoupHeaderLen_def soup_frame_def out list_update_append)
qed

lemma encode_empty_frame:
  assumes "3 \<le> length out"
  shows "fst (encode_soup_empty type out) = 3" "take 3 (snd (encode_soup_empty type out)) = soup_frame type []"
  using assms by (simp_all add: encode_soup_empty_def write_header_frame kSoupHeaderLen_def soup_frame_def)

end
