(* ===== verification/Session_Log.thy ===== *)
theory Session_Log
  imports Ring_Buffer Soup_Proto
begin

text \<open>
  A session's replay log (\<open>server/include/session_log.hpp\<close>): the packets of a session in a byte ring, with an
  index ring from sequence number to start offset. Offsets and sequence numbers are 64-bit and only
  ever grow. The two asserted preconditions are the \<^term>\<open>None\<close> results. The log stands for the
  list of all packets ever appended, of which it can replay a suffix.
\<close>

record SessionLog =
  lg_capacity :: usize
  lg_index_capacity :: usize
  lg_bytes :: "nat \<Rightarrow> byte"
  lg_index :: "nat \<Rightarrow> u64"
  first_sequence :: u64
  next_sequence :: u64
  end_offset :: u64

definition kBytesPerIndexEntry :: usize where "kBytesPerIndexEntry = 32"

definition new_SessionLog :: "usize \<Rightarrow> SessionLog" where
  "new_SessionLog capacity_bytes =
     \<lparr> lg_capacity = capacity_bytes, lg_index_capacity = capacity_bytes div kBytesPerIndexEntry,
       lg_bytes = (\<lambda>_. 0), lg_index = (\<lambda>_. 0), first_sequence = 1, next_sequence = 1, end_offset = 0 \<rparr>"

definition index_slot :: "u64 \<Rightarrow> SessionLog \<Rightarrow> nat" where
  "index_slot sn lg = unat (sn AND (lg_index_capacity lg - 1))"

definition offset_of :: "u64 \<Rightarrow> SessionLog \<Rightarrow> u64 option" where
  "offset_of sn lg =
     (if sn < first_sequence lg \<or> sn > next_sequence lg then None
      else if sn = next_sequence lg then Some (end_offset lg)
      else Some (lg_index lg (index_slot sn lg)))"

definition would_overwrite :: "u64 \<Rightarrow> usize \<Rightarrow> SessionLog \<Rightarrow> bool" where
  "would_overwrite offset len lg \<longleftrightarrow> end_offset lg + len - offset > lg_capacity lg"

function drop_oldest :: "usize \<Rightarrow> SessionLog \<Rightarrow> SessionLog" where
  "drop_oldest len lg =
     (if first_sequence lg < next_sequence lg \<and>
         (end_offset lg + len - lg_index lg (index_slot (first_sequence lg) lg) > lg_capacity lg \<or>
          next_sequence lg - first_sequence lg \<ge> lg_index_capacity lg)
      then drop_oldest len (lg\<lparr>first_sequence := first_sequence lg + 1\<rparr>)
      else lg)"
  by pat_completeness auto

termination
proof (relation "measure (\<lambda>(len, lg). unat (next_sequence lg) - unat (first_sequence lg))", goal_cases)
  case (2 len lg)
  then have "unat (first_sequence lg) < unat (next_sequence lg)" by (simp add: word_nat)
  moreover have "unat (next_sequence lg) < 2 ^ 64" using unsigned_less [of "next_sequence lg"] by simp
  moreover from calculation have "unat (first_sequence lg + 1) = Suc (unat (first_sequence lg))"
    by (intro unat_inc_bounded) simp
  ultimately show ?case by simp
qed simp

declare drop_oldest.simps [simp del]

definition copy_bytes :: "nat \<Rightarrow> byte list \<Rightarrow> (nat \<Rightarrow> byte) \<Rightarrow> nat \<Rightarrow> byte" where
  "copy_bytes dst bs f = (\<lambda>i. if dst \<le> i \<and> i < dst + length bs then bs ! (i - dst) else f i)"

definition log_append :: "byte list \<Rightarrow> SessionLog \<Rightarrow> SessionLog option" where
  "log_append packet lg0 =
     (if of_nat (length packet) \<ge> lg_capacity lg0 \<or> length packet \<ge> 2 ^ 64 then None
      else let lg = drop_oldest (of_nat (length packet)) lg0;
               at = unat (end_offset lg AND (lg_capacity lg - 1));
               first = min (length packet) (unat (lg_capacity lg) - at)
           in Some (lg\<lparr> lg_index := (lg_index lg)(index_slot (next_sequence lg) lg := end_offset lg),
                        lg_bytes := copy_bytes 0 (drop first packet) (copy_bytes at (take first packet) (lg_bytes lg)),
                        end_offset := end_offset lg + of_nat (length packet),
                        next_sequence := next_sequence lg + 1 \<rparr>))"

definition contiguous_from :: "u64 \<Rightarrow> SessionLog \<Rightarrow> byte list option" where
  "contiguous_from offset lg =
     (if offset \<le> end_offset lg \<and> end_offset lg - offset \<le> lg_capacity lg
      then let at = unat (offset AND (lg_capacity lg - 1));
               len = min (unat (end_offset lg - offset)) (unat (lg_capacity lg) - at)
           in Some (map (lg_bytes lg) [at..<at + len])
      else None)"

subsection \<open>What the log stands for\<close>

text \<open>The stream offset where message number \<open>n\<close> of a history starts; messages are numbered from 1.\<close>

definition start_of :: "byte list list \<Rightarrow> nat \<Rightarrow> nat" where
  "start_of hist n = length (concat (take (n - 1) hist))"

definition log_inv :: "nat \<Rightarrow> byte list list \<Rightarrow> SessionLog \<Rightarrow> bool" where
  "log_inv k hist lg \<longleftrightarrow> 5 < k \<and> k < 63 \<and> unat (lg_capacity lg) = 2 ^ k \<and> unat (lg_index_capacity lg) = 2 ^ (k - 5)
     \<and> length hist + 1 < 2 ^ 64 \<and> length (concat hist) < 2 ^ 63
     \<and> unat (next_sequence lg) = length hist + 1 \<and> unat (end_offset lg) = length (concat hist)
     \<and> 1 \<le> first_sequence lg \<and> first_sequence lg \<le> next_sequence lg
     \<and> length hist + 1 - unat (first_sequence lg) \<le> 2 ^ (k - 5)
     \<and> length (concat hist) - start_of hist (unat (first_sequence lg)) \<le> 2 ^ k
     \<and> (\<forall>n. unat (first_sequence lg) \<le> n \<and> n \<le> length hist \<longrightarrow> unat (lg_index lg (n mod 2 ^ (k - 5))) = start_of hist n)
     \<and> (\<forall>i. i < length (concat hist) \<and> length (concat hist) \<le> i + 2 ^ k \<longrightarrow> lg_bytes lg (i mod 2 ^ k) = concat hist ! i)"

lemma log_invD:
  assumes "log_inv k hist lg"
  shows "5 < k" "k < 63" "unat (lg_capacity lg) = 2 ^ k" "unat (lg_index_capacity lg) = 2 ^ (k - 5)"
    "length hist + 1 < 2 ^ 64" "length (concat hist) < 2 ^ 63"
    "unat (next_sequence lg) = length hist + 1" "unat (end_offset lg) = length (concat hist)"
    "1 \<le> first_sequence lg" "first_sequence lg \<le> next_sequence lg"
    "length hist + 1 - unat (first_sequence lg) \<le> 2 ^ (k - 5)"
    "length (concat hist) - start_of hist (unat (first_sequence lg)) \<le> 2 ^ k"
    "unat (first_sequence lg) \<le> n \<Longrightarrow> n \<le> length hist \<Longrightarrow> unat (lg_index lg (n mod 2 ^ (k - 5))) = start_of hist n"
    "i < length (concat hist) \<Longrightarrow> length (concat hist) \<le> i + 2 ^ k \<Longrightarrow> lg_bytes lg (i mod 2 ^ k) = concat hist ! i"
  using assms unfolding log_inv_def by blast+

lemma and_pow2_less_one:
  assumes "unat (c :: u64) = 2 ^ k"
  shows "unat (x AND (c - 1)) = unat x mod 2 ^ k"
proof -
  have "1 \<le> c" using assms by (simp add: word_nat)
  then have "Suc (unat (c - 1)) = 2 ^ k" using assms by (simp add: unat_sub)
  then have "c - 1 = mask k" by (rule pow2_less_one_mask)
  then show ?thesis by (simp add: unat_and_mask)
qed

lemma index_slot_mod: "log_inv k hist lg \<Longrightarrow> index_slot sn lg = unat sn mod 2 ^ (k - 5)"
  unfolding index_slot_def by (rule and_pow2_less_one) (simp add: log_invD)

lemma start_of_mono: "m \<le> n \<Longrightarrow> start_of hist m \<le> start_of hist n"
proof -
  assume "m \<le> n"
  then have "take (m - 1) hist = take (m - 1) (take (n - 1) hist)" by (simp add: min_absorb1)
  then obtain ys where "take (n - 1) hist = take (m - 1) hist @ ys" by (metis append_take_drop_id)
  then show ?thesis by (simp add: start_of_def)
qed

lemma start_of_le: "start_of hist n \<le> length (concat hist)"
proof -
  have "concat hist = concat (take (n - 1) hist) @ concat (drop (n - 1) hist)" by (metis append_take_drop_id concat_append)
  then have "length (concat hist) = length (concat (take (n - 1) hist)) + length (concat (drop (n - 1) hist))" by (metis length_append)
  then show ?thesis by (simp add: start_of_def)
qed

lemma start_of_next: "start_of hist (length hist + 1) = length (concat hist)"
  by (simp add: start_of_def)

lemma start_of_append: "n \<le> length hist + 1 \<Longrightarrow> start_of (hist @ [p]) n = start_of hist n"
  by (simp add: start_of_def)

lemma new_SessionLog_inv:
  assumes "unat cap = 2 ^ k" "5 < k" "k < 63"
  shows "log_inv k [] (new_SessionLog cap)"
proof -
  have "(2::nat) ^ k = 2 ^ (k - 5) * 2 ^ 5" using assms(2) by (subst power_add [symmetric]) simp
  then have "unat (cap div kBytesPerIndexEntry) = 2 ^ (k - 5)"
    using assms by (simp add: unat_div kBytesPerIndexEntry_def)
  then show ?thesis using assms by (simp add: log_inv_def new_SessionLog_def start_of_def)
qed

text \<open>Where a message starts, for the messages the log can name.\<close>

lemma offset_of_spec:
  assumes inv: "log_inv k hist lg"
  shows "offset_of sn lg = (if unat (first_sequence lg) \<le> unat sn \<and> unat sn \<le> length hist + 1
      then Some (of_nat (start_of hist (unat sn))) else None)"
proof -
  note I = log_invD [OF inv]
  have "lg_index lg (index_slot sn lg) = of_nat (start_of hist (unat sn))"
    if "unat (first_sequence lg) \<le> unat sn" "unat sn \<le> length hist"
    using I(13) [OF that] index_slot_mod [OF inv] by (metis of_nat_unat ucast_id)
  moreover have "end_offset lg = of_nat (start_of hist (length hist + 1))"
    using I(8) unfolding start_of_next by (metis of_nat_unat ucast_id)
  moreover have "sn = next_sequence lg \<longleftrightarrow> unat sn = length hist + 1" using I(7) by (simp add: word_unat_eq_iff)
  ultimately show ?thesis unfolding offset_of_def using I(7) by (auto simp: word_nat)
qed

subsection \<open>Appending\<close>

definition room :: "nat \<Rightarrow> byte list list \<Rightarrow> nat \<Rightarrow> nat \<Rightarrow> bool" where
  "room k hist len f \<longleftrightarrow> length (concat hist) + len - start_of hist f \<le> 2 ^ k \<and> length hist + 1 - f < 2 ^ (k - 5)"

lemma log_inv_first:
  assumes "log_inv k hist lg" "first_sequence lg \<le> f" "f \<le> next_sequence lg"
  shows "log_inv k hist (lg\<lparr>first_sequence := f\<rparr>)"
proof -
  have "start_of hist (unat (first_sequence lg)) \<le> start_of hist (unat f)" using assms(2) by (intro start_of_mono) (simp add: word_nat)
  then have "length (concat hist) - start_of hist (unat f) \<le> 2 ^ k" using log_invD(12) [OF assms(1)] by simp
  moreover have "unat (first_sequence lg) \<le> unat f" using assms(2) by (simp add: word_nat)
  moreover have "1 \<le> f" using log_invD(9) [OF assms(1)] assms(2) by simp
  moreover have "length hist + 1 - unat f \<le> 2 ^ (k - 5)" using log_invD(11) [OF assms(1)] \<open>unat (first_sequence lg) \<le> unat f\<close> by linarith
  ultimately show ?thesis using assms(1,3) unfolding log_inv_def by simp
qed

text \<open>The loop drops exactly the oldest messages that have to go.\<close>

lemma drop_oldest_spec:
  assumes "log_inv k hist lg" "length (concat hist) + len < 2 ^ 63" "len < 2 ^ k"
  obtains f where "drop_oldest (of_nat len) lg = lg\<lparr>first_sequence := f\<rparr>" "log_inv k hist (lg\<lparr>first_sequence := f\<rparr>)"
    "room k hist len (unat f)" "f = first_sequence lg \<or> \<not> room k hist len (unat f - 1)" "first_sequence lg \<le> f"
proof -
  have "\<exists>f. drop_oldest (of_nat len) lg = lg\<lparr>first_sequence := f\<rparr> \<and> log_inv k hist (lg\<lparr>first_sequence := f\<rparr>)
      \<and> room k hist len (unat f) \<and> (f = first_sequence lg \<or> \<not> room k hist len (unat f - 1)) \<and> first_sequence lg \<le> f"
    using assms
  proof (induction "of_nat len :: usize" lg rule: drop_oldest.induct)
    case (1 lg)
    note I = log_invD [OF "1.prems"(1)]
    let ?f = "unat (first_sequence lg)"
    have len: "unat (of_nat len :: u64) = len" using "1.prems"(2) by (intro unat_of_nat_small) simp
    have fn: "?f \<le> length hist + 1" using I(7,10) by (simp add: word_nat)
    have st: "start_of hist ?f \<le> length (concat hist)" by (rule start_of_le)
    have e: "unat (end_offset lg + of_nat len) = length (concat hist) + len"
      using "1.prems"(2) I(8) len by (subst unat_add_bounded) simp_all
    have sub: "unat (end_offset lg + of_nat len - lg_index lg (index_slot (first_sequence lg) lg)) = length (concat hist) + len - start_of hist ?f"
      if "first_sequence lg < next_sequence lg"
    proof -
      have "?f \<le> length hist" using that I(7) by (simp add: word_nat)
      then have "unat (lg_index lg (index_slot (first_sequence lg) lg)) = start_of hist ?f"
        using I(13) [of ?f] index_slot_mod [OF "1.prems"(1)] by simp
      then show ?thesis using e st by (simp add: unat_sub word_nat)
    qed
    have sq: "unat (next_sequence lg - first_sequence lg) = length hist + 1 - ?f" using I(7,10) by (simp add: unat_sub)
    have full: "(first_sequence lg < next_sequence lg \<and>
         (end_offset lg + of_nat len - lg_index lg (index_slot (first_sequence lg) lg) > lg_capacity lg \<or>
          next_sequence lg - first_sequence lg \<ge> lg_index_capacity lg)) \<longleftrightarrow> \<not> room k hist len ?f"
    proof (cases "first_sequence lg < next_sequence lg")
      case True
      then show ?thesis using sub [OF True] sq I(3,4) by (auto simp: room_def word_nat)
    next
      case False
      then have "first_sequence lg = next_sequence lg" using I(10) by simp
      then have "room k hist len ?f" using I(7) "1.prems"(3) start_of_next [of hist] by (simp add: room_def)
      then show ?thesis using False by simp
    qed
    show ?case
    proof (cases "room k hist len ?f")
      case True
      have "drop_oldest (of_nat len) lg = lg" by (subst drop_oldest.simps) (simp only: full True not_True_eq_False if_False)
      then show ?thesis using True "1.prems"(1) by (intro exI [of _ "first_sequence lg"]) simp
    next
      case False
      then have lt: "first_sequence lg < next_sequence lg" using full by simp
      have "unat (next_sequence lg) < 2 ^ 64" using unsigned_less [of "next_sequence lg"] by simp
      then have fs: "unat (first_sequence lg + 1) = Suc ?f" using lt by (intro unat_inc_bounded) (simp add: word_nat)
      let ?lg = "lg\<lparr>first_sequence := first_sequence lg + 1\<rparr>"
      have le: "first_sequence lg \<le> first_sequence lg + 1" "first_sequence lg + 1 \<le> next_sequence lg"
        using fs lt by (simp_all add: word_nat)
      have inv': "log_inv k hist ?lg" by (rule log_inv_first [OF "1.prems"(1) le])
      have "drop_oldest (of_nat len) lg = drop_oldest (of_nat len) ?lg" by (subst drop_oldest.simps) (simp only: full False not_False_eq_True if_True)
      moreover from "1.hyps" [OF _ inv' "1.prems"(2,3)] False full obtain f where f:
        "drop_oldest (of_nat len) ?lg = ?lg\<lparr>first_sequence := f\<rparr>" "log_inv k hist (?lg\<lparr>first_sequence := f\<rparr>)"
        "room k hist len (unat f)" "f = first_sequence lg + 1 \<or> \<not> room k hist len (unat f - 1)" "first_sequence lg + 1 \<le> f"
        by auto
      moreover have "\<not> room k hist len (unat f - 1)" using f(4) False fs by auto
      moreover have "first_sequence lg \<le> f" using f(5) le(1) by simp
      ultimately show ?thesis by (intro exI [of _ f]) simp
    qed
  qed
  then show thesis using that by blast
qed

text \<open>Two copies around the wrap point put a packet behind the end of the stream.\<close>

lemma ring_copy:
  assumes "length packet < c" "at = e mod c" "first = min (length packet) (c - at)"
    and g_def: "g = copy_bytes 0 (drop first packet) (copy_bytes at (take first packet) f)"
  shows "j < length packet \<Longrightarrow> g ((e + j) mod c) = packet ! j"
    "i < e \<Longrightarrow> e + length packet \<le> i + c \<Longrightarrow> g (i mod c) = f (i mod c)"
proof -
  have c: "0 < c" using assms(1) by simp
  have a: "at < c" using assms(2) c by simp
  have fl: "first \<le> length packet" using assms(3) by simp
  have g: "g p = (if p < length packet - first then packet ! (first + p)
      else if at \<le> p \<and> p < at + first then packet ! (p - at) else f p)" for p
    using fl by (auto simp: g_def copy_bytes_def)
  show "g ((e + j) mod c) = packet ! j" if j: "j < length packet"
  proof -
    have m: "(e + j) mod c = (at + j) mod c" using assms(2) by (simp add: mod_add_left_eq)
    show ?thesis
    proof (cases "at + j < c")
      case True
      then show ?thesis unfolding m g using j assms(1,3) a by (auto simp: min_def split: if_splits)
    next
      case False
      then have "(at + j) mod c = at + j - c" "first = c - at" using mod_once [OF a, of j] j assms(1,3) by simp_all
      moreover have "at + j - c < length packet - first" "first + (at + j - c) = j" using calculation False j a by linarith+
      ultimately show ?thesis unfolding m g by simp
    qed
  qed
  show "g (i mod c) = f (i mod c)" if i: "i < e" "e + length packet \<le> i + c"
  proof -
    define d where "d = e - i"
    have d: "0 < d" "d + length packet \<le> c" "e = i + d" using i by (simp_all add: d_def)
    have ic: "i mod c < c" using c by simp
    have "at = (i mod c + d) mod c" using assms(2) d(3) by (simp add: mod_add_left_eq)
    then have "at = (if i mod c + d < c then i mod c + d else i mod c + d - c)" using mod_once [OF ic, of d] d by simp
    note at = this
    have "\<not> i mod c < length packet - first \<and> \<not> (at \<le> i mod c \<and> i mod c < at + first)"
    proof (cases "i mod c + d < c")
      case True
      then have "at = i mod c + d" using at by simp
      then show ?thesis using assms(3) d True by (cases "length packet \<le> c - at") (simp_all add: min_def)
    next
      case False
      then have "at + c = i mod c + d" using at by simp
      moreover from this have "length packet \<le> c - at" using d ic by linarith
      then have "first = length packet" using assms(3) by simp
      ultimately show ?thesis using d by simp
    qed
    then show ?thesis unfolding g by auto
  qed
qed

lemma concat_snoc_nth: "i < length (concat hist) \<Longrightarrow> concat (hist @ [p]) ! i = concat hist ! i"
  "j < length p \<Longrightarrow> concat (hist @ [p]) ! (length (concat hist) + j) = p ! j"
  by (simp_all add: nth_append)

text \<open>The index ring keeps the retained messages apart from the new one.\<close>

lemma index_append:
  assumes inv: "log_inv k hist lg" and room: "room k hist len (unat (first_sequence lg))"
    and n: "unat (first_sequence lg) \<le> n" "n \<le> length hist + 1"
  shows "unat (((lg_index lg)(index_slot (next_sequence lg) lg := end_offset lg)) (n mod 2 ^ (k - 5))) = start_of hist n"
proof -
  note I = log_invD [OF inv]
  let ?m = "2 ^ (k - 5) :: nat"
  have slot: "index_slot (next_sequence lg) lg = (length hist + 1) mod ?m" using index_slot_mod [OF inv] I(7) by simp
  show ?thesis
  proof (cases "n = length hist + 1")
    case True
    then show ?thesis using I(8) slot start_of_next [of hist] by simp
  next
    case False
    then have nl: "n < length hist + 1" using n by simp
    have "length hist + 1 - unat (first_sequence lg) < ?m" using room by (simp add: room_def)
    then have d: "length hist + 1 - n < ?m" "0 < length hist + 1 - n" using n(1) nl by linarith+
    have "n mod ?m \<noteq> (length hist + 1) mod ?m"
    proof
      assume "n mod ?m = (length hist + 1) mod ?m"
      then have "?m dvd length hist + 1 - n" using nl by (metis less_imp_le mod_eq_dvd_iff_nat)
      then show False using d by (auto dest: dvd_imp_le)
    qed
    then show ?thesis using I(13) [of n] nl n(1) slot by simp
  qed
qed

text \<open>The byte ring keeps the window that ends with the new packet.\<close>

lemma bytes_append:
  assumes inv: "log_inv k hist lg" and small: "length packet < 2 ^ k"
    and at: "at = unat (end_offset lg AND (lg_capacity lg - 1))" and first: "first = min (length packet) (unat (lg_capacity lg) - at)"
    and i: "i < length (concat hist) + length packet" "length (concat hist) + length packet \<le> i + 2 ^ k"
  shows "copy_bytes 0 (drop first packet) (copy_bytes at (take first packet) (lg_bytes lg)) (i mod 2 ^ k) = concat (hist @ [packet]) ! i"
proof -
  note I = log_invD [OF inv]
  have at': "at = length (concat hist) mod 2 ^ k" unfolding at I(8) [symmetric] by (rule and_pow2_less_one [OF I(3)])
  have first': "first = min (length packet) (2 ^ k - at)" by (simp add: first I(3))
  note C = ring_copy [OF small at' first' refl, where f = "lg_bytes lg"]
  show ?thesis
  proof (cases "i < length (concat hist)")
    case True
    then show ?thesis using C(2) [OF True i(2)] I(14) [of i] i concat_snoc_nth(1) [OF True] by simp
  next
    case False
    then obtain j where j: "i = length (concat hist) + j" by (metis le_Suc_ex not_less)
    then show ?thesis using C(1) [of j] concat_snoc_nth(2) [of j packet hist] i(1) by simp
  qed
qed

lemma log_append_spec:
  assumes inv: "log_inv k hist lg" and small: "length (concat hist) + length packet < 2 ^ 63" "length packet < 2 ^ k" "length hist + 2 < 2 ^ 64"
  obtains lg' where "log_append packet lg = Some lg'" "log_inv k (hist @ [packet]) lg'"
    "room k hist (length packet) (unat (first_sequence lg'))"
    "first_sequence lg' = first_sequence lg \<or> \<not> room k hist (length packet) (unat (first_sequence lg') - 1)"
    "first_sequence lg \<le> first_sequence lg'"
proof -
  obtain f where f: "drop_oldest (of_nat (length packet)) lg = lg\<lparr>first_sequence := f\<rparr>" "log_inv k hist (lg\<lparr>first_sequence := f\<rparr>)"
    "room k hist (length packet) (unat f)" "f = first_sequence lg \<or> \<not> room k hist (length packet) (unat f - 1)" "first_sequence lg \<le> f"
    by (rule drop_oldest_spec [OF inv small(1,2)])
  define lg1 where "lg1 = lg\<lparr>first_sequence := f\<rparr>"
  have inv1: "log_inv k hist lg1" and f1: "first_sequence lg1 = f" using f(2) by (simp_all add: lg1_def)
  note I = log_invD [OF inv1]
  define at where "at = unat (end_offset lg1 AND (lg_capacity lg1 - 1))"
  define first where "first = min (length packet) (unat (lg_capacity lg1) - at)"
  define lg' where "lg' = lg1\<lparr> lg_index := (lg_index lg1)(index_slot (next_sequence lg1) lg1 := end_offset lg1),
    lg_bytes := copy_bytes 0 (drop first packet) (copy_bytes at (take first packet) (lg_bytes lg1)),
    end_offset := end_offset lg1 + of_nat (length packet), next_sequence := next_sequence lg1 + 1 \<rparr>"
  have u: "unat (of_nat (length packet) :: u64) = length packet" using small(1) by (intro unat_of_nat_small) simp
  have eo: "unat (end_offset lg1 + of_nat (length packet)) = length (concat hist) + length packet"
    using small(1) I(8) u by (subst unat_add_bounded) simp_all
  have ns: "unat (next_sequence lg1 + 1) = length hist + 2" using small(3) I(7) by (subst unat_inc_bounded) simp_all
  have fn: "unat f \<le> length hist + 1" using I(7,10) f1 by (simp add: word_nat)
  have st: "start_of (hist @ [packet]) n = start_of hist n" if "n \<le> length hist + 1" for n by (rule start_of_append [OF that])
  have "f \<le> next_sequence lg'" using fn ns by (simp add: lg'_def word_nat)
  then have "log_inv k (hist @ [packet]) lg'"
    unfolding log_inv_def using I(1-4,9) small(1,3) eo ns fn f(3) f1 index_append [OF inv1 f(3) [folded f1]] bytes_append [OF inv1 small(2) at_def first_def]
    by (auto simp: lg'_def st room_def)
  moreover have "\<not> of_nat (length packet) \<ge> lg_capacity lg" "\<not> length packet \<ge> 2 ^ 64"
    using small(1,2) u log_invD(3) [OF inv] by (simp_all add: word_nat)
  then have "log_append packet lg = Some lg'"
    by (simp add: log_append_def Let_def f(1) lg'_def lg1_def at_def first_def)
  moreover have "first_sequence lg' = f" by (simp add: lg'_def f1)
  ultimately show thesis using that f by simp
qed

subsection \<open>Replay\<close>

text \<open>
  Reading everything from an offset on, chunk by chunk, the way the outbound thread does for a peer that takes
  every chunk whole. The number of chunks is bounded by fuel.
\<close>

fun replay :: "nat \<Rightarrow> u64 \<Rightarrow> SessionLog \<Rightarrow> byte list option" where
  "replay fuel cursor lg =
     (if cursor < end_offset lg then
        case fuel of
          0 \<Rightarrow> None
        | Suc n \<Rightarrow>
            (case contiguous_from cursor lg of
               None \<Rightarrow> None
             | Some chunk \<Rightarrow> map_option (\<lambda>bs. chunk @ bs) (replay n (cursor + of_nat (length chunk)) lg))
      else Some [])"

declare replay.simps [simp del]

lemma contiguous_from_spec:
  assumes inv: "log_inv k hist lg" and o: "unat off \<le> length (concat hist)" "length (concat hist) \<le> unat off + 2 ^ k"
    and n: "n = min (length (concat hist) - unat off) (2 ^ k - unat off mod 2 ^ k)"
  shows "contiguous_from off lg = Some (take n (drop (unat off) (concat hist)))"
proof -
  note I = log_invD [OF inv]
  have le: "off \<le> end_offset lg" using o(1) I(8) by (simp add: word_nat)
  then have d: "unat (end_offset lg - off) = length (concat hist) - unat off" using I(8) by (simp add: unat_sub)
  have at: "unat (off AND (lg_capacity lg - 1)) = unat off mod 2 ^ k" by (rule and_pow2_less_one [OF I(3)])
  let ?at = "unat off mod 2 ^ k"
  have c: "contiguous_from off lg = Some (map (lg_bytes lg) [?at..<?at + n])"
    using le d o I(3) n by (simp add: contiguous_from_def Let_def at word_nat)
  have nl: "n \<le> length (concat hist) - unat off" using n by simp
  have "map (lg_bytes lg) [?at..<?at + n] = take n (drop (unat off) (concat hist))"
  proof (rule nth_equalityI)
    show "length (map (lg_bytes lg) [?at..<?at + n]) = length (take n (drop (unat off) (concat hist)))" using nl by simp
    fix i assume "i < length (map (lg_bytes lg) [?at..<?at + n])"
    then have i: "i < n" by simp
    then have "i < 2 ^ k - ?at" using n by simp
    then have "?at + i < 2 ^ k" by linarith
    then have m: "?at + i = (unat off + i) mod 2 ^ k" using mod_add_left_eq [of "unat off" "2 ^ k" i] by simp
    have "lg_bytes lg ((unat off + i) mod 2 ^ k) = concat hist ! (unat off + i)" using I(14) [of "unat off + i"] o(2) i nl by simp
    then show "map (lg_bytes lg) [?at..<?at + n] ! i = take n (drop (unat off) (concat hist)) ! i" using i nl m by simp
  qed
  then show ?thesis using c by simp
qed

text \<open>Two chunks are always enough: up to the wrap point, and from the start of the ring.\<close>

lemma replay_spec:
  assumes inv: "log_inv k hist lg" and o: "unat off \<le> length (concat hist)" "length (concat hist) \<le> unat off + 2 ^ k"
  shows "replay 2 off lg = Some (drop (unat off) (concat hist))"
proof -
  note I = log_invD [OF inv]
  let ?s = "concat hist" let ?m = "2 ^ k :: nat" let ?at = "unat off mod ?m"
  define n where "n = min (length ?s - unat off) (?m - ?at)"
  note c1 = contiguous_from_spec [OF inv o n_def]
  define off2 where "off2 = off + of_nat n"
  have at: "?at < ?m" by simp
  have nl: "n \<le> length ?s - unat off" by (simp add: n_def)
  have un: "unat (of_nat n :: u64) = n" using nl I(6) by (intro unat_of_nat_small) simp
  have u2: "unat off2 = unat off + n" unfolding off2_def using un nl o(1) I(6) by (subst unat_add_bounded) simp_all
  have e: "cur < end_offset lg \<longleftrightarrow> unat cur < length ?s" for cur using I(8) by (simp add: word_nat)
  have r2: "replay (Suc 0) off2 lg = Some (drop (unat off2) ?s)"
  proof (cases "unat off2 < length ?s")
    case False
    then show ?thesis using e by (subst replay.simps) simp
  next
    case True
    then have n: "n = ?m - ?at" using u2 by (simp add: n_def min_def split: if_splits)
    have "unat off2 mod ?m = (?at + n) mod ?m" using u2 by (simp add: mod_add_left_eq)
    also have "\<dots> = 0" using n at by simp
    finally have z: "unat off2 mod ?m = 0" .
    have w: "length ?s \<le> unat off2 + ?m" using o(2) u2 by simp
    define n2 where "n2 = min (length ?s - unat off2) (?m - unat off2 mod ?m)"
    have n2: "n2 = length ?s - unat off2" using z w by (simp add: n2_def min_def)
    have c2: "contiguous_from off2 lg = Some (drop (unat off2) ?s)"
      using contiguous_from_spec [OF inv _ w n2_def] True n2 by simp
    have s2: "unat off2 + n2 = length ?s" using n2 True by simp
    have un2: "unat (of_nat n2 :: u64) = n2" using s2 I(6) by (intro unat_of_nat_small) simp
    have "unat off2 + unat (of_nat n2 :: u64) < 2 ^ LENGTH(64)" unfolding un2 s2 using I(6) by simp
    then have "unat (off2 + of_nat n2) = length ?s" using unat_add_bounded [of off2 "of_nat n2"] un2 s2 by simp
    then have "\<not> off2 + of_nat n2 < end_offset lg" using e by simp
    then have "replay 0 (off2 + of_nat n2) lg = Some []" by (subst replay.simps) simp
    then show ?thesis using True c2 e n2 by (subst replay.simps) simp
  qed
  show ?thesis
  proof (cases "unat off < length ?s")
    case False
    then show ?thesis using o(1) e by (subst replay.simps) simp
  next
    case True
    have len: "length (take n (drop (unat off) ?s)) = n" using nl by simp
    have "drop (unat off) ?s = take n (drop (unat off) ?s) @ drop (unat off2) ?s" by (simp add: u2 add.commute flip: drop_drop)
    then show ?thesis using True c1 e r2 len by (subst replay.simps) (simp add: eval_nat_numeral off2_def)
  qed
qed

text \<open>What a client that asks for message \<open>n\<close> gets: that message and all later ones, byte for byte.\<close>

lemma concat_drop: "concat (drop (n - 1) hist) = drop (start_of hist n) (concat hist)"
proof -
  have "concat hist = concat (take (n - 1) hist) @ concat (drop (n - 1) hist)" by (metis append_take_drop_id concat_append)
  then show ?thesis unfolding start_of_def by (metis append_eq_conv_conj)
qed

lemma replay_from_sequence:
  assumes inv: "log_inv k hist lg" and "offset_of sn lg = Some off"
  shows "replay 2 off lg = Some (concat (drop (unat sn - 1) hist))"
proof -
  note I = log_invD [OF inv]
  have n: "unat (first_sequence lg) \<le> unat sn" and off: "off = of_nat (start_of hist (unat sn))"
    using assms(2) offset_of_spec [OF inv] by (auto split: if_splits)
  have u: "unat off = start_of hist (unat sn)"
    unfolding off using start_of_le [of hist "unat sn"] I(6) by (intro unat_of_nat_small) simp
  have "start_of hist (unat (first_sequence lg)) \<le> start_of hist (unat sn)" by (rule start_of_mono [OF n])
  then have "length (concat hist) \<le> unat off + 2 ^ k" using I(12) u by linarith
  from replay_spec [OF inv _ this] show ?thesis using u start_of_le [of hist "unat sn"] concat_drop [of "unat sn" hist] by simp
qed

end
