(* ===== verification/Order_Entry.thy ===== *)
theory Order_Entry
  imports Validation
begin

text \<open>
  OUCH order entry (\<open>server/include/order_entry.hpp\<close>, \<open>server/src/order_entry.cpp\<close>): user reference
  numbers, validation and the assignment of order ids. The two hash maps are partial functions.
  Dereferencing an empty \<open>std::optional\<close> is the \<^term>\<open>None\<close> result.
\<close>

record OrderRecord =
  or_client_id :: ClientId
  or_user_ref_num :: u32
  or_quantity :: u32
  or_price :: u64
  or_symbol :: "byte list"
  or_cl_ord_id :: "byte list"
  or_side :: byte
  or_time_in_force :: byte
  or_display :: byte
  or_capacity :: byte
  or_intermarket_sweep_eligibility :: byte
  or_cross_type :: byte

datatype GatewayNoteKind = ORDER_ENTERED | ORDER_REPLACING | NOTE_REJECTED

record GatewayNote =
  gn_kind :: GatewayNoteKind
  gn_reject_reason :: u16
  gn_order_id :: OrderId
  gn_record :: OrderRecord

record Translation =
  tr_note :: "GatewayNote option"
  tr_request :: "EngineRequest option"

definition no_translation :: Translation where
  "no_translation = \<lparr> tr_note = None, tr_request = None \<rparr>"

record EntryOrder =
  lo_order_id :: OrderId
  lo_record :: OrderRecord

record OrderEntry =
  ent_band :: PriceBand
  ent_next_order_id :: OrderId
  ent_clients :: "ClientId \<Rightarrow> u32 option"
  ent_orders :: "u64 \<Rightarrow> EntryOrder option"

definition new_OrderEntry :: "PriceBand \<Rightarrow> OrderEntry" where
  "new_OrderEntry band = \<lparr> ent_band = band, ent_next_order_id = 1, ent_clients = Map.empty, ent_orders = Map.empty \<rparr>"

definition entry_key :: "ClientId \<Rightarrow> u32 \<Rightarrow> u64" where
  "entry_key client_id user_ref_num = push_bit 32 (ucast client_id) OR ucast user_ref_num"

text \<open>\<open>clients_[client_id]\<close>: the client's last reference number, 0 for a client seen for the first time.\<close>

definition last_user_ref_num :: "ClientId \<Rightarrow> OrderEntry \<Rightarrow> u32" where
  "last_user_ref_num client_id ent = (case ent_clients ent client_id of None \<Rightarrow> 0 | Some n \<Rightarrow> n)"

definition set_user_ref_num :: "ClientId \<Rightarrow> u32 \<Rightarrow> OrderEntry \<Rightarrow> OrderEntry" where
  "set_user_ref_num client_id n ent = ent\<lparr>ent_clients := (ent_clients ent)(client_id \<mapsto> n)\<rparr>"

definition add_order_entry :: "u64 \<Rightarrow> EntryOrder \<Rightarrow> OrderEntry \<Rightarrow> OrderEntry" where
  "add_order_entry key lo ent = ent\<lparr>ent_next_order_id := ent_next_order_id ent + 1,
     ent_orders := (if ent_orders ent key = None then (ent_orders ent)(key \<mapsto> lo) else ent_orders ent)\<rparr>"

definition enter_record :: "ClientId \<Rightarrow> OuchEnterOrder \<Rightarrow> OrderRecord" where
  "enter_record client_id msg = \<lparr> or_client_id = client_id, or_user_ref_num = eo_user_ref_num msg,
     or_quantity = eo_quantity msg, or_price = eo_price msg, or_symbol = eo_symbol msg,
     or_cl_ord_id = eo_cl_ord_id msg, or_side = eo_side msg, or_time_in_force = eo_time_in_force msg,
     or_display = eo_display msg, or_capacity = eo_capacity msg,
     or_intermarket_sweep_eligibility = eo_intermarket_sweep_eligibility msg, or_cross_type = eo_cross_type msg \<rparr>"

definition ent_enter :: "ClientId \<Rightarrow> OuchEnterOrder \<Rightarrow> OrderEntry \<Rightarrow> Translation \<times> OrderEntry" where
  "ent_enter client_id msg ent =
     (let seen = last_user_ref_num client_id ent
      in if eo_user_ref_num msg \<le> seen then (no_translation, set_user_ref_num client_id seen ent)
         else
           let ent1 = set_user_ref_num client_id (eo_user_ref_num msg) ent;
               record = enter_record client_id msg;
               check = check_enter msg (ent_band ent1)
           in if ec_reject_reason check \<noteq> 0 then
                (\<lparr> tr_note = Some \<lparr> gn_kind = NOTE_REJECTED, gn_reject_reason = ec_reject_reason check,
                     gn_order_id = 0, gn_record = record \<rparr>, tr_request = None \<rparr>, ent1)
              else
                let order_id = ent_next_order_id ent1
                in (\<lparr> tr_note = Some \<lparr> gn_kind = ORDER_ENTERED, gn_reject_reason = 0, gn_order_id = order_id, gn_record = record \<rparr>,
                      tr_request = Some \<lparr> rq_read_begin_tsc = 0, rq_recv_tsc = 0, rq_server_push_tsc = 0,
                        rq_order_id = order_id, rq_new_order_id = 0, rq_client_id = client_id,
                        rq_price = ec_price check, rq_quantity = eo_quantity msg, rq_type = NEW,
                        rq_side = ec_side check, rq_order_type = ec_order_type check,
                        rq_time_in_force = ec_time_in_force check \<rparr> \<rparr>,
                    add_order_entry (entry_key client_id (eo_user_ref_num msg))
                      \<lparr> lo_order_id = order_id, lo_record = record \<rparr> ent1))"

definition cancel_request :: "ClientId \<Rightarrow> OrderId \<Rightarrow> Quantity \<Rightarrow> Side \<Rightarrow> EngineRequest" where
  "cancel_request client_id order_id quantity side = \<lparr> rq_read_begin_tsc = 0, rq_recv_tsc = 0, rq_server_push_tsc = 0,
     rq_order_id = order_id, rq_new_order_id = 0, rq_client_id = client_id, rq_price = 0, rq_quantity = quantity,
     rq_type = CANCEL, rq_side = side, rq_order_type = LIMIT, rq_time_in_force = DAY \<rparr>"

definition ent_cancel :: "ClientId \<Rightarrow> OuchCancelOrder \<Rightarrow> OrderEntry \<Rightarrow> Translation option" where
  "ent_cancel client_id msg ent =
     (case ent_orders ent (entry_key client_id (xo_user_ref_num msg)) of
        None \<Rightarrow> Some no_translation
      | Some order \<Rightarrow>
          do { side \<leftarrow> to_engine_side (or_side (lo_record order));
               Some \<lparr> tr_note = None, tr_request = Some (cancel_request client_id (lo_order_id order) (xo_quantity msg) side) \<rparr> })"

definition replace_record :: "OuchReplaceOrder \<Rightarrow> OrderRecord \<Rightarrow> OrderRecord" where
  "replace_record msg orig_record = orig_record\<lparr> or_user_ref_num := rp_user_ref_num msg, or_quantity := rp_quantity msg,
     or_price := rp_price msg, or_cl_ord_id := rp_cl_ord_id msg, or_time_in_force := rp_time_in_force msg,
     or_display := rp_display msg, or_intermarket_sweep_eligibility := rp_intermarket_sweep_eligibility msg \<rparr>"

definition ent_replace :: "ClientId \<Rightarrow> OuchReplaceOrder \<Rightarrow> OrderEntry \<Rightarrow> (Translation \<times> OrderEntry) option" where
  "ent_replace client_id msg ent =
     (case ent_orders ent (entry_key client_id (rp_orig_user_ref_num msg)) of
        None \<Rightarrow> Some (no_translation, ent)
      | Some orig \<Rightarrow>
          let seen = last_user_ref_num client_id ent; ent1 = set_user_ref_num client_id seen ent
          in if rp_user_ref_num msg \<le> seen then Some (no_translation, ent1)
             else do {
               side \<leftarrow> to_engine_side (or_side (lo_record orig));
               let check = check_replace msg (or_side (lo_record orig)) (ent_band ent1);
               if \<not> rc_valid check then
                 Some (\<lparr> tr_note = None, tr_request = Some (cancel_request client_id (lo_order_id orig) 0 side) \<rparr>, ent1)
               else
                 let ent2 = set_user_ref_num client_id (rp_user_ref_num msg) ent1;
                     record = replace_record msg (lo_record orig);
                     new_order_id = ent_next_order_id ent2
                 in Some (\<lparr> tr_note = Some \<lparr> gn_kind = ORDER_REPLACING, gn_reject_reason = 0, gn_order_id = new_order_id, gn_record = record \<rparr>,
                            tr_request = Some \<lparr> rq_read_begin_tsc = 0, rq_recv_tsc = 0, rq_server_push_tsc = 0,
                              rq_order_id = lo_order_id orig, rq_new_order_id = new_order_id, rq_client_id = client_id,
                              rq_price = rc_price check, rq_quantity = rp_quantity msg, rq_type = REPLACE,
                              rq_side = side, rq_order_type = LIMIT, rq_time_in_force = rc_time_in_force check \<rparr> \<rparr>,
                          add_order_entry (entry_key client_id (rp_user_ref_num msg))
                            \<lparr> lo_order_id = new_order_id, lo_record = record \<rparr> ent2) })"

definition translate :: "ClientId \<Rightarrow> OuchInboundFrame \<Rightarrow> OrderEntry \<Rightarrow> (Translation \<times> OrderEntry) option" where
  "translate client_id msg ent =
     (case msg of
        EnterOrder m \<Rightarrow> Some (ent_enter client_id m ent)
      | CancelOrder m \<Rightarrow> map_option (\<lambda>t. (t, ent)) (ent_cancel client_id m ent)
      | ReplaceOrder m \<Rightarrow> ent_replace client_id m ent
      | InboundNone \<Rightarrow> Some (no_translation, ent))"

subsection \<open>Keys\<close>

lemma entry_key_parts:
  "unat (entry_key c u) = unat c * 2 ^ 32 + unat u"
proof -
  have c: "unat (ucast c :: u64) = unat c" and u: "unat (ucast u :: u64) = unat u" by (simp_all add: unat_ucast_u64)
  have lt: "unat c < 2 ^ 32" "unat u < 2 ^ 32" using unsigned_less [of c] unsigned_less [of u] by simp_all
  have p: "unat (push_bit 32 (ucast c :: u64)) = unat c * 2 ^ 32"
    using lt c by (simp add: push_bit_eq_mult unat_word_ariths)
  have sum: "push_bit 32 (ucast c :: u64) OR ucast u = push_bit 32 (ucast c) + ucast u"
  proof (rule disjunctive_add [symmetric])
    fix n
    show "\<not> bit (push_bit 32 (ucast c :: u64)) n \<or> \<not> bit (ucast u :: u64) n"
      by (auto simp: bit_push_bit_iff bit_ucast_iff dest: bit_imp_le_length)
  qed
  show ?thesis unfolding entry_key_def sum using p u lt by (subst unat_add_bounded) simp_all
qed

lemma entry_key_inject [simp]: "entry_key c u = entry_key c' u' \<longleftrightarrow> c = c' \<and> u = u'"
proof
  assume "entry_key c u = entry_key c' u'"
  then have e: "unat c * 2 ^ 32 + unat u = unat c' * 2 ^ 32 + unat u'" using entry_key_parts by metis
  have lt: "unat u < 2 ^ 32" "unat u' < 2 ^ 32" using unsigned_less [of u] unsigned_less [of u'] by simp_all
  have "unat c = unat c'" using arg_cong [OF e, of "\<lambda>x. x div 2 ^ 32"] lt by simp
  then show "c = c' \<and> u = u'" using e by (simp add: word_unat_eq_iff)
qed simp

subsection \<open>Invariant\<close>

definition entry_order_ok :: "OrderEntry \<Rightarrow> u64 \<Rightarrow> EntryOrder \<Rightarrow> bool" where
  "entry_order_ok ent key lo \<longleftrightarrow>
     key = entry_key (or_client_id (lo_record lo)) (or_user_ref_num (lo_record lo))
     \<and> to_engine_side (or_side (lo_record lo)) \<noteq> None
     \<and> 0 < lo_order_id lo \<and> lo_order_id lo < ent_next_order_id ent
     \<and> or_user_ref_num (lo_record lo) \<le> last_user_ref_num (or_client_id (lo_record lo)) ent"

definition entry_inv :: "OrderEntry \<Rightarrow> bool" where
  "entry_inv ent \<longleftrightarrow> 0 < ent_next_order_id ent
     \<and> (\<forall>key lo. ent_orders ent key = Some lo \<longrightarrow> entry_order_ok ent key lo)
     \<and> (\<forall>key key' lo lo'. ent_orders ent key = Some lo \<and> ent_orders ent key' = Some lo' \<and> lo_order_id lo = lo_order_id lo' \<longrightarrow> key = key')"

lemma new_OrderEntry_inv: "entry_inv (new_OrderEntry band)"
  by (simp add: entry_inv_def new_OrderEntry_def)

lemma set_user_ref_num_sel [simp]:
  "ent_band (set_user_ref_num c n ent) = ent_band ent" "ent_orders (set_user_ref_num c n ent) = ent_orders ent"
  "ent_next_order_id (set_user_ref_num c n ent) = ent_next_order_id ent"
  "last_user_ref_num c' (set_user_ref_num c n ent) = (if c' = c then n else last_user_ref_num c' ent)"
  by (simp_all add: set_user_ref_num_def last_user_ref_num_def)

lemma set_user_ref_num_inv:
  assumes "entry_inv ent" "last_user_ref_num c ent \<le> n"
  shows "entry_inv (set_user_ref_num c n ent)"
  using assms unfolding entry_inv_def entry_order_ok_def by (fastforce intro: order_trans)

lemma entry_key_free:
  assumes "entry_inv ent" "last_user_ref_num c ent < n"
  shows "ent_orders ent (entry_key c n) = None"
proof (rule ccontr)
  assume "ent_orders ent (entry_key c n) \<noteq> None"
  then obtain lo where "ent_orders ent (entry_key c n) = Some lo" by blast
  then have "entry_order_ok ent (entry_key c n) lo" using assms(1) by (simp add: entry_inv_def)
  then show False using assms(2) by (auto simp: entry_order_ok_def)
qed

text \<open>Adding an order under a reference number above the client's last one.\<close>

lemma add_order_entry_inv:
  assumes inv: "entry_inv ent" and next1: "ent_next_order_id ent + 1 \<noteq> 0"
    and n: "last_user_ref_num c ent < n" and r: "or_client_id rec = c" "or_user_ref_num rec = n" "to_engine_side (or_side rec) \<noteq> None"
  defines "ent1 \<equiv> set_user_ref_num c n ent" and "lo \<equiv> \<lparr> lo_order_id = ent_next_order_id ent, lo_record = rec \<rparr>"
  shows "entry_inv (add_order_entry (entry_key c n) lo ent1)"
    "ent_orders (add_order_entry (entry_key c n) lo ent1) = (ent_orders ent)(entry_key c n \<mapsto> lo)"
proof -
  have inv1: "entry_inv ent1" unfolding ent1_def using n by (intro set_user_ref_num_inv [OF inv]) simp
  have free: "ent_orders ent (entry_key c n) = None" by (rule entry_key_free [OF inv n])
  show o: "ent_orders (add_order_entry (entry_key c n) lo ent1) = (ent_orders ent)(entry_key c n \<mapsto> lo)"
    using free by (simp add: add_order_entry_def ent1_def)
  let ?e = "add_order_entry (entry_key c n) lo ent1"
  have nx: "ent_next_order_id ?e = ent_next_order_id ent + 1" "\<And>c'. last_user_ref_num c' ?e = last_user_ref_num c' ent1"
    by (simp_all add: add_order_entry_def ent1_def last_user_ref_num_def)
  have grow: "x < ent_next_order_id ent + 1 \<longleftrightarrow> x \<le> ent_next_order_id ent" for x
    using unatSuc [of "ent_next_order_id ent"] next1 by (auto simp: word_nat add.commute)
  have old: "entry_order_ok ?e key x" if "ent_orders ent key = Some x" for key x
  proof -
    have "entry_order_ok ent1 key x" using inv1 that by (simp add: entry_inv_def ent1_def)
    then show ?thesis unfolding entry_order_ok_def nx grow by (auto simp: ent1_def)
  qed
  have new: "entry_order_ok ?e (entry_key c n) lo"
    using inv r unfolding entry_order_ok_def nx grow by (simp add: lo_def ent1_def entry_inv_def)
  have fresh: "lo_order_id lo \<noteq> lo_order_id x" if "ent_orders ent key = Some x" for key x
    using inv that by (fastforce simp: entry_inv_def entry_order_ok_def lo_def)
  have "key = key'" if "ent_orders ?e key = Some x" "ent_orders ?e key' = Some x'" "lo_order_id x = lo_order_id x'" for key key' x x'
    using that inv fresh [of key x] fresh [of key' x'] unfolding o entry_inv_def by (auto split: if_splits)
  moreover have "entry_order_ok ?e key x" if "ent_orders ?e key = Some x" for key x
    using that old new unfolding o by (auto split: if_splits)
  ultimately show "entry_inv ?e" unfolding entry_inv_def nx using next1 by (simp add: word_gt_0)
qed

subsection \<open>What the operations do\<close>

text \<open>Requests that reach the engine are in its price band, and name orders of their own client.\<close>

definition request_in_band :: "PriceBand \<Rightarrow> EngineRequest \<Rightarrow> bool" where
  "request_in_band band req \<longleftrightarrow> (case rq_type req of
       NEW \<Rightarrow> rq_order_type req = LIMIT \<longrightarrow> band_min band \<le> rq_price req \<and> rq_price req \<le> band_max band
     | CANCEL \<Rightarrow> True
     | REPLACE \<Rightarrow> band_min band \<le> rq_price req \<and> rq_price req \<le> band_max band)"

definition owns :: "OrderEntry \<Rightarrow> ClientId \<Rightarrow> OrderId \<Rightarrow> bool" where
  "owns ent client_id oid \<longleftrightarrow> (\<exists>u lo. ent_orders ent (entry_key client_id u) = Some lo \<and> lo_order_id lo = oid)"

lemma owns_below: "entry_inv ent \<Longrightarrow> owns ent c oid \<Longrightarrow> oid < ent_next_order_id ent"
  by (auto simp: owns_def entry_inv_def entry_order_ok_def)

definition translated :: "ClientId \<Rightarrow> OrderEntry \<Rightarrow> Translation \<Rightarrow> OrderEntry \<Rightarrow> bool" where
  "translated c ent t ent' \<longleftrightarrow> entry_inv ent' \<and> ent_band ent' = ent_band ent
     \<and> (\<forall>c' oid. owns ent c' oid \<longrightarrow> owns ent' c' oid)
     \<and> (\<forall>req. tr_request t = Some req \<longrightarrow> rq_client_id req = c \<and> request_in_band (ent_band ent) req
          \<and> owns ent' c (rq_order_id req) \<and> (rq_type req = REPLACE \<longrightarrow> owns ent' c (rq_new_order_id req)))
     \<and> (case tr_request t of
          None \<Rightarrow> ent_next_order_id ent' = ent_next_order_id ent \<and> pred_option (\<lambda>n. gn_kind n = NOTE_REJECTED) (tr_note t)
        | Some req \<Rightarrow> (case rq_type req of
            NEW \<Rightarrow> rq_order_id req = ent_next_order_id ent \<and> ent_next_order_id ent' = ent_next_order_id ent + 1
              \<and> (\<exists>n. tr_note t = Some n \<and> gn_kind n = ORDER_ENTERED \<and> gn_order_id n = rq_order_id req \<and> or_client_id (gn_record n) = c)
          | CANCEL \<Rightarrow> tr_note t = None \<and> ent_next_order_id ent' = ent_next_order_id ent
          | REPLACE \<Rightarrow> rq_new_order_id req = ent_next_order_id ent \<and> ent_next_order_id ent' = ent_next_order_id ent + 1
              \<and> (\<exists>n. tr_note t = Some n \<and> gn_kind n = ORDER_REPLACING \<and> gn_order_id n = rq_new_order_id req \<and> or_client_id (gn_record n) = c)))"

lemma translated_nothing:
  assumes "entry_inv ent'" "ent_band ent' = ent_band ent" "ent_orders ent' = ent_orders ent" "ent_next_order_id ent' = ent_next_order_id ent" "tr_request t = None"
    and "pred_option (\<lambda>n. gn_kind n = NOTE_REJECTED) (tr_note t)"
  shows "translated c ent t ent'"
  using assms by (simp add: translated_def owns_def)

lemma owns_added:
  assumes "ent_orders ent' = (ent_orders ent)(entry_key c n \<mapsto> lo)" "ent_orders ent (entry_key c n) = None"
  shows "owns ent' c (lo_order_id lo)" "owns ent c' oid \<Longrightarrow> owns ent' c' oid"
proof -
  show "owns ent' c (lo_order_id lo)" using assms by (auto simp: owns_def)
  assume "owns ent c' oid"
  then obtain u x where "ent_orders ent (entry_key c' u) = Some x" "lo_order_id x = oid" by (auto simp: owns_def)
  moreover from this have "entry_key c' u \<noteq> entry_key c n" using assms(2) by auto
  ultimately have "ent_orders ent' (entry_key c' u) = Some x" using assms(1) by auto
  then show "owns ent' c' oid" using \<open>lo_order_id x = oid\<close> by (auto simp: owns_def)
qed

lemma enter_translated:
  assumes inv: "entry_inv ent" and nx: "ent_next_order_id ent + 1 \<noteq> 0"
  shows "translated c ent (fst (ent_enter c m ent)) (snd (ent_enter c m ent))"
proof (cases "eo_user_ref_num m \<le> last_user_ref_num c ent")
  case True
  then have e: "ent_enter c m ent = (no_translation, set_user_ref_num c (last_user_ref_num c ent) ent)" by (simp add: ent_enter_def Let_def)
  show ?thesis unfolding e by (rule translated_nothing) (simp_all add: set_user_ref_num_inv [OF inv] no_translation_def)
next
  case False
  let ?n = "eo_user_ref_num m" let ?chk = "check_enter m (ent_band ent)" let ?rec = "enter_record c m"
  have lt: "last_user_ref_num c ent < ?n" using False by simp
  show ?thesis
  proof (cases "ec_reject_reason ?chk = 0")
    case rej: False
    have inv1: "entry_inv (set_user_ref_num c ?n ent)" using lt by (intro set_user_ref_num_inv [OF inv]) simp
    show ?thesis using False rej by (intro translated_nothing) (simp_all add: ent_enter_def Let_def inv1)
  next
    case True
    note V = check_enter_accepted [OF True]
    let ?lo = "\<lparr> lo_order_id = ent_next_order_id ent, lo_record = ?rec \<rparr>"
    let ?ent = "add_order_entry (entry_key c ?n) ?lo (set_user_ref_num c ?n ent)"
    have A: "entry_inv ?ent" "ent_orders ?ent = (ent_orders ent)(entry_key c ?n \<mapsto> ?lo)"
      by (rule add_order_entry_inv [OF inv nx lt]; simp add: enter_record_def V(1))+
    note O = owns_added [OF A(2) entry_key_free [OF inv lt]]
    have band: "band_min (ent_band ent) \<le> ec_price ?chk \<and> ec_price ?chk \<le> band_max (ent_band ent)" if "ec_order_type ?chk = LIMIT"
      using to_engine_price_limit [OF V(3)] that by simp
    have sel: "ent_band ?ent = ent_band ent" "ent_next_order_id ?ent = ent_next_order_id ent + 1" by (simp_all add: add_order_entry_def)
    show ?thesis using False True A(1) O band sel by (simp add: ent_enter_def Let_def translated_def request_in_band_def enter_record_def)
  qed
qed

lemma entry_order_found:
  assumes "entry_inv ent" "ent_orders ent (entry_key c u) = Some lo"
  obtains side where "to_engine_side (or_side (lo_record lo)) = Some side" "or_client_id (lo_record lo) = c" "owns ent c (lo_order_id lo)"
proof -
  have "entry_order_ok ent (entry_key c u) lo" using assms by (simp add: entry_inv_def)
  moreover have "owns ent c (lo_order_id lo)" using assms(2) by (auto simp: owns_def)
  ultimately show thesis using that by (auto simp: entry_order_ok_def)
qed

lemma cancel_translated:
  assumes inv: "entry_inv ent"
  obtains t where "ent_cancel c m ent = Some t" "translated c ent t ent"
proof (cases "ent_orders ent (entry_key c (xo_user_ref_num m))")
  case None
  then show thesis using inv by (intro that [of no_translation]) (simp_all add: ent_cancel_def translated_nothing no_translation_def)
next
  case (Some lo)
  obtain side where "to_engine_side (or_side (lo_record lo)) = Some side" "owns ent c (lo_order_id lo)"
    by (rule entry_order_found [OF inv Some])
  then show thesis using inv Some
    by (intro that [of "\<lparr> tr_note = None, tr_request = Some (cancel_request c (lo_order_id lo) (xo_quantity m) side) \<rparr>"])
      (simp_all add: ent_cancel_def translated_def cancel_request_def request_in_band_def)
qed

lemma replace_translated:
  assumes inv: "entry_inv ent" and nx: "ent_next_order_id ent + 1 \<noteq> 0"
  obtains t ent' where "ent_replace c m ent = Some (t, ent')" "translated c ent t ent'"
proof (cases "ent_orders ent (entry_key c (rp_orig_user_ref_num m))")
  case None
  then show thesis using inv by (intro that [of no_translation ent]) (simp_all add: ent_replace_def translated_nothing no_translation_def)
next
  case (Some lo)
  obtain side where side: "to_engine_side (or_side (lo_record lo)) = Some side" "or_client_id (lo_record lo) = c" "owns ent c (lo_order_id lo)"
    by (rule entry_order_found [OF inv Some])
  let ?seen = "last_user_ref_num c ent" let ?n = "rp_user_ref_num m" let ?ent1 = "set_user_ref_num c ?seen ent"
  let ?chk = "check_replace m (or_side (lo_record lo)) (ent_band ent)"
  have inv1: "entry_inv ?ent1" by (simp add: set_user_ref_num_inv [OF inv])
  have own1: "owns ?ent1 = owns ent" by (simp add: owns_def fun_eq_iff)
  show thesis
  proof (cases "?n \<le> ?seen")
    case True
    then show thesis using inv1 Some by (intro that [of no_translation ?ent1]) (simp_all add: ent_replace_def Let_def translated_nothing no_translation_def)
  next
    case False
    then have lt: "last_user_ref_num c ent < ?n" by simp
    show thesis
    proof (cases "rc_valid ?chk")
      case invalid: False
      show thesis
        by (rule that [of "\<lparr> tr_note = None, tr_request = Some (cancel_request c (lo_order_id lo) 0 side) \<rparr>" ?ent1])
          (use False invalid Some side inv1 in \<open>simp_all add: ent_replace_def Let_def translated_def cancel_request_def request_in_band_def own1\<close>)
    next
      case True
      let ?lo = "\<lparr> lo_order_id = ent_next_order_id ent, lo_record = replace_record m (lo_record lo) \<rparr>"
      let ?ent = "add_order_entry (entry_key c ?n) ?lo (set_user_ref_num c ?n ?ent1)"
      have twice: "set_user_ref_num c ?n ?ent1 = set_user_ref_num c ?n ent" by (simp add: set_user_ref_num_def)
      have A: "entry_inv ?ent" "ent_orders ?ent = (ent_orders ent)(entry_key c ?n \<mapsto> ?lo)"
        unfolding twice by (rule add_order_entry_inv [OF inv nx lt]; simp add: replace_record_def side)+
      note O = owns_added [OF A(2) entry_key_free [OF inv lt]]
      have band: "band_min (ent_band ent) \<le> rc_price ?chk \<and> rc_price ?chk \<le> band_max (ent_band ent)"
        using to_engine_price_limit [OF check_replace_valid(2) [OF True]] by simp
      have sel: "ent_band ?ent = ent_band ent" "ent_next_order_id ?ent = ent_next_order_id ent + 1" by (simp_all add: add_order_entry_def)
      define t where "t = \<lparr> tr_note = Some \<lparr> gn_kind = ORDER_REPLACING, gn_reject_reason = 0,
          gn_order_id = ent_next_order_id ent, gn_record = replace_record m (lo_record lo) \<rparr>,
        tr_request = Some \<lparr> rq_read_begin_tsc = 0, rq_recv_tsc = 0, rq_server_push_tsc = 0, rq_order_id = lo_order_id lo,
          rq_new_order_id = ent_next_order_id ent, rq_client_id = c, rq_price = rc_price ?chk, rq_quantity = rp_quantity m,
          rq_type = REPLACE, rq_side = side, rq_order_type = LIMIT, rq_time_in_force = rc_time_in_force ?chk \<rparr> \<rparr>"
      have run: "ent_replace c m ent = Some (t, ?ent)" using False True Some side(1) by (simp add: ent_replace_def Let_def t_def)
      show thesis
        by (rule that [OF run]) (use side A(1) O band sel in \<open>simp add: t_def translated_def request_in_band_def replace_record_def\<close>)
    qed
  qed
qed

lemma translate_ok:
  assumes "entry_inv ent" "ent_next_order_id ent + 1 \<noteq> 0"
  obtains t ent' where "translate c msg ent = Some (t, ent')" "translated c ent t ent'"
proof (cases msg)
  case InboundNone
  then show thesis using assms(1) by (intro that [of no_translation ent]) (simp_all add: translate_def translated_nothing no_translation_def)
next
  case (EnterOrder m)
  then show thesis using enter_translated [OF assms, of c m] by (intro that [of "fst (ent_enter c m ent)" "snd (ent_enter c m ent)"]) (simp_all add: translate_def)
next
  case (ReplaceOrder m)
  then show thesis using replace_translated [OF assms, of c m] that by (auto simp: translate_def)
next
  case (CancelOrder m)
  then show thesis using cancel_translated [OF assms(1), of c m] that by (auto simp: translate_def)
qed

end
