(* ===== verification/Ouch_Responder.thy ===== *)
theory Ouch_Responder
  imports Order_Entry Ouch_Outbound
begin

text \<open>
  Engine events and gateway notes back into OUCH (\<open>server/include/ouch_responder.hpp\<close>,
  \<open>server/src/ouch_responder.cpp\<close>). A handler returns the response, if any, and the new state.
  A replacement with the id of the order it replaces would use an erased map entry; that run is \<^term>\<open>None\<close>.
\<close>

record OuchResponse =
  rs_client_id :: ClientId
  rs_ouch :: OuchOutboundFrame

record RespOrder =
  lv_record :: OrderRecord
  lv_open :: Quantity

type_synonym OuchResponder = "OrderId \<Rightarrow> RespOrder option"

definition live_orders :: "OuchResponder \<Rightarrow> nat" where
  "live_orders resp = card (dom resp)"

definition resp_on_note :: "GatewayNote \<Rightarrow> u64 \<Rightarrow> OuchResponder \<Rightarrow> OuchResponse option \<times> OuchResponder" where
  "resp_on_note note timestamp resp =
     (case gn_kind note of
        NOTE_REJECTED \<Rightarrow>
          (Some \<lparr> rs_client_id = or_client_id (gn_record note),
             rs_ouch = OrderRejected (default_OuchOrderRejected\<lparr> oj_timestamp := timestamp,
               oj_user_ref_num := or_user_ref_num (gn_record note), oj_reason := gn_reject_reason note,
               oj_cl_ord_id := or_cl_ord_id (gn_record note) \<rparr>) \<rparr>, resp)
      | _ \<Rightarrow> (None, resp(gn_order_id note \<mapsto> \<lparr> lv_record = gn_record note, lv_open = 0 \<rparr>)))"

definition resp_reduce :: "OrderId \<Rightarrow> Quantity \<Rightarrow> OuchResponder \<Rightarrow> OuchResponder" where
  "resp_reduce oid n resp =
     (case resp oid of
        None \<Rightarrow> resp
      | Some live \<Rightarrow>
          let left = (if n < lv_open live then lv_open live - n else 0)
          in if left = 0 then resp(oid := None) else resp(oid \<mapsto> live\<lparr>lv_open := left\<rparr>))"

definition accepted_msg :: "u64 \<Rightarrow> EngineEvent \<Rightarrow> OrderRecord \<Rightarrow> OuchOrderAccepted" where
  "accepted_msg timestamp event r = default_OuchOrderAccepted\<lparr>
     oa_timestamp := timestamp, oa_user_ref_num := or_user_ref_num r, oa_side := or_side r,
     oa_quantity := ev_quantity event, oa_symbol := or_symbol r, oa_price := or_price r,
     oa_time_in_force := or_time_in_force r, oa_display := or_display r,
     oa_order_reference_number := ev_order_id event, oa_capacity := or_capacity r,
     oa_intermarket_sweep_eligibility := or_intermarket_sweep_eligibility r, oa_cross_type := or_cross_type r,
     oa_order_state := ch CHR ''L'', oa_cl_ord_id := or_cl_ord_id r \<rparr>"

definition replaced_msg :: "u64 \<Rightarrow> EngineEvent \<Rightarrow> u32 \<Rightarrow> OrderRecord \<Rightarrow> OuchOrderReplaced" where
  "replaced_msg timestamp event orig_user_ref_num r = default_OuchOrderReplaced\<lparr>
     orp_timestamp := timestamp, orp_orig_user_ref_num := orig_user_ref_num,
     orp_user_ref_num := or_user_ref_num r, orp_side := or_side r,
     orp_quantity := ev_quantity event, orp_symbol := or_symbol r, orp_price := or_price r,
     orp_time_in_force := or_time_in_force r, orp_display := or_display r,
     orp_order_reference_number := ev_order_id event, orp_capacity := or_capacity r,
     orp_intermarket_sweep_eligibility := or_intermarket_sweep_eligibility r, orp_cross_type := or_cross_type r,
     orp_order_state := ch CHR ''L'', orp_cl_ord_id := or_cl_ord_id r \<rparr>"

definition resp_on_event :: "EngineEvent \<Rightarrow> u64 \<Rightarrow> OuchResponder \<Rightarrow> (OuchResponse option \<times> OuchResponder) option" where
  "resp_on_event event timestamp resp =
     (case resp (ev_order_id event) of
        None \<Rightarrow> Some (None, resp)
      | Some order \<Rightarrow>
          let r = lv_record order; oid = ev_order_id event;
              answer = (\<lambda>m. Some \<lparr> rs_client_id = or_client_id r, rs_ouch = m \<rparr>)
          in case ev_type event of
               ACCEPTED \<Rightarrow> Some (answer (OrderAccepted (accepted_msg timestamp event r)),
                 resp(oid \<mapsto> order\<lparr>lv_open := ev_quantity event\<rparr>))
             | REPLACED \<Rightarrow>
                 (case resp (ev_orig_order_id event) of
                    None \<Rightarrow> Some (None, resp)
                  | Some orig \<Rightarrow>
                      if ev_orig_order_id event = oid then None
                      else Some (answer (OrderReplaced (replaced_msg timestamp event (or_user_ref_num (lv_record orig)) r)),
                        (resp(ev_orig_order_id event := None))(oid \<mapsto> order\<lparr>lv_open := ev_quantity event\<rparr>)))
             | CANCELED \<Rightarrow> Some (answer (OrderCanceled (default_OuchOrderCanceled\<lparr> oc_timestamp := timestamp,
                   oc_user_ref_num := or_user_ref_num r, oc_decrement_shares := ev_quantity event,
                   oc_reason := ev_reason event \<rparr>)),
                 resp_reduce oid (ev_quantity event) resp)
             | EXECUTED \<Rightarrow> Some (answer (OrderExecutedMsg (default_OuchOrderExecuted\<lparr> oe_timestamp := timestamp,
                   oe_user_ref_num := or_user_ref_num r, oe_executed_shares := ev_quantity event,
                   oe_execution_price := to_ouch_price (ev_price event), oe_liquidity_flag := ev_reason event,
                   oe_match_number := ev_match_number event \<rparr>)),
                 resp_reduce oid (ev_quantity event) resp)
             | REJECTED \<Rightarrow> Some (answer (OrderRejected (default_OuchOrderRejected\<lparr> oj_timestamp := timestamp,
                   oj_user_ref_num := or_user_ref_num r, oj_reason := kProcessingError,
                   oj_cl_ord_id := or_cl_ord_id r \<rparr>)),
                 resp(oid := None)))"

end
