(* ===== verification/Gateway_Flow.thy ===== *)
theory Gateway_Flow
  imports Ouch_Responder Book_Requests
begin

text \<open>
  Order entry, the book and the responder together. The responder's open share counts, which it derives from the
  engine's events alone, are those of the book: every event of a request finds its order's record, is
  answered to the client the engine names, and leaves the counts equal to the book's.
\<close>

subsection \<open>What the responder knows\<close>

definition resp_view :: "OuchResponder \<Rightarrow> OrderId \<Rightarrow> (ClientId \<times> Quantity) option" where
  "resp_view resp oid = (case resp oid of
       None \<Rightarrow> None
     | Some l \<Rightarrow> if lv_open l = 0 then None else Some (or_client_id (lv_record l), lv_open l))"

abbreviation book_view :: "Book \<Rightarrow> OrderId \<Rightarrow> (ClientId \<times> Quantity) option" where
  "book_view \<equiv> held (\<lambda>r. (ro_client r, ro_open r))"

definition hold :: "OrderId \<Rightarrow> ClientId \<Rightarrow> Quantity \<Rightarrow> (OrderId \<Rightarrow> (ClientId \<times> Quantity) option) \<Rightarrow> OrderId \<Rightarrow> (ClientId \<times> Quantity) option" where
  "hold oid c q V = V(oid := if q = 0 then None else Some (c, q))"

fun resp_run :: "(EngineEvent \<times> u64) list \<Rightarrow> OuchResponder \<Rightarrow> (OuchResponse option list \<times> OuchResponder) option" where
  "resp_run [] resp = Some ([], resp)"
| "resp_run ((event, timestamp) # es) resp = do {
     (a, resp1) \<leftarrow> resp_on_event event timestamp resp;
     (as, resp2) \<leftarrow> resp_run es resp1;
     Some (a # as, resp2) }"

lemma resp_view_upd: "resp_view (resp(oid \<mapsto> l)) = hold oid (or_client_id (lv_record l)) (lv_open l) (resp_view resp)"
  by (auto simp: resp_view_def hold_def fun_eq_iff)

lemma resp_view_del: "resp_view (resp(oid := None)) = (resp_view resp)(oid := None)"
  by (auto simp: resp_view_def fun_eq_iff)

lemma resp_view_Some:
  "resp_view resp oid = Some (c, n) \<longleftrightarrow> (\<exists>l. resp oid = Some l \<and> or_client_id (lv_record l) = c \<and> lv_open l = n \<and> n \<noteq> 0)"
  by (auto simp: resp_view_def split: option.splits)

lemma hold_hold [simp]: "hold oid c q (hold oid c' q' V) = hold oid c q V"
  "hold oid c q (V(oid := x)) = hold oid c q V"
  by (simp_all add: hold_def)

lemma hold_apply: "hold oid c q V x = (if x = oid then if q = 0 then None else Some (c, q) else V x)"
  by (simp add: hold_def)

lemma on_event_stamp [simp]: "resp_on_event (stamp ctx ans tsc e) timestamp resp = resp_on_event e timestamp resp"
proof (cases "resp (ev_order_id e)")
  case (Some l)
  then show ?thesis by (cases "ev_type e") (simp_all add: resp_on_event_def stamp_def accepted_msg_def replaced_msg_def Let_def split: option.split)
qed (simp add: resp_on_event_def stamp_def)

lemma resp_run_stamped: "resp_run (zip (stamp_events ctx ans tsc evs) tss) resp = resp_run (zip evs tss) resp"
proof (induction evs arbitrary: ans tsc tss resp)
  case (Cons e es)
  then show ?case by (cases tss) (simp_all cong: option.case_cong)
qed simp

subsection \<open>Reports\<close>

text \<open>
  The events are answered one by one, each to the client the engine names, and take the responder from the
  open shares \<open>V\<close> to \<open>V'\<close>.
\<close>

definition reported :: "EngineEvent list \<Rightarrow> OuchResponder \<Rightarrow> u64 list \<Rightarrow> (OrderId \<Rightarrow> (ClientId \<times> Quantity) option) \<Rightarrow> bool" where
  "reported evs resp tss V' \<longleftrightarrow> (\<exists>as resp'. resp_run (zip evs tss) resp = Some (map Some as, resp')
     \<and> map rs_client_id as = map ev_client_id evs \<and> resp_view resp' = V' \<and> (\<forall>oid. resp_view resp oid = None \<and> oid \<notin> ev_order_id ` set evs \<longrightarrow> resp' oid = resp oid))"

definition reports :: "EngineEvent list \<Rightarrow> (OrderId \<Rightarrow> (ClientId \<times> Quantity) option) \<Rightarrow> (OrderId \<Rightarrow> (ClientId \<times> Quantity) option) \<Rightarrow> bool" where
  "reports evs V V' \<longleftrightarrow> (\<forall>resp tss. resp_view resp = V \<and> length tss = length evs \<longrightarrow> reported evs resp tss V')"

lemma reportsE:
  assumes "reports evs V V'" "resp_view resp = V" "length tss = length evs"
  obtains as resp' where "resp_run (zip evs tss) resp = Some (map Some as, resp')"
    "map rs_client_id as = map ev_client_id evs" "resp_view resp' = V'"
    "\<forall>oid. resp_view resp oid = None \<and> oid \<notin> ev_order_id ` set evs \<longrightarrow> resp' oid = resp oid"
  using assms unfolding reports_def reported_def by blast

lemma reports_Nil [simp]: "reports [] V V"
  by (simp add: reports_def reported_def)

text \<open>Taking shares off an order that has them.\<close>

lemma on_event_reduce:
  assumes ty: "ev_type e = CANCELED \<or> ev_type e = EXECUTED" and V: "resp_view resp (ev_order_id e) = Some (ev_client_id e, n)"
  obtains m resp' where "resp_on_event e timestamp resp = Some (Some \<lparr> rs_client_id = ev_client_id e, rs_ouch = m \<rparr>, resp')"
    "resp_view resp' = hold (ev_order_id e) (ev_client_id e) (if ev_quantity e < n then n - ev_quantity e else 0) (resp_view resp)"
    "\<forall>oid. oid \<noteq> ev_order_id e \<longrightarrow> resp' oid = resp oid"
proof -
  obtain l where l: "resp (ev_order_id e) = Some l" "or_client_id (lv_record l) = ev_client_id e" "lv_open l = n" "n \<noteq> 0"
    using V by (auto simp: resp_view_Some)
  let ?resp = "resp_reduce (ev_order_id e) (ev_quantity e) resp"
  obtain m where run: "resp_on_event e timestamp resp = Some (Some \<lparr> rs_client_id = ev_client_id e, rs_ouch = m \<rparr>, ?resp)"
    using ty l(1,2) by (cases "ev_type e") (auto simp: resp_on_event_def)
  have "resp_view ?resp = hold (ev_order_id e) (ev_client_id e) (if ev_quantity e < n then n - ev_quantity e else 0) (resp_view resp)"
    using l by (auto simp: resp_reduce_def Let_def resp_view_upd resp_view_del) (simp_all add: hold_def)
  moreover have "\<forall>oid. oid \<noteq> ev_order_id e \<longrightarrow> ?resp oid = resp oid"
    using l(1) by (simp add: resp_reduce_def Let_def)
  ultimately show thesis by (rule that [OF run])
qed

lemma reported_Cons:
  assumes s: "resp_on_event e t resp = Some (Some \<lparr> rs_client_id = ev_client_id e, rs_ouch = m \<rparr>, resp')"
    and keep: "\<forall>oid. oid \<noteq> ev_order_id e \<and> resp_view resp oid = None \<longrightarrow> resp' oid = resp oid"
    and tl: "reports es (resp_view resp') V'" "length ts = length es"
  shows "reported (e # es) resp (t # ts) V'"
proof -
  obtain as resp2 where r: "resp_run (zip es ts) resp' = Some (map Some as, resp2)"
    "map rs_client_id as = map ev_client_id es" "resp_view resp2 = V'"
    "\<forall>oid. resp_view resp' oid = None \<and> oid \<notin> ev_order_id ` set es \<longrightarrow> resp2 oid = resp' oid"
    by (rule reportsE [OF tl(1) refl tl(2)])
  have "resp2 oid = resp oid" if "resp_view resp oid = None" "oid \<notin> ev_order_id ` set (e # es)" for oid
  proof -
    have "resp' oid = resp oid" using that keep by simp
    moreover from this have "resp_view resp' oid = None" using that(1) by (simp add: resp_view_def)
    ultimately show ?thesis using that(2) r(4) by simp
  qed
  then show ?thesis
    unfolding reported_def using s r
    by (intro exI [of _ "\<lparr> rs_client_id = ev_client_id e, rs_ouch = m \<rparr> # as"] exI [of _ resp2]) auto
qed

lemma reports_Cons:
  assumes ty: "ev_type e = CANCELED \<or> ev_type e = EXECUTED" and V: "V (ev_order_id e) = Some (ev_client_id e, n)"
    and tl: "reports es (hold (ev_order_id e) (ev_client_id e) (if ev_quantity e < n then n - ev_quantity e else 0) V) V'"
  shows "reports (e # es) V V'"
  unfolding reports_def
proof (intro allI impI)
  fix resp and tss :: "u64 list" assume a: "resp_view resp = V \<and> length tss = length (e # es)"
  then obtain t ts where tss: "tss = t # ts" "length ts = length es" by (cases tss) auto
  have V1: "resp_view resp (ev_order_id e) = Some (ev_client_id e, n)" using a V by simp
  obtain m resp1 where s: "resp_on_event e t resp = Some (Some \<lparr> rs_client_id = ev_client_id e, rs_ouch = m \<rparr>, resp1)"
    "resp_view resp1 = hold (ev_order_id e) (ev_client_id e) (if ev_quantity e < n then n - ev_quantity e else 0) (resp_view resp)"
    "\<forall>oid. oid \<noteq> ev_order_id e \<longrightarrow> resp1 oid = resp oid"
    by (rule on_event_reduce [OF ty V1, of t])
  show "reported (e # es) resp tss V'"
    unfolding tss(1) by (rule reported_Cons [OF s(1) _ _ tss(2)]) (use s(2,3) tl a in simp_all)
qed

lemma resp_run_append:
  "resp_run xs resp = Some (as, resp1) \<Longrightarrow> resp_run ys resp1 = Some (bs, resp2) \<Longrightarrow> resp_run (xs @ ys) resp = Some (as @ bs, resp2)"
  by (induction xs resp arbitrary: as rule: resp_run.induct) (auto simp: bind_eq_Some_conv)

lemma reports_append:
  assumes "reports es V V1" "reports fs V1 V'"
  shows "reports (es @ fs) V V'"
  unfolding reports_def
proof (intro allI impI)
  fix resp and tss :: "u64 list" assume a: "resp_view resp = V \<and> length tss = length (es @ fs)"
  let ?t1 = "take (length es) tss" let ?t2 = "drop (length es) tss"
  have z: "zip (es @ fs) tss = zip es ?t1 @ zip fs ?t2" by (rule zip_append1)
  have l: "length ?t1 = length es" "length ?t2 = length fs" using a by simp_all
  obtain as resp1 where r1: "resp_run (zip es ?t1) resp = Some (map Some as, resp1)" "map rs_client_id as = map ev_client_id es"
    "resp_view resp1 = V1" "\<forall>oid. resp_view resp oid = None \<and> oid \<notin> ev_order_id ` set es \<longrightarrow> resp1 oid = resp oid"
    by (rule reportsE [OF assms(1) conjunct1 [OF a] l(1)])
  obtain bs resp2 where r2: "resp_run (zip fs ?t2) resp1 = Some (map Some bs, resp2)" "map rs_client_id bs = map ev_client_id fs"
    "resp_view resp2 = V'" "\<forall>oid. resp_view resp1 oid = None \<and> oid \<notin> ev_order_id ` set fs \<longrightarrow> resp2 oid = resp1 oid"
    by (rule reportsE [OF assms(2) r1(3) l(2)])
  have keep: "resp2 oid = resp oid" if "resp_view resp oid = None" "oid \<notin> ev_order_id ` set (es @ fs)" for oid
  proof -
    have "resp1 oid = resp oid" using that r1(4) by (simp add: image_Un)
    moreover from this have "resp_view resp1 oid = None" using that(1) by (simp add: resp_view_def)
    ultimately show ?thesis using that(2) r2(4) by (simp add: image_Un)
  qed
  show "reported (es @ fs) resp tss V'"
    unfolding reported_def z using resp_run_append [OF r1(1) r2(1)] r1(2) r2(2,3) keep
    by (intro exI [of _ "as @ bs"] exI [of _ resp2]) auto
qed

subsection \<open>The events of a request\<close>

lemma bk_wf_open: "bk_wf bk \<Longrightarrow> r \<in> set (all_orders bk) \<Longrightarrow> ro_open r \<noteq> 0"
  by (fastforce simp: bk_wf_def side_wf_def order_ok_def all_orders_def)

lemma reports_fills:
  assumes "ids_distinct bk" "bk_side bk (opposite side) = xs" "\<forall>r\<in>set xs. ro_open r \<noteq> 0" "oid \<notin> ro_id ` set xs"
    and "f = spec_match ts oid client ok q mn xs"
  shows "reports (fl_events f) (hold oid client q (book_view bk))
    (hold oid client (q - fl_filled f) (book_view (set_side (opposite side) (fl_rest f) bk)))"
  using assms
proof (induction xs arbitrary: bk q mn f)
  case Nil
  then have "set_side (opposite side) (fl_rest f) bk = bk" by (intro book_eqI) (auto simp: set_side_def)
  then show ?case using Nil by simp
next
  case (Cons r rs)
  let ?o = "opposite side" let ?fill = "min q (ro_open r)" let ?V = "hold oid client q (book_view bk)"
  note d = Cons.prems(1) and hd = Cons.prems(2) and f = Cons.prems(5)
  have ne: "ro_id r \<noteq> oid" "ro_open r \<noteq> 0" using Cons.prems(3,4) by auto
  have pr: "book_view bk (ro_id r) = Some (ro_client r, ro_open r)"
    by (subst held_Some [OF d]) (simp_all add: set_all_orders [of bk ?o] hd)
  let ?V1 = "hold (ro_id r) (ro_client r) (ro_open r - ?fill) (hold oid client (q - ?fill) (book_view bk))"
  have pair: "reports (executed_events oid client r ?fill mn) ?V ?V1" if "q \<noteq> 0"
    unfolding executed_events_def
    by (rule reports_Cons [where n = q], simp, simp add: hold_apply that,
        rule reports_Cons [where n = "ro_open r"], simp, simp add: hold_apply ne pr)
      (auto simp: min_def hold_def)
  show ?case
  proof (cases "q = 0 \<or> \<not> ok (ro_price r)")
    case True
    then have "set_side ?o (fl_rest f) bk = bk" using f hd by (intro book_eqI) (auto simp: set_side_def)
    then show ?thesis using True f by auto
  next
    case False
    show ?thesis
    proof (cases "?fill = ro_open r")
      case True
      let ?bk = "set_side ?o rs bk"
      define g where "g = spec_match ts oid client ok (q - ?fill) (mn + 1) rs"
      have "reports (fl_events g) (hold oid client (q - ?fill) (book_view ?bk))
          (hold oid client (q - ?fill - fl_filled g) (book_view (set_side ?o (fl_rest g) ?bk)))"
        by (rule Cons.IH [OF ids_distinct_side [OF d hd] _ _ _ g_def]) (use Cons.prems(3,4) in \<open>simp_all add: set_side_def\<close>)
      moreover have "hold oid client (q - ?fill) (book_view ?bk) = ?V1"
        unfolding held_head(1) [OF d hd] using True ne by (auto simp: hold_def fun_eq_iff)
      moreover have "fl_events f = executed_events oid client r ?fill mn @ fl_events g" "fl_rest f = fl_rest g"
        "fl_filled f = ?fill + fl_filled g"
        using f False True by (simp_all add: Let_def g_def)
      moreover have "set_side ?o (fl_rest g) ?bk = set_side ?o (fl_rest g) bk" by (simp add: set_side_def)
      ultimately show ?thesis using pair False reports_append by (simp add: diff_diff_eq)
    next
      case nf: False
      have o: "fl_events f = executed_events oid client r ?fill mn" "fl_filled f = ?fill"
        "fl_rest f = r\<lparr>ro_open := ro_open r - ?fill, ro_exec := ro_exec r + ?fill\<rparr> # rs"
        using f False nf by (simp_all add: Let_def)
      have e: "?V1 = hold oid client (q - ?fill) ((book_view bk)(ro_id r \<mapsto> (ro_client r, ro_open r - ?fill)))"
        using nf ne by (auto simp: hold_def fun_eq_iff)
      have h: "book_view (set_side ?o (r\<lparr>ro_open := a, ro_exec := b\<rparr> # rs) bk) = (book_view bk)(ro_id r \<mapsto> (ro_client r, a))" for a b
        using held_head(2) [OF d hd, of "\<lambda>r. (ro_client r, ro_open r)"] by simp
      show ?thesis unfolding o h using pair [unfolded e] False by blast
    qed
  qed
qed

lemma book_view_None: "find_order oid bk = None \<Longrightarrow> book_view bk oid = None"
  by (simp add: held_def)

lemma hold_0: "V oid = None \<Longrightarrow> hold oid c 0 V = V"
  by (auto simp: hold_def)

lemma reports_after_fills:
  assumes wf: "bk_wf bk" and f: "f = spec_match_book ts oid client side type p q bk" and new: "find_order oid bk = None"
  shows "reports (fl_events f) (hold oid client q (book_view bk)) (hold oid client (q - fl_filled f) (book_view (after_fills side f bk)))"
proof -
  let ?xs = "bk_side bk (opposite side)"
  have "set ?xs \<subseteq> set (all_orders bk)" using set_all_orders [of bk side] by simp
  then have "\<forall>r\<in>set ?xs. ro_open r \<noteq> 0" "oid \<notin> ro_id ` set ?xs" using bk_wf_open [OF wf] new find_order_None [of oid bk] by auto
  from reports_fills [OF _ refl this f [unfolded spec_match_book_def]] wf
  show ?thesis by (simp add: bk_wf_def after_fills_def held_next)
qed

lemma reports_remainder:
  assumes wf: "bk_wf bk" "bk_wf (fst (spec_remainder ts may r bk))" and new: "find_order (ro_id r) bk = None"
  shows "reports (fst (snd (spec_remainder ts may r bk))) (hold (ro_id r) (ro_client r) (ro_open r) (book_view bk))
    (book_view (fst (spec_remainder ts may r bk)))"
proof (cases "ro_open r = 0")
  case True
  then show ?thesis using hold_0 [where V = "book_view bk" and oid = "ro_id r", OF book_view_None [OF new]] by (simp add: spec_remainder_def)
next
  case open1: False
  show ?thesis
  proof (cases may)
    case True
    have "book_view (add_order r bk) = hold (ro_id r) (ro_client r) (ro_open r) (book_view bk)"
      using held_add [of bk r "\<lambda>r. (ro_client r, ro_open r)"] wf new True open1 by (simp add: bk_wf_def spec_remainder_def hold_def)
    then show ?thesis using True open1 by (simp add: spec_remainder_def)
  next
    case False
    have "reports [canceled_event (ro_id r) (ro_client r) (ro_price r) (ro_open r) kImmediateOrCancel]
        (hold (ro_id r) (ro_client r) (ro_open r) (book_view bk)) (book_view bk)"
      by (rule reports_Cons [where n = "ro_open r"])
        (use open1 hold_0 [where V = "book_view bk" and oid = "ro_id r", OF book_view_None [OF new]] in \<open>simp_all add: canceled_event_def hold_apply\<close>)
    then show ?thesis using False open1 by (simp add: spec_remainder_def)
  qed
qed

lemma enter_reported:
  assumes wf: "bk_wf bk" and band: "rq_order_type req = LIMIT \<Longrightarrow> rq_time_in_force req = DAY \<Longrightarrow> in_band (rq_price req)"
    and V: "resp_view resp = book_view bk" and l: "resp (rq_order_id req) = Some l" "or_client_id (lv_record l) = rq_client_id req"
    and len: "length tss = length (oc_events (spec_enter ts req bk))"
  shows "reported (oc_events (spec_enter ts req bk)) resp tss (book_view (oc_book (spec_enter ts req bk)))"
proof -
  let ?may = "rq_order_type req = LIMIT \<and> rq_time_in_force req = DAY" let ?oid = "rq_order_id req" let ?c = "rq_client_id req"
  consider "find_order ?oid bk \<noteq> None" | "find_order ?oid bk = None" "?may \<and> book_full bk" | "find_order ?oid bk = None" "\<not> (?may \<and> book_full bk)"
    by blast
  then show ?thesis
  proof cases
    case 1
    then show ?thesis using V len by (auto simp: spec_enter_def ignored_def reported_def)
  next
    case 2
    let ?e = "zero_event\<lparr> ev_order_id := ?oid, ev_client_id := ?c, ev_type := REJECTED, ev_reason := kBookFull \<rparr>"
    let ?resp = "resp(?oid := None)"
    have o: "oc_events (spec_enter ts req bk) = [?e]" "oc_book (spec_enter ts req bk) = bk" using 2 by (simp_all add: spec_enter_def)
    obtain t where t: "tss = [t]" using len o(1) by (cases tss) auto
    have V1: "resp_view ?resp = book_view bk"
      using book_view_None [OF 2(1)] V by (auto simp: resp_view_del fun_upd_idem)
    show ?thesis
      unfolding o t
    proof (rule reported_Cons [where resp' = ?resp])
      show "resp_on_event ?e t resp = Some (Some \<lparr> rs_client_id = ev_client_id ?e,
          rs_ouch = OrderRejected (default_OuchOrderRejected\<lparr> oj_timestamp := t, oj_user_ref_num := or_user_ref_num (lv_record l),
            oj_reason := kProcessingError, oj_cl_ord_id := or_cl_ord_id (lv_record l) \<rparr>) \<rparr>, ?resp)"
        using l by (simp add: resp_on_event_def Let_def)
    qed (simp_all add: V1)
  next
    case 3
    define f where "f = spec_match_book ts ?oid ?c (rq_side req) (rq_order_type req) (rq_price req) (rq_quantity req) bk"
    let ?bk = "after_fills (rq_side req) f bk"
    let ?r = "\<lparr> ro_id = ?oid, ro_client = ?c, ro_side = rq_side req, ro_price = rq_price req,
      ro_open = rq_quantity req - fl_filled f, ro_exec = fl_filled f \<rparr>"
    let ?rem = "spec_remainder ts ?may ?r ?bk"
    let ?e = "zero_event\<lparr> ev_order_id := ?oid, ev_client_id := ?c, ev_price := rq_price req,
      ev_quantity := rq_quantity req, ev_type := ACCEPTED \<rparr>"
    have o: "oc_events (spec_enter ts req bk) = ?e # (fl_events f @ fst (snd ?rem))" "oc_book (spec_enter ts req bk) = fst ?rem"
      using 3 by (auto simp: spec_enter_def f_def [symmetric] Let_def case_prod_unfold)
    have wf': "bk_wf (fst ?rem)" using spec_enter_wf [OF wf band, of ts] o(2) by simp
    have tl: "reports (fl_events f @ fst (snd ?rem)) (hold ?oid ?c (rq_quantity req) (book_view bk)) (book_view (fst ?rem))"
      using reports_append [OF reports_after_fills [OF wf f_def 3(1)]]
        reports_remainder [OF after_fills_wf [OF wf f_def] wf'] after_fills_keeps(1) [OF f_def 3(1)] by simp
    obtain t ts' where t: "tss = t # ts'" "length ts' = length (fl_events f @ fst (snd ?rem))" using len o(1) by (cases tss) auto
    let ?resp = "resp(?oid \<mapsto> l\<lparr>lv_open := rq_quantity req\<rparr>)"
    show ?thesis
      unfolding o t(1)
    proof (rule reported_Cons [where resp' = ?resp, OF _ _ _ t(2)])
      show "resp_on_event ?e t resp = Some (Some \<lparr> rs_client_id = ev_client_id ?e,
          rs_ouch = OrderAccepted (accepted_msg t ?e (lv_record l)) \<rparr>, ?resp)" using l by (simp add: resp_on_event_def)
      show "reports (fl_events f @ fst (snd ?rem)) (resp_view ?resp) (book_view (fst ?rem))"
        using tl l V by (simp add: resp_view_upd)
    qed simp
  qed
qed

lemma cancel_reported:
  assumes wf: "bk_wf bk" and V: "resp_view resp = book_view bk" and len: "length tss = length (oc_events (spec_cancel ts req bk))"
  shows "reported (oc_events (spec_cancel ts req bk)) resp tss (book_view (oc_book (spec_cancel ts req bk)))"
proof -
  have "reports (oc_events (spec_cancel ts req bk)) (book_view bk) (book_view (oc_book (spec_cancel ts req bk)))"
  proof (cases "find_order (rq_order_id req) bk")
    case (Some r)
    let ?t = "open_after (rq_quantity req) (ro_exec r)"
    have d: "ids_distinct bk" using wf by (simp add: bk_wf_def)
    have rid: "ro_id r = rq_order_id req" using find_SomeD [OF Some [unfolded find_order_def]] by simp
    show ?thesis
    proof (cases "ro_client r \<noteq> rq_client_id req \<or> ?t \<ge> ro_open r")
      case True
      then show ?thesis using Some by (simp add: spec_cancel_def ignored_def Let_def)
    next
      case False
      let ?bk = "if ?t = 0 then remove_order (ro_id r) bk else reduce_order (ro_id r) ?t bk"
      have "book_view ?bk = hold (ro_id r) (ro_client r) ?t (book_view bk)"
        using Some held_reduce [OF d, of "ro_id r" r "\<lambda>r. (ro_client r, ro_open r)" ?t] rid by (simp add: hold_def held_remove [OF d])
      moreover have "(if ro_open r - ?t < ro_open r then ro_open r - (ro_open r - ?t) else 0) = ?t"
        using False by (auto simp: word_nat unat_sub word_unat_eq_iff split: if_splits)
      ultimately have "reports [canceled_event (ro_id r) (ro_client r) (ro_price r) (ro_open r - ?t) kUserRequested] (book_view bk) (book_view ?bk)"
        using Some rid by (intro reports_Cons [where n = "ro_open r"]) (auto simp: canceled_event_def held_def split: if_splits)
      then show ?thesis using False Some by (simp add: spec_cancel_def Let_def)
    qed
  qed (simp add: spec_cancel_def ignored_def)
  then show ?thesis using V len by (simp add: reports_def)
qed

lemma reports_reenter:
  assumes wf: "bk_wf bk" "bk_wf (oc_book o')" and new: "find_order (rq_new_order_id req) bk = None" and q: "q \<noteq> 0"
    and o': "o' = spec_reenter ts req day oid side q e bk"
  shows "reports (oc_events o') (hold (rq_new_order_id req) (rq_client_id req) q (book_view bk)) (book_view (oc_book o'))"
proof (cases "day \<and> \<not> spec_crosses side LIMIT (rq_price req) bk")
  case True
  let ?r = "\<lparr> ro_id = rq_new_order_id req, ro_client = rq_client_id req, ro_side = side, ro_price = rq_price req, ro_open = q, ro_exec = e \<rparr>"
  have o1: "oc_events o' = []" "oc_book o' = add_order ?r bk" using True by (simp_all add: o' spec_reenter_def)
  have "book_view (add_order ?r bk) = hold (rq_new_order_id req) (rq_client_id req) q (book_view bk)"
    using held_add [of bk ?r "\<lambda>r. (ro_client r, ro_open r)"] wf new q o1(2) by (simp add: bk_wf_def hold_def)
  then show ?thesis by (simp add: o1)
next
  case False
  define g where "g = spec_match_book ts (rq_new_order_id req) (rq_client_id req) side LIMIT (rq_price req) q bk"
  let ?rem = "spec_remainder ts day \<lparr> ro_id = rq_new_order_id req, ro_client = rq_client_id req, ro_side = side,
    ro_price = rq_price req, ro_open = q - fl_filled g, ro_exec = e + fl_filled g \<rparr> (after_fills side g bk)"
  have o1: "oc_events o' = fl_events g @ fst (snd ?rem)" "oc_book o' = fst ?rem"
    using False by (auto simp: o' spec_reenter_def g_def [symmetric] Let_def case_prod_unfold)
  show ?thesis
    using reports_append [OF reports_after_fills [OF wf(1) g_def new]]
      reports_remainder [OF after_fills_wf [OF wf(1) g_def] wf(2) [unfolded o1]] after_fills_keeps(1) [OF g_def new] by (simp add: o1)
qed

lemma replace_reported:
  assumes wf: "bk_wf bk" and band: "rq_time_in_force req = DAY \<Longrightarrow> in_band (rq_price req)"
    and V: "resp_view resp = book_view bk" and l: "resp (rq_new_order_id req) = Some l" "or_client_id (lv_record l) = rq_client_id req"
    and len: "length tss = length (oc_events (spec_replace ts req bk))"
  shows "reported (oc_events (spec_replace ts req bk)) resp tss (book_view (oc_book (spec_replace ts req bk)))"
proof (cases "find_order (rq_order_id req) bk")
  case None
  then show ?thesis using V len by (simp add: spec_replace_def ignored_def reported_def)
next
  case (Some r)
  let ?q = "open_after (rq_quantity req) (ro_exec r)" let ?new = "rq_new_order_id req" let ?c = "rq_client_id req"
  let ?bk = "remove_order (ro_id r) bk"
  have d: "ids_distinct bk" using wf by (simp add: bk_wf_def)
  have rid: "ro_id r = rq_order_id req" using find_SomeD [OF Some [unfolded find_order_def]] by simp
  have rem: "book_view ?bk = (book_view bk)(ro_id r := None)" by (rule held_remove [OF d])
  have br: "book_view bk (ro_id r) = Some (ro_client r, ro_open r)" using Some rid by (simp add: held_def)
  consider "ro_client r \<noteq> ?c \<or> find_order ?new bk \<noteq> None" | "ro_client r = ?c" "find_order ?new bk = None" "?q = 0"
    | "ro_client r = ?c" "find_order ?new bk = None" "?q \<noteq> 0" by blast
  then show ?thesis
  proof cases
    case 1
    then show ?thesis using V len Some by (auto simp: spec_replace_def ignored_def reported_def)
  next
    case 2
    have "reports [canceled_event (ro_id r) (ro_client r) (ro_price r) (ro_open r) kUserRequested] (book_view bk) (book_view ?bk)"
      by (rule reports_Cons [where n = "ro_open r"]) (use br in \<open>simp_all add: canceled_event_def rem hold_def\<close>)
    then show ?thesis using 2 Some V len by (simp add: spec_replace_def reports_def)
  next
    case 3
    define o' where "o' = spec_reenter ts req (rq_time_in_force req = DAY) (ro_id r) (ro_side r) ?q (ro_exec r) ?bk"
    let ?e = "zero_event\<lparr> ev_order_id := ?new, ev_orig_order_id := ro_id r, ev_client_id := ?c, ev_price := rq_price req,
      ev_quantity := ?q, ev_type := REPLACED \<rparr>"
    have sp: "oc_events (spec_replace ts req bk) = ?e # oc_events o'" "oc_book (spec_replace ts req bk) = oc_book o'"
      using spec_replace_reenter [OF Some 3(1,2) refl 3(3) o'_def] by simp_all
    have wf': "bk_wf (oc_book o')" using spec_replace_wf [OF wf band, of ts] sp(2) by simp
    have tl: "reports (oc_events o') (hold ?new ?c ?q (book_view ?bk)) (book_view (oc_book o'))"
      by (rule reports_reenter [OF remove_order_wf [OF wf] wf' find_remove_None [OF 3(2)] 3(3) o'_def])
    obtain t ts' where t: "tss = t # ts'" "length ts' = length (oc_events o')" using len sp(1) by (cases tss) auto
    have ne: "?new \<noteq> ro_id r" using Some rid 3(2) by auto
    obtain lo where lo: "resp (ro_id r) = Some lo" using br V resp_view_Some [of resp "ro_id r"] by auto
    let ?resp = "(resp(ro_id r := None))(?new \<mapsto> l\<lparr>lv_open := ?q\<rparr>)"
    show ?thesis
      unfolding sp t(1)
    proof (rule reported_Cons [where resp' = ?resp, OF _ _ _ t(2)])
      show "resp_on_event ?e t resp = Some (Some \<lparr> rs_client_id = ev_client_id ?e,
          rs_ouch = OrderReplaced (replaced_msg t ?e (or_user_ref_num (lv_record lo)) (lv_record l)) \<rparr>, ?resp)"
        using l lo ne by (simp add: resp_on_event_def Let_def)
      show "reports (oc_events o') (resp_view ?resp) (book_view (oc_book o'))"
        using tl l V by (simp add: resp_view_upd resp_view_del rem)
      show "\<forall>oid. oid \<noteq> ev_order_id ?e \<and> resp_view resp oid = None \<longrightarrow> ?resp oid = resp oid" using br V by auto
    qed
  qed
qed

end
