(* ===== verification/Gateway.thy ===== *)
theory Gateway
  imports Gateway_Flow
begin

text \<open>
  The path of an order through the exchange, seen when the responder has caught up: order entry hands notes to the responder and
  requests to the engine, the engine's events go to the responder. Requests may wait in the ring for any time; the note
  of a request is handled before its events. That the threads with their rings behave like this, since \<open>handle_ouch_\<close> pushes the
  note first and \<open>outbound_\<close> drains the notes again after it has popped an event, is shown in \<open>Gateway_Pipeline\<close>.
\<close>

subsection \<open>Events name known orders\<close>

definition new_order_id :: "EngineRequest \<Rightarrow> OrderId option" where
  "new_order_id req = (case rq_type req of NEW \<Rightarrow> Some (rq_order_id req) | CANCEL \<Rightarrow> None | REPLACE \<Rightarrow> Some (rq_new_order_id req))"

definition noted :: "OuchResponder \<Rightarrow> EngineRequest \<Rightarrow> bool" where
  "noted resp req \<longleftrightarrow> (case new_order_id req of
       None \<Rightarrow> True
     | Some oid \<Rightarrow> (case resp oid of None \<Rightarrow> False | Some l \<Rightarrow> or_client_id (lv_record l) = rq_client_id req))"

lemma fill_event_ids:
  "ev_order_id ` set (fl_events (spec_match ts oid client ok q mn xs)) \<subseteq> insert oid (ro_id ` set xs)"
  by (induction xs arbitrary: q mn) (auto simp: executed_events_def Let_def)

lemma book_fill_event_ids:
  assumes "f = spec_match_book ts oid client side type p q bk"
  shows "ev_order_id ` set (fl_events f) \<subseteq> insert oid (ro_id ` set (all_orders bk))"
  using fill_event_ids [of ts oid client "takes side type p" q "bk_next_match bk" "bk_side bk (opposite side)"] assms
  unfolding set_all_orders [of bk side] spec_match_book_def by blast

lemma remainder_event_ids: "e \<in> set (fst (snd (spec_remainder ts may r bk))) \<Longrightarrow> ev_order_id e = ro_id r"
  by (auto simp: spec_remainder_def canceled_event_def split: if_splits)

lemma enter_event_ids:
  "ev_order_id ` set (oc_events (spec_enter ts req bk)) \<subseteq> insert (rq_order_id req) (ro_id ` set (all_orders bk))"
proof -
  define f where "f = spec_match_book ts (rq_order_id req) (rq_client_id req) (rq_side req) (rq_order_type req) (rq_price req) (rq_quantity req) bk"
  show ?thesis
    using book_fill_event_ids [OF f_def]
    by (auto simp: spec_enter_def ignored_def f_def [symmetric] Let_def case_prod_unfold dest: remainder_event_ids)
qed

lemma replace_event_ids:
  "ev_order_id ` set (oc_events (spec_replace ts req bk)) \<subseteq> insert (rq_new_order_id req) (ro_id ` set (all_orders bk))"
proof (cases "find_order (rq_order_id req) bk")
  case (Some r)
  let ?q = "open_after (rq_quantity req) (ro_exec r)" let ?bk = "remove_order (ro_id r) bk"
  define f where "f = spec_match_book ts (rq_new_order_id req) (rq_client_id req) (ro_side r) LIMIT (rq_price req) ?q ?bk"
  have r: "ro_id r \<in> ro_id ` set (all_orders bk)" using find_SomeD [OF Some [unfolded find_order_def]] by blast
  have sub: "ro_id ` set (all_orders ?bk) \<subseteq> ro_id ` set (all_orders bk)" by (auto simp: all_orders_def remove_order_def)
  have ev: "ev_order_id ` set (fl_events f) \<subseteq> insert (rq_new_order_id req) (ro_id ` set (all_orders bk))"
    using book_fill_event_ids [OF f_def] sub by blast
  show ?thesis using Some r ev
    by (auto simp: spec_replace_def ignored_def f_def [symmetric] Let_def case_prod_unfold canceled_event_def dest: remainder_event_ids)
qed (simp add: spec_replace_def ignored_def)

lemma cancel_event_ids: "ev_order_id ` set (oc_events (spec_cancel ts req bk)) \<subseteq> ro_id ` set (all_orders bk)"
proof (cases "find_order (rq_order_id req) bk")
  case (Some r)
  have "ro_id r \<in> ro_id ` set (all_orders bk)" using find_SomeD [OF Some [unfolded find_order_def]] by blast
  then show ?thesis using Some by (simp add: spec_cancel_def ignored_def Let_def canceled_event_def)
qed (simp add: spec_cancel_def ignored_def)

lemma process_event_ids:
  "ev_order_id ` set (oc_events (spec_process ts req bk)) \<subseteq> set_option (new_order_id req) \<union> ro_id ` set (all_orders bk)"
  using enter_event_ids [of ts req bk] replace_event_ids [of ts req bk] cancel_event_ids [of ts req bk]
  by (cases "rq_type req") (simp_all add: spec_process_def new_order_id_def)

lemma process_reported:
  assumes "bk_wf bk" "req_ok req" "resp_view resp = book_view bk" "noted resp req"
    and "length tss = length (oc_events (spec_process ts req bk))"
  shows "reported (oc_events (spec_process ts req bk)) resp tss (book_view (oc_book (spec_process ts req bk)))"
proof (cases "rq_type req")
  case NEW
  then obtain l where "resp (rq_order_id req) = Some l" "or_client_id (lv_record l) = rq_client_id req"
    using assms(4) by (auto simp: noted_def new_order_id_def split: option.splits)
  from enter_reported [OF assms(1) _ assms(3) this] assms(2,5) NEW show ?thesis by (simp add: spec_process_def req_ok_def)
next
  case CANCEL
  then show ?thesis using cancel_reported [OF assms(1,3)] assms(5) by (simp add: spec_process_def)
next
  case REPLACE
  then obtain l where "resp (rq_new_order_id req) = Some l" "or_client_id (lv_record l) = rq_client_id req"
    using assms(4) by (auto simp: noted_def new_order_id_def split: option.splits)
  from replace_reported [OF assms(1) _ assms(3) this] assms(2,5) REPLACE show ?thesis by (simp add: spec_process_def req_ok_def)
qed

subsection \<open>The path of a request\<close>

record Gateway =
  gw_entry :: OrderEntry
  gw_queue :: "EngineRequest list"
  gw_book :: Orderbook
  gw_resp :: OuchResponder

definition stamp_request :: "Timestamp \<Rightarrow> Timestamp \<Rightarrow> Timestamp \<Rightarrow> EngineRequest \<Rightarrow> EngineRequest" where
  "stamp_request read_begin recv pushed_at req = req\<lparr> rq_read_begin_tsc := read_begin, rq_recv_tsc := recv, rq_server_push_tsc := pushed_at \<rparr>"

definition take_note :: "GatewayNote option \<Rightarrow> u64 \<Rightarrow> OuchResponder \<Rightarrow> OuchResponder" where
  "take_note note timestamp resp = (case note of None \<Rightarrow> resp | Some n \<Rightarrow> snd (resp_on_note n timestamp resp))"

definition exchange_band :: PriceBand where
  "exchange_band = \<lparr> band_min = MIN_PRICE, band_max = MAX_PRICE \<rparr>"

text \<open>
  A message of a client is translated, or the engine serves the oldest request and the responder sees its events.
  The gateway stops numbering orders before its 64-bit counter wraps.
\<close>

inductive gw_step :: "Gateway \<Rightarrow> Gateway \<Rightarrow> bool" where
  client: "translate c msg (gw_entry g) = Some (t, ent') \<Longrightarrow> ent_next_order_id (gw_entry g) + 1 \<noteq> 0
    \<Longrightarrow> gw_step g (g\<lparr> gw_entry := ent', gw_resp := take_note (tr_note t) timestamp (gw_resp g),
          gw_queue := gw_queue g @ map (stamp_request read_begin recv pushed_at) (case tr_request t of None \<Rightarrow> [] | Some req \<Rightarrow> [req]) \<rparr>)"
| engine: "gw_queue g = req # queue \<Longrightarrow> process req tsc (gw_book g) = Some (handled, ob')
    \<Longrightarrow> length tss = length (new_events (gw_book g) ob')
    \<Longrightarrow> resp_run (zip (new_events (gw_book g) ob') tss) (gw_resp g) = Some (answers, resp')
    \<Longrightarrow> gw_step g (g\<lparr> gw_queue := queue, gw_book := ob', gw_resp := resp' \<rparr>)"
| clock: "gw_step g (g\<lparr> gw_book := (gw_book g)\<lparr>tsc_reads := reads\<rparr> \<rparr>)"

inductive gw_reachable :: "Gateway \<Rightarrow> bool" where
  start: "channel_inv out \<Longrightarrow> gw_reachable \<lparr> gw_entry = new_OrderEntry exchange_band, gw_queue = [],
     gw_book = new_Orderbook capacity out md clk tsc, gw_resp = Map.empty \<rparr>"
| step: "gw_reachable g \<Longrightarrow> gw_step g g' \<Longrightarrow> gw_reachable g'"

definition queue_ids :: "EngineRequest list \<Rightarrow> OrderId list" where
  "queue_ids queue = concat (map (\<lambda>req. case new_order_id req of None \<Rightarrow> [] | Some oid \<Rightarrow> [oid]) queue)"

definition gw_inv :: "Gateway \<Rightarrow> Book \<Rightarrow> bool" where
  "gw_inv g bk \<longleftrightarrow> entry_inv (gw_entry g) \<and> ent_band (gw_entry g) = exchange_band
     \<and> book_reachable (gw_book g) \<and> book_rel (gw_book g) bk \<and> resp_view (gw_resp g) = book_view bk
     \<and> (\<forall>oid. find_order oid bk \<noteq> None \<longrightarrow> oid < ent_next_order_id (gw_entry g))
     \<and> (\<forall>req\<in>set (gw_queue g). req_ok req \<and> noted (gw_resp g) req)
     \<and> distinct (queue_ids (gw_queue g))
     \<and> (\<forall>oid\<in>set (queue_ids (gw_queue g)). oid < ent_next_order_id (gw_entry g) \<and> find_order oid bk = None)"

lemma stamp_request_sel [simp]:
  "new_order_id (stamp_request a b c req) = new_order_id req" "req_ok (stamp_request a b c req) = req_ok req"
  "rq_client_id (stamp_request a b c req) = rq_client_id req"
  by (simp_all add: stamp_request_def new_order_id_def req_ok_def split: EngineRequestType.split)

lemma queue_ids_simps [simp]:
  "queue_ids [] = []" "queue_ids (req # queue) = (case new_order_id req of None \<Rightarrow> [] | Some oid \<Rightarrow> [oid]) @ queue_ids queue"
  "queue_ids (xs @ ys) = queue_ids xs @ queue_ids ys"
  by (simp_all add: queue_ids_def)

lemma new_order_id_queued: "req \<in> set queue \<Longrightarrow> new_order_id req = Some oid \<Longrightarrow> oid \<in> set (queue_ids queue)"
  by (force simp: queue_ids_def)

lemma in_band_request:
  assumes "request_in_band exchange_band req"
  shows "req_ok req"
  using assms by (auto simp: request_in_band_def req_ok_def exchange_band_def in_band_def split: EngineRequestType.splits)

text \<open>A book with no zero open count shows exactly its orders.\<close>

lemma book_view_iff: "book_view bk oid = None \<longleftrightarrow> find_order oid bk = None"
  by (simp add: held_def)

text \<open>What order entry does to the gateway's state, in the three cases.\<close>

lemma translated_cases:
  assumes "translated c ent t ent'" "ent_next_order_id ent + 1 \<noteq> 0"
  obtains (quiet) "take_note (tr_note t) timestamp resp = resp" "ent_next_order_id ent' = ent_next_order_id ent"
      "\<forall>req \<in> set_option (tr_request t). new_order_id req = None"
    | (entered) req r where "tr_request t = Some req" "new_order_id req = Some (ent_next_order_id ent)"
      "ent_next_order_id ent' = ent_next_order_id ent + 1" "or_client_id r = rq_client_id req"
      "take_note (tr_note t) timestamp resp = resp(ent_next_order_id ent \<mapsto> \<lparr> lv_record = r, lv_open = 0 \<rparr>)"
proof (cases "tr_request t")
  case None
  then show thesis using assms
    by (intro quiet; cases "tr_note t") (simp_all add: translated_def take_note_def resp_on_note_def)
next
  case (Some req)
  show thesis
  proof (cases "rq_type req")
    case CANCEL
    then show thesis using assms Some quiet by (auto simp: translated_def take_note_def new_order_id_def)
  next
    case NEW
    then obtain n where "tr_note t = Some n" "gn_kind n = ORDER_ENTERED" "gn_order_id n = rq_order_id req" "or_client_id (gn_record n) = c"
      "rq_order_id req = ent_next_order_id ent" "ent_next_order_id ent' = ent_next_order_id ent + 1" "rq_client_id req = c"
      using assms Some by (auto simp: translated_def)
    then show thesis using Some NEW by (intro entered [of req "gn_record n"]) (simp_all add: take_note_def resp_on_note_def new_order_id_def)
  next
    case REPLACE
    then obtain n where "tr_note t = Some n" "gn_kind n = ORDER_REPLACING" "gn_order_id n = rq_new_order_id req" "or_client_id (gn_record n) = c"
      "rq_new_order_id req = ent_next_order_id ent" "ent_next_order_id ent' = ent_next_order_id ent + 1" "rq_client_id req = c"
      using assms Some by (auto simp: translated_def)
    then show thesis using Some REPLACE by (intro entered [of req "gn_record n"]) (simp_all add: take_note_def resp_on_note_def new_order_id_def)
  qed
qed

lemma noted_upd: "noted resp req \<Longrightarrow> new_order_id req \<noteq> Some oid \<Longrightarrow> noted (resp(oid := x)) req"
  by (auto simp: noted_def split: option.splits)

lemma client_inv:
  assumes inv: "gw_inv g bk" and t: "translated c (gw_entry g) t ent'" and nx: "ent_next_order_id (gw_entry g) + 1 \<noteq> 0"
    and g': "g' = g\<lparr> gw_entry := ent', gw_resp := take_note (tr_note t) timestamp (gw_resp g),
      gw_queue := gw_queue g @ map (stamp_request a b d) (case tr_request t of None \<Rightarrow> [] | Some req \<Rightarrow> [req]) \<rparr>"
  shows "gw_inv g' bk"
proof -
  let ?n = "ent_next_order_id (gw_entry g)"
  have ok: "req_ok req" if "tr_request t = Some req" for req
    using t that inv in_band_request by (auto simp: translated_def gw_inv_def)
  have band: "entry_inv ent'" "ent_band ent' = exchange_band" using t inv by (auto simp: translated_def gw_inv_def)
  have grow: "x < ?n + 1" if "x \<le> ?n" for x
    using unatSuc [of ?n] nx that by (auto simp: word_nat add.commute)
  have free: "find_order ?n bk = None" using inv by (auto simp: gw_inv_def)
  from t nx show ?thesis
  proof (cases rule: translated_cases [where timestamp = timestamp and resp = "gw_resp g"])
    case quiet
    then show ?thesis using inv band ok unfolding gw_inv_def g' by (auto simp: noted_def split: option.splits)
  next
    case (entered req r)
    have V: "resp_view (gw_resp g') = book_view bk"
      using inv entered(5) hold_0 [where V = "book_view bk" and oid = ?n] book_view_iff [of bk ?n] free
      by (simp add: g' resp_view_upd gw_inv_def)
    have q: "gw_queue g' = gw_queue g @ [stamp_request a b d req]" using entered(1) by (simp add: g')
    have noted: "noted (gw_resp g') x" if x: "x \<in> set (gw_queue g')" for x
    proof (cases "x \<in> set (gw_queue g)")
      case True
      then have "noted (gw_resp g) x" "\<And>oid. new_order_id x = Some oid \<Longrightarrow> oid < ?n"
        using inv new_order_id_queued [OF True] by (auto simp: gw_inv_def)
      then show ?thesis using entered(5) noted_upd [of "gw_resp g" x ?n] by (auto simp: g')
    next
      case False
      then have "x = stamp_request a b d req" using x q by auto
      then show ?thesis using entered by (simp add: g' noted_def)
    qed
    show ?thesis
      unfolding gw_inv_def
      using inv band V noted ok [OF entered(1)] free entered(1,2,3) grow
      by (auto simp: gw_inv_def q g' less_imp_le)
  qed
qed

lemma engine_inv:
  assumes inv: "gw_inv g bk" and q: "gw_queue g = req # queue" and p: "process req tsc (gw_book g) = Some (handled, ob')"
    and len: "length tss = length (new_events (gw_book g) ob')"
  obtains as resp' bk' where "resp_run (zip (new_events (gw_book g) ob') tss) (gw_resp g) = Some (map Some as, resp')"
    "map rs_client_id as = map ev_client_id (new_events (gw_book g) ob')"
    "gw_inv (g\<lparr> gw_queue := queue, gw_book := ob', gw_resp := resp' \<rparr>) bk'"
    "\<forall>oid. find_order oid bk = None \<and> new_order_id req \<noteq> Some oid \<longrightarrow> resp' oid = gw_resp g oid"
proof -
  define o' where "o' = spec_process (ns_since_midnight (ob_clock (gw_book g)) tsc) req bk"
  have I: "book_reachable (gw_book g)" "book_rel (gw_book g) bk" "resp_view (gw_resp g) = book_view bk" "req_ok req" "noted (gw_resp g) req"
    using inv q by (simp_all add: gw_inv_def)
  note P = process_outcome [OF I(1,2,4) p o'_def]
  have len': "length tss = length (oc_events o')" using len P(4) by simp
  have cl: "map ev_client_id (new_events (gw_book g) ob') = map ev_client_id (oc_events o')"
  proof -
    have "map ev_client_id (stamp_events ctx ans reads evs) = map ev_client_id evs" for ctx ans reads evs
      by (induction evs arbitrary: ans reads) (simp_all add: stamp_def)
    then show ?thesis by (simp add: P(4))
  qed
  have rep: "reported (oc_events o') (gw_resp g) tss (book_view (oc_book o'))"
    using process_reported [OF P(3) I(4,3,5)] len' by (simp add: o'_def)
  then obtain as resp' where r: "resp_run (zip (oc_events o') tss) (gw_resp g) = Some (map Some as, resp')"
    "map rs_client_id as = map ev_client_id (oc_events o')" "resp_view resp' = book_view (oc_book o')"
    and keep: "\<forall>oid. resp_view (gw_resp g) oid = None \<and> oid \<notin> ev_order_id ` set (oc_events o') \<longrightarrow> resp' oid = gw_resp g oid"
    unfolding reported_def by blast
  have ids: "ev_order_id ` set (oc_events o') \<subseteq> set_option (new_order_id req) \<union> ro_id ` set (all_orders bk)"
    unfolding o'_def by (rule process_event_ids)
  have same: "resp' oid = gw_resp g oid" if "find_order oid bk = None" "new_order_id req \<noteq> Some oid" for oid
    using that keep ids book_view_iff [of bk oid] I(3) find_order_None [of oid bk] by fastforce
  have gone: "find_order oid (oc_book o') = None" if "find_order oid bk = None" "new_order_id req \<noteq> Some oid" for oid
  proof -
    have "resp_view resp' oid = resp_view (gw_resp g) oid" using same [OF that] by (simp add: resp_view_def)
    then show ?thesis using that(1) r(3) I(3) book_view_iff [of bk oid] book_view_iff [of "oc_book o'" oid] by simp
  qed
  let ?n = "ent_next_order_id (gw_entry g)"
  have new: "oid < ?n" if "new_order_id req = Some oid" for oid
    using inv q that by (auto simp: gw_inv_def)
  have below: "oid < ?n" if "find_order oid (oc_book o') \<noteq> None" for oid
    using that gone new inv by (fastforce simp: gw_inv_def)
  have rest: "oid < ?n \<and> find_order oid bk = None \<and> new_order_id req \<noteq> Some oid" if "oid \<in> set (queue_ids queue)" for oid
    using inv q that by (auto simp: gw_inv_def split: option.splits)
  have noted: "noted resp' x" if x: "x \<in> set queue" for x
  proof -
    have "noted (gw_resp g) x" using inv q x by (simp add: gw_inv_def)
    moreover have "resp' oid = gw_resp g oid" if "new_order_id x = Some oid" for oid
      using rest [OF new_order_id_queued [OF x that]] same by blast
    ultimately show ?thesis by (auto simp: noted_def split: option.splits)
  qed
  have "gw_inv (g\<lparr> gw_queue := queue, gw_book := ob', gw_resp := resp' \<rparr>) (oc_book o')"
    unfolding gw_inv_def using inv q P(2) r(3) below rest gone noted book_reachable.request [OF I(1,4) p]
    by (auto simp: gw_inv_def)
  then show thesis using that [of as resp'] r(1,2) cl resp_run_stamped P(4) same by simp
qed

lemma gw_inv_unique: "gw_inv g bk \<Longrightarrow> book_rel (gw_book g) bk' \<Longrightarrow> bk' = bk"
  using book_rel_unique by (auto simp: gw_inv_def)

lemma clock_inv:
  assumes "gw_inv g bk"
  shows "gw_inv (g\<lparr> gw_book := (gw_book g)\<lparr>tsc_reads := reads\<rparr> \<rparr>) bk"
proof -
  have "same_book (gw_book g) ((gw_book g)\<lparr>tsc_reads := reads\<rparr>)" by (simp add: same_book_def)
  from same_book_inv [OF this] have "book_rel ((gw_book g)\<lparr>tsc_reads := reads\<rparr>) bk"
    using assms by (auto simp: gw_inv_def book_rel_def)
  then show ?thesis using assms book_reachable.clock by (simp add: gw_inv_def)
qed

lemma gw_step_inv:
  assumes "gw_step g g'" "gw_inv g bk"
  shows "\<exists>bk'. gw_inv g' bk'"
  using assms
proof cases
  case (client c msg t ent' timestamp read_begin recv pushed_at)
  have "entry_inv (gw_entry g)" using assms(2) by (simp add: gw_inv_def)
  from this client(3) obtain t' e' where "translate c msg (gw_entry g) = Some (t', e')" "translated c (gw_entry g) t' e'"
    by (rule translate_ok)
  then have "translated c (gw_entry g) t ent'" using client(2) by simp
  from client_inv [OF assms(2) this client(3,1)] show ?thesis by blast
next
  case (engine req queue tsc handled ob' tss answers resp')
  obtain as resp1 bk' where "resp_run (zip (new_events (gw_book g) ob') tss) (gw_resp g) = Some (map Some as, resp1)"
    "gw_inv (g\<lparr> gw_queue := queue, gw_book := ob', gw_resp := resp1 \<rparr>) bk'"
    by (rule engine_inv [OF assms(2) engine(2,3,4)])
  then show ?thesis using engine by auto
next
  case (clock reads)
  then show ?thesis using clock_inv [OF assms(2)] by auto
qed

lemma gw_reachable_inv: "gw_reachable g \<Longrightarrow> \<exists>bk. gw_inv g bk"
proof (induction rule: gw_reachable.induct)
  case (start out capacity md clk tsc)
  have "resp_view Map.empty = book_view (empty_book capacity)"
    by (simp add: fun_eq_iff resp_view_def held_def find_order_def all_orders_def empty_book_def)
  moreover have "find_order oid (empty_book capacity) = None" for oid by (simp add: find_order_def all_orders_def empty_book_def)
  ultimately have "gw_inv \<lparr> gw_entry = new_OrderEntry exchange_band, gw_queue = [],
     gw_book = new_Orderbook capacity out md clk tsc, gw_resp = Map.empty \<rparr> (empty_book capacity)"
    using new_OrderEntry_inv [of exchange_band] book_reachable.start [OF start] new_book_rel
    by (simp add: gw_inv_def) (simp add: new_OrderEntry_def)
  then show ?case by blast
next
  case (step g g')
  then show ?case using gw_step_inv by blast
qed

subsection \<open>Records that stay\<close>

text \<open>A record with no open shares whose order neither rests nor waits in the ring.\<close>

definition stale :: "Gateway \<Rightarrow> OrderId \<Rightarrow> bool" where
  "stale g oid \<longleftrightarrow> gw_resp g oid \<noteq> None \<and> resp_view (gw_resp g) oid = None
     \<and> oid \<notin> set (queue_ids (gw_queue g)) \<and> oid < ent_next_order_id (gw_entry g)"

lemma stale_client:
  assumes t: "translated c (gw_entry g) t ent'" and nx: "ent_next_order_id (gw_entry g) + 1 \<noteq> 0" and st: "stale g oid"
    and g': "g' = g\<lparr> gw_entry := ent', gw_resp := take_note (tr_note t) timestamp (gw_resp g),
      gw_queue := gw_queue g @ map (stamp_request a b d) (case tr_request t of None \<Rightarrow> [] | Some req \<Rightarrow> [req]) \<rparr>"
  shows "stale g' oid"
proof -
  let ?n = "ent_next_order_id (gw_entry g)"
  have grow: "oid < ?n + 1"
    using unatSuc [of ?n] nx st by (auto simp: word_nat stale_def add.commute)
  from t nx show ?thesis
  proof (cases rule: translated_cases [where timestamp = timestamp and resp = "gw_resp g"])
    case quiet
    then show ?thesis using st by (auto simp: g' stale_def split: option.splits)
  next
    case (entered req r)
    then show ?thesis using st grow by (auto simp: g' stale_def resp_view_upd hold_apply)
  qed
qed

lemma stale_step:
  assumes "gw_step g g'" and inv: "gw_inv g bk" and st: "stale g oid"
  shows "stale g' oid"
  using assms(1)
proof cases
  case (client c msg t ent' timestamp read_begin recv pushed_at)
  have "entry_inv (gw_entry g)" using inv by (simp add: gw_inv_def)
  from this client(3) obtain t' e' where "translate c msg (gw_entry g) = Some (t', e')" "translated c (gw_entry g) t' e'"
    by (rule translate_ok)
  then have "translated c (gw_entry g) t ent'" using client(2) by simp
  from stale_client [OF this client(3) st client(1)] show ?thesis .
next
  case (engine req queue tsc handled ob' tss answers resp')
  obtain as resp1 bk' where r: "resp_run (zip (new_events (gw_book g) ob') tss) (gw_resp g) = Some (map Some as, resp1)"
    and same: "\<forall>oid. find_order oid bk = None \<and> new_order_id req \<noteq> Some oid \<longrightarrow> resp1 oid = gw_resp g oid"
    by (rule engine_inv [OF inv engine(2,3,4)])
  have v: "find_order oid bk = None" using st inv book_view_iff [of bk oid] by (simp add: stale_def gw_inv_def)
  have "new_order_id req \<noteq> Some oid" using st engine(2) by (auto simp: stale_def)
  then have "resp' oid = gw_resp g oid" using same v r engine(5) by auto
  then show ?thesis using st engine(1,2) by (simp add: stale_def resp_view_def)
next
  case clock
  then show ?thesis using st by (simp add: stale_def)
qed

lemma stale_forever:
  assumes "gw_step\<^sup>*\<^sup>* g g'" "gw_reachable g" "stale g oid"
  shows "stale g' oid"
  using assms
proof (induction rule: converse_rtranclp_induct)
  case (step g g1)
  obtain bk where "gw_inv g bk" using gw_reachable_inv [OF step.prems(1)] by blast
  from stale_step [OF step.hyps(1) this step.prems(2)] step gw_reachable.step show ?case by blast
qed

lemma dead_replace_stale:
  assumes inv: "gw_inv g bk" and q: "gw_queue g = req # queue" "rq_type req = REPLACE" and dead: "find_order (rq_order_id req) bk = None"
    and p: "process req tsc (gw_book g) = Some (handled, ob')"
  shows "new_events (gw_book g) ob' = []"
    "stale (g\<lparr> gw_queue := queue, gw_book := ob' \<rparr>) (rq_new_order_id req)"
proof -
  have I: "book_reachable (gw_book g)" "book_rel (gw_book g) bk" "req_ok req" using inv q by (simp_all add: gw_inv_def)
  have "oc_events (spec_process ts req bk) = []" for ts using q(2) dead by (simp add: spec_process_def spec_replace_def ignored_def)
  then show "new_events (gw_book g) ob' = []" using process_outcome(4) [OF I p refl] by simp
  have "gw_resp g (rq_new_order_id req) \<noteq> None"
    using inv q by (auto simp: gw_inv_def noted_def new_order_id_def split: option.splits)
  then show "stale (g\<lparr> gw_queue := queue, gw_book := ob' \<rparr>) (rq_new_order_id req)"
    using inv q by (auto simp: stale_def gw_inv_def new_order_id_def book_view_iff)
qed

end
