(* ===== verification/Gateway_Pipeline.thy ===== *)
theory Gateway_Pipeline
  imports Gateway
begin

text \<open>
  The threads an order passes through, with the rings between them. The inbound thread pushes the note of an order and then
  its request (\<open>handle_ouch_\<close>); the matching thread serves the requests in order and pushes the events of each one by one; the
  outbound thread drains the notes, pops an event, drains the notes again and hands the event to the responder
  (\<open>outbound_\<close>). Every step is one action of one thread, and the threads interleave freely. A push that
  finds its ring full is repeated by the code, which here is the step taken later, so the rings are lists. Every state of
  the threads is related to one of \<open>gw_step\<close>, in which the responder has caught up.
\<close>

subsection \<open>The threads\<close>

text \<open>Where the outbound thread is: at a drain or a pop, with a popped event before or during the second drain, or past it.\<close>

datatype OutboundAt = AtRings | Popped EngineEvent | Drained EngineEvent

record Pipeline =
  pp_entry :: OrderEntry
  pp_handing :: "EngineRequest option"
  pp_notes :: "GatewayNote list"
  pp_requests :: "EngineRequest list"
  pp_book :: Orderbook
  pp_sending :: "EngineEvent list"
  pp_events :: "EngineEvent list"
  pp_at :: OutboundAt
  pp_resp :: OuchResponder

definition new_Pipeline :: "Orderbook \<Rightarrow> Pipeline" where
  "new_Pipeline book = \<lparr> pp_entry = new_OrderEntry exchange_band, pp_handing = None, pp_notes = [], pp_requests = [], pp_book = book,
     pp_sending = [], pp_events = [], pp_at = AtRings, pp_resp = Map.empty \<rparr>"

inductive pp_step :: "Pipeline \<Rightarrow> Pipeline \<Rightarrow> bool" where
  pp_client: "pp_handing p = None \<Longrightarrow> translate c msg (pp_entry p) = Some (t, ent') \<Longrightarrow> ent_next_order_id (pp_entry p) + 1 \<noteq> 0
    \<Longrightarrow> pp_step p (p\<lparr> pp_entry := ent', pp_notes := pp_notes p @ (case tr_note t of None \<Rightarrow> [] | Some n \<Rightarrow> [n]),
          pp_handing := map_option (stamp_request read_begin recv pushed_at) (tr_request t) \<rparr>)"
| pp_hand_over: "pp_handing p = Some req \<Longrightarrow> pp_step p (p\<lparr> pp_handing := None, pp_requests := pp_requests p @ [req] \<rparr>)"
| pp_serve: "pp_requests p = req # queue \<Longrightarrow> pp_sending p = [] \<Longrightarrow> process req tsc (pp_book p) = Some (handled, ob')
    \<Longrightarrow> pp_step p (p\<lparr> pp_requests := queue, pp_book := ob', pp_sending := new_events (pp_book p) ob' \<rparr>)"
| pp_emit: "pp_sending p = e # es \<Longrightarrow> pp_step p (p\<lparr> pp_sending := es, pp_events := pp_events p @ [e] \<rparr>)"
| pp_pop: "pp_at p = AtRings \<Longrightarrow> pp_events p = e # es \<Longrightarrow> pp_step p (p\<lparr> pp_events := es, pp_at := Popped e \<rparr>)"
| pp_drain: "pp_notes p = n # ns \<Longrightarrow> (\<forall>e. pp_at p \<noteq> Drained e)
    \<Longrightarrow> pp_step p (p\<lparr> pp_notes := ns, pp_resp := snd (resp_on_note n timestamp (pp_resp p)) \<rparr>)"
| pp_drained: "pp_at p = Popped e \<Longrightarrow> pp_notes p = [] \<Longrightarrow> pp_step p (p\<lparr> pp_at := Drained e \<rparr>)"
| pp_answer: "pp_at p = Drained e \<Longrightarrow> resp_on_event e timestamp (pp_resp p) = Some (answer, resp')
    \<Longrightarrow> pp_step p (p\<lparr> pp_at := AtRings, pp_resp := resp' \<rparr>)"
| pp_clock: "pp_step p (p\<lparr> pp_book := (pp_book p)\<lparr>tsc_reads := reads\<rparr> \<rparr>)"

inductive pp_reachable :: "Pipeline \<Rightarrow> bool" where
  pp_start: "channel_inv out \<Longrightarrow> pp_reachable (new_Pipeline (new_Orderbook capacity out md clk tsc))"
| pp_next: "pp_reachable p \<Longrightarrow> pp_step p p' \<Longrightarrow> pp_reachable p'"

text \<open>The events of served requests that the responder has not seen yet, in their order.\<close>

definition in_flight :: "Pipeline \<Rightarrow> EngineEvent list" where
  "in_flight p = (case pp_at p of AtRings \<Rightarrow> [] | Popped e \<Rightarrow> [e] | Drained e \<Rightarrow> [e]) @ pp_events p @ pp_sending p"

text \<open>
  The responder once it has handled the notes in the ring and then the events in flight. Its state does not depend on
  the timestamps it puts into the responses.
\<close>

definition note_all :: "GatewayNote list \<Rightarrow> OuchResponder \<Rightarrow> OuchResponder" where
  "note_all ns resp = fold (\<lambda>n. snd \<circ> resp_on_note n 0) ns resp"

fun answer_all :: "EngineEvent list \<Rightarrow> OuchResponder \<Rightarrow> OuchResponder option" where
  "answer_all [] resp = Some resp"
| "answer_all (e # es) resp = do { (answer, resp1) \<leftarrow> resp_on_event e 0 resp; answer_all es resp1 }"

definition caught_up :: "Pipeline \<Rightarrow> OuchResponder option" where
  "caught_up p = answer_all (in_flight p) (note_all (pp_notes p) (pp_resp p))"

subsection \<open>Notes and events that commute\<close>

definition note_ids :: "GatewayNote list \<Rightarrow> OrderId list" where
  "note_ids ns = map gn_order_id (filter (\<lambda>n. gn_kind n \<noteq> NOTE_REJECTED) ns)"

definition event_ids :: "EngineEvent \<Rightarrow> OrderId set" where
  "event_ids e = {ev_order_id e} \<union> (if ev_type e = REPLACED then {ev_orig_order_id e} else {})"

lemma resp_on_note_state:
  "snd (resp_on_note n t resp) = (if gn_kind n = NOTE_REJECTED then resp else resp(gn_order_id n \<mapsto> \<lparr> lv_record = gn_record n, lv_open = 0 \<rparr>))"
  by (simp add: resp_on_note_def split: GatewayNoteKind.splits)

lemma note_ids_simps [simp]:
  "note_ids [] = []" "note_ids (n # ns) = (if gn_kind n = NOTE_REJECTED then [] else [gn_order_id n]) @ note_ids ns"
  "note_ids (ns @ ns') = note_ids ns @ note_ids ns'"
  by (simp_all add: note_ids_def)

lemma note_all_Nil [simp]: "note_all [] resp = resp"
  by (simp add: note_all_def)

lemma note_all_Cons: "note_all (n # ns) resp = note_all ns (snd (resp_on_note n t resp))"
  by (simp add: note_all_def resp_on_note_state)

lemma note_all_snoc: "note_all (ns @ [n]) resp = snd (resp_on_note n t (note_all ns resp))"
  by (simp add: note_all_def resp_on_note_state)

lemma resp_on_event_time:
  "map_option snd (resp_on_event e t resp) = map_option snd (resp_on_event e t' resp)"
  by (auto simp: resp_on_event_def Let_def split: option.split EngineEventType.split)

lemma answer_all_Cons: "answer_all (e # es) resp = map_option snd (resp_on_event e t resp) \<bind> answer_all es"
  using resp_on_event_time [of e 0 resp t] by (cases "resp_on_event e 0 resp"; cases "resp_on_event e t resp") auto

lemma answer_all_append: "answer_all (es @ fs) resp = answer_all es resp \<bind> answer_all fs"
  by (induction es arbitrary: resp) (auto split: Option.bind_splits)

lemma answer_all_run: "length tss = length es \<Longrightarrow> answer_all es resp = map_option snd (resp_run (zip es tss) resp)"
proof (induction es arbitrary: tss resp)
  case (Cons e es)
  then obtain t ts where t: "tss = t # ts" "length ts = length es" by (cases tss) auto
  then show ?case unfolding answer_all_Cons [of e es resp t] using Cons.IH [OF t(2)]
    by (cases "resp_on_event e t resp") (auto split: Option.bind_splits)
qed simp

lemma event_note_commute:
  assumes "oid \<notin> event_ids e"
  shows "map_option snd (resp_on_event e t (resp(oid \<mapsto> l))) = map_option (\<lambda>r. r(oid \<mapsto> l)) (map_option snd (resp_on_event e t resp))"
proof -
  have ne: "ev_order_id e \<noteq> oid" "ev_type e = REPLACED \<Longrightarrow> ev_orig_order_id e \<noteq> oid" using assms by (auto simp: event_ids_def split: if_splits)
  have r: "resp_reduce (ev_order_id e) q (resp(oid \<mapsto> l)) = (resp_reduce (ev_order_id e) q resp)(oid \<mapsto> l)" for q
    using ne(1) by (simp add: resp_reduce_def Let_def fun_upd_twist split: option.split)
  show ?thesis using ne
    by (cases "ev_type e") (auto simp: resp_on_event_def Let_def r fun_upd_twist split: option.splits)
qed

lemma events_note_commute:
  assumes "\<forall>e\<in>set es. oid \<notin> event_ids e"
  shows "answer_all es (resp(oid \<mapsto> l)) = map_option (\<lambda>r. r(oid \<mapsto> l)) (answer_all es resp)"
  using assms
proof (induction es arbitrary: resp)
  case (Cons e es)
  have c: "map_option snd (resp_on_event e 0 (resp(oid \<mapsto> l))) = map_option (\<lambda>r. r(oid \<mapsto> l)) (map_option snd (resp_on_event e 0 resp))"
    by (rule event_note_commute) (use Cons.prems in simp)
  show ?case unfolding answer_all_Cons [of e es _ 0] c using Cons.prems by (cases "resp_on_event e 0 resp") (simp_all add: Cons.IH)
qed simp

lemma event_notes_commute:
  assumes "set (note_ids ns) \<inter> event_ids e = {}" "map_option snd (resp_on_event e t resp) = Some resp'"
  shows "map_option snd (resp_on_event e t (note_all ns resp)) = Some (note_all ns resp')"
  using assms
proof (induction ns arbitrary: resp resp')
  case (Cons n ns)
  let ?u = "\<lambda>r. snd (resp_on_note n 0 r)"
  have "map_option snd (resp_on_event e t (?u resp)) = Some (?u resp')"
    using event_note_commute [of "gn_order_id n" e t resp] Cons.prems by (auto simp: resp_on_note_state split: if_splits)
  from Cons.IH [OF _ this] Cons.prems(1) show ?case by (auto simp: note_all_Cons [where t = 0] split: if_splits)
qed simp

text \<open>A note of an order the responder does not have leaves its open shares as they are.\<close>

lemma note_all_view:
  assumes "distinct (note_ids ns)" "set (note_ids ns) \<inter> dom resp = {}"
  shows "resp_view (note_all ns resp) = resp_view resp"
  using assms
proof (induction ns arbitrary: resp)
  case (Cons n ns)
  let ?r = "snd (resp_on_note n 0 resp)"
  have "resp_view ?r = resp_view resp" "set (note_ids ns) \<inter> dom ?r = {}"
    using Cons.prems by (auto simp: resp_on_note_state resp_view_def fun_eq_iff split: if_splits option.splits)
  with Cons.IH [of ?r] Cons.prems(1) show ?case by (auto simp: note_all_Cons [where t = 0] split: if_splits)
qed simp

lemma on_event_dom: "resp_on_event e t resp = Some (a, resp') \<Longrightarrow> dom resp' \<subseteq> dom resp"
  by (auto simp: resp_on_event_def resp_reduce_def Let_def split: option.splits EngineEventType.splits if_splits)

subsection \<open>Events name orders of the past\<close>

lemma match_not_replaced: "e \<in> set (fl_events (spec_match ts oid client ok q mn rs)) \<Longrightarrow> ev_type e \<noteq> REPLACED"
  by (induction rs arbitrary: q mn) (auto simp: executed_events_def zero_event_def Let_def split: if_splits)

lemma remainder_not_replaced: "e \<in> set (fst (snd (spec_remainder ts may r bk))) \<Longrightarrow> ev_type e \<noteq> REPLACED"
  by (auto simp: spec_remainder_def canceled_event_def zero_event_def split: if_splits)

lemma process_event_origs:
  assumes "e \<in> set (oc_events (spec_process ts req bk))" "ev_type e = REPLACED"
  shows "ev_orig_order_id e \<in> ro_id ` set (all_orders bk)"
proof (cases "rq_type req")
  case NEW
  then show ?thesis using assms
    by (auto simp: spec_process_def spec_enter_def ignored_def spec_match_book_def Let_def case_prod_unfold zero_event_def
        split: if_splits dest: match_not_replaced remainder_not_replaced)
next
  case CANCEL
  then show ?thesis using assms
    by (auto simp: spec_process_def spec_cancel_def ignored_def canceled_event_def zero_event_def Let_def split: option.splits if_splits)
next
  case REPLACE
  show ?thesis
  proof (cases "find_order (rq_order_id req) bk")
    case None
    then show ?thesis using assms REPLACE by (simp add: spec_process_def spec_replace_def ignored_def)
  next
    case (Some r)
    then have "ro_id r \<in> ro_id ` set (all_orders bk)" using find_SomeD [OF Some [unfolded find_order_def]] by blast
    then show ?thesis using assms REPLACE Some
      by (auto simp: spec_process_def spec_replace_def ignored_def spec_match_book_def canceled_event_def Let_def case_prod_unfold zero_event_def
          split: if_splits dest: match_not_replaced remainder_not_replaced)
  qed
qed

lemma stamped_ids: "(\<Union>e\<in>set (stamp_events ctx ans reads evs). event_ids e) = (\<Union>e\<in>set evs. event_ids e)"
  by (induction evs arbitrary: ans reads) (simp_all add: stamp_def event_ids_def)

lemma served_event_ids:
  assumes inv: "gw_inv g bk" and q: "gw_queue g = req # queue" and p: "process req tsc (gw_book g) = Some (handled, ob')"
    and e: "e \<in> set (new_events (gw_book g) ob')" "oid \<in> event_ids e"
  shows "oid < ent_next_order_id (gw_entry g)"
proof -
  have I: "book_reachable (gw_book g)" "book_rel (gw_book g) bk" "req_ok req" using inv q by (simp_all add: gw_inv_def)
  define o' where "o' = spec_process (ns_since_midnight (ob_clock (gw_book g)) tsc) req bk"
  have "(\<Union>e\<in>set (new_events (gw_book g) ob'). event_ids e) = (\<Union>e\<in>set (oc_events o'). event_ids e)"
    unfolding process_outcome(4) [OF I p o'_def] by (rule stamped_ids)
  then obtain e1 where e1: "e1 \<in> set (oc_events o')" "oid \<in> event_ids e1" using e by blast
  have "oid \<in> set_option (new_order_id req) \<union> ro_id ` set (all_orders bk)"
    using e1 process_event_ids [of "ns_since_midnight (ob_clock (gw_book g)) tsc" req bk] process_event_origs [of e1 _ req bk]
    by (auto simp: event_ids_def o'_def split: if_splits)
  moreover have "oid < ent_next_order_id (gw_entry g)" if "new_order_id req = Some oid" using inv q that by (auto simp: gw_inv_def)
  moreover have "oid < ent_next_order_id (gw_entry g)" if "oid \<in> ro_id ` set (all_orders bk)"
    using inv that find_order_None [of oid bk] by (auto simp: gw_inv_def)
  ultimately show ?thesis by auto
qed

subsection \<open>Catching up\<close>

text \<open>The state in which the request in hand has been pushed and the responder has caught up.\<close>

definition pp_rel :: "Pipeline \<Rightarrow> Gateway \<Rightarrow> bool" where
  "pp_rel p g \<longleftrightarrow> gw_entry g = pp_entry p \<and> gw_queue g = pp_requests p @ (case pp_handing p of None \<Rightarrow> [] | Some req \<Rightarrow> [req])
     \<and> gw_book g = pp_book p \<and> caught_up p = Some (gw_resp g)"

definition pp_inv :: "Pipeline \<Rightarrow> bool" where
  "pp_inv p \<longleftrightarrow> (\<forall>e\<in>set (in_flight p). \<forall>oid\<in>event_ids e. oid < ent_next_order_id (pp_entry p))
     \<and> distinct (note_ids (pp_notes p)) \<and> set (note_ids (pp_notes p)) \<inter> dom (pp_resp p) = {}
     \<and> (\<forall>oid\<in>set (note_ids (pp_notes p)) \<union> dom (pp_resp p). oid < ent_next_order_id (pp_entry p))
     \<and> (\<forall>e. pp_at p = Drained e \<longrightarrow> set (note_ids (pp_notes p)) \<inter> event_ids e = {})"

lemma translated_note:
  assumes "translated c ent t ent'"
  obtains (no_order) "\<forall>n. tr_note t = Some n \<longrightarrow> gn_kind n = NOTE_REJECTED" "ent_next_order_id ent' = ent_next_order_id ent"
    | (order) n where "tr_note t = Some n" "gn_kind n \<noteq> NOTE_REJECTED" "gn_order_id n = ent_next_order_id ent"
        "ent_next_order_id ent' = ent_next_order_id ent + 1"
proof (cases "tr_request t")
  case None
  then show thesis using assms no_order by (cases "tr_note t") (auto simp: translated_def)
next
  case (Some req)
  then show thesis using assms no_order order by (cases "rq_type req") (auto simp: translated_def)
qed

lemma client_sim:
  assumes rel: "pp_rel p g" and inv: "pp_inv p" and t: "translated c (pp_entry p) t ent'" and nx: "ent_next_order_id (pp_entry p) + 1 \<noteq> 0"
    and h: "pp_handing p = None"
    and p': "p' = p\<lparr> pp_entry := ent', pp_notes := pp_notes p @ (case tr_note t of None \<Rightarrow> [] | Some n \<Rightarrow> [n]),
      pp_handing := map_option (stamp_request a b d) (tr_request t) \<rparr>"
    and g': "g' = g\<lparr> gw_entry := ent', gw_resp := take_note (tr_note t) 0 (gw_resp g),
      gw_queue := gw_queue g @ map (stamp_request a b d) (case tr_request t of None \<Rightarrow> [] | Some req \<Rightarrow> [req]) \<rparr>"
  shows "pp_rel p' g'" "pp_inv p'"
proof -
  let ?n = "ent_next_order_id (pp_entry p)"
  have fl: "in_flight p' = in_flight p" by (simp add: p' in_flight_def)
  have I: "\<And>e oid. e \<in> set (in_flight p) \<Longrightarrow> oid \<in> event_ids e \<Longrightarrow> oid < ?n" "\<And>oid. oid \<in> set (note_ids (pp_notes p)) \<Longrightarrow> oid < ?n"
    "\<And>oid. oid \<in> dom (pp_resp p) \<Longrightarrow> oid < ?n" using inv by (auto simp: pp_inv_def)
  have at: "e \<in> set (in_flight p)" if "pp_at p = Drained e" for e using that by (simp add: in_flight_def)
  have up: "answer_all (in_flight p) (note_all (pp_notes p) (pp_resp p)) = Some (gw_resp g)" using rel by (simp add: pp_rel_def caught_up_def)
  have "caught_up p' = Some (gw_resp g') \<and> pp_inv p'" using t
  proof (cases rule: translated_note)
    case no_order
    then have "note_all (pp_notes p') (pp_resp p') = note_all (pp_notes p) (pp_resp p)" "note_ids (pp_notes p') = note_ids (pp_notes p)"
      "gw_resp g' = gw_resp g"
      by (auto simp: p' g' take_note_def note_all_snoc [where t = 0] resp_on_note_state split: option.split)
    then show ?thesis using inv up no_order(2) fl by (simp add: caught_up_def pp_inv_def) (simp add: p')
  next
    case (order n)
    let ?l = "\<lparr> lv_record = gn_record n, lv_open = 0 \<rparr>"
    have grow: "x < ?n + 1" if "x \<le> ?n" for x using unatSuc [of ?n] nx that by (auto simp: word_nat add.commute)
    have "note_all (pp_notes p') (pp_resp p') = (note_all (pp_notes p) (pp_resp p))(?n \<mapsto> ?l)" "gw_resp g' = (gw_resp g)(?n \<mapsto> ?l)"
      using order by (simp_all add: p' g' take_note_def note_all_snoc [where t = 0] resp_on_note_state)
    moreover have "\<forall>e\<in>set (in_flight p). ?n \<notin> event_ids e" using I(1) by blast
    ultimately have "caught_up p' = Some (gw_resp g')" using up by (simp add: caught_up_def fl events_note_commute)
    moreover have ids: "note_ids (pp_notes p') = note_ids (pp_notes p) @ [?n]" using order by (simp add: p')
    have "?n \<notin> set (note_ids (pp_notes p))" "?n \<notin> dom (pp_resp p)" "\<And>e. pp_at p = Drained e \<Longrightarrow> ?n \<notin> event_ids e"
      using I at by blast+
    then have "pp_inv p'" using inv grow order(4) unfolding pp_inv_def fl ids by (auto simp: p' less_imp_le)
    ultimately show ?thesis by simp
  qed
  then show "pp_rel p' g'" "pp_inv p'" using rel h by (auto simp: pp_rel_def p' g' split: option.split)
qed

lemma serve_sim:
  assumes rel: "pp_rel p g" and inv: "pp_inv p" "gw_inv g bk" and q: "pp_requests p = req # queue" "pp_sending p = []"
    and pr: "process req tsc (pp_book p) = Some (handled, ob')"
    and p': "p' = p\<lparr> pp_requests := queue, pp_book := ob', pp_sending := new_events (pp_book p) ob' \<rparr>"
  shows "\<exists>g'. gw_step g g' \<and> pp_rel p' g' \<and> pp_inv p'"
proof -
  let ?evs = "new_events (pp_book p) ob'" let ?rest = "queue @ (case pp_handing p of None \<Rightarrow> [] | Some req \<Rightarrow> [req])"
  have R: "gw_book g = pp_book p" "gw_queue g = req # ?rest" "gw_entry g = pp_entry p" "caught_up p = Some (gw_resp g)"
    using rel q(1) by (simp_all add: pp_rel_def)
  have pr': "process req tsc (gw_book g) = Some (handled, ob')" using pr R(1) by simp
  have len: "length (replicate (length ?evs) (0 :: u64)) = length (new_events (gw_book g) ob')" using R(1) by simp
  obtain as resp' where run: "resp_run (zip ?evs (replicate (length ?evs) 0)) (gw_resp g) = Some (map Some as, resp')"
    by (rule engine_inv [OF inv(2) R(2) pr' len]) (use R(1) in simp)
  let ?g = "g\<lparr> gw_queue := ?rest, gw_book := ob', gw_resp := resp' \<rparr>"
  have "gw_step g ?g" using gw_step.engine [OF R(2) pr' len] run R(1) by simp
  moreover have fl: "in_flight p' = in_flight p @ ?evs" using q(2) by (simp add: p' in_flight_def)
  have "answer_all ?evs (gw_resp g) = Some resp'" using answer_all_run [of "replicate (length ?evs) 0" ?evs "gw_resp g"] run by simp
  then have "caught_up p' = Some resp'" using R(4) unfolding caught_up_def fl answer_all_append by (simp add: p')
  then have "pp_rel p' ?g" using R by (simp add: pp_rel_def p')
  moreover have "oid < ent_next_order_id (pp_entry p)" if "e \<in> set ?evs" "oid \<in> event_ids e" for e oid
    using served_event_ids [OF inv(2) R(2) pr'] that R(1,3) by simp
  then have "pp_inv p'" using inv(1) unfolding pp_inv_def fl by (auto simp: p')
  ultimately show ?thesis by blast
qed

text \<open>The steps between the rings change nothing in the state that has caught up.\<close>

lemma ring_sim:
  assumes rel: "pp_rel p g" and inv: "pp_inv p"
  shows "pp_handing p = Some req \<Longrightarrow> p' = p\<lparr> pp_handing := None, pp_requests := pp_requests p @ [req] \<rparr> \<Longrightarrow> pp_rel p' g \<and> pp_inv p'"
    "pp_sending p = e # es \<Longrightarrow> p' = p\<lparr> pp_sending := es, pp_events := pp_events p @ [e] \<rparr> \<Longrightarrow> pp_rel p' g \<and> pp_inv p'"
    "pp_at p = AtRings \<Longrightarrow> pp_events p = e # es \<Longrightarrow> p' = p\<lparr> pp_events := es, pp_at := Popped e \<rparr> \<Longrightarrow> pp_rel p' g \<and> pp_inv p'"
    "pp_at p = Popped e \<Longrightarrow> pp_notes p = [] \<Longrightarrow> p' = p\<lparr> pp_at := Drained e \<rparr> \<Longrightarrow> pp_rel p' g \<and> pp_inv p'"
  using rel inv by (auto simp: pp_rel_def pp_inv_def caught_up_def in_flight_def)

lemma drain_sim:
  assumes rel: "pp_rel p g" and inv: "pp_inv p" and n: "pp_notes p = n # ns" "\<forall>e. pp_at p \<noteq> Drained e"
    and p': "p' = p\<lparr> pp_notes := ns, pp_resp := snd (resp_on_note n timestamp (pp_resp p)) \<rparr>"
  shows "pp_rel p' g" "pp_inv p'"
proof -
  have "note_all (pp_notes p') (pp_resp p') = note_all (pp_notes p) (pp_resp p)"
    unfolding n(1) note_all_Cons [of n ns "pp_resp p" timestamp] by (simp add: p')
  then show "pp_rel p' g" using rel by (simp add: pp_rel_def caught_up_def in_flight_def) (simp add: p')
  show "pp_inv p'" using inv n by (auto simp: pp_inv_def in_flight_def p' resp_on_note_state)
qed

lemma answer_sim:
  assumes rel: "pp_rel p g" and inv: "pp_inv p" and e: "pp_at p = Drained e" "resp_on_event e timestamp (pp_resp p) = Some (answer, resp')"
    and p': "p' = p\<lparr> pp_at := AtRings, pp_resp := resp' \<rparr>"
  shows "pp_rel p' g" "pp_inv p'"
proof -
  have fl: "in_flight p = e # in_flight p'" using e(1) by (simp add: in_flight_def p')
  have "map_option snd (resp_on_event e timestamp (note_all (pp_notes p) (pp_resp p))) = Some (note_all (pp_notes p) resp')"
    by (rule event_notes_commute) (use inv e in \<open>simp_all add: pp_inv_def\<close>)
  then have "caught_up p = caught_up p'" unfolding caught_up_def fl answer_all_Cons [of e _ _ timestamp] by (auto simp: p')
  then show "pp_rel p' g" using rel by (simp add: pp_rel_def) (simp add: p')
  let ?ids = "set (note_ids (pp_notes p))"
  have I: "?ids \<inter> dom (pp_resp p) = {}" "\<forall>oid\<in>?ids \<union> dom (pp_resp p). oid < ent_next_order_id (pp_entry p)" using inv by (simp_all add: pp_inv_def)
  have "?ids \<inter> dom resp' = {}" "\<forall>oid\<in>?ids \<union> dom resp'. oid < ent_next_order_id (pp_entry p)" using I on_event_dom [OF e(2)] by blast+
  then show "pp_inv p'" using inv fl by (simp add: pp_inv_def) (simp add: p')
qed

lemma pp_step_sim:
  assumes "pp_step p p'" and rel: "pp_rel p g" and inv: "pp_inv p" "gw_inv g bk"
  shows "\<exists>g'. (g' = g \<or> gw_step g g') \<and> pp_rel p' g' \<and> pp_inv p'"
  using assms(1)
proof cases
  case (pp_client c msg t ent' a b d)
  have ent: "entry_inv (pp_entry p)" "gw_entry g = pp_entry p" using inv(2) rel by (simp_all add: gw_inv_def pp_rel_def)
  from ent(1) pp_client(4) obtain t' e' where "translate c msg (pp_entry p) = Some (t', e')" "translated c (pp_entry p) t' e'"
    by (rule translate_ok)
  then have t: "translated c (pp_entry p) t ent'" using pp_client(3) by simp
  show ?thesis using client_sim [OF rel inv(1) t pp_client(4,2,1) refl] gw_step.client [of c msg g t ent' a b d 0] pp_client(3,4) ent(2) by auto
next
  case (pp_serve req queue tsc handled ob')
  then show ?thesis using serve_sim [OF rel inv pp_serve(2,3,4,1)] by blast
next
  case (pp_drain n ns timestamp)
  then show ?thesis using drain_sim [OF rel inv(1) pp_drain(2,3,1)] by blast
next
  case (pp_answer e timestamp answer resp')
  then show ?thesis using answer_sim [OF rel inv(1) pp_answer(2,3,1)] by blast
next
  case (pp_clock reads)
  let ?g = "g\<lparr> gw_book := (gw_book g)\<lparr>tsc_reads := reads\<rparr> \<rparr>"
  have "gw_step g ?g" by (rule gw_step.clock)
  moreover have "pp_rel p' ?g" "pp_inv p'" using rel inv(1) pp_clock by (simp_all add: pp_rel_def pp_inv_def caught_up_def in_flight_def)
  ultimately show ?thesis by blast
next
  case (pp_hand_over req)
  show ?thesis using ring_sim(1) [OF rel inv(1) pp_hand_over(2,1)] by blast
next
  case (pp_emit e es)
  show ?thesis using ring_sim(2) [OF rel inv(1) pp_emit(2,1)] by blast
next
  case (pp_pop e es)
  show ?thesis using ring_sim(3) [OF rel inv(1) pp_pop(2,3,1)] by blast
next
  case (pp_drained e)
  show ?thesis using ring_sim(4) [OF rel inv(1) pp_drained(2,3,1)] by blast
qed

lemma pp_reachable_sim: "pp_reachable p \<Longrightarrow> \<exists>g. gw_reachable g \<and> pp_rel p g \<and> pp_inv p"
proof (induction rule: pp_reachable.induct)
  case (pp_start out capacity md clk tsc)
  let ?g = "\<lparr> gw_entry = new_OrderEntry exchange_band, gw_queue = [], gw_book = new_Orderbook capacity out md clk tsc, gw_resp = Map.empty \<rparr>"
  have "gw_reachable ?g" by (rule gw_reachable.start [OF pp_start])
  moreover have "pp_rel (new_Pipeline (new_Orderbook capacity out md clk tsc)) ?g" "pp_inv (new_Pipeline (new_Orderbook capacity out md clk tsc))"
    by (simp_all add: pp_rel_def pp_inv_def caught_up_def in_flight_def new_Pipeline_def)
  ultimately show ?case by blast
next
  case (pp_next p p')
  then obtain g where g: "gw_reachable g" "pp_rel p g" "pp_inv p" by blast
  obtain bk where "gw_inv g bk" using gw_reachable_inv [OF g(1)] by blast
  from pp_step_sim [OF pp_next(2) g(2,3) this] g(1) gw_reachable.step show ?case by blast
qed

text \<open>So the responder, once it has caught up, has exactly the orders of the book.\<close>

lemma pp_view:
  assumes "pp_reachable p" "book_rel (pp_book p) bk"
  obtains resp where "caught_up p = Some resp" "resp_view resp = book_view bk" "in_flight p = [] \<Longrightarrow> resp_view (pp_resp p) = book_view bk"
proof -
  obtain g where g: "gw_reachable g" "pp_rel p g" "pp_inv p" using pp_reachable_sim [OF assms(1)] by blast
  obtain bk' where "gw_inv g bk'" using gw_reachable_inv [OF g(1)] by blast
  moreover have b: "gw_book g = pp_book p" "caught_up p = Some (gw_resp g)" using g(2) by (simp_all add: pp_rel_def)
  ultimately have v: "resp_view (gw_resp g) = book_view bk" using gw_inv_unique [of g bk' bk] assms(2) by (auto simp: gw_inv_def)
  have "resp_view (pp_resp p) = book_view bk" if "in_flight p = []"
  proof -
    have "gw_resp g = note_all (pp_notes p) (pp_resp p)" using b(2) that by (simp add: caught_up_def)
    then show ?thesis using v note_all_view [of "pp_notes p" "pp_resp p"] g(3) by (simp add: pp_inv_def)
  qed
  then show thesis using that b(2) v by blast
qed

end
