(* ===== verification/Gateway_Props.thy ===== *)
theory Gateway_Props
  imports Gateway_Pipeline Book_Props Infra_Props
begin

text \<open>
  The properties of the path of an order: order entry, the engine and the responder together. The properties that
  have hypotheses are applied to a gateway that received an immediate-or-cancel order and its replacement.
\<close>

subsection \<open>A small gateway\<close>

definition demo_ioc :: OuchEnterOrder where
  "demo_ioc = sample_enter\<lparr>eo_time_in_force := ch CHR ''3''\<rparr>"

definition demo_replace :: OuchReplaceOrder where
  "demo_replace = default_OuchReplaceOrder\<lparr> rp_orig_user_ref_num := 1, rp_user_ref_num := 2, rp_quantity := 50,
     rp_price := 102500, rp_time_in_force := ch CHR ''0'', rp_display := ch CHR ''Y'',
     rp_intermarket_sweep_eligibility := ch CHR ''N'' \<rparr>"

definition demo_gateway :: Gateway where
  "demo_gateway = \<lparr> gw_entry = new_OrderEntry exchange_band, gw_queue = [], gw_book = demo_start, gw_resp = Map.empty \<rparr>"

lemma demo_checks:
  "check_enter demo_ioc exchange_band =
     \<lparr> ec_reject_reason = 0, ec_side = BID, ec_order_type = LIMIT, ec_price = 1025, ec_time_in_force = IOC \<rparr>"
  "check_replace demo_replace (ch CHR ''B'') exchange_band = \<lparr> rc_valid = True, rc_price = 1025, rc_time_in_force = DAY \<rparr>"
  "to_engine_side (ch CHR ''B'') = Some BID"
  by code_simp+

lemma demo_gateway_reachable: "gw_reachable demo_gateway"
proof -
  have "channel_inv (new_Channel 8 zero_event (\<lambda>_. 1))" by (rule new_Channel_inv [where k = 3]) auto
  then show ?thesis unfolding demo_gateway_def demo_start_def by (rule gw_reachable.start)
qed

lemma demo_entered: obtains t ent where "translate 7 (EnterOrder demo_ioc) (new_OrderEntry exchange_band) = Some (t, ent)"
  "ent_next_order_id ent = 2" "\<exists>req. tr_request t = Some req \<and> rq_type req = NEW \<and> rq_order_id req = 1 \<and> rq_client_id req = 7
     \<and> rq_order_type req = LIMIT \<and> rq_time_in_force req = IOC \<and> rq_quantity req = 100 \<and> rq_side req = BID"
  "ent_orders ent (entry_key 7 1) = Some \<lparr> lo_order_id = 1, lo_record = enter_record 7 demo_ioc \<rparr>" "last_user_ref_num 7 ent = 1"
  "ent_band ent = exchange_band"
proof -
  have u: "eo_user_ref_num demo_ioc = 1" "eo_quantity demo_ioc = 100" by (simp_all add: demo_ioc_def sample_enter_def)
  define r where "r = ent_enter 7 demo_ioc (new_OrderEntry exchange_band)"
  show thesis
  proof (rule that [of "fst r" "snd r"])
    show "translate 7 (EnterOrder demo_ioc) (new_OrderEntry exchange_band) = Some (fst r, snd r)"
      by (simp add: translate_def r_def)
  qed (simp_all add: r_def ent_enter_def Let_def u last_user_ref_num_def new_OrderEntry_def demo_checks
      set_user_ref_num_def add_order_entry_def)
qed

lemma demo_queued: obtains g req req2 where "gw_reachable g" "gw_queue g = [req, req2]" "gw_book g = demo_start"
  "rq_type req = NEW" "rq_order_id req = 1" "rq_order_type req = LIMIT" "rq_time_in_force req = IOC" "rq_quantity req = 100" "rq_side req = BID" "req_ok req"
  "rq_type req2 = REPLACE" "rq_order_id req2 = 1" "rq_new_order_id req2 = 2"
proof -
  obtain t ent where t: "translate 7 (EnterOrder demo_ioc) (new_OrderEntry exchange_band) = Some (t, ent)"
    "ent_next_order_id ent = 2" "\<exists>req. tr_request t = Some req \<and> rq_type req = NEW \<and> rq_order_id req = 1 \<and> rq_client_id req = 7
     \<and> rq_order_type req = LIMIT \<and> rq_time_in_force req = IOC \<and> rq_quantity req = 100 \<and> rq_side req = BID"
    "ent_orders ent (entry_key 7 1) = Some \<lparr> lo_order_id = 1, lo_record = enter_record 7 demo_ioc \<rparr>" "last_user_ref_num 7 ent = 1"
    "ent_band ent = exchange_band" by (rule demo_entered)
  from t(3) obtain req where req: "tr_request t = Some req" "rq_type req = NEW" "rq_order_id req = 1" "rq_order_type req = LIMIT"
    "rq_time_in_force req = IOC" "rq_quantity req = 100" "rq_side req = BID" by blast
  define g1 where "g1 = demo_gateway\<lparr> gw_entry := ent, gw_resp := take_note (tr_note t) 0 Map.empty,
      gw_queue := [stamp_request 0 0 0 req] \<rparr>"
  have s1: "gw_step demo_gateway g1"
    using gw_step.client [of 7 "EnterOrder demo_ioc" demo_gateway t ent 0 0 0 0] t(1) req(1)
    by (simp add: demo_gateway_def g1_def) (simp add: new_OrderEntry_def)
  have side: "or_side (enter_record 7 demo_ioc) = ch CHR ''B''" by (simp add: enter_record_def demo_ioc_def sample_enter_def)
  have u: "rp_orig_user_ref_num demo_replace = 1" "rp_user_ref_num demo_replace = 2" by (simp_all add: demo_replace_def)
  have c: "ch CHR ''B'' = (66::byte)" by simp
  have "\<exists>t2 ent2 req. ent_replace 7 demo_replace ent = Some (t2, ent2)
    \<and> tr_request t2 = Some req \<and> rq_type req = REPLACE \<and> rq_order_id req = 1 \<and> rq_new_order_id req = 2"
    using demo_checks(2,3) [unfolded c]
    by (simp add: ent_replace_def Let_def t u side word_nat set_user_ref_num_def)
  then obtain t2 ent2 req2 where r2: "translate 7 (ReplaceOrder demo_replace) ent = Some (t2, ent2)"
    "tr_request t2 = Some req2" "rq_type req2 = REPLACE" "rq_order_id req2 = 1" "rq_new_order_id req2 = 2" by (auto simp: translate_def)
  define g2 where "g2 = g1\<lparr> gw_entry := ent2, gw_resp := take_note (tr_note t2) 0 (gw_resp g1),
      gw_queue := [stamp_request 0 0 0 req, stamp_request 0 0 0 req2] \<rparr>"
  have s2: "gw_step g1 g2"
    using gw_step.client [of 7 "ReplaceOrder demo_replace" g1 t2 ent2 0 0 0 0] r2(1,2) t(2) by (simp add: g1_def g2_def)
  show thesis
  proof (rule that [of g2 "stamp_request 0 0 0 req" "stamp_request 0 0 0 req2"])
    show "gw_reachable g2" using demo_gateway_reachable s1 s2 gw_reachable.step by blast
  qed (use req r2 in \<open>simp_all add: g1_def g2_def demo_gateway_def stamp_request_def req_ok_def\<close>)
qed

text \<open>An order to buy that rests in the empty book.\<close>

definition demo_request :: "ClientId \<Rightarrow> EngineRequest" where
  "demo_request client = \<lparr> rq_read_begin_tsc = 0, rq_recv_tsc = 0, rq_server_push_tsc = 0, rq_order_id = 1, rq_new_order_id = 0,
     rq_client_id = client, rq_price = 1025, rq_quantity = 100, rq_type = NEW, rq_side = BID, rq_order_type = LIMIT, rq_time_in_force = DAY \<rparr>"

definition demo_entry_note :: "ClientId \<Rightarrow> GatewayNote" where
  "demo_entry_note client = \<lparr> gn_kind = ORDER_ENTERED, gn_reject_reason = 0, gn_order_id = 1, gn_record = enter_record client sample_enter \<rparr>"

lemma sample_translated:
  "\<exists>ent. translate client (EnterOrder sample_enter) (new_OrderEntry exchange_band)
    = Some (\<lparr> tr_note = Some (demo_entry_note client), tr_request = Some (demo_request client) \<rparr>, ent) \<and> ent_next_order_id ent = 2"
proof -
  have u: "eo_user_ref_num sample_enter = 1" "eo_quantity sample_enter = 100" by (simp_all add: sample_enter_def)
  show ?thesis by (simp add: translate_def ent_enter_def Let_def u last_user_ref_num_def new_OrderEntry_def set_user_ref_num_def
      sample_enter_ok exchange_band_def add_order_entry_def demo_request_def demo_entry_note_def)
qed

lemma demo_request_ok: "req_ok (demo_request client)"
  by (simp add: demo_request_def req_ok_def in_band_def price_band_defs)

lemma demo_accepts:
  assumes o': "o' = spec_process (ns_since_midnight (ob_clock demo_start) 0) (stamp_request a b d (demo_request client)) (empty_book 4)"
  obtains ob e where "process (stamp_request a b d (demo_request client)) 0 demo_start = Some (oc_done o', ob)" "book_rel ob (oc_book o')"
    "new_events demo_start ob = [e]" "ev_order_id e = 1" "ev_type e = ACCEPTED"
proof -
  let ?req = "stamp_request a b d (demo_request client)"
  have ok: "req_ok ?req" by (simp add: demo_request_ok)
  obtain ob where ob: "process ?req 0 demo_start = Some (oc_done o', ob)" "book_rel ob (oc_book o')"
    unfolding o' by (rule demo_run [OF demo_start_ok(1,5) ok])
  have "\<exists>e. oc_events o' = [e] \<and> ev_order_id e = 1 \<and> ev_type e = ACCEPTED"
    by (simp add: o' stamp_request_def demo_request_def contract_simps)
  then obtain e0 where "oc_events o' = [e0]" "ev_order_id e0 = 1" "ev_type e0 = ACCEPTED" by blast
  then show thesis using process_outcome(4) [OF demo_start_ok(1,5) ok ob(1) o'] that [OF ob] by (simp add: stamp_def)
qed

text \<open>
  The order's event is popped before its note is drained, so that the second drain is the one that finds the note.
\<close>

lemma demo_pipeline:
  obtains p where "pp_reachable p" "in_flight p = []" "book_rel (pp_book p) (oc_book (spec_process (ns_since_midnight (ob_clock demo_start) 0)
    (stamp_request 0 0 0 (demo_request 7)) (empty_book 4)))"
proof -
  let ?req = "stamp_request 0 0 0 (demo_request 7)" let ?p0 = "new_Pipeline demo_start"
  define o' where "o' = spec_process (ns_since_midnight (ob_clock demo_start) 0) ?req (empty_book 4)"
  have r0: "pp_reachable ?p0" unfolding demo_start_def by (rule pp_start) (rule new_Channel_inv [where k = 3]; auto)
  obtain ent where t: "translate 7 (EnterOrder sample_enter) (new_OrderEntry exchange_band)
    = Some (\<lparr> tr_note = Some (demo_entry_note 7), tr_request = Some (demo_request 7) \<rparr>, ent)" using sample_translated [of 7] by blast
  define p1 where "p1 = ?p0\<lparr> pp_entry := ent, pp_notes := [demo_entry_note 7], pp_handing := Some ?req \<rparr>"
  have s1: "pp_step ?p0 p1" using pp_client [of ?p0 7 "EnterOrder sample_enter" _ ent 0 0 0] t
    by (simp add: new_Pipeline_def p1_def) (simp add: new_OrderEntry_def)
  define p2 where "p2 = p1\<lparr> pp_handing := None, pp_requests := [?req] \<rparr>"
  have s2: "pp_step p1 p2" using pp_hand_over [of p1 ?req] by (simp add: p1_def p2_def new_Pipeline_def)
  obtain ob e where ob: "process ?req 0 demo_start = Some (oc_done o', ob)" "book_rel ob (oc_book o')"
    and e: "new_events demo_start ob = [e]" "ev_order_id e = 1" "ev_type e = ACCEPTED" by (rule demo_accepts [OF o'_def])
  define p3 where "p3 = p2\<lparr> pp_requests := [], pp_book := ob, pp_sending := [e] \<rparr>"
  have s3: "pp_step p2 p3" using pp_serve [of p2 ?req "[]" 0 "oc_done o'" ob] ob(1) e(1) by (simp add: p1_def p2_def p3_def new_Pipeline_def)
  define p4 where "p4 = p3\<lparr> pp_sending := [], pp_events := [e] \<rparr>"
  have s4: "pp_step p3 p4" using pp_emit [of p3 e "[]"] by (simp add: p1_def p2_def p3_def p4_def new_Pipeline_def)
  define p5 where "p5 = p4\<lparr> pp_events := [], pp_at := Popped e \<rparr>"
  have s5: "pp_step p4 p5" using pp_pop [of p4 e "[]"] by (simp add: p1_def p2_def p3_def p4_def p5_def new_Pipeline_def)
  let ?resp = "snd (resp_on_note (demo_entry_note 7) 0 Map.empty)"
  define p6 where "p6 = p5\<lparr> pp_notes := [], pp_resp := ?resp \<rparr>"
  have s6: "pp_step p5 p6" using pp_drain [of p5 "demo_entry_note 7" "[]" 0] by (simp add: p1_def p2_def p3_def p4_def p5_def p6_def new_Pipeline_def)
  define p7 where "p7 = p6\<lparr> pp_at := Drained e \<rparr>"
  have s7: "pp_step p6 p7" using pp_drained [of p6 e] by (simp add: p5_def p6_def p7_def)
  have "\<exists>a resp'. resp_on_event e 0 ?resp = Some (a, resp')"
    using e(2,3) by (simp add: resp_on_event_def resp_on_note_state demo_entry_note_def Let_def)
  then obtain a resp' where a: "resp_on_event e 0 ?resp = Some (a, resp')" by blast
  define p8 where "p8 = p7\<lparr> pp_at := AtRings, pp_resp := resp' \<rparr>"
  have s8: "pp_step p7 p8" using pp_answer [of p7 e 0 a resp'] a by (simp add: p6_def p7_def p8_def)
  have "pp_reachable p8" using r0 s1 s2 s3 s4 s5 s6 s7 s8 by (meson pp_next)
  moreover have "in_flight p8 = []" "pp_book p8 = ob" by (simp_all add: in_flight_def p4_def p5_def p6_def p7_def p8_def p3_def)
  ultimately show thesis using that ob(2) by (simp add: o'_def)
qed

subsection \<open>Properties\<close>

text \<open>
  C9. The responder knows the book, however the threads interleave. In every reachable state of the inbound, matching and outbound
  threads and the rings between them, the responder handles the outstanding notes and the events in flight, and then an order
  has an open share count in it exactly when it rests in the book, with the book's count and owner. When no event is in flight, it
  has these counts already, whatever notes and requests are still on their way.
\<close>

theorem responder_tracks_book:
  assumes "pp_reachable p" "book_rel (pp_book p) bk"
  shows "\<exists>resp. caught_up p = Some resp
    \<and> (\<forall>oid. resp_view resp oid = map_option (\<lambda>r. (ro_client r, ro_open r)) (find_order oid bk))
    \<and> (in_flight p = [] \<longrightarrow> (\<forall>oid. resp_view (pp_resp p) oid = map_option (\<lambda>r. (ro_client r, ro_open r)) (find_order oid bk)))"
  by (rule pp_view [OF assms]) (simp add: held_def)

theorem responder_tracks_book_witness:
  "\<exists>p. pp_reachable p \<and> in_flight p = [] \<and> resp_view (pp_resp p) 1 = Some (7, 100)"
proof -
  let ?bk = "oc_book (spec_process (ns_since_midnight (ob_clock demo_start) 0) (stamp_request 0 0 0 (demo_request 7)) (empty_book 4))"
  obtain p where p: "pp_reachable p" "in_flight p = []" "book_rel (pp_book p) ?bk" by (rule demo_pipeline)
  have "map_option (\<lambda>r. (ro_client r, ro_open r)) (find_order 1 ?bk) = Some (7, 100)"
    by (simp add: stamp_request_def demo_request_def contract_simps)
  then show ?thesis using responder_tracks_book [OF p(1,3)] p(1,2) by auto
qed

text \<open>
  C15. Nothing the engine reports is lost: in every reachable state the engine serves the oldest waiting request, and
  the responder turns each of its events into one OUCH message for the client the engine names.
\<close>

theorem every_event_answered:
  assumes "gw_reachable g" "gw_queue g = req # queue"
  shows "\<exists>handled ob'. process req tsc (gw_book g) = Some (handled, ob')
    \<and> (\<forall>tss. length tss = length (new_events (gw_book g) ob') \<longrightarrow>
         (\<exists>answers resp'. resp_run (zip (new_events (gw_book g) ob') tss) (gw_resp g) = Some (map Some answers, resp')
            \<and> map rs_client_id answers = map ev_client_id (new_events (gw_book g) ob')))"
proof -
  obtain bk where inv: "gw_inv g bk" using gw_reachable_inv [OF assms(1)] by blast
  then have I: "book_reachable (gw_book g)" "book_rel (gw_book g) bk" "req_ok req" using assms(2) by (simp_all add: gw_inv_def)
  obtain ob' where p: "process req tsc (gw_book g) = Some (oc_done (spec_process (ns_since_midnight (ob_clock (gw_book g)) tsc) req bk), ob')"
    by (rule demo_run [OF I])
  have "\<exists>answers resp'. resp_run (zip (new_events (gw_book g) ob') tss) (gw_resp g) = Some (map Some answers, resp')
      \<and> map rs_client_id answers = map ev_client_id (new_events (gw_book g) ob')"
    if "length tss = length (new_events (gw_book g) ob')" for tss
    by (rule engine_inv [OF inv assms(2) p that]) blast
  then show ?thesis using p by blast
qed

theorem every_event_answered_witness:
  "\<exists>g req queue handled ob'. gw_reachable g \<and> gw_queue g = req # queue \<and> process req 5 (gw_book g) = Some (handled, ob')
     \<and> (\<exists>answers resp'. resp_run (zip (new_events (gw_book g) ob') (replicate (length (new_events (gw_book g) ob')) 9)) (gw_resp g)
          = Some (map Some answers, resp'))"
proof -
  obtain g req req2 where g: "gw_reachable g" "gw_queue g = [req, req2]" by (rule demo_queued)
  from every_event_answered [OF this, of 5] obtain handled ob' where p: "process req 5 (gw_book g) = Some (handled, ob')"
    and a: "\<forall>tss. length tss = length (new_events (gw_book g) ob') \<longrightarrow>
         (\<exists>answers resp'. resp_run (zip (new_events (gw_book g) ob') tss) (gw_resp g) = Some (map Some answers, resp')
            \<and> map rs_client_id answers = map ev_client_id (new_events (gw_book g) ob'))" by blast
  from a [rule_format, of "replicate (length (new_events (gw_book g) ob')) 9"] show ?thesis using g p by auto
qed

text \<open>
  C16. Order entry is total and typed: in every reachable state, until the order counter is used up, every message of
  every client is translated without reading an empty optional; a request it produces carries the client's id, names
  an order of that client, and is one the book accepts.
\<close>

theorem order_entry_well_typed:
  assumes "gw_reachable g" "ent_next_order_id (gw_entry g) + 1 \<noteq> 0"
  shows "\<exists>t ent'. translate c msg (gw_entry g) = Some (t, ent')
    \<and> (\<forall>req. tr_request t = Some req \<longrightarrow> req_ok req \<and> rq_client_id req = c \<and> owns ent' c (rq_order_id req)
         \<and> (\<forall>oid. new_order_id req = Some oid \<longrightarrow> oid = ent_next_order_id (gw_entry g) \<and> (\<forall>c'. \<not> owns (gw_entry g) c' oid)))"
proof -
  obtain bk where inv: "gw_inv g bk" using gw_reachable_inv [OF assms(1)] by blast
  then have ent: "entry_inv (gw_entry g)" by (simp add: gw_inv_def)
  obtain t ent' where t: "translate c msg (gw_entry g) = Some (t, ent')" "translated c (gw_entry g) t ent'"
    by (rule translate_ok [OF ent assms(2)])
  have free: "\<not> owns (gw_entry g) c' (ent_next_order_id (gw_entry g))" for c'
    using owns_below [OF ent] by blast
  have "req_ok req \<and> rq_client_id req = c \<and> owns ent' c (rq_order_id req)
      \<and> (\<forall>oid. new_order_id req = Some oid \<longrightarrow> oid = ent_next_order_id (gw_entry g))" if "tr_request t = Some req" for req
    using t(2) that inv in_band_request [of req]
    by (auto simp: translated_def gw_inv_def new_order_id_def split: EngineRequestType.splits)
  then show ?thesis using t(1) free by (intro exI [of _ t] exI [of _ ent']) auto
qed

theorem order_entry_well_typed_witness:
  "gw_reachable demo_gateway \<and> (\<exists>t ent'. translate 7 (EnterOrder demo_ioc) (gw_entry demo_gateway) = Some (t, ent'))"
proof -
  have "ent_next_order_id (gw_entry demo_gateway) + 1 \<noteq> 0" by (simp add: demo_gateway_def new_OrderEntry_def)
  from order_entry_well_typed [OF demo_gateway_reachable this, of 7 "EnterOrder demo_ioc"] demo_gateway_reachable
  show ?thesis by blast
qed

text \<open>
  C38. A replacement whose original is already gone stays in the responder for good: the engine ignores it and reports
  nothing, so the record that its note added is never removed, although its order never rests.
\<close>

theorem dead_replacement_stays:
  assumes "gw_reachable g" "gw_queue g = req # queue" "rq_type req = REPLACE"
    and "book_rel (gw_book g) bk" "find_order (rq_order_id req) bk = None"
    and "process req tsc (gw_book g) = Some (handled, ob')" "gw_step\<^sup>*\<^sup>* (g\<lparr> gw_queue := queue, gw_book := ob' \<rparr>) g'"
  shows "gw_resp g' (rq_new_order_id req) \<noteq> None \<and> (\<forall>bk'. book_rel (gw_book g') bk' \<longrightarrow> find_order (rq_new_order_id req) bk' = None)"
proof -
  let ?g = "g\<lparr> gw_queue := queue, gw_book := ob' \<rparr>"
  obtain bk0 where "gw_inv g bk0" using gw_reachable_inv [OF assms(1)] by blast
  then have inv: "gw_inv g bk" using gw_inv_unique assms(4) by blast
  note D = dead_replace_stale [OF inv assms(2,3,5,6)]
  have step: "gw_step g ?g" using gw_step.engine [OF assms(2,6), of "[]" "[]" "gw_resp g"] D(1) by simp
  then have r: "gw_reachable ?g" using assms(1) gw_reachable.step by blast
  have st: "stale g' (rq_new_order_id req)" by (rule stale_forever [OF assms(7) r D(2)])
  have "gw_reachable g'" using assms(7) r by (induction rule: rtranclp_induct) (auto intro: gw_reachable.step)
  then obtain bk' where inv': "gw_inv g' bk'" using gw_reachable_inv by blast
  then have "find_order (rq_new_order_id req) bk' = None" using st book_view_iff [of bk'] by (simp add: stale_def gw_inv_def)
  then show ?thesis using st gw_inv_unique [OF inv'] by (auto simp: stale_def)
qed

theorem dead_replacement_stays_witness:
  "\<exists>g req queue bk handled ob'. gw_reachable g \<and> gw_queue g = req # queue \<and> rq_type req = REPLACE \<and> book_rel (gw_book g) bk
     \<and> find_order (rq_order_id req) bk = None \<and> process req 5 (gw_book g) = Some (handled, ob')
     \<and> gw_resp (g\<lparr> gw_queue := queue, gw_book := ob' \<rparr>) (rq_new_order_id req) \<noteq> None"
proof -
  obtain g req req2 where g: "gw_reachable g" "gw_queue g = [req, req2]" "gw_book g = demo_start" "rq_type req = NEW" "rq_order_id req = 1"
    "rq_order_type req = LIMIT" "rq_time_in_force req = IOC" "rq_quantity req = 100" "rq_side req = BID" "req_ok req"
    "rq_type req2 = REPLACE" "rq_order_id req2 = 1" "rq_new_order_id req2 = 2" by (rule demo_queued)
  let ?o = "spec_process (ns_since_midnight (ob_clock demo_start) 5) req (empty_book 4)"
  obtain ob1 where p1: "process req 5 (gw_book g) = Some (oc_done ?o, ob1)" "book_rel ob1 (oc_book ?o)"
    by (rule demo_run [OF demo_start_ok(1,5) g(10), of 5]) (use g(3) in simp)
  obtain bk where "gw_inv g bk" using gw_reachable_inv [OF g(1)] by blast
  then obtain as resp1 where "resp_run (zip (new_events (gw_book g) ob1) (replicate (length (new_events (gw_book g) ob1)) 9)) (gw_resp g) = Some (map Some as, resp1)"
    by (rule engine_inv [OF _ g(2) p1(1), of _ "replicate (length (new_events (gw_book g) ob1)) 9"]) simp
  from gw_step.engine [OF g(2) p1(1) _ this] have r1: "gw_reachable (g\<lparr> gw_queue := [req2], gw_book := ob1, gw_resp := resp1 \<rparr>)" (is "gw_reachable ?g")
    using gw_reachable.step [OF g(1)] by simp
  have dead: "find_order (rq_order_id req2) (oc_book ?o) = None" using g by (simp add: contract_simps)
  have "req_ok req2" "book_reachable ob1" using gw_reachable_inv [OF r1] by (auto simp: gw_inv_def)
  then obtain ob2 where p2: "process req2 5 ob1 = Some (oc_done (spec_process (ns_since_midnight (ob_clock ob1) 5) req2 (oc_book ?o)), ob2)"
    using demo_run [OF _ p1(2)] by blast
  from dead_replacement_stays [OF r1 _ g(11), of "[]" "oc_book ?o" 5 _ ob2 "?g\<lparr> gw_queue := [], gw_book := ob2 \<rparr>"] p1(2) p2 dead
  show ?thesis using r1 g(11) by (intro exI [of _ ?g] exI [of _ req2] exI [of _ "[]"] exI [of _ "oc_book ?o"]) auto
qed

end
