(* ===== verification/Server_Inbound.thy ===== *)
theory Server_Inbound
  imports Ring_Channel Soup_Proto Order_Entry Tsc_Clock
begin

text \<open>
  The server's inbound thread (the inbound half of \<open>server/src/server.cpp\<close>): reassembly of SoupBinTCP packets, logins,
  timeouts, and the hand-over of notes and requests. A handler takes the connection it works on, which is one
  element of \<open>inbound_connections_\<close>, and the rest of the thread's state. The rings are channels: the loops that push until
  there is room are \<open>push_spin\<close>. \<^term>\<open>None\<close> is an access out of range, an empty optional or an endless loop.
  The TCP stack is not part of the sources: connection ids are of any type, with their slot as an argument.
\<close>

definition kMaxConnections :: nat where "kMaxConnections = 2 * unat MAX_CLIENTS"
definition kMaxInboundSoupPacket :: nat where "kMaxInboundSoupPacket = 512"
definition kScanIntervalNs :: u64 where "kScanIntervalNs = 100000000"
definition SOUP_IDLE_TIMEOUT_MS :: u64 where "SOUP_IDLE_TIMEOUT_MS = 15000"
definition SOUP_LOGIN_TIMEOUT_MS :: u64 where "SOUP_LOGIN_TIMEOUT_MS = 30000"
definition kIdleTimeoutNs :: u64 where "kIdleTimeoutNs = SOUP_IDLE_TIMEOUT_MS * 1000000"
definition kLoginTimeoutNs :: u64 where "kLoginTimeoutNs = SOUP_LOGIN_TIMEOUT_MS * 1000000"
definition session_name :: "byte list" where "session_name = map (\<lambda>c. ch c) SOUP_SESSION"

subsection \<open>State\<close>

datatype ServerNoteKind = NOTE_GATEWAY | NOTE_LOGIN_ACCEPTED | NOTE_LOGIN_REJECTED | NOTE_DISCONNECTED

text \<open>A member that the code value-initialises is \<^term>\<open>None\<close>.\<close>

record 'c ServerNote =
  sn_kind :: ServerNoteKind
  sn_reject_reason :: byte
  sn_client_id :: ClientId
  sn_conn :: "'c option"
  sn_sequence :: u64
  sn_gateway :: "GatewayNote option"

record 'c InboundConnection =
  ic_conn :: 'c
  ic_open :: bool
  ic_logged_in :: bool
  ic_closing :: bool
  ic_client_id :: ClientId
  ic_opened_tsc :: Timestamp
  ic_last_recv_tsc :: Timestamp
  ic_partial_len :: u16
  ic_partial :: "byte list"

definition new_InboundConnection :: "'c \<Rightarrow> 'c InboundConnection" where
  "new_InboundConnection conn = \<lparr> ic_conn = conn, ic_open = False, ic_logged_in = False, ic_closing = False, ic_client_id = 0,
     ic_opened_tsc = 0, ic_last_recv_tsc = 0, ic_partial_len = 0, ic_partial = replicate kMaxInboundSoupPacket 0 \<rparr>"

record 'c Inbound =
  in_connections :: "'c InboundConnection list"
  in_sessions :: "bool list"
  in_usernames :: "u64 \<Rightarrow> ClientId option"
  in_next_client_id :: ClientId
  in_retained_from :: "u64 list"
  in_entry :: OrderEntry
  in_notes :: "'c ServerNote Channel"
  in_ring :: "EngineRequest Channel"
  in_tsc_reads :: "nat \<Rightarrow> Timestamp"

definition new_Inbound :: "'c \<Rightarrow> 'c ServerNote Channel \<Rightarrow> EngineRequest Channel \<Rightarrow> (nat \<Rightarrow> Timestamp) \<Rightarrow> 'c Inbound" where
  "new_Inbound no_conn notes requests reads = \<lparr> in_connections = replicate kMaxConnections (new_InboundConnection no_conn),
     in_sessions = replicate (unat MAX_CLIENTS + 1) False, in_usernames = Map.empty, in_next_client_id = 1,
     in_retained_from = replicate (unat MAX_CLIENTS + 1) 0,
     in_entry = new_OrderEntry \<lparr> band_min = MIN_PRICE, band_max = MAX_PRICE \<rparr>,
     in_notes = notes, in_ring = requests, in_tsc_reads = reads \<rparr>"

record InboundStamps =
  is_read_begin_tsc :: Timestamp
  is_recv_tsc :: Timestamp

subsection \<open>Notes, rejection and the end of a connection\<close>

text \<open>
  A push repeats until the ring takes the item. The code also leaves the loop when the server is being shut down, with the ring
  full and the item dropped; the model is that of a server that has not been told to stop.
\<close>

definition push_note :: "'c ServerNote \<Rightarrow> 'c Inbound \<Rightarrow> 'c Inbound option" where
  "push_note note s = map_option (\<lambda>notes. s\<lparr>in_notes := notes\<rparr>) (push_spin note (in_notes s))"

definition set_connected :: "ClientId \<Rightarrow> bool \<Rightarrow> 'c Inbound \<Rightarrow> 'c Inbound option" where
  "set_connected client_id b s =
     (if unat client_id < length (in_sessions s) then Some (s\<lparr>in_sessions := (in_sessions s)[unat client_id := b]\<rparr>) else None)"

definition disconnect :: "'c InboundConnection \<Rightarrow> 'c Inbound \<Rightarrow> ('c InboundConnection \<times> 'c Inbound) option" where
  "disconnect c s =
     (if \<not> ic_open c then Some (c, s)
      else do {
        s1 \<leftarrow> (if ic_logged_in c then set_connected (ic_client_id c) False s else Some s);
        s2 \<leftarrow> push_note \<lparr> sn_kind = NOTE_DISCONNECTED, sn_reject_reason = 0,
                sn_client_id = (if ic_logged_in c then ic_client_id c else 0), sn_conn = Some (ic_conn c),
                sn_sequence = 0, sn_gateway = None \<rparr> s1;
        Some (c\<lparr>ic_open := False, ic_logged_in := False, ic_closing := True, ic_partial_len := 0\<rparr>, s2) })"

definition reject_login :: "byte \<Rightarrow> 'c InboundConnection \<Rightarrow> 'c Inbound \<Rightarrow> ('c InboundConnection \<times> 'c Inbound) option" where
  "reject_login reason c s = do {
     s1 \<leftarrow> push_note \<lparr> sn_kind = NOTE_LOGIN_REJECTED, sn_reject_reason = reason, sn_client_id = 0,
            sn_conn = Some (ic_conn c), sn_sequence = 0, sn_gateway = None \<rparr> s;
     Some (c\<lparr>ic_closing := True\<rparr>, s1) }"

subsection \<open>Login\<close>

definition toupper :: "byte \<Rightarrow> byte" where
  "toupper c = (if ch CHR ''a'' \<le> c \<and> c \<le> ch CHR ''z'' then c - 32 else c)"

fun pack_username :: "byte list \<Rightarrow> u64 \<Rightarrow> bool \<Rightarrow> u64 \<times> bool" where
  "pack_username [] username blank = (username, blank)"
| "pack_username (c # cs) username blank =
     (let c' = (if c = 0 then ch CHR '' '' else toupper c)
      in pack_username cs (push_bit 8 username OR ucast c') (blank \<and> c' = ch CHR '' ''))"

definition session_requested :: "byte list \<Rightarrow> bool" where
  "session_requested requested \<longleftrightarrow> requested = alpha 10 [] \<or> requested = soup_session_id session_name \<or> requested = alpha 10 session_name"

text \<open>The session of a username: the one it has, or a new one while there is room.\<close>

definition find_client :: "u64 \<Rightarrow> 'c Inbound \<Rightarrow> (ClientId \<times> 'c Inbound) option" where
  "find_client username s =
     (case in_usernames s username of
        Some client_id \<Rightarrow> Some (client_id, s)
      | None \<Rightarrow>
          if in_next_client_id s \<le> MAX_CLIENTS then
            Some (in_next_client_id s, s\<lparr>in_next_client_id := in_next_client_id s + 1,
              in_usernames := (in_usernames s)(username \<mapsto> in_next_client_id s)\<rparr>)
          else None)"

definition login :: "byte list \<Rightarrow> 'c InboundConnection \<Rightarrow> 'c Inbound \<Rightarrow> ('c InboundConnection \<times> 'c Inbound) option" where
  "login payload c s =
     (case decode_soup_login_request payload of
        None \<Rightarrow> reject_login kNotAuthorized c s
      | Some req \<Rightarrow>
          if \<not> session_requested (sl_requested_session req) then reject_login kSessionNotAvailable c s
          else case pack_username (sl_username req) 0 True of (username, blank) \<Rightarrow>
            if blank then reject_login kNotAuthorized c s
            else case find_client username s of
              None \<Rightarrow> reject_login kNotAuthorized c s
            | Some (client_id, s1) \<Rightarrow>
                if length (in_sessions s1) \<le> unat client_id \<or> length (in_retained_from s1) \<le> unat client_id then None
                else if in_sessions s1 ! unat client_id then reject_login kNotAuthorized c s1
                else let sequence = sl_requested_sequence_number req in
                  if sequence \<noteq> 0 \<and> sequence < in_retained_from s1 ! unat client_id then reject_login kSessionNotAvailable c s1
                  else do {
                    s2 \<leftarrow> set_connected client_id True s1;
                    s3 \<leftarrow> push_note \<lparr> sn_kind = NOTE_LOGIN_ACCEPTED, sn_reject_reason = 0, sn_client_id = client_id,
                            sn_conn = Some (ic_conn c), sn_sequence = sequence, sn_gateway = None \<rparr> s2;
                    Some (c\<lparr>ic_logged_in := True, ic_client_id := client_id\<rparr>, s3) })"

subsection \<open>Orders\<close>

definition push_request :: "EngineRequest \<Rightarrow> InboundStamps \<Rightarrow> 'c Inbound \<Rightarrow> 'c Inbound option" where
  "push_request req stamps s =
     (let req1 = req\<lparr>rq_read_begin_tsc := is_read_begin_tsc stamps, rq_recv_tsc := is_recv_tsc stamps,
                     rq_server_push_tsc := in_tsc_reads s 0\<rparr>;
          s1 = s\<lparr>in_tsc_reads := (\<lambda>k. in_tsc_reads s (Suc k))\<rparr>
      in map_option (\<lambda>requests. s1\<lparr>in_ring := requests\<rparr>) (push_spin req1 (in_ring s1)))"

definition handle_ouch :: "ClientId \<Rightarrow> OuchInboundFrame \<Rightarrow> InboundStamps \<Rightarrow> 'c Inbound \<Rightarrow> 'c Inbound option" where
  "handle_ouch client_id msg stamps s =
     (if msg = InboundNone then Some s
      else do {
        (t, ent) \<leftarrow> translate client_id msg (in_entry s);
        s1 \<leftarrow> (case tr_note t of
                 None \<Rightarrow> Some (s\<lparr>in_entry := ent\<rparr>)
               | Some note \<Rightarrow> push_note \<lparr> sn_kind = NOTE_GATEWAY, sn_reject_reason = 0, sn_client_id = client_id,
                   sn_conn = None, sn_sequence = 0, sn_gateway = Some note \<rparr> (s\<lparr>in_entry := ent\<rparr>));
        (case tr_request t of None \<Rightarrow> Some s1 | Some req \<Rightarrow> push_request req stamps s1) })"

definition handle_soup_packet ::
  "SoupPacket \<Rightarrow> InboundStamps \<Rightarrow> 'c InboundConnection \<Rightarrow> 'c Inbound \<Rightarrow> (bool \<times> 'c InboundConnection \<times> 'c Inbound) option" where
  "handle_soup_packet packet stamps c s = do {
     (c1, s1) \<leftarrow>
       (if sp_type packet = LOGIN_REQUEST then if \<not> ic_logged_in c then login (sp_payload packet) c s else Some (c, s)
        else if sp_type packet = UNSEQUENCED_DATA then
          if ic_logged_in c then
            map_option (\<lambda>s1. (c, s1)) (handle_ouch (ic_client_id c) (decode_inbound_ouch (sp_payload packet)) stamps s)
          else Some (c, s)
        else if sp_type packet = LOGOUT_REQUEST then disconnect c s
        else Some (c, s));
     Some (ic_open c1 \<and> \<not> ic_closing c1, c1, s1) }"

subsection \<open>Reassembly\<close>

definition packet_len :: "byte list \<Rightarrow> nat" where
  "packet_len header = 2 + unat (load_u16 header)"

definition too_long :: "byte list \<Rightarrow> bool" where
  "too_long header \<longleftrightarrow> packet_len header > kMaxInboundSoupPacket"

text \<open>Copying to the end of the partial packet; beyond its buffer the copy is undefined.\<close>

definition add_partial :: "byte list \<Rightarrow> 'c InboundConnection \<Rightarrow> 'c InboundConnection option" where
  "add_partial bs c =
     (if unat (ic_partial_len c) + length bs \<le> kMaxInboundSoupPacket
      then Some (c\<lparr>ic_partial := splice (unat (ic_partial_len c)) bs (ic_partial c),
                   ic_partial_len := ic_partial_len c + of_nat (length bs)\<rparr>)
      else None)"

text \<open>Whole packets straight out of the segment; the start of a cut-off one is kept.\<close>

function parse_loop ::
  "byte list \<Rightarrow> InboundStamps \<Rightarrow> 'c InboundConnection \<Rightarrow> 'c Inbound \<Rightarrow> ('c InboundConnection \<times> 'c Inbound) option" where
  "parse_loop bytes stamps c s =
     (if bytes = [] then Some (c, s)
      else let parsed = parse_soup_packet bytes in
        case spr_status parsed of
          PACKET \<Rightarrow>
            (case handle_soup_packet (spr_packet parsed) stamps c s of
               None \<Rightarrow> None
             | Some (going, c1, s1) \<Rightarrow>
                 if \<not> going then Some (c1, s1) else parse_loop (drop (spr_consumed parsed) bytes) stamps c1 s1)
        | MALFORMED \<Rightarrow> disconnect c s
        | INCOMPLETE \<Rightarrow>
            if length bytes \<ge> 2 \<and> too_long bytes then disconnect c s
            else if length bytes > kMaxInboundSoupPacket then None
            else Some (c\<lparr>ic_partial := splice 0 bytes (ic_partial c), ic_partial_len := of_nat (length bytes)\<rparr>, s))"
  by pat_completeness auto
termination
proof (relation "measure (\<lambda>(bytes, _). length bytes)")
  fix bytes :: "byte list" and stamps c s parsed
  assume "bytes \<noteq> []" "parsed = parse_soup_packet bytes" "spr_status parsed = PACKET"
  then have "0 < spr_consumed parsed"
    by (auto simp: parse_soup_packet_def no_packet_def Let_def split: if_splits)
  then show "((drop (spr_consumed parsed) bytes, stamps, c1, s1), (bytes, stamps, c, s)) \<in> measure (\<lambda>(bytes, _). length bytes)" for c1 s1
    using \<open>bytes \<noteq> []\<close> by simp
qed simp

text \<open>
  Finishing a packet that earlier segments began: its length first, then the rest. The result is the connection
  with the bytes that are left, or \<^term>\<open>None\<close> in the first component when the segment has been used up or the
  connection is over. The difference of the two lengths is unsigned.
\<close>

definition finish_partial ::
  "byte list \<Rightarrow> InboundStamps \<Rightarrow> 'c InboundConnection \<Rightarrow> 'c Inbound \<Rightarrow> (byte list option \<times> 'c InboundConnection \<times> 'c Inbound) option" where
  "finish_partial bytes stamps c s =
     (let total = packet_len (ic_partial c); held = unat (ic_partial_len c);
          taken = (if total < held then length bytes else min (total - held) (length bytes)) in do {
        c1 \<leftarrow> add_partial (take taken bytes) c;
        if unat (ic_partial_len c1) < total then Some (None, c1, s)
        else
          let c2 = c1\<lparr>ic_partial_len := 0\<rparr>; parsed = parse_soup_packet (take total (ic_partial c2)) in
          if spr_status parsed \<noteq> PACKET then map_option (\<lambda>r. (None, r)) (disconnect c2 s)
          else do {
            (going, c3, s1) \<leftarrow> handle_soup_packet (spr_packet parsed) stamps c2 s;
            Some (if going then Some (drop taken bytes) else None, c3, s1) } })"

definition finish_length ::
  "byte list \<Rightarrow> InboundStamps \<Rightarrow> 'c InboundConnection \<Rightarrow> 'c Inbound \<Rightarrow> (byte list option \<times> 'c InboundConnection \<times> 'c Inbound) option" where
  "finish_length bytes stamps c s =
     (if ic_partial_len c < 2 then
        let taken = min (2 - unat (ic_partial_len c)) (length bytes) in do {
          c1 \<leftarrow> add_partial (take taken bytes) c;
          if ic_partial_len c1 < 2 then Some (None, c1, s)
          else if too_long (ic_partial c1) then map_option (\<lambda>r. (None, r)) (disconnect c1 s)
          else finish_partial (drop taken bytes) stamps c1 s }
      else finish_partial bytes stamps c s)"

definition on_data ::
  "byte list \<Rightarrow> InboundStamps \<Rightarrow> 'c InboundConnection \<Rightarrow> 'c Inbound \<Rightarrow> ('c InboundConnection \<times> 'c Inbound) option" where
  "on_data bytes stamps c s =
     (if ic_partial_len c > 0 then do {
        (rem, c1, s1) \<leftarrow> finish_length bytes stamps c s;
        (case rem of None \<Rightarrow> Some (c1, s1) | Some bs \<Rightarrow> parse_loop bs stamps c1 s1) }
      else parse_loop bytes stamps c s)"

subsection \<open>TCP events and timeouts\<close>

datatype 'c TcpEvent = TcpAccepted 'c | TcpData 'c "byte list" | TcpPeerClosed 'c | TcpClosed 'c | TcpReset 'c

fun event_conn :: "'c TcpEvent \<Rightarrow> 'c" where
  "event_conn (TcpAccepted conn) = conn"
| "event_conn (TcpData conn bytes) = conn"
| "event_conn (TcpPeerClosed conn) = conn"
| "event_conn (TcpClosed conn) = conn"
| "event_conn (TcpReset conn) = conn"

definition put_connection :: "nat \<Rightarrow> 'c InboundConnection \<times> 'c Inbound \<Rightarrow> 'c Inbound" where
  "put_connection i r = (snd r)\<lparr>in_connections := (in_connections (snd r))[i := fst r]\<rparr>"

definition on_tcp_event :: "('c \<Rightarrow> nat) \<Rightarrow> 'c TcpEvent \<Rightarrow> InboundStamps \<Rightarrow> 'c Inbound \<Rightarrow> 'c Inbound option" where
  "on_tcp_event slot event stamps s =
     (let i = slot (event_conn event) in
      if length (in_connections s) \<le> i then None
      else let c = in_connections s ! i in
        case event of
          TcpAccepted conn \<Rightarrow>
            Some (put_connection i ((new_InboundConnection conn)\<lparr>ic_open := True, ic_opened_tsc := is_recv_tsc stamps,
              ic_last_recv_tsc := is_recv_tsc stamps\<rparr>, s))
        | TcpData conn bytes \<Rightarrow>
            if ic_conn c \<noteq> conn \<or> \<not> ic_open c \<or> ic_closing c then Some s
            else map_option (put_connection i) (on_data bytes stamps (c\<lparr>ic_last_recv_tsc := is_recv_tsc stamps\<rparr>) s)
        | _ \<Rightarrow>
            if ic_conn c \<noteq> event_conn event then Some s
            else map_option (put_connection i) (disconnect c s))"

definition expired :: "TscClock \<Rightarrow> Timestamp \<Rightarrow> 'c InboundConnection \<Rightarrow> bool" where
  "expired clock now c \<longleftrightarrow>
     (if ic_logged_in c then ticks_to_ns clock (now - min now (ic_last_recv_tsc c)) > kIdleTimeoutNs
      else ticks_to_ns clock (now - min now (ic_opened_tsc c)) > kLoginTimeoutNs)"

definition check_timeout :: "TscClock \<Rightarrow> Timestamp \<Rightarrow> nat \<Rightarrow> 'c Inbound \<Rightarrow> 'c Inbound option" where
  "check_timeout clock now i s =
     (let c = in_connections s ! i
      in if \<not> ic_open c then Some s
         else if expired clock now c then map_option (put_connection i) (disconnect c s) else Some s)"

fun run_all :: "('a \<Rightarrow> 's \<Rightarrow> 's option) \<Rightarrow> 'a list \<Rightarrow> 's \<Rightarrow> 's option" where
  "run_all f [] s = Some s"
| "run_all f (x # xs) s = do { s1 \<leftarrow> f x s; run_all f xs s1 }"

lemma run_all_append: "run_all f (xs @ ys) s = run_all f xs s \<bind> run_all f ys"
proof (induction xs arbitrary: s)
  case (Cons x xs)
  then show ?case by (cases "f x s") simp_all
qed simp

definition check_timeouts :: "TscClock \<Rightarrow> Timestamp \<Rightarrow> 'c Inbound \<Rightarrow> 'c Inbound option" where
  "check_timeouts clock now s = run_all (check_timeout clock now) [0..<length (in_connections s)] s"

text \<open>
  One turn of the thread's loop: the events of each receive queue with the stamps of its burst, then the scan when it is
  due. The bursts and the counter reading come from outside.
\<close>

definition inbound_turn ::
  "('c \<Rightarrow> nat) \<Rightarrow> TscClock \<Rightarrow> ('c TcpEvent list \<times> InboundStamps) list \<Rightarrow> Timestamp \<Rightarrow> Timestamp \<times> 'c Inbound \<Rightarrow> (Timestamp \<times> 'c Inbound) option" where
  "inbound_turn slot clock bursts now r = do {
     s1 \<leftarrow> run_all (\<lambda>(events, stamps). run_all (\<lambda>event. on_tcp_event slot event stamps) events) bursts (snd r);
     if ticks_to_ns clock (now - fst r) \<ge> kScanIntervalNs
     then map_option (\<lambda>s2. (now, s2)) (check_timeouts clock now s1)
     else Some (fst r, s1) }"

end
