(* ===== verification/Inbound_Stream.thy ===== *)
theory Inbound_Stream
  imports Server_Inbound
begin

text \<open>
  Reassembly does not depend on how TCP cuts the stream. The reference reads the whole stream packet by packet
  and keeps the start of an incomplete one; \<open>on_data_\<close> does the same for every segmentation, as long as no
  packet is longer than a client may send.
\<close>

subsection \<open>The reference\<close>

definition pending_bytes :: "'c InboundConnection \<Rightarrow> byte list" where
  "pending_bytes c = take (unat (ic_partial_len c)) (ic_partial c)"

definition strip :: "'c InboundConnection \<Rightarrow> 'c InboundConnection" where
  "strip c = c\<lparr>ic_partial := pending_bytes c\<rparr>"

definition blank :: "'c InboundConnection \<Rightarrow> 'c InboundConnection" where
  "blank c = c\<lparr>ic_partial := [], ic_partial_len := 0\<rparr>"

definition keep :: "byte list \<Rightarrow> 'c InboundConnection \<Rightarrow> 'c InboundConnection" where
  "keep bs c = c\<lparr>ic_partial := bs, ic_partial_len := of_nat (length bs)\<rparr>"

lemma consumed_pos: "spr_status (parse_soup_packet bytes) = PACKET \<Longrightarrow> 0 < spr_consumed (parse_soup_packet bytes) \<and> bytes \<noteq> []"
  by (auto simp: parse_soup_packet_def no_packet_def Let_def split: if_splits)

function read_stream ::
  "byte list \<Rightarrow> InboundStamps \<Rightarrow> 'c InboundConnection \<Rightarrow> 'c Inbound \<Rightarrow> ('c InboundConnection \<times> 'c Inbound) option" where
  "read_stream stream stamps c s =
     (case spr_status (parse_soup_packet stream) of
        INCOMPLETE \<Rightarrow> Some (keep stream c, s)
      | MALFORMED \<Rightarrow> disconnect c s
      | PACKET \<Rightarrow>
          (case handle_soup_packet (spr_packet (parse_soup_packet stream)) stamps c s of
             None \<Rightarrow> None
           | Some (going, c1, s1) \<Rightarrow>
               if \<not> going then Some (c1, s1)
               else read_stream (drop (spr_consumed (parse_soup_packet stream)) stream) stamps c1 s1))"
  by pat_completeness auto
termination
  by (relation "measure (\<lambda>(stream, _). length stream)") (use consumed_pos in \<open>auto simp: diff_less\<close>)

function short_stream :: "byte list \<Rightarrow> bool" where
  "short_stream stream \<longleftrightarrow> (length stream \<ge> 2 \<longrightarrow> \<not> too_long stream)
     \<and> (if spr_status (parse_soup_packet stream) = PACKET
        then short_stream (drop (spr_consumed (parse_soup_packet stream)) stream) else True)"
  by pat_completeness auto
termination
  by (relation "measure length") (use consumed_pos in \<open>auto simp: diff_less\<close>)

declare read_stream.simps [simp del] short_stream.simps [simp del] parse_loop.simps [simp del]

definition conn_ok :: "'c InboundConnection \<Rightarrow> bool" where
  "conn_ok c \<longleftrightarrow> length (ic_partial c) = kMaxInboundSoupPacket \<and> unat (ic_partial_len c) \<le> kMaxInboundSoupPacket
     \<and> spr_status (parse_soup_packet (pending_bytes c)) = INCOMPLETE
     \<and> (length (pending_bytes c) \<ge> 2 \<longrightarrow> \<not> too_long (pending_bytes c))"

subsection \<open>Handlers do not look at the partial packet\<close>

definition with_partial :: "byte list \<Rightarrow> 'c InboundConnection \<Rightarrow> 'c InboundConnection" where
  "with_partial p c = c\<lparr>ic_partial := p\<rparr>"

lemma with_partial_sel [simp]:
  "ic_conn (with_partial p c) = ic_conn c" "ic_open (with_partial p c) = ic_open c" "ic_logged_in (with_partial p c) = ic_logged_in c"
  "ic_closing (with_partial p c) = ic_closing c" "ic_client_id (with_partial p c) = ic_client_id c"
  "ic_partial_len (with_partial p c) = ic_partial_len c" "ic_partial (with_partial p c) = p"
  by (simp_all add: with_partial_def)

lemma with_partial_upd [simp]:
  "(with_partial p c)\<lparr>ic_open := b\<rparr> = with_partial p (c\<lparr>ic_open := b\<rparr>)"
  "(with_partial p c)\<lparr>ic_logged_in := b\<rparr> = with_partial p (c\<lparr>ic_logged_in := b\<rparr>)"
  "(with_partial p c)\<lparr>ic_closing := b\<rparr> = with_partial p (c\<lparr>ic_closing := b\<rparr>)"
  "(with_partial p c)\<lparr>ic_client_id := i\<rparr> = with_partial p (c\<lparr>ic_client_id := i\<rparr>)"
  "(with_partial p c)\<lparr>ic_partial_len := n\<rparr> = with_partial p (c\<lparr>ic_partial_len := n\<rparr>)"
  by (simp_all add: with_partial_def)

lemma disconnect_partial: "disconnect (with_partial p c) s = map_option (\<lambda>(c, s). (with_partial p c, s)) (disconnect c s)"
  by (simp add: disconnect_def map_option_bind comp_def)

lemma reject_partial: "reject_login reason (with_partial p c) s = map_option (\<lambda>(c, s). (with_partial p c, s)) (reject_login reason c s)"
  by (simp add: reject_login_def map_option_bind comp_def)

lemma login_partial: "login payload (with_partial p c) s = map_option (\<lambda>(c, s). (with_partial p c, s)) (login payload c s)"
  by (simp add: login_def reject_partial map_option_bind comp_def Let_def split: option.split prod.split)

lemma handle_partial:
  "handle_soup_packet packet stamps (with_partial p c) s = map_option (\<lambda>(b, c, s). (b, with_partial p c, s)) (handle_soup_packet packet stamps c s)"
  by (simp add: handle_soup_packet_def login_partial disconnect_partial map_option_bind bind_map_option comp_def case_prod_unfold)

lemma disconnect_ends:
  assumes "disconnect c s = Some (c1, s1)" "ic_open c"
  shows "\<not> ic_open c1" "ic_partial_len c1 = 0" "ic_partial c1 = ic_partial c"
  using assms by (auto simp: disconnect_def bind_eq_Some_conv split: if_splits)

lemma login_keeps:
  assumes "login payload c s = Some (c1, s1)"
  shows "ic_partial c1 = ic_partial c" "ic_partial_len c1 = ic_partial_len c"
  using assms by (auto simp: login_def reject_login_def Let_def bind_eq_Some_conv split: if_splits option.splits prod.splits)

lemma handle_keeps:
  assumes "handle_soup_packet packet stamps c s = Some (going, c1, s1)"
  shows "ic_partial c1 = ic_partial c" "ic_partial_len c = 0 \<Longrightarrow> ic_partial_len c1 = 0" "going \<longleftrightarrow> ic_open c1 \<and> \<not> ic_closing c1"
proof -
  have d: "ic_partial c1 = ic_partial c \<and> (ic_partial_len c = 0 \<longrightarrow> ic_partial_len c1 = 0)" if "disconnect c s = Some (c1, s1)"
    using that by (auto simp: disconnect_def bind_eq_Some_conv split: if_splits)
  show "ic_partial c1 = ic_partial c" "ic_partial_len c = 0 \<Longrightarrow> ic_partial_len c1 = 0" "going \<longleftrightarrow> ic_open c1 \<and> \<not> ic_closing c1"
    using assms d login_keeps [of "sp_payload packet" c s c1 s1] by (auto simp: handle_soup_packet_def bind_eq_Some_conv split: if_splits)
qed

lemma disconnect_id: "ic_partial c = [] \<Longrightarrow> with_partial [] c = c"
  by (simp add: with_partial_def)

lemma strip_zero: "ic_partial_len c = 0 \<Longrightarrow> strip c = with_partial [] c"
  by (simp add: strip_def pending_bytes_def with_partial_def)

subsection \<open>The loop over a segment\<close>

abbreviation strip_all :: "('c InboundConnection \<times> 'c Inbound) option \<Rightarrow> ('c InboundConnection \<times> 'c Inbound) option" where
  "strip_all \<equiv> map_option (\<lambda>(c, s). (strip c, s))"

lemma disconnect_strip:
  assumes "ic_partial_len c = 0"
  shows "strip_all (disconnect c s) = disconnect (with_partial [] c) s"
proof (cases "disconnect c s")
  case (Some r)
  obtain c1 s1 where r: "r = (c1, s1)" by fastforce
  have "ic_partial_len c1 = 0" using Some r assms by (auto simp: disconnect_def bind_eq_Some_conv split: if_splits)
  then show ?thesis using Some r by (simp add: disconnect_partial strip_zero)
qed (simp add: disconnect_partial)

lemma too_long_incomplete:
  assumes "spr_status (parse_soup_packet bs) = INCOMPLETE" "length bs \<ge> 2 \<longrightarrow> \<not> too_long bs"
  shows "length bs < kMaxInboundSoupPacket"
  using assms by (auto simp: parse_soup_packet_def no_packet_def Let_def too_long_def packet_len_def kMaxInboundSoupPacket_def split: if_splits)

lemma parse_loop_stream:
  assumes "ic_partial_len c = 0" "length (ic_partial c) = kMaxInboundSoupPacket" "short_stream bytes"
  shows "strip_all (parse_loop bytes stamps c s) = read_stream bytes stamps (with_partial [] c) s"
  using assms
proof (induction bytes stamps c s rule: parse_loop.induct)
  case (1 bytes stamps c s)
  let ?p = "parse_soup_packet bytes"
  have short: "length bytes \<ge> 2 \<longrightarrow> \<not> too_long bytes" "spr_status ?p = PACKET \<Longrightarrow> short_stream (drop (spr_consumed ?p) bytes)"
    using 1(4) by (subst (asm) short_stream.simps; simp)+
  show ?case
  proof (cases "bytes = []")
    case True
    then show ?thesis using 1(2)
      by (simp add: parse_loop.simps read_stream.simps parse_soup_packet_def no_packet_def keep_def strip_zero with_partial_def)
  next
    case ne: False
    show ?thesis
    proof (cases "spr_status ?p")
      case INCOMPLETE
      note lt = too_long_incomplete [OF INCOMPLETE short(1)]
      have "unat (of_nat (length bytes) :: u16) = length bytes" using lt by (intro unat_of_nat_small) (simp add: kMaxInboundSoupPacket_def)
      then have "strip (c\<lparr>ic_partial := splice 0 bytes (ic_partial c), ic_partial_len := of_nat (length bytes)\<rparr>) = keep bytes (with_partial [] c)"
        by (simp add: strip_def keep_def pending_bytes_def with_partial_def splice_def)
      then show ?thesis using INCOMPLETE ne short(1) lt by (subst parse_loop.simps, subst read_stream.simps) auto
    next
      case MALFORMED
      then show ?thesis using ne disconnect_strip [OF 1(2)] by (simp add: parse_loop.simps read_stream.simps)
    next
      case PACKET
      show ?thesis
      proof (cases "handle_soup_packet (spr_packet ?p) stamps c s")
        case None
        then show ?thesis using PACKET ne by (subst parse_loop.simps, subst read_stream.simps) (simp add: handle_partial)
      next
        case (Some r)
        obtain going c1 s1 where r: "r = (going, c1, s1)" by (cases r)
        have k: "ic_partial_len c1 = 0" "length (ic_partial c1) = kMaxInboundSoupPacket"
          using handle_keeps [OF Some [unfolded r]] 1(2,3) by simp_all
        have h: "handle_soup_packet (spr_packet ?p) stamps (with_partial [] c) s = Some (going, with_partial [] c1, s1)"
          using Some r by (simp add: handle_partial)
        show ?thesis
        proof (cases going)
          case True
          have "strip_all (parse_loop (drop (spr_consumed ?p) bytes) stamps c1 s1) = read_stream (drop (spr_consumed ?p) bytes) stamps (with_partial [] c1) s1"
            using 1(1) [OF ne refl PACKET Some r [symmetric] refl] True k short(2) [OF PACKET] by simp
          then show ?thesis using PACKET ne Some r True h by (subst parse_loop.simps, subst read_stream.simps) simp
        next
          case False
          then show ?thesis using PACKET ne Some r h k(1) by (subst parse_loop.simps, subst read_stream.simps) (simp add: strip_zero)
        qed
      qed
    qed
  qed
qed

subsection \<open>Finishing a packet from earlier segments\<close>

lemma length_pending: "length (ic_partial c) = kMaxInboundSoupPacket \<Longrightarrow> unat (ic_partial_len c) \<le> kMaxInboundSoupPacket
  \<Longrightarrow> length (pending_bytes c) = unat (ic_partial_len c)"
  by (simp add: pending_bytes_def)

lemma add_partial_spec:
  assumes "length (ic_partial c) = kMaxInboundSoupPacket" "unat (ic_partial_len c) + length bs \<le> kMaxInboundSoupPacket"
  obtains c1 where "add_partial bs c = Some c1" "pending_bytes c1 = pending_bytes c @ bs" "length (ic_partial c1) = kMaxInboundSoupPacket"
    "unat (ic_partial_len c1) = unat (ic_partial_len c) + length bs" "blank c1 = blank c"
proof -
  let ?n = "unat (ic_partial_len c)"
  let ?c = "c\<lparr>ic_partial := splice ?n bs (ic_partial c), ic_partial_len := ic_partial_len c + of_nat (length bs)\<rparr>"
  have "unat (of_nat (length bs) :: u16) = length bs" using assms(2) by (intro unat_of_nat_small) (simp add: kMaxInboundSoupPacket_def)
  then have n: "unat (ic_partial_len c + of_nat (length bs)) = ?n + length bs"
    using assms(2) by (subst unat_add_bounded) (simp_all add: kMaxInboundSoupPacket_def)
  show thesis
  proof (rule that [of ?c])
    show "add_partial bs c = Some ?c" using assms(2) by (simp add: add_partial_def)
    show "pending_bytes ?c = pending_bytes c @ bs" using assms by (simp add: pending_bytes_def n splice_def)
    show "length (ic_partial ?c) = kMaxInboundSoupPacket" using assms by (simp add: length_splice)
  qed (use n in \<open>simp_all add: blank_def\<close>)
qed

lemma packet_len_take: "2 \<le> n \<Longrightarrow> packet_len (take n bs) = packet_len bs"
  by (simp add: packet_len_def load_u16_def min_def)

lemma packet_len_pending: "2 \<le> unat (ic_partial_len c) \<Longrightarrow> packet_len (ic_partial c) = packet_len (pending_bytes c)"
  by (simp add: pending_bytes_def packet_len_take)

lemma packet_len_append: "2 \<le> length bs \<Longrightarrow> packet_len (bs @ cs) = packet_len bs"
  by (simp add: packet_len_def load_u16_def)

lemma blank_partial: "with_partial [] (c\<lparr>ic_partial_len := 0\<rparr>) = blank c"
  by (simp add: with_partial_def blank_def)

lemma keep_strip: "length (ic_partial c) = kMaxInboundSoupPacket \<Longrightarrow> unat (ic_partial_len c) \<le> kMaxInboundSoupPacket \<Longrightarrow> strip c = keep (pending_bytes c) (blank c)"
  by (simp add: strip_def keep_def blank_def length_pending)

definition resume ::
  "InboundStamps \<Rightarrow> byte list option \<times> 'c InboundConnection \<times> 'c Inbound \<Rightarrow> ('c InboundConnection \<times> 'c Inbound) option" where
  "resume stamps r = (case r of (rem, c1, s1) \<Rightarrow> case rem of None \<Rightarrow> Some (c1, s1) | Some bs \<Rightarrow> parse_loop bs stamps c1 s1)"

lemma parse_whole:
  assumes "2 \<le> length stream" "packet_len stream \<le> length stream"
  shows "parse_soup_packet (take (packet_len stream) stream) = parse_soup_packet stream"
    "spr_status (parse_soup_packet stream) \<noteq> INCOMPLETE"
    "spr_status (parse_soup_packet stream) = PACKET \<Longrightarrow> spr_consumed (parse_soup_packet stream) = packet_len stream"
proof -
  have "packet_len (take (packet_len stream) stream) = packet_len stream" by (rule packet_len_take) (simp add: packet_len_def)
  then have "spr_status (parse_soup_packet (take (packet_len stream) stream)) \<noteq> INCOMPLETE"
    using assms by (auto simp: parse_soup_packet_def no_packet_def Let_def packet_len_def)
  from parse_more [OF this, of "drop (packet_len stream) stream"]
  show "parse_soup_packet (take (packet_len stream) stream) = parse_soup_packet stream" by simp
  show "spr_status (parse_soup_packet stream) \<noteq> INCOMPLETE"
    "spr_status (parse_soup_packet stream) = PACKET \<Longrightarrow> spr_consumed (parse_soup_packet stream) = packet_len stream"
    using assms by (auto simp: parse_soup_packet_def no_packet_def Let_def packet_len_def split: if_splits)
qed

lemma finish_partial_stream:
  assumes len: "length (ic_partial c) = kMaxInboundSoupPacket" "2 \<le> unat (ic_partial_len c)"
    and le: "unat (ic_partial_len c) \<le> packet_len (pending_bytes c)" "packet_len (pending_bytes c) \<le> kMaxInboundSoupPacket"
    and stream: "stream = pending_bytes c @ bytes" and short: "short_stream stream"
  shows "strip_all (finish_partial bytes stamps c s \<bind> resume stamps) = read_stream stream stamps (blank c) s"
proof -
  let ?n = "unat (ic_partial_len c)" let ?t = "packet_len (pending_bytes c)" let ?k = "min (?t - ?n) (length bytes)"
  have lp: "length (pending_bytes c) = ?n" using len(1) le by (intro length_pending) simp_all
  have pl: "packet_len stream = ?t" "packet_len (ic_partial c) = ?t"
    unfolding stream using packet_len_append packet_len_pending [OF len(2)] lp len(2) by simp_all
  obtain c1 where c1: "add_partial (take ?k bytes) c = Some c1" "pending_bytes c1 = pending_bytes c @ take ?k bytes"
    "length (ic_partial c1) = kMaxInboundSoupPacket" "unat (ic_partial_len c1) = ?n + ?k" "blank c1 = blank c"
    by (rule add_partial_spec [OF len(1), of "take ?k bytes"]) (use le in auto)
  let ?c2 = "c1\<lparr>ic_partial_len := 0\<rparr>"
  have start: "finish_partial bytes stamps c s =
      (if ?n + ?k < ?t then Some (None, c1, s)
       else let parsed = parse_soup_packet (take ?t (ic_partial c1)) in
            if spr_status parsed \<noteq> PACKET then map_option (\<lambda>r. (None, r)) (disconnect ?c2 s)
            else do { (going, c3, s1) \<leftarrow> handle_soup_packet (spr_packet parsed) stamps ?c2 s;
                      Some (if going then Some (drop ?k bytes) else None, c3, s1) })"
    using c1 le(1) by (simp add: finish_partial_def pl Let_def)
  show ?thesis
  proof (cases "?n + ?k < ?t")
    case True
    then have all: "pending_bytes c1 = stream" using c1(2) stream by simp
    have "unat (ic_partial_len c1) \<le> kMaxInboundSoupPacket" using c1(4) True le(2) by simp
    then have "strip c1 = keep stream (blank c)" using keep_strip [OF c1(3)] all c1(5) by simp
    moreover have "spr_status (parse_soup_packet stream) = INCOMPLETE"
      using True pl(1) lp len(2) stream by (auto simp: parse_soup_packet_def no_packet_def Let_def packet_len_def)
    ultimately show ?thesis unfolding start if_P [OF True] by (simp add: resume_def read_stream.simps)
  next
    case False
    then have tk: "?n + ?k = ?t" "?t \<le> length stream" using le(1) stream lp by auto
    have "take ?t (ic_partial c1) = pending_bytes c1" using tk(1) c1(4) by (simp add: pending_bytes_def)
    also have "\<dots> = take ?t stream"
    proof -
      have "?k = ?t - ?n" using tk(1) by linarith
      then show ?thesis using c1(2) tk lp stream by simp
    qed
    finally have pk: "parse_soup_packet (take ?t (ic_partial c1)) = parse_soup_packet stream"
      using parse_whole(1) [of stream] tk(2) pl(1) len(2) lp stream by simp
    note W = parse_whole(2,3) [of stream, unfolded pl, OF _ tk(2)]
    have two: "2 \<le> length stream" using lp len(2) stream by simp
    have rest: "drop ?k bytes = drop ?t stream" using tk lp stream by simp
    have b: "with_partial [] ?c2 = blank c" using blank_partial [of c1] c1(5) by simp
    show ?thesis
    proof (cases "spr_status (parse_soup_packet stream)")
      case INCOMPLETE then show ?thesis using W(1) two by simp
    next
      case MALFORMED
      have "strip_all (disconnect ?c2 s) = disconnect (blank c) s" using disconnect_strip [of ?c2 s] b by simp
      then show ?thesis unfolding start if_not_P [OF False] pk using MALFORMED
        by (cases "disconnect ?c2 s") (auto simp: resume_def read_stream.simps)
    next
      case PACKET
      let ?p = "parse_soup_packet stream"
      have h: "handle_soup_packet (spr_packet ?p) stamps (blank c) s
          = map_option (\<lambda>(b, c, s). (b, with_partial [] c, s)) (handle_soup_packet (spr_packet ?p) stamps ?c2 s)"
        using handle_partial [of "spr_packet ?p" stamps "[]" ?c2 s] b by simp
      show ?thesis
      proof (cases "handle_soup_packet (spr_packet ?p) stamps ?c2 s")
        case None
        then show ?thesis unfolding start if_not_P [OF False] pk using PACKET h by (simp add: read_stream.simps)
      next
        case (Some r)
        obtain going c3 s1 where r: "r = (going, c3, s1)" by (cases r)
        have k: "ic_partial_len c3 = 0" "length (ic_partial c3) = kMaxInboundSoupPacket"
          using handle_keeps [OF Some [unfolded r]] c1(3) by simp_all
        have "short_stream (drop ?t stream)" using short PACKET W(2) two by (subst (asm) short_stream.simps) simp
        from parse_loop_stream [OF k this, of stamps s1] rest
        show ?thesis unfolding start if_not_P [OF False] pk using PACKET h Some r W(2) two k(1)
          by (subst read_stream.simps) (auto simp: resume_def strip_zero)
      qed
    qed
  qed
qed

lemma pending_incomplete:
  assumes "spr_status (parse_soup_packet bs) = INCOMPLETE" "2 \<le> length bs"
  shows "length bs < packet_len bs"
  using assms by (auto simp: parse_soup_packet_def no_packet_def Let_def packet_len_def split: if_splits)

lemma too_long_append: "2 \<le> length bs \<Longrightarrow> too_long (bs @ cs) = too_long bs"
  by (simp add: too_long_def packet_len_append)

lemma on_data_stream:
  assumes ok: "conn_ok c" and short: "short_stream (pending_bytes c @ bytes)"
  shows "strip_all (on_data bytes stamps c s) = read_stream (pending_bytes c @ bytes) stamps (blank c) s"
proof -
  let ?n = "unat (ic_partial_len c)" let ?stream = "pending_bytes c @ bytes"
  have C: "length (ic_partial c) = kMaxInboundSoupPacket" "?n \<le> kMaxInboundSoupPacket"
    "spr_status (parse_soup_packet (pending_bytes c)) = INCOMPLETE" using ok by (simp_all add: conn_ok_def)
  have lp: "length (pending_bytes c) = ?n" by (rule length_pending [OF C(1,2)])
  have nl: "2 \<le> length ?stream \<longrightarrow> \<not> too_long ?stream" using short by (subst (asm) short_stream.simps) simp
  consider "?n = 0" | "?n = 1" | "2 \<le> ?n" by linarith
  then show ?thesis
  proof cases
    case 1
    then have z: "ic_partial_len c = 0" by (simp add: unat_eq_0)
    have "with_partial [] c = blank c" using z by (simp add: with_partial_def blank_def)
    then show ?thesis using parse_loop_stream [OF z C(1)] short z by (simp add: on_data_def pending_bytes_def)
  next
    case 3
    have big: "\<not> ic_partial_len c < 2" "0 < ic_partial_len c" using 3 by (simp_all add: word_nat)
    have "?n \<le> packet_len (pending_bytes c)" using pending_incomplete [OF C(3)] lp 3 by simp
    moreover have "packet_len (pending_bytes c) \<le> kMaxInboundSoupPacket"
      using ok 3 lp by (auto simp: conn_ok_def too_long_def)
    moreover have "on_data bytes stamps c s = finish_partial bytes stamps c s \<bind> resume stamps"
      using big by (simp add: on_data_def finish_length_def resume_def [abs_def])
    ultimately show ?thesis using finish_partial_stream [OF C(1) 3 _ _ refl short] by simp
  next
    case 2
    have small: "ic_partial_len c < 2" "0 < ic_partial_len c" using 2 by (simp_all add: word_nat)
    have od: "on_data bytes stamps c s = finish_length bytes stamps c s \<bind> resume stamps"
      using small by (simp add: on_data_def resume_def [abs_def])
    show ?thesis
    proof (cases bytes)
      case Nil
      obtain c1 where c1: "add_partial [] c = Some c1" "pending_bytes c1 = pending_bytes c @ []" "length (ic_partial c1) = kMaxInboundSoupPacket"
        "unat (ic_partial_len c1) = ?n + length ([]::byte list)" "blank c1 = blank c"
        by (rule add_partial_spec [OF C(1), of "[]"]) (use C(2) in simp)
      have "strip c1 = keep (pending_bytes c) (blank c)" using keep_strip [OF c1(3)] c1 C(2) by simp
      moreover have "ic_partial_len c1 < 2" using c1(4) 2 by (simp add: word_nat)
      ultimately show ?thesis unfolding od using Nil c1(1) small C(3) by (simp add: finish_length_def resume_def read_stream.simps)
    next
      case (Cons b bs)
      obtain c1 where c1: "add_partial [b] c = Some c1" "pending_bytes c1 = pending_bytes c @ [b]" "length (ic_partial c1) = kMaxInboundSoupPacket"
        "unat (ic_partial_len c1) = ?n + length [b]" "blank c1 = blank c"
        by (rule add_partial_spec [OF C(1), of "[b]"]) (use 2 in \<open>simp add: kMaxInboundSoupPacket_def\<close>)
      have two: "2 \<le> unat (ic_partial_len c1)" "\<not> ic_partial_len c1 < 2" using c1(4) 2 by (simp_all add: word_nat)
      have st: "?stream = pending_bytes c1 @ bs" using c1(2) Cons by simp
      have l1: "length (pending_bytes c1) = 2" using c1(2) lp 2 by simp
      have "\<not> too_long (pending_bytes c1)" using nl too_long_append [of "pending_bytes c1" bs] l1 st by simp
      then have le: "unat (ic_partial_len c1) \<le> packet_len (pending_bytes c1)" "packet_len (pending_bytes c1) \<le> kMaxInboundSoupPacket"
        "\<not> too_long (ic_partial c1)"
        using c1(4) 2 packet_len_pending [OF two(1)] by (simp_all add: packet_len_def too_long_def)
      have tk: "take (min (2 - ?n) (length bytes)) bytes = [b]" "drop (min (2 - ?n) (length bytes)) bytes = bs"
        using 2 Cons by (simp_all add: min_def)
      have "finish_length bytes stamps c s = finish_partial bs stamps c1 s"
        unfolding finish_length_def Let_def tk using small c1(1) two(2) le(3) by simp
      then show ?thesis unfolding od
        using finish_partial_stream [OF c1(3) two(1) le(1,2) st short] c1(5) by simp
    qed
  qed
qed

subsection \<open>The partial packet stays in its buffer\<close>

lemma conn_ok_zero: "ic_partial_len c = 0 \<Longrightarrow> length (ic_partial c) = kMaxInboundSoupPacket \<Longrightarrow> conn_ok c"
  by (simp add: conn_ok_def pending_bytes_def parse_soup_packet_def no_packet_def)

lemma disconnect_ok:
  assumes "disconnect c s = Some (c1, s1)" "length (ic_partial c) = kMaxInboundSoupPacket" "ic_open c \<or> ic_partial_len c = 0"
  shows "conn_ok c1"
  using assms by (intro conn_ok_zero) (auto simp: disconnect_def bind_eq_Some_conv split: if_splits)

lemma parse_loop_ok:
  assumes "parse_loop bytes stamps c s = Some (c1, s1)" "ic_partial_len c = 0" "length (ic_partial c) = kMaxInboundSoupPacket"
  shows "conn_ok c1"
  using assms
proof (induction bytes stamps c s rule: parse_loop.induct)
  case (1 bytes stamps c s)
  let ?p = "parse_soup_packet bytes"
  show ?case
  proof (cases "bytes = []")
    case True
    then show ?thesis using 1(2-4) conn_ok_zero by (simp add: parse_loop.simps)
  next
    case ne: False
    show ?thesis
    proof (cases "spr_status ?p")
      case MALFORMED
      then have "disconnect c s = Some (c1, s1)" using 1(2) ne by (simp add: parse_loop.simps)
      then show ?thesis using disconnect_ok 1(3,4) by blast
    next
      case INCOMPLETE
      show ?thesis
      proof (cases "length bytes \<ge> 2 \<and> too_long bytes")
        case True
        then have "disconnect c s = Some (c1, s1)" using 1(2) ne INCOMPLETE by (simp add: parse_loop.simps)
        then show ?thesis using disconnect_ok 1(3,4) by blast
      next
        case False
        then have lt: "length bytes < kMaxInboundSoupPacket" using too_long_incomplete [OF INCOMPLETE] by blast
        have n: "unat (of_nat (length bytes) :: u16) = length bytes" using lt by (intro unat_of_nat_small) (simp add: kMaxInboundSoupPacket_def)
        have "c1 = c\<lparr>ic_partial := splice 0 bytes (ic_partial c), ic_partial_len := of_nat (length bytes)\<rparr>"
          using 1(2) ne INCOMPLETE False lt by (subst (asm) parse_loop.simps) (simp split: if_splits)
        then show ?thesis using INCOMPLETE False lt n 1(4)
          by (auto simp: conn_ok_def pending_bytes_def length_splice) (simp_all add: splice_def)
      qed
    next
      case PACKET
      have "parse_loop bytes stamps c s = (case handle_soup_packet (spr_packet ?p) stamps c s of
          None \<Rightarrow> None
        | Some (going, c1, s1) \<Rightarrow> if \<not> going then Some (c1, s1) else parse_loop (drop (spr_consumed ?p) bytes) stamps c1 s1)"
        using parse_loop.simps [of bytes stamps c s] ne PACKET by (simp add: Let_def)
      then obtain going c2 s2 where h: "handle_soup_packet (spr_packet ?p) stamps c s = Some (going, c2, s2)"
        and r: "if \<not> going then (c2, s2) = (c1, s1) else parse_loop (drop (spr_consumed ?p) bytes) stamps c2 s2 = Some (c1, s1)"
        using 1(2) by (auto split: option.splits if_splits)
      have k: "ic_partial_len c2 = 0" "length (ic_partial c2) = kMaxInboundSoupPacket" using handle_keeps [OF h] 1(3,4) by simp_all
      show ?thesis using r k conn_ok_zero [OF k] 1(1) [OF ne refl PACKET h refl refl] by (cases going) auto
    qed
  qed
qed

lemma finish_partial_ok:
  assumes f: "finish_partial bytes stamps c s = Some (rem, c1, s1)"
    and len: "length (ic_partial c) = kMaxInboundSoupPacket" "2 \<le> unat (ic_partial_len c)"
    and le: "unat (ic_partial_len c) \<le> packet_len (pending_bytes c)" "packet_len (pending_bytes c) \<le> kMaxInboundSoupPacket"
    and op: "ic_open c"
  shows "conn_ok c1" "rem \<noteq> None \<Longrightarrow> ic_partial_len c1 = 0 \<and> length (ic_partial c1) = kMaxInboundSoupPacket"
proof -
  let ?n = "unat (ic_partial_len c)" let ?t = "packet_len (pending_bytes c)" let ?k = "min (?t - ?n) (length bytes)"
  have lp: "length (pending_bytes c) = ?n" using len(1) le by (intro length_pending) simp_all
  have pl: "packet_len (ic_partial c) = ?t" by (rule packet_len_pending [OF len(2)])
  obtain c2 where c2: "add_partial (take ?k bytes) c = Some c2" "pending_bytes c2 = pending_bytes c @ take ?k bytes"
    "length (ic_partial c2) = kMaxInboundSoupPacket" "unat (ic_partial_len c2) = ?n + ?k" "blank c2 = blank c"
    by (rule add_partial_spec [OF len(1), of "take ?k bytes"]) (use le in auto)
  let ?c3 = "c2\<lparr>ic_partial_len := 0\<rparr>"
  have op3: "ic_open ?c3" using op c2(5) by (cases c; cases c2) (simp add: blank_def)
  have cases: "(?n + ?k < ?t \<and> rem = None \<and> c1 = c2)
      \<or> (rem = None \<and> disconnect ?c3 s = Some (c1, s1))
      \<or> (\<exists>packet going. handle_soup_packet packet stamps ?c3 s = Some (going, c1, s1) \<and> (rem \<noteq> None \<longrightarrow> going))"
    using f c2 le(1) by (auto simp: finish_partial_def pl Let_def bind_eq_Some_conv split: if_splits)
  then consider "?n + ?k < ?t" "rem = None" "c1 = c2" | "rem = None" "disconnect ?c3 s = Some (c1, s1)"
    | packet going where "handle_soup_packet packet stamps ?c3 s = Some (going, c1, s1)" by blast
  then have "conn_ok c1 \<and> (rem \<noteq> None \<longrightarrow> ic_partial_len c1 = 0 \<and> length (ic_partial c1) = kMaxInboundSoupPacket)"
  proof cases
    case 1
    have p2: "packet_len (pending_bytes c2) = ?t" using packet_len_append [of "pending_bytes c"] lp len(2) c2(2) by simp
    have l2: "length (pending_bytes c2) = ?n + ?k" using c2(2) lp by simp
    have "spr_status (parse_soup_packet (pending_bytes c2)) = INCOMPLETE"
      using 1(1) l2 p2 len(2) by (auto simp: parse_soup_packet_def no_packet_def Let_def packet_len_def)
    then show ?thesis using 1 c2(3,4) le(2) p2 by (simp add: conn_ok_def too_long_def)
  next
    case 2
    then show ?thesis using disconnect_ok [OF 2(2)] c2(3) by simp
  next
    case 3
    have "ic_partial_len c1 = 0" "length (ic_partial c1) = kMaxInboundSoupPacket" using handle_keeps [OF 3] c2(3) by simp_all
    then show ?thesis using conn_ok_zero by blast
  qed
  then show "conn_ok c1" "rem \<noteq> None \<Longrightarrow> ic_partial_len c1 = 0 \<and> length (ic_partial c1) = kMaxInboundSoupPacket" by simp_all
qed

lemma on_data_ok:
  assumes od: "on_data bytes stamps c s = Some (c1, s1)" and ok: "conn_ok c" and op: "ic_open c"
  shows "conn_ok c1"
proof -
  let ?n = "unat (ic_partial_len c)"
  have C: "length (ic_partial c) = kMaxInboundSoupPacket" "?n \<le> kMaxInboundSoupPacket"
    "spr_status (parse_soup_packet (pending_bytes c)) = INCOMPLETE" using ok by (simp_all add: conn_ok_def)
  have lp: "length (pending_bytes c) = ?n" by (rule length_pending [OF C(1,2)])
  have resume: "conn_ok c1" if "finish_partial bs stamps c' s = Some (rem, c2, s2)" "resume stamps (rem, c2, s2) = Some (c1, s1)"
    "length (ic_partial c') = kMaxInboundSoupPacket" "2 \<le> unat (ic_partial_len c')" "ic_open c'"
    "unat (ic_partial_len c') \<le> packet_len (pending_bytes c')" "packet_len (pending_bytes c') \<le> kMaxInboundSoupPacket" for bs c' rem c2 s2
    using finish_partial_ok [OF that(1,3,4,6,7,5)] that(2) parse_loop_ok by (auto simp: resume_def split: option.splits)
  consider "ic_partial_len c = 0" | "0 < ic_partial_len c" "ic_partial_len c < 2" | "2 \<le> ic_partial_len c"
    by (cases "ic_partial_len c = 0"; cases "ic_partial_len c < 2") (auto simp: word_gt_0 not_less)
  then show ?thesis
  proof cases
    case 1
    then show ?thesis using od parse_loop_ok [OF _ 1 C(1)] by (simp add: on_data_def)
  next
    case 3
    then have big: "\<not> ic_partial_len c < 2" "0 < ic_partial_len c" "2 \<le> ?n" by (simp_all add: word_nat)
    have "?n \<le> packet_len (pending_bytes c)" "packet_len (pending_bytes c) \<le> kMaxInboundSoupPacket"
      using pending_incomplete [OF C(3)] ok lp big(3) by (auto simp: conn_ok_def too_long_def)
    moreover obtain rem c2 s2 where "finish_partial bytes stamps c s = Some (rem, c2, s2)" "resume stamps (rem, c2, s2) = Some (c1, s1)"
      using od big by (auto simp: on_data_def finish_length_def bind_eq_Some_conv resume_def)
    ultimately show ?thesis using resume C(1) big(3) op by blast
  next
    case 2
    let ?k = "min (2 - ?n) (length bytes)"
    have n1: "?n = 1" using 2 by (simp add: word_nat)
    obtain c2 where c2: "add_partial (take ?k bytes) c = Some c2" "pending_bytes c2 = pending_bytes c @ take ?k bytes"
      "length (ic_partial c2) = kMaxInboundSoupPacket" "unat (ic_partial_len c2) = ?n + ?k" "blank c2 = blank c"
      by (rule add_partial_spec [OF C(1), of "take ?k bytes"]) (use n1 in \<open>auto simp: kMaxInboundSoupPacket_def\<close>)
    have op2: "ic_open c2" using op c2(5) by (cases c; cases c2) (simp add: blank_def)
    have l2: "length (pending_bytes c2) = unat (ic_partial_len c2)" using c2(2,4) lp by simp
    show ?thesis
    proof (cases "ic_partial_len c2 < 2")
      case True
      then have "c1 = c2" using od 2 c2(1) by (auto simp: on_data_def finish_length_def Let_def)
      then show ?thesis using True c2(3) l2
        by (auto simp: conn_ok_def word_nat parse_soup_packet_def no_packet_def kMaxInboundSoupPacket_def)
    next
      case big: False
      then have two: "2 \<le> unat (ic_partial_len c2)" by (simp add: word_nat)
      show ?thesis
      proof (cases "too_long (ic_partial c2)")
        case True
        then have "disconnect c2 s = Some (c1, s1)" using od 2 c2(1) big by (auto simp: on_data_def finish_length_def Let_def bind_eq_Some_conv)
        then show ?thesis using disconnect_ok c2(3) op2 by blast
      next
        case False
        have "unat (ic_partial_len c2) \<le> packet_len (pending_bytes c2)" "packet_len (pending_bytes c2) \<le> kMaxInboundSoupPacket"
          using c2(4) n1 False packet_len_pending [OF two] by (simp_all add: packet_len_def too_long_def)
        moreover obtain rem c3 s3 where "finish_partial (drop ?k bytes) stamps c2 s = Some (rem, c3, s3)" "resume stamps (rem, c3, s3) = Some (c1, s1)"
          using od 2 big False c2(1) by (auto simp: on_data_def finish_length_def Let_def bind_eq_Some_conv resume_def)
        ultimately show ?thesis using resume [of _ c2] c2(3) two op2 by blast
      qed
    qed
  qed
qed

subsection \<open>Segments\<close>

text \<open>What the thread does with the data events of a connection: each goes to \<open>on_data_\<close> unless the connection is over.\<close>

fun receive ::
  "byte list list \<Rightarrow> InboundStamps \<Rightarrow> 'c InboundConnection \<Rightarrow> 'c Inbound \<Rightarrow> ('c InboundConnection \<times> 'c Inbound) option" where
  "receive [] stamps c s = Some (c, s)"
| "receive (bytes # segments) stamps c s =
     (if \<not> ic_open c \<or> ic_closing c then receive segments stamps c s
      else do { (c1, s1) \<leftarrow> on_data bytes stamps c s; receive segments stamps c1 s1 })"

lemma receive_over: "\<not> ic_open c \<or> ic_closing c \<Longrightarrow> receive segments stamps c s = Some (c, s)"
  by (induction segments) simp_all

lemma blank_id: "ic_partial c = [] \<Longrightarrow> ic_partial_len c = 0 \<Longrightarrow> blank c = c"
  by (simp add: blank_def)

lemma read_stream_append:
  assumes "ic_open c" "\<not> ic_closing c" "ic_partial c = []" "ic_partial_len c = 0"
  shows "read_stream (as @ bs) stamps c s =
    (case read_stream as stamps c s of
       None \<Rightarrow> None
     | Some (c1, s1) \<Rightarrow> if ic_open c1 \<and> \<not> ic_closing c1 then read_stream (ic_partial c1 @ bs) stamps (blank c1) s1 else Some (c1, s1))"
  using assms
proof (induction as stamps c s rule: read_stream.induct)
  case (1 as stamps c s)
  let ?p = "parse_soup_packet as"
  have more: "spr_status ?p \<noteq> INCOMPLETE \<Longrightarrow> parse_soup_packet (as @ bs) = ?p" by (rule parse_more)
  show ?case
  proof (cases "spr_status ?p")
    case INCOMPLETE
    have "blank (keep as c) = c" using 1(4,5) by (simp add: blank_def keep_def)
    moreover have "read_stream as stamps c s = Some (keep as c, s)" using INCOMPLETE by (simp add: read_stream.simps)
    ultimately show ?thesis using 1(2,3) by (simp add: keep_def)
  next
    case MALFORMED
    then have "read_stream (as @ bs) stamps c s = disconnect c s" "read_stream as stamps c s = disconnect c s"
      using more by (simp_all add: read_stream.simps)
    then show ?thesis using disconnect_ends(1) 1(2) by (auto split: option.split)
  next
    case PACKET
    let ?h = "handle_soup_packet (spr_packet ?p) stamps c s"
    have step: "read_stream (as @ cs) stamps c s = (case ?h of None \<Rightarrow> None
        | Some (going, c1, s1) \<Rightarrow> if \<not> going then Some (c1, s1) else read_stream (drop (spr_consumed ?p) as @ cs) stamps c1 s1)" for cs
    proof -
      have pm: "parse_soup_packet (as @ cs) = ?p" using PACKET by (intro parse_more) simp
      have "spr_consumed ?p \<le> length as"
        using PACKET by (auto simp: parse_soup_packet_def no_packet_def Let_def split: if_splits)
      then have dp: "drop (spr_consumed ?p) (as @ cs) = drop (spr_consumed ?p) as @ cs" by simp
      show ?thesis using read_stream.simps [of "as @ cs" stamps c s, unfolded pm dp] PACKET by simp
    qed
    show ?thesis
    proof (cases ?h)
      case None
      then show ?thesis using step [of bs] step [of "[]"] by simp
    next
      case (Some r)
      obtain going c1 s1 where r: "r = (going, c1, s1)" by (cases r)
      note K = handle_keeps [OF Some [unfolded r]]
      show ?thesis
      proof (cases going)
        case True
        then show ?thesis using step [of bs] step [of "[]"] Some r K 1(4,5) 1(1) [OF PACKET Some r [symmetric] refl] by simp
      next
        case False
        then show ?thesis using step [of bs] step [of "[]"] Some r K by auto
      qed
    qed
  qed
qed

lemma strip_sel [simp]:
  "ic_open (strip c) = ic_open c" "ic_closing (strip c) = ic_closing c" "ic_partial (strip c) = pending_bytes c" "blank (strip c) = blank c"
  by (simp_all add: strip_def blank_def)

lemma blank_sel [simp]: "ic_open (blank c) = ic_open c" "ic_closing (blank c) = ic_closing c" "ic_partial (blank c) = []" "ic_partial_len (blank c) = 0"
  by (simp_all add: blank_def)

lemma short_prefix: "short_stream (as @ bs) \<Longrightarrow> short_stream as"
proof (induction as rule: short_stream.induct)
  case (1 as)
  let ?p = "parse_soup_packet as"
  have l: "length as \<ge> 2 \<longrightarrow> \<not> too_long as"
    using "1.prems" too_long_append [of as bs] by (subst (asm) short_stream.simps) auto
  have "short_stream (drop (spr_consumed ?p) as)" if P: "spr_status ?p = PACKET"
  proof -
    have pm: "parse_soup_packet (as @ bs) = ?p" using P by (intro parse_more) simp
    have "spr_consumed ?p \<le> length as" using P by (auto simp: parse_soup_packet_def no_packet_def Let_def split: if_splits)
    then have "short_stream (drop (spr_consumed ?p) as @ bs)"
      using "1.prems" P pm by (subst (asm) short_stream.simps) simp
    then show ?thesis using "1.IH" [OF P] by blast
  qed
  then show ?case using l by (subst short_stream.simps) simp
qed

lemma short_pending:
  assumes "short_stream (as @ bs)" "read_stream as stamps c s = Some (c1, s1)" "ic_open c1" "\<not> ic_closing c1" "ic_open c" "\<not> ic_closing c"
  shows "short_stream (ic_partial c1 @ bs)"
  using assms
proof (induction as stamps c s rule: read_stream.induct)
  case (1 as stamps c s)
  let ?p = "parse_soup_packet as"
  show ?case
  proof (cases "spr_status ?p")
    case INCOMPLETE
    then show ?thesis using 1(2,3) by (auto simp: read_stream.simps keep_def)
  next
    case MALFORMED
    then have "disconnect c s = Some (c1, s1)" using 1(3) by (simp add: read_stream.simps)
    then show ?thesis using disconnect_ends(1) 1(4,6) by blast
  next
    case PACKET
    have pm: "parse_soup_packet (as @ bs) = ?p" using PACKET by (intro parse_more) simp
    have "spr_consumed ?p \<le> length as" using PACKET by (auto simp: parse_soup_packet_def no_packet_def Let_def split: if_splits)
    then have sh: "short_stream (drop (spr_consumed ?p) as @ bs)" using 1(2) PACKET pm by (subst (asm) short_stream.simps) simp
    obtain going c2 s2 where h: "handle_soup_packet (spr_packet ?p) stamps c s = Some (going, c2, s2)"
      and r: "if \<not> going then (c2, s2) = (c1, s1) else read_stream (drop (spr_consumed ?p) as) stamps c2 s2 = Some (c1, s1)"
      using 1(3) read_stream.simps [of as stamps c s] PACKET by (auto split: option.splits if_splits)
    show ?thesis
    proof (cases going)
      case True
      then show ?thesis using 1(1) [OF PACKET h refl refl] sh r 1(4,5) handle_keeps(3) [OF h] by simp
    next
      case False
      then show ?thesis using r handle_keeps(3) [OF h] 1(4,5) by simp
    qed
  qed
qed

lemma receive_stream:
  assumes "conn_ok c" "ic_open c" "\<not> ic_closing c" "short_stream (pending_bytes c @ concat segments)"
  shows "strip_all (receive segments stamps c s) = read_stream (pending_bytes c @ concat segments) stamps (blank c) s"
  using assms
proof (induction segments arbitrary: c s)
  case Nil
  have "spr_status (parse_soup_packet (pending_bytes c)) = INCOMPLETE" "strip c = keep (pending_bytes c) (blank c)"
    using Nil(1) keep_strip by (auto simp: conn_ok_def)
  then show ?case by (simp add: read_stream.simps)
next
  case (Cons seg segs)
  let ?a = "pending_bytes c @ seg" let ?b = "concat segs"
  have sh: "short_stream (?a @ ?b)" using Cons.prems(4) by simp
  have od: "strip_all (on_data seg stamps c s) = read_stream ?a stamps (blank c) s"
    by (rule on_data_stream [OF Cons.prems(1) short_prefix [OF sh]])
  have ap: "read_stream (?a @ ?b) stamps (blank c) s = (case read_stream ?a stamps (blank c) s of None \<Rightarrow> None
      | Some (c1, s1) \<Rightarrow> if ic_open c1 \<and> \<not> ic_closing c1 then read_stream (ic_partial c1 @ ?b) stamps (blank c1) s1 else Some (c1, s1))"
    by (rule read_stream_append) (use Cons.prems(2,3) in simp_all)
  show ?case
  proof (cases "on_data seg stamps c s")
    case None
    then show ?thesis using od ap Cons.prems(2,3) by simp
  next
    case (Some r)
    obtain c1 s1 where r: "r = (c1, s1)" by (cases r)
    have rs: "read_stream ?a stamps (blank c) s = Some (strip c1, s1)" using od Some r by simp
    have ok: "conn_ok c1" using on_data_ok [OF _ Cons.prems(1,2)] Some r by blast
    show ?thesis
    proof (cases "ic_open c1 \<and> \<not> ic_closing c1")
      case True
      have "short_stream (pending_bytes c1 @ ?b)" using short_pending [OF sh rs] True Cons.prems(2,3) by simp
      then show ?thesis using Cons.IH [OF ok, of s1] True ap rs Some r Cons.prems(2,3) by simp
    next
      case False
      then show ?thesis using ap rs Some r Cons.prems(2,3) receive_over [of c1 segs stamps s1] by auto
    qed
  qed
qed

end
