(* ===== verification/Inbound_Handlers.thy ===== *)
theory Inbound_Handlers
  imports Inbound_Stream
begin

text \<open>
  What reassembly inherits from the handlers of the inbound thread: whatever the end of a connection and the handling of one
  packet bring about, \<open>on_data_\<close> brings about for any segment. The interface is a precondition on the connection and the
  thread, and a relation between their states before and after; both look past the partial packet.
\<close>

lemma blank_len: "blank (c\<lparr>ic_partial_len := n\<rparr>) = blank c"
  by (simp add: blank_def)

lemma blank_ignores_partial: "blank (c\<lparr>ic_partial := p, ic_partial_len := n\<rparr>) = blank c"
  by (simp add: blank_def)

lemma blank_flags: "blank c1 = blank c \<Longrightarrow> ic_open c1 = ic_open c" "blank c1 = blank c \<Longrightarrow> ic_closing c1 = ic_closing c"
  by (metis blank_sel(1)) (metis blank_sel(2))

locale handler_rel =
  fixes pre :: "'c InboundConnection \<Rightarrow> 'c Inbound \<Rightarrow> bool"
    and rel :: "'c InboundConnection \<Rightarrow> 'c Inbound \<Rightarrow> 'c InboundConnection \<Rightarrow> 'c Inbound \<Rightarrow> bool"
  assumes rel_refl: "pre c s \<Longrightarrow> rel c s c s"
    and rel_trans: "rel c s c1 s1 \<Longrightarrow> rel c1 s1 c2 s2 \<Longrightarrow> rel c s c2 s2"
    and rel_pre: "rel c s c1 s1 \<Longrightarrow> pre c1 s1"
    and pre_blank: "blank c1 = blank c \<Longrightarrow> pre c1 s = pre c s"
    and rel_blank: "blank c1 = blank c \<Longrightarrow> rel c1 s c2 s2 = rel c s c2 s2"
    and rel_blank_post: "blank c1 = blank c \<Longrightarrow> rel c2 s2 c1 s = rel c2 s2 c s"
    and rel_disconnect: "pre c s \<Longrightarrow> \<exists>c1 s1. disconnect c s = Some (c1, s1) \<and> rel c s c1 s1"
    and rel_handle: "pre c s \<Longrightarrow> ic_open c \<Longrightarrow> \<not> ic_closing c \<Longrightarrow>
      \<exists>going c1 s1. handle_soup_packet packet stamps c s = Some (going, c1, s1) \<and> rel c s c1 s1"
begin

lemma blank_rel:
  assumes "blank c1 = blank c"
  shows "pre c1 s = pre c s" "rel c1 s c2 s2 = rel c s c2 s2" "rel c2 s2 c1 s = rel c2 s2 c s"
    "ic_open c1 = ic_open c" "ic_closing c1 = ic_closing c"
  by (rule pre_blank rel_blank rel_blank_post blank_flags, rule assms)+

lemma parse_loop_rel:
  assumes "pre c s" "ic_open c" "\<not> ic_closing c"
  shows "\<exists>c1 s1. parse_loop bytes stamps c s = Some (c1, s1) \<and> rel c s c1 s1"
  using assms
proof (induction bytes stamps c s rule: parse_loop.induct)
  case (1 bytes stamps c s)
  let ?p = "parse_soup_packet bytes"
  note eq = parse_loop.simps [of bytes stamps c s]
  have stop: "\<exists>c1 s1. disconnect c s = Some (c1, s1) \<and> rel c s c1 s1" by (rule rel_disconnect [OF 1(2)])
  show ?case
  proof (cases "bytes = []")
    case True
    then show ?thesis using rel_refl [OF 1(2)] eq by simp
  next
    case ne: False
    show ?thesis
    proof (cases "spr_status ?p")
      case MALFORMED
      then show ?thesis using stop eq ne by simp
    next
      case INCOMPLETE
      show ?thesis
      proof (cases "length bytes \<ge> 2 \<and> too_long bytes")
        case True
        then show ?thesis using stop eq ne INCOMPLETE by simp
      next
        case False
        then have "length bytes < kMaxInboundSoupPacket" using too_long_incomplete [OF INCOMPLETE] by blast
        then show ?thesis using eq ne INCOMPLETE False rel_refl [OF 1(2)] rel_blank_post [OF blank_ignores_partial] by simp
      qed
    next
      case PACKET
      obtain going c2 s2 where h: "handle_soup_packet (spr_packet ?p) stamps c s = Some (going, c2, s2)" "rel c s c2 s2"
        using rel_handle [OF 1(2-4)] by blast
      show ?thesis
      proof (cases going)
        case False
        then show ?thesis using eq ne PACKET h by simp
      next
        case True
        have "pre c2 s2" "ic_open c2" "\<not> ic_closing c2" using rel_pre [OF h(2)] handle_keeps(3) [OF h(1)] True by simp_all
        from 1(1) [OF ne refl PACKET h(1) refl refl _ this] True
        obtain c1 s1 where "parse_loop (drop (spr_consumed ?p) bytes) stamps c2 s2 = Some (c1, s1)" "rel c2 s2 c1 s1" by auto
        then show ?thesis using eq ne PACKET h(1) True rel_trans [OF h(2)] by simp
      qed
    qed
  qed
qed

lemma finish_partial_rel:
  assumes c: "pre c s" "ic_open c" "\<not> ic_closing c"
    and len: "length (ic_partial c) = kMaxInboundSoupPacket" "2 \<le> unat (ic_partial_len c)"
    and le: "unat (ic_partial_len c) \<le> packet_len (pending_bytes c)" "packet_len (pending_bytes c) \<le> kMaxInboundSoupPacket"
  shows "\<exists>rem c1 s1. finish_partial bytes stamps c s = Some (rem, c1, s1) \<and> rel c s c1 s1 \<and> (rem \<noteq> None \<longrightarrow> ic_open c1 \<and> \<not> ic_closing c1)"
proof -
  let ?n = "unat (ic_partial_len c)" let ?t = "packet_len (pending_bytes c)" let ?k = "min (?t - ?n) (length bytes)"
  have pl: "packet_len (ic_partial c) = ?t" by (rule packet_len_pending [OF len(2)])
  obtain c2 where c2: "add_partial (take ?k bytes) c = Some c2" "pending_bytes c2 = pending_bytes c @ take ?k bytes"
    "length (ic_partial c2) = kMaxInboundSoupPacket" "unat (ic_partial_len c2) = ?n + ?k" "blank c2 = blank c"
    by (rule add_partial_spec [OF len(1), of "take ?k bytes"]) (use le in auto)
  let ?c3 = "c2\<lparr>ic_partial_len := 0\<rparr>" let ?p = "parse_soup_packet (take ?t (ic_partial c2))"
  have b: "blank ?c3 = blank c" using c2(5) blank_len by metis
  note B = blank_rel [OF b] and B2 = blank_rel [OF c2(5)]
  have start: "finish_partial bytes stamps c s =
      (if ?n + ?k < ?t then Some (None, c2, s)
       else if spr_status ?p \<noteq> PACKET then map_option (\<lambda>r. (None, r)) (disconnect ?c3 s)
       else do { (going, c3, s1) \<leftarrow> handle_soup_packet (spr_packet ?p) stamps ?c3 s;
                 Some (if going then Some (drop ?k bytes) else None, c3, s1) })"
    using c2 le(1) by (simp add: finish_partial_def pl Let_def)
  obtain c4 s4 where d: "disconnect ?c3 s = Some (c4, s4)" "rel ?c3 s c4 s4" using rel_disconnect [of ?c3 s] B(1) c(1) by blast
  obtain going c5 s5 where h: "handle_soup_packet (spr_packet ?p) stamps ?c3 s = Some (going, c5, s5)" "rel ?c3 s c5 s5"
    using rel_handle [of ?c3 s] B(1,4,5) c by blast
  consider "?n + ?k < ?t" | "\<not> ?n + ?k < ?t" "spr_status ?p \<noteq> PACKET" | "\<not> ?n + ?k < ?t" "\<not> spr_status ?p \<noteq> PACKET" by blast
  then show ?thesis
  proof cases
    case 1
    show ?thesis unfolding start if_P [OF 1] using rel_refl [OF c(1)] B2(3) by blast
  next
    case 2
    show ?thesis unfolding start if_not_P [OF 2(1)] if_P [OF 2(2)] d(1) option.map using d(2) B(2) by blast
  next
    case 3
    have "ic_open c5 \<and> \<not> ic_closing c5" if going using handle_keeps(3) [OF h(1)] that by simp
    then show ?thesis unfolding start if_not_P [OF 3(1)] if_not_P [OF 3(2)] h(1) using h(2) B(2) by simp
  qed
qed

lemma on_data_rel:
  assumes c: "pre c s" "ic_open c" "\<not> ic_closing c" and ok: "conn_ok c"
  shows "\<exists>c1 s1. on_data bytes stamps c s = Some (c1, s1) \<and> rel c s c1 s1"
proof -
  let ?n = "unat (ic_partial_len c)"
  have C: "length (ic_partial c) = kMaxInboundSoupPacket" "?n \<le> kMaxInboundSoupPacket"
    "spr_status (parse_soup_packet (pending_bytes c)) = INCOMPLETE" using ok by (simp_all add: conn_ok_def)
  have lp: "length (pending_bytes c) = ?n" by (rule length_pending [OF C(1,2)])
  have resume: "\<exists>c1 s1. (finish_partial bs stamps c' s \<bind> resume stamps) = Some (c1, s1) \<and> rel c s c1 s1"
    if "length (ic_partial c') = kMaxInboundSoupPacket" "2 \<le> unat (ic_partial_len c')" "blank c' = blank c"
    "unat (ic_partial_len c') \<le> packet_len (pending_bytes c')" "packet_len (pending_bytes c') \<le> kMaxInboundSoupPacket" for bs c'
  proof -
    note asm = that and B = blank_rel [OF that(3)]
    obtain rem c1 s1 where f: "finish_partial bs stamps c' s = Some (rem, c1, s1)" "rel c' s c1 s1" "rem \<noteq> None \<longrightarrow> ic_open c1 \<and> \<not> ic_closing c1"
      using finish_partial_rel [OF _ _ _ asm(1,2,4,5)] B(1,4,5) c by metis
    have m: "rel c s c1 s1" "pre c1 s1" using f(2) B(2) rel_pre by blast+
    show ?thesis
    proof (cases rem)
      case None
      then show ?thesis using f(1) m(1) by (simp add: resume_def)
    next
      case (Some xs)
      then obtain c2 s2 where "parse_loop xs stamps c1 s1 = Some (c2, s2)" "rel c1 s1 c2 s2"
        using parse_loop_rel [OF m(2)] f(3) by blast
      then show ?thesis using f(1) Some rel_trans [OF m(1)] by (simp add: resume_def)
    qed
  qed
  consider "ic_partial_len c = 0" | "0 < ic_partial_len c" "ic_partial_len c < 2" | "2 \<le> ic_partial_len c"
    by (cases "ic_partial_len c = 0"; cases "ic_partial_len c < 2") (auto simp: word_gt_0 not_less)
  then show ?thesis
  proof cases
    case 1
    then show ?thesis using parse_loop_rel [OF c] by (simp add: on_data_def)
  next
    case 3
    then have big: "\<not> ic_partial_len c < 2" "0 < ic_partial_len c" "2 \<le> ?n" by (simp_all add: word_nat)
    have "?n \<le> packet_len (pending_bytes c)" "packet_len (pending_bytes c) \<le> kMaxInboundSoupPacket"
      using pending_incomplete [OF C(3)] ok lp big(3) by (auto simp: conn_ok_def too_long_def)
    then show ?thesis using resume [OF C(1) big(3) refl] big by (simp add: on_data_def finish_length_def resume_def [abs_def])
  next
    case 2
    let ?k = "min (2 - ?n) (length bytes)"
    have n1: "?n = 1" using 2 by (simp add: word_nat)
    obtain c2 where c2: "add_partial (take ?k bytes) c = Some c2" "pending_bytes c2 = pending_bytes c @ take ?k bytes"
      "length (ic_partial c2) = kMaxInboundSoupPacket" "unat (ic_partial_len c2) = ?n + ?k" "blank c2 = blank c"
      by (rule add_partial_spec [OF C(1), of "take ?k bytes"]) (use n1 in \<open>auto simp: kMaxInboundSoupPacket_def\<close>)
    note B = blank_rel [OF c2(5)]
    have od: "on_data bytes stamps c s =
        (if ic_partial_len c2 < 2 then Some (c2, s)
         else if too_long (ic_partial c2) then disconnect c2 s
         else finish_partial (drop ?k bytes) stamps c2 s \<bind> resume stamps)"
      using 2 c2(1) by (cases "disconnect c2 s") (simp_all add: on_data_def finish_length_def Let_def resume_def [abs_def])
    show ?thesis
    proof (cases "ic_partial_len c2 < 2")
      case True
      then show ?thesis unfolding od using rel_refl [OF c(1)] B(3) by simp
    next
      case False
      then have two: "2 \<le> unat (ic_partial_len c2)" by (simp add: word_nat)
      show ?thesis
      proof (cases "too_long (ic_partial c2)")
        case True
        obtain c4 s4 where "disconnect c2 s = Some (c4, s4)" "rel c2 s c4 s4" using rel_disconnect [of c2 s] B(1) c(1) by blast
        then show ?thesis unfolding od using False True B(2) by simp
      next
        case short: False
        have "unat (ic_partial_len c2) \<le> packet_len (pending_bytes c2)" "packet_len (pending_bytes c2) \<le> kMaxInboundSoupPacket"
          using c2(4) n1 short packet_len_pending [OF two] by (simp_all add: packet_len_def too_long_def)
        then show ?thesis unfolding od using False short resume [OF c2(3) two c2(5)] by simp
      qed
    qed
  qed
qed

end

end
