(* ===== verification/Inbound_Safety.thy ===== *)
theory Inbound_Safety
  imports Inbound_Handlers
begin

text \<open>
  The inbound thread never gets stuck, and what its connections and sessions look like in every state it reaches:
  a connection that is logged in holds its session alone, client ids stay within the arrays indexed by
  them, and a partial packet stays within its buffer.
\<close>

subsection \<open>Order entry always answers\<close>

definition client_range :: "ClientId \<Rightarrow> bool" where
  "client_range c \<longleftrightarrow> 0 < c \<and> c \<le> MAX_CLIENTS"

definition record_typed :: "OrderRecord \<Rightarrow> bool" where
  "record_typed r \<longleftrightarrow> to_engine_side (or_side r) \<noteq> None \<and> client_range (or_client_id r)"

definition entry_typed :: "OrderEntry \<Rightarrow> bool" where
  "entry_typed ent \<longleftrightarrow> (\<forall>key lo. ent_orders ent key = Some lo \<longrightarrow> record_typed (lo_record lo))"

lemma entry_typed_new: "entry_typed (new_OrderEntry band)"
  by (simp add: entry_typed_def new_OrderEntry_def)

lemma entry_typed_ref [simp]: "entry_typed (set_user_ref_num c n ent) = entry_typed ent"
  by (simp add: entry_typed_def)

lemma entry_typed_add: "entry_typed ent \<Longrightarrow> record_typed (lo_record lo) \<Longrightarrow> entry_typed (add_order_entry key lo ent)"
  by (auto simp: entry_typed_def add_order_entry_def)

lemma enter_typed:
  assumes "entry_typed ent" "client_range c"
  shows "entry_typed (snd (ent_enter c m ent))" "tr_request (fst (ent_enter c m ent)) = Some req \<Longrightarrow> rq_client_id req = c"
    "tr_note (fst (ent_enter c m ent)) = Some n \<Longrightarrow> or_client_id (gn_record n) = c"
proof -
  have "record_typed (enter_record c m)" if "ec_reject_reason (check_enter m (ent_band ent)) = 0"
    using check_enter_accepted(1) [OF that] assms(2) by (simp add: enter_record_def record_typed_def)
  then show "entry_typed (snd (ent_enter c m ent))" using assms(1) by (auto simp: ent_enter_def Let_def intro: entry_typed_add)
  show "rq_client_id req = c" if "tr_request (fst (ent_enter c m ent)) = Some req"
    using that by (auto simp: ent_enter_def Let_def no_translation_def split: if_splits)
  show "or_client_id (gn_record n) = c" if "tr_note (fst (ent_enter c m ent)) = Some n"
    using that by (auto simp: ent_enter_def Let_def no_translation_def enter_record_def split: if_splits)
qed

text \<open>What a translation for client \<open>c\<close> may produce.\<close>

definition typed_result :: "ClientId \<Rightarrow> Translation \<Rightarrow> OrderEntry \<Rightarrow> bool" where
  "typed_result c t ent \<longleftrightarrow> entry_typed ent \<and> (\<forall>req. tr_request t = Some req \<longrightarrow> rq_client_id req = c)
     \<and> (\<forall>n. tr_note t = Some n \<longrightarrow> client_range (or_client_id (gn_record n)))"

lemma nothing_typed: "entry_typed ent \<Longrightarrow> typed_result c no_translation ent"
  by (simp add: typed_result_def no_translation_def)

lemma replace_typed:
  assumes typed: "entry_typed ent" and cl: "client_range c"
  obtains t ent' where "ent_replace c m ent = Some (t, ent')" "typed_result c t ent'"
proof (cases "ent_orders ent (entry_key c (rp_orig_user_ref_num m))")
  case None
  then show thesis using nothing_typed [OF typed] by (intro that [of no_translation ent]) (simp_all add: ent_replace_def)
next
  case (Some lo)
  then have lo: "record_typed (lo_record lo)" using typed by (auto simp: entry_typed_def)
  then obtain side where side: "to_engine_side (or_side (lo_record lo)) = Some side" by (auto simp: record_typed_def)
  obtain t ent' where r: "ent_replace c m ent = Some (t, ent')"
    using Some side by (cases "rp_user_ref_num m \<le> last_user_ref_num c ent";
      cases "rc_valid (check_replace m (or_side (lo_record lo)) (ent_band ent))") (simp_all add: ent_replace_def Let_def)
  have "record_typed (replace_record m (lo_record lo))" "client_range (or_client_id (replace_record m (lo_record lo)))"
    using lo by (simp_all add: replace_record_def record_typed_def)
  then have "typed_result c t ent'"
    using r Some side typed by (auto simp: ent_replace_def Let_def no_translation_def cancel_request_def typed_result_def
        intro!: entry_typed_add split: if_splits)
  then show thesis by (rule that [OF r])
qed

lemma translate_typed:
  assumes typed: "entry_typed ent" and cl: "client_range c"
  obtains t ent' where "translate c msg ent = Some (t, ent')" "typed_result c t ent'"
proof (cases msg)
  case InboundNone
  then show thesis using nothing_typed [OF typed] by (intro that [of no_translation ent]) (simp_all add: translate_def)
next
  case (EnterOrder m)
  then show thesis using enter_typed [OF typed cl, of m] cl
    by (intro that [of "fst (ent_enter c m ent)" "snd (ent_enter c m ent)"]) (simp_all add: translate_def typed_result_def)
next
  case (CancelOrder m)
  show thesis
  proof (cases "ent_orders ent (entry_key c (xo_user_ref_num m))")
    case None
    then show thesis using nothing_typed [OF typed] CancelOrder by (intro that [of no_translation ent]) (simp_all add: translate_def ent_cancel_def)
  next
    case (Some lo)
    then obtain side where "to_engine_side (or_side (lo_record lo)) = Some side" using typed by (auto simp: entry_typed_def record_typed_def)
    then show thesis using typed CancelOrder Some
      by (intro that [of "\<lparr> tr_note = None, tr_request = Some (cancel_request c (lo_order_id lo) (xo_quantity m) side) \<rparr>" ent])
        (simp_all add: translate_def ent_cancel_def cancel_request_def typed_result_def)
  qed
next
  case (ReplaceOrder m)
  obtain t ent' where "ent_replace c m ent = Some (t, ent')" "typed_result c t ent'" by (rule replace_typed [OF typed cl])
  then show thesis using ReplaceOrder by (intro that [of t ent']) (simp_all add: translate_def)
qed

subsection \<open>Invariants\<close>

definition in_ok :: "'c Inbound \<Rightarrow> bool" where
  "in_ok s \<longleftrightarrow> length (in_sessions s) = unat MAX_CLIENTS + 1 \<and> length (in_retained_from s) = unat MAX_CLIENTS + 1
     \<and> 0 < in_next_client_id s \<and> in_next_client_id s \<le> MAX_CLIENTS + 1
     \<and> (\<forall>u c. in_usernames s u = Some c \<longrightarrow> 0 < c \<and> c < in_next_client_id s)
     \<and> entry_typed (in_entry s) \<and> channel_inv (in_notes s) \<and> channel_inv (in_ring s)
     \<and> (\<forall>req\<in>set (channel_sent (in_ring s)). client_range (rq_client_id req))"

definition conn_in :: "'c InboundConnection \<Rightarrow> 'c Inbound \<Rightarrow> bool" where
  "conn_in c s \<longleftrightarrow> (ic_logged_in c \<longrightarrow> ic_open c \<and> client_range (ic_client_id c) \<and> in_sessions s ! unat (ic_client_id c))"

definition holds_session :: "'c InboundConnection \<Rightarrow> nat \<Rightarrow> bool" where
  "holds_session c k \<longleftrightarrow> ic_logged_in c \<and> unat (ic_client_id c) = k"

text \<open>
  What a handler may do to the thread's state for its connection: other sessions stay as they are, its own are
  connected exactly while it holds them, and it takes only one nobody holds.
\<close>

definition moved :: "'c InboundConnection \<Rightarrow> 'c Inbound \<Rightarrow> 'c InboundConnection \<Rightarrow> 'c Inbound \<Rightarrow> bool" where
  "moved c s c1 s1 \<longleftrightarrow> in_ok s1 \<and> conn_in c1 s1 \<and> in_connections s1 = in_connections s \<and> ic_conn c1 = ic_conn c
     \<and> (\<forall>k \<le> unat MAX_CLIENTS. in_sessions s1 ! k = (holds_session c1 k \<or> in_sessions s ! k \<and> \<not> holds_session c k))
     \<and> (\<forall>k. holds_session c1 k \<longrightarrow> holds_session c k \<or> \<not> in_sessions s ! k)"

lemma client_range_unat: "client_range c \<longleftrightarrow> 0 < unat c \<and> unat c \<le> unat MAX_CLIENTS"
  by (simp add: client_range_def word_nat)

lemma moved_refl: "in_ok s \<Longrightarrow> conn_in c s \<Longrightarrow> moved c s c s"
  by (auto simp: moved_def conn_in_def holds_session_def)

lemma holds_session_range: "conn_in c s \<Longrightarrow> holds_session c k \<Longrightarrow> k \<le> unat MAX_CLIENTS \<and> in_sessions s ! k"
  by (auto simp: conn_in_def holds_session_def client_range_unat)

lemma moved_trans:
  assumes "moved c s c1 s1" "moved c1 s1 c2 s2"
  shows "moved c s c2 s2"
proof -
  have r: "holds_session c2 k \<Longrightarrow> k \<le> unat MAX_CLIENTS" for k
    using holds_session_range [of c2 s2] assms(2) by (simp add: moved_def)
  show ?thesis using assms r unfolding moved_def by metis
qed

subsection \<open>Handlers\<close>

lemma push_note_spec:
  assumes "in_ok s"
  obtains chn where "push_note n s = Some (s\<lparr>in_notes := chn\<rparr>)" "in_ok (s\<lparr>in_notes := chn\<rparr>)"
proof -
  have inv: "channel_inv (in_notes s)" using assms by (simp add: in_ok_def)
  obtain chn where "push_spin n (in_notes s) = Some chn" "channel_inv chn"
    by (rule push_spin_spec [OF inv])
  then show thesis using assms that by (simp add: push_note_def in_ok_def)
qed

lemma nth_clear: "k < length xs \<Longrightarrow> xs[n := False] ! k = (xs ! k \<and> k \<noteq> n)"
  by (cases "n = k") simp_all

lemma disconnect_moved:
  assumes ok: "in_ok s" and c: "conn_in c s"
  obtains c1 s1 where "disconnect c s = Some (c1, s1)" "moved c s c1 s1"
proof (cases "ic_open c")
  case False
  then show thesis using that [of c s] moved_refl [OF ok c] by (simp add: disconnect_def)
next
  case True
  let ?n = "unat (ic_client_id c)"
  define s0 where "s0 = (if ic_logged_in c then s\<lparr>in_sessions := (in_sessions s)[?n := False]\<rparr> else s)"
  have s0: "(if ic_logged_in c then set_connected (ic_client_id c) False s else Some s) = Some s0" "in_ok s0"
    using ok c by (auto simp: s0_def set_connected_def in_ok_def conn_in_def client_range_unat)
  let ?note = "\<lparr> sn_kind = NOTE_DISCONNECTED, sn_reject_reason = 0, sn_client_id = (if ic_logged_in c then ic_client_id c else 0),
    sn_conn = Some (ic_conn c), sn_sequence = 0, sn_gateway = None \<rparr>"
  obtain chn where n: "push_note ?note s0 = Some (s0\<lparr>in_notes := chn\<rparr>)" "in_ok (s0\<lparr>in_notes := chn\<rparr>)"
    by (rule push_note_spec [OF s0(2)])
  let ?c = "c\<lparr>ic_open := False, ic_logged_in := False, ic_closing := True, ic_partial_len := 0\<rparr>"
  show thesis
  proof (rule that [of ?c "s0\<lparr>in_notes := chn\<rparr>"])
    show "disconnect c s = Some (?c, s0\<lparr>in_notes := chn\<rparr>)" using True s0(1) n(1) by (simp add: disconnect_def)
    show "moved c s ?c (s0\<lparr>in_notes := chn\<rparr>)"
      using n(2) ok c by (auto simp: moved_def conn_in_def s0_def nth_clear in_ok_def holds_session_def)
  qed
qed

lemma reject_moved:
  assumes ok: "in_ok s" and c: "conn_in c s"
  obtains c1 s1 where "reject_login reason c s = Some (c1, s1)" "moved c s c1 s1"
proof -
  let ?note = "\<lparr> sn_kind = NOTE_LOGIN_REJECTED, sn_reject_reason = reason, sn_client_id = 0,
    sn_conn = Some (ic_conn c), sn_sequence = 0, sn_gateway = None \<rparr>"
  obtain chn where n: "push_note ?note s = Some (s\<lparr>in_notes := chn\<rparr>)" "in_ok (s\<lparr>in_notes := chn\<rparr>)"
    by (rule push_note_spec [OF ok])
  show thesis
    by (rule that [of "c\<lparr>ic_closing := True\<rparr>" "s\<lparr>in_notes := chn\<rparr>"])
      (use n c in \<open>auto simp: reject_login_def moved_def conn_in_def holds_session_def\<close>)
qed

lemma find_client_ok:
  assumes ok: "in_ok s" and f: "find_client u s = Some (client, s1)"
  shows "in_ok s1" "client_range client" "in_sessions s1 = in_sessions s" "in_connections s1 = in_connections s"
proof -
  have nx: "0 < in_next_client_id s" "in_next_client_id s \<le> MAX_CLIENTS + 1" using ok by (simp_all add: in_ok_def)
  have le: "x < in_next_client_id s \<Longrightarrow> x \<le> MAX_CLIENTS" for x
    using nx(2) by (simp add: word_nat MAX_CLIENTS_def)
  have "in_ok s1 \<and> client_range client \<and> in_sessions s1 = in_sessions s \<and> in_connections s1 = in_connections s"
  proof (cases "in_usernames s u")
    case (Some c)
    then show ?thesis using f ok le by (auto simp: find_client_def in_ok_def client_range_def)
  next
    case None
    then have r: "in_next_client_id s \<le> MAX_CLIENTS" "client = in_next_client_id s"
      "s1 = s\<lparr>in_next_client_id := in_next_client_id s + 1, in_usernames := (in_usernames s)(u \<mapsto> in_next_client_id s)\<rparr>"
      using f by (auto simp: find_client_def split: if_splits)
    have u: "unat (in_next_client_id s + 1) = unat (in_next_client_id s) + 1"
      using r(1) by (subst unat_add_bounded) (simp_all add: word_nat MAX_CLIENTS_def)
    have up: "in_next_client_id s + 1 \<le> MAX_CLIENTS + 1" "0 < in_next_client_id s + 1"
      "x < in_next_client_id s \<Longrightarrow> x < in_next_client_id s + 1" "in_next_client_id s < in_next_client_id s + 1" for x
      using r(1) u by (simp_all add: word_less_nat_alt word_le_nat_alt MAX_CLIENTS_def)
    show ?thesis using ok r up by (auto simp: in_ok_def client_range_def)
  qed
  then show "in_ok s1" "client_range client" "in_sessions s1 = in_sessions s" "in_connections s1 = in_connections s" by simp_all
qed

lemma login_moved:
  assumes ok: "in_ok s" and c: "conn_in c s" and op: "ic_open c" "\<not> ic_logged_in c"
  shows "\<exists>c1 s1. login payload c s = Some (c1, s1) \<and> moved c s c1 s1"
proof -
  have reject: ?thesis if "login payload c s = reject_login reason c s1" "in_ok s1" "in_sessions s1 = in_sessions s" "in_connections s1 = in_connections s" for reason s1
  proof -
    note asm = that
    have ci: "conn_in c s1" using op by (simp add: conn_in_def)
    obtain c2 s2 where r: "reject_login reason c s1 = Some (c2, s2)" "moved c s1 c2 s2" by (rule reject_moved [OF asm(2) ci])
    have "moved c s c2 s2" using r(2) asm op by (simp add: moved_def holds_session_def)
    then show ?thesis using asm(1) r(1) by simp
  qed
  show ?thesis
  proof (cases "decode_soup_login_request payload")
    case None
    then show ?thesis using reject [of kNotAuthorized s] ok by (simp add: login_def)
  next
    case (Some req)
    obtain username blank where u: "pack_username (sl_username req) 0 True = (username, blank)" by fastforce
    show ?thesis
    proof (cases "session_requested (sl_requested_session req) \<and> \<not> blank \<and> find_client username s \<noteq> None")
      case False
      then show ?thesis using reject [of kNotAuthorized s] reject [of kSessionNotAvailable s] ok Some u
        by (cases "session_requested (sl_requested_session req)"; cases blank; cases "find_client username s") (auto simp: login_def)
    next
      case True
      then obtain client s1 where fc: "find_client username s = Some (client, s1)" by fastforce
      note F = find_client_ok [OF ok fc]
      have idx: "unat client < length (in_sessions s1)" "unat client < length (in_retained_from s1)"
        using F(1,2) by (simp_all add: in_ok_def client_range_unat)
      let ?seq = "sl_requested_sequence_number req"
      show ?thesis
      proof (cases "in_sessions s1 ! unat client \<or> ?seq \<noteq> 0 \<and> ?seq < in_retained_from s1 ! unat client")
        case busy: True
        then show ?thesis using reject [of kNotAuthorized s1] reject [of kSessionNotAvailable s1] F idx Some u True fc
          by (cases "in_sessions s1 ! unat client") (auto simp: login_def Let_def)
      next
        case free: False
        let ?s2 = "s1\<lparr>in_sessions := (in_sessions s1)[unat client := True]\<rparr>"
        let ?note = "\<lparr> sn_kind = NOTE_LOGIN_ACCEPTED, sn_reject_reason = 0, sn_client_id = client,
          sn_conn = Some (ic_conn c), sn_sequence = ?seq, sn_gateway = None \<rparr>"
        have "in_ok ?s2" using F(1) by (simp add: in_ok_def)
        then obtain chn where n: "push_note ?note ?s2 = Some (?s2\<lparr>in_notes := chn\<rparr>)" "in_ok (?s2\<lparr>in_notes := chn\<rparr>)"
          by (rule push_note_spec)
        let ?c = "c\<lparr>ic_logged_in := True, ic_client_id := client\<rparr>"
        have run: "login payload c s = Some (?c, ?s2\<lparr>in_notes := chn\<rparr>)"
          using Some u True fc idx free n(1) by (auto simp: login_def Let_def set_connected_def)
        have "moved c s ?c (?s2\<lparr>in_notes := chn\<rparr>)"
          using n(2) F(2,3,4) op idx(1) free by (auto simp: moved_def conn_in_def nth_list_update holds_session_def)
        then show ?thesis using run by blast
      qed
    qed
  qed
qed

lemma push_request_moved:
  assumes ok: "in_ok s" and cl: "client_range (rq_client_id req)"
  obtains s1 where "push_request req stamps s = Some s1" "in_ok s1" "in_sessions s1 = in_sessions s" "in_connections s1 = in_connections s"
proof -
  let ?req = "req\<lparr>rq_read_begin_tsc := is_read_begin_tsc stamps, rq_recv_tsc := is_recv_tsc stamps, rq_server_push_tsc := in_tsc_reads s 0\<rparr>"
  have inv: "channel_inv (in_ring s)" using ok by (simp add: in_ok_def)
  obtain chn where ch: "push_spin ?req (in_ring s) = Some chn" "channel_inv chn" "channel_sent chn = channel_sent (in_ring s) @ [?req]"
    by (rule push_spin_spec [OF inv])
  show thesis
  proof (rule that)
    show "push_request req stamps s = Some (s\<lparr>in_tsc_reads := (\<lambda>k. in_tsc_reads s (Suc k)), in_ring := chn\<rparr>)"
      using ch(1) by (simp add: push_request_def Let_def)
  qed (use ok ch cl in \<open>simp_all add: in_ok_def\<close>)
qed

lemma handle_ouch_moved:
  assumes ok: "in_ok s" and cl: "client_range client"
  obtains s1 where "handle_ouch client msg stamps s = Some s1" "in_ok s1" "in_sessions s1 = in_sessions s" "in_connections s1 = in_connections s"
proof (cases "msg = InboundNone")
  case True
  then show thesis using that [of s] ok by (simp add: handle_ouch_def)
next
  case False
  have typed: "entry_typed (in_entry s)" using ok by (simp add: in_ok_def)
  obtain t ent where tt: "translate client msg (in_entry s) = Some (t, ent)" "typed_result client t ent" by (rule translate_typed [OF typed cl])
  then have t: "translate client msg (in_entry s) = Some (t, ent)" "entry_typed ent" "\<forall>req. tr_request t = Some req \<longrightarrow> rq_client_id req = client"
    by (simp_all add: typed_result_def)
  let ?s = "s\<lparr>in_entry := ent\<rparr>"
  have ok1: "in_ok ?s" using ok t(2) by (simp add: in_ok_def)
  obtain s2 where s2: "(case tr_note t of None \<Rightarrow> Some ?s
      | Some note \<Rightarrow> push_note \<lparr> sn_kind = NOTE_GATEWAY, sn_reject_reason = 0, sn_client_id = client,
          sn_conn = None, sn_sequence = 0, sn_gateway = Some note \<rparr> ?s) = Some s2"
    "in_ok s2" "in_sessions s2 = in_sessions s" "in_connections s2 = in_connections s"
  proof (cases "tr_note t")
    case None
    show thesis by (rule that [of ?s]) (use None ok1 in simp_all)
  next
    case (Some n)
    obtain chn where "push_note \<lparr> sn_kind = NOTE_GATEWAY, sn_reject_reason = 0, sn_client_id = client,
        sn_conn = None, sn_sequence = 0, sn_gateway = Some n \<rparr> ?s = Some (?s\<lparr>in_notes := chn\<rparr>)" "in_ok (?s\<lparr>in_notes := chn\<rparr>)"
      by (rule push_note_spec [OF ok1])
    then show thesis using Some by (intro that [of "?s\<lparr>in_notes := chn\<rparr>"]) simp_all
  qed
  show thesis
  proof (cases "tr_request t")
    case None
    show thesis by (rule that [of s2]) (use s2 t(1) None False in \<open>simp_all add: handle_ouch_def\<close>)
  next
    case (Some req)
    have cr: "client_range (rq_client_id req)" using t(3) Some cl by simp
    obtain s3 where s3: "push_request req stamps s2 = Some s3" "in_ok s3" "in_sessions s3 = in_sessions s2" "in_connections s3 = in_connections s2"
      by (rule push_request_moved [OF s2(2) cr])
    show thesis by (rule that [of s3]) (use s2 s3 t(1) Some False in \<open>simp_all add: handle_ouch_def\<close>)
  qed
qed

lemma handle_moved:
  assumes ok: "in_ok s" and c: "conn_in c s" and op: "ic_open c"
  shows "\<exists>going c1 s1. handle_soup_packet packet stamps c s = Some (going, c1, s1) \<and> moved c s c1 s1"
proof -
  consider "sp_type packet = LOGIN_REQUEST" "\<not> ic_logged_in c"
    | "sp_type packet = UNSEQUENCED_DATA" "ic_logged_in c" | "sp_type packet = LOGOUT_REQUEST"
    | "sp_type packet \<noteq> LOGOUT_REQUEST" "sp_type packet = LOGIN_REQUEST \<longrightarrow> ic_logged_in c" "sp_type packet = UNSEQUENCED_DATA \<longrightarrow> \<not> ic_logged_in c"
    by blast
  then show ?thesis
  proof cases
    case 1
    then show ?thesis using login_moved [OF ok c op, of "sp_payload packet"] by (auto simp: handle_soup_packet_def)
  next
    case 2
    have cr: "client_range (ic_client_id c)" using c 2(2) by (simp add: conn_in_def)
    obtain s1 where s1: "handle_ouch (ic_client_id c) (decode_inbound_ouch (sp_payload packet)) stamps s = Some s1" "in_ok s1"
      "in_sessions s1 = in_sessions s" "in_connections s1 = in_connections s" by (rule handle_ouch_moved [OF ok cr])
    then have "moved c s c s1" using c holds_session_range [OF c] by (auto simp: moved_def conn_in_def)
    then show ?thesis using 2 s1(1) by (simp add: handle_soup_packet_def soup_type_defs)
  next
    case 3
    obtain c1 s1 where "disconnect c s = Some (c1, s1)" "moved c s c1 s1" by (rule disconnect_moved [OF ok c])
    then show ?thesis using 3 by (simp add: handle_soup_packet_def soup_type_defs)
  next
    case 4
    then show ?thesis using moved_refl [OF ok c] by (auto simp: handle_soup_packet_def)
  qed
qed

lemma blank_moved:
  assumes "blank c1 = blank c"
  shows "conn_in c1 s = conn_in c s" "moved c1 s c2 s2 = moved c s c2 s2" "moved c2 s2 c1 s = moved c2 s2 c s"
  using assms by (cases c; cases c1; simp add: blank_def conn_in_def moved_def holds_session_def)+

lemma moved_pre: "moved c s c1 s1 \<Longrightarrow> in_ok s1 \<and> conn_in c1 s1"
  by (simp add: moved_def)

interpretation mv: handler_rel "\<lambda>c s. in_ok s \<and> conn_in c s" moved
proof (unfold_locales, goal_cases)
  case (1 c s)
  then show ?case using moved_refl by blast
next
  case (2 c s c1 s1 c2 s2)
  then show ?case by (rule moved_trans)
next
  case (3 c s c1 s1)
  then show ?case by (rule moved_pre)
next
  case (4 c1 c s)
  then show ?case using blank_moved(1) by blast
next
  case (5 c1 c s c2 s2)
  then show ?case by (rule blank_moved(2))
next
  case (6 c1 c c2 s2 s)
  then show ?case by (rule blank_moved(3))
next
  case (7 c s)
  then show ?case using disconnect_moved [of s c] by metis
next
  case (8 c s packet stamps)
  then show ?case using handle_moved [of s c] by blast
qed

subsection \<open>The thread's states\<close>

text \<open>Every session marked connected is held by exactly one connection.\<close>

definition sessions_held :: "'c Inbound \<Rightarrow> bool" where
  "sessions_held s \<longleftrightarrow> (\<forall>k \<le> unat MAX_CLIENTS. in_sessions s ! k \<longrightarrow> (\<exists>i < length (in_connections s). holds_session (in_connections s ! i) k))"

definition in_inv :: "'c Inbound \<Rightarrow> bool" where
  "in_inv s \<longleftrightarrow> in_ok s \<and> length (in_connections s) = kMaxConnections
     \<and> (\<forall>c\<in>set (in_connections s). conn_ok c \<and> conn_in c s)
     \<and> (\<forall>i j k. i < kMaxConnections \<longrightarrow> j < kMaxConnections \<longrightarrow> holds_session (in_connections s ! i) k \<longrightarrow>
          holds_session (in_connections s ! j) k \<longrightarrow> i = j)"

lemma in_inv_nth:
  assumes "in_inv s" "i < kMaxConnections"
  shows "in_ok s" "conn_ok (in_connections s ! i)" "conn_in (in_connections s ! i) s" "length (in_connections s) = kMaxConnections"
  using assms by (simp_all add: in_inv_def)

lemma put_inv:
  assumes inv: "in_inv s" and i: "i < kMaxConnections" and m: "moved (in_connections s ! i) s c1 s1" and ok: "conn_ok c1"
  shows "in_inv (put_connection i (c1, s1))"
proof -
  let ?cs = "in_connections s" let ?s = "put_connection i (c1, s1)"
  have len: "length ?cs = kMaxConnections" "in_connections s1 = ?cs" using inv m by (simp_all add: in_inv_def moved_def)
  have nth: "in_connections ?s ! j = (if j = i then c1 else ?cs ! j)" if "j < kMaxConnections" for j
    using len that by (simp add: put_connection_def nth_list_update)
  have uniq: "holds_session (?cs ! j) k \<Longrightarrow> holds_session (?cs ! i) k \<Longrightarrow> j = i" if "j < kMaxConnections" for j k
    using inv that i by (simp add: in_inv_def)
  have own: "k \<le> unat MAX_CLIENTS \<and> in_sessions s ! k" if "j < kMaxConnections" "holds_session (?cs ! j) k" for j k
    using holds_session_range [OF in_inv_nth(3) [OF inv that(1)] that(2)] .
  have stay: "conn_in (?cs ! j) s1" if j: "j < kMaxConnections" "j \<noteq> i" for j
  proof -
    have "conn_in (?cs ! j) s" by (rule in_inv_nth(3) [OF inv j(1)])
    moreover have "in_sessions s1 ! k" if "holds_session (?cs ! j) k" for k
      using own [OF j(1) that] uniq [OF j(1) that] j(2) m unfolding moved_def by blast
    ultimately show ?thesis by (simp add: conn_in_def holds_session_def)
  qed
  have "conn_in (in_connections ?s ! j) ?s" "conn_ok (in_connections ?s ! j)" if "j < kMaxConnections" for j
    using nth [OF that] stay [OF that] m ok in_inv_nth(2) [OF inv that] by (auto simp: put_connection_def conn_in_def moved_def)
  moreover have "length (in_connections ?s) = kMaxConnections" "in_ok ?s"
    using len m by (simp_all add: put_connection_def in_ok_def moved_def)
  moreover have "j = j'" if "j < kMaxConnections" "j' < kMaxConnections" "holds_session (in_connections ?s ! j) k" "holds_session (in_connections ?s ! j') k" for j j' k
  proof -
    have c1: "\<not> holds_session c1 k" if "a < kMaxConnections" "a \<noteq> i" "holds_session (?cs ! a) k" for a
      using own [OF that(1,3)] uniq [OF that(1,3)] that(2) m unfolding moved_def by blast
    have "j = j'" if "j \<noteq> i" "j' \<noteq> i"
      using inv \<open>j < kMaxConnections\<close> \<open>j' < kMaxConnections\<close> \<open>holds_session (in_connections ?s ! j) k\<close>
        \<open>holds_session (in_connections ?s ! j') k\<close> that nth by (simp add: in_inv_def)
    then show ?thesis using that nth c1 by (cases "j = i"; cases "j' = i") auto
  qed
  ultimately show ?thesis unfolding in_inv_def by (metis in_set_conv_nth)
qed

lemma put_held:
  assumes held: "sessions_held s" and len: "length (in_connections s) = kMaxConnections" and i: "i < kMaxConnections"
    and m: "moved (in_connections s ! i) s c1 s1"
  shows "sessions_held (put_connection i (c1, s1))"
proof -
  let ?cs = "in_connections s" let ?s = "put_connection i (c1, s1)"
  have cs: "in_connections s1 = ?cs" using m by (simp add: moved_def)
  have nth: "in_connections ?s ! j = (if j = i then c1 else ?cs ! j)" if "j < kMaxConnections" for j
    using len cs that by (simp add: put_connection_def nth_list_update)
  have "\<exists>j < kMaxConnections. holds_session (in_connections ?s ! j) k" if k: "k \<le> unat MAX_CLIENTS" "in_sessions s1 ! k" for k
  proof (cases "holds_session c1 k")
    case True
    then show ?thesis using nth [OF i] i by auto
  next
    case False
    then have "in_sessions s ! k" "\<not> holds_session (?cs ! i) k" using m k by (auto simp: moved_def)
    then obtain j where "j < kMaxConnections" "holds_session (?cs ! j) k" "j \<noteq> i" using held k(1) len by (auto simp: sessions_held_def)
    then show ?thesis using nth by auto
  qed
  then show ?thesis using len cs by (simp add: sessions_held_def put_connection_def)
qed

lemma parse_nothing [simp]: "spr_status (parse_soup_packet []) = INCOMPLETE"
  by (simp add: parse_soup_packet_def no_packet_def)

lemma disconnect_keeps_ok: "disconnect c s = Some (c1, s1) \<Longrightarrow> conn_ok c \<Longrightarrow> conn_ok c1"
  by (auto simp: disconnect_def conn_ok_def pending_bytes_def bind_eq_Some_conv split: if_splits)

lemma new_conn_ok [simp]: "conn_ok (new_InboundConnection conn)"
  by (simp add: conn_ok_def new_InboundConnection_def pending_bytes_def)

lemma put_disconnect:
  assumes inv: "in_inv s" and i: "i < kMaxConnections"
  shows "\<exists>s1. map_option (put_connection i) (disconnect (in_connections s ! i) s) = Some s1 \<and> in_inv s1 \<and> (sessions_held s \<longrightarrow> sessions_held s1)"
proof -
  note I = in_inv_nth [OF inv i]
  obtain c1 s1 where d: "disconnect (in_connections s ! i) s = Some (c1, s1)" "moved (in_connections s ! i) s c1 s1"
    by (rule disconnect_moved [OF I(1,3)])
  show ?thesis using d put_inv [OF inv i d(2) disconnect_keeps_ok [OF d(1) I(2)]] put_held [OF _ I(4) i d(2)] by simp
qed

text \<open>The TCP stack reports a connection in a slot only once the slot's previous connection is over.\<close>

definition slot_free :: "('c \<Rightarrow> nat) \<Rightarrow> 'c TcpEvent \<Rightarrow> 'c Inbound \<Rightarrow> bool" where
  "slot_free slot event s \<longleftrightarrow> (case event of TcpAccepted conn \<Rightarrow> \<not> ic_open (in_connections s ! slot conn) | _ \<Rightarrow> True)"

lemma accept_inv:
  assumes inv: "in_inv s" and i: "i < kMaxConnections" and c: "conn_ok c" "\<not> ic_logged_in c"
  shows "in_inv (put_connection i (c, s))" "sessions_held s \<Longrightarrow> \<not> ic_open (in_connections s ! i) \<Longrightarrow> sessions_held (put_connection i (c, s))"
proof -
  let ?cs = "in_connections s" let ?s = "put_connection i (c, s)"
  have len: "length ?cs = kMaxConnections" using inv by (simp add: in_inv_def)
  have nth: "in_connections ?s ! j = (if j = i then c else ?cs ! j)" if "j < kMaxConnections" for j
    using len that by (simp add: put_connection_def nth_list_update)
  have no: "\<not> holds_session c k" for k using c(2) by (simp add: holds_session_def)
  have same: "in_sessions ?s = in_sessions s" "length (in_connections ?s) = kMaxConnections" "in_ok ?s = in_ok s"
    using len by (simp_all add: put_connection_def in_ok_def)
  have "conn_in (in_connections ?s ! j) ?s" "conn_ok (in_connections ?s ! j)" if "j < kMaxConnections" for j
    using nth [OF that] c in_inv_nth(2,3) [OF inv that] same by (auto simp: conn_in_def)
  moreover have "j = j'" if "j < kMaxConnections" "j' < kMaxConnections" "holds_session (in_connections ?s ! j) k" "holds_session (in_connections ?s ! j') k" for j j' k
    using that nth no inv by (auto simp: in_inv_def split: if_splits)
  ultimately show "in_inv ?s" using same in_inv_nth(1) [OF inv i] unfolding in_inv_def by (metis in_set_conv_nth)
  show "sessions_held ?s" if held: "sessions_held s" and free: "\<not> ic_open (?cs ! i)"
  proof -
    have "\<not> holds_session (?cs ! i) k" for k using in_inv_nth(3) [OF inv i] free by (auto simp: conn_in_def holds_session_def)
    then show ?thesis using held nth same len unfolding sessions_held_def by metis
  qed
qed

lemma on_tcp_event_inv:
  assumes inv: "in_inv s" and i: "slot (event_conn event) < kMaxConnections"
  shows "\<exists>s1. on_tcp_event slot event stamps s = Some s1 \<and> in_inv s1 \<and> (sessions_held s \<longrightarrow> slot_free slot event s \<longrightarrow> sessions_held s1)"
proof -
  note I = in_inv_nth [OF inv i]
  let ?i = "slot (event_conn event)" let ?c = "in_connections s ! ?i"
  have stay: "\<exists>s1. Some s = Some s1 \<and> in_inv s1 \<and> (sessions_held s \<longrightarrow> slot_free slot event s \<longrightarrow> sessions_held s1)" using inv by simp
  have over: "\<exists>s1. (if ic_conn ?c \<noteq> event_conn event then Some s else map_option (put_connection ?i) (disconnect ?c s)) = Some s1
      \<and> in_inv s1 \<and> (sessions_held s \<longrightarrow> slot_free slot event s \<longrightarrow> sessions_held s1)"
    using stay put_disconnect [OF inv i] by (cases "ic_conn ?c = event_conn event") auto
  have shape: "(if ic_conn ?c \<noteq> event_conn event then Some s else map_option (put_connection ?i) (disconnect ?c s)) = on_tcp_event slot event stamps s"
    if "event = TcpPeerClosed conn \<or> event = TcpClosed conn \<or> event = TcpReset conn" for conn
    using that i I(4) by (auto simp: on_tcp_event_def Let_def)
  show ?thesis
  proof (cases event)
    case (TcpAccepted conn)
    let ?new = "(new_InboundConnection conn)\<lparr>ic_open := True, ic_opened_tsc := is_recv_tsc stamps, ic_last_recv_tsc := is_recv_tsc stamps\<rparr>"
    have "conn_ok ?new" "\<not> ic_logged_in ?new" using new_conn_ok [of conn] by (simp_all add: conn_ok_def pending_bytes_def new_InboundConnection_def)
    then show ?thesis using accept_inv [OF inv i] i I(4) TcpAccepted by (simp add: on_tcp_event_def slot_free_def)
  next
    case (TcpData conn bytes)
    let ?d = "?c\<lparr>ic_last_recv_tsc := is_recv_tsc stamps\<rparr>"
    have start: "on_tcp_event slot event stamps s = (if ic_conn ?c \<noteq> conn \<or> \<not> ic_open ?c \<or> ic_closing ?c then Some s
        else map_option (put_connection ?i) (on_data bytes stamps ?d s))"
      using TcpData i I(4) by (simp add: on_tcp_event_def Let_def)
    show ?thesis
    proof (cases "ic_conn ?c \<noteq> conn \<or> \<not> ic_open ?c \<or> ic_closing ?c")
      case True
      show ?thesis unfolding start if_P [OF True] by (rule stay)
    next
      case False
      have d: "conn_in ?d s" "ic_open ?d" "conn_ok ?d" using I False by (simp_all add: conn_in_def conn_ok_def pending_bytes_def)
      obtain c1 s1 where r: "on_data bytes stamps ?d s = Some (c1, s1)" "moved ?d s c1 s1" 
        using mv.on_data_rel [OF conjI, of s ?d bytes stamps] I(1) d False by auto
      have m: "moved ?c s c1 s1" using r(2) by (simp add: moved_def holds_session_def)
      show ?thesis unfolding start if_not_P [OF False]
        using r(1) put_inv [OF inv i m on_data_ok [OF r(1) d(3,2)]] put_held [OF _ I(4) i m] by simp
    qed
  qed (use over shape in simp_all)
qed

lemma check_timeout_inv:
  assumes "in_inv s" "i < kMaxConnections"
  shows "\<exists>s1. check_timeout clock now i s = Some s1 \<and> in_inv s1 \<and> (sessions_held s \<longrightarrow> sessions_held s1)"
  using put_disconnect [OF assms] assms(1)
  by (cases "ic_open (in_connections s ! i) \<and> expired clock now (in_connections s ! i)") (auto simp: check_timeout_def Let_def)

lemma check_all_inv:
  assumes "in_inv s" "\<forall>i\<in>set is. i < kMaxConnections"
  shows "\<exists>s1. run_all (check_timeout clock now) is s = Some s1 \<and> in_inv s1 \<and> (sessions_held s \<longrightarrow> sessions_held s1)"
  using assms
proof (induction "is" arbitrary: s)
  case (Cons i js)
  obtain s1 where s1: "check_timeout clock now i s = Some s1" "in_inv s1" "sessions_held s \<longrightarrow> sessions_held s1"
    using check_timeout_inv [OF Cons.prems(1), of i clock now] Cons.prems(2) by auto
  obtain s2 where "run_all (check_timeout clock now) js s1 = Some s2" "in_inv s2" "sessions_held s1 \<longrightarrow> sessions_held s2"
    using Cons.IH [OF s1(2)] Cons.prems(2) by auto
  then show ?case using s1 by simp
qed simp

lemma check_timeouts_inv:
  assumes "in_inv s"
  shows "\<exists>s1. check_timeouts clock now s = Some s1 \<and> in_inv s1 \<and> (sessions_held s \<longrightarrow> sessions_held s1)"
  unfolding check_timeouts_def by (rule check_all_inv [OF assms]) (use assms in \<open>auto simp: in_inv_def\<close>)

subsection \<open>Reachable states\<close>

text \<open>
  The thread's states, from any pair of empty channels whose consumers keep reading: a TCP event, a timeout scan, or the outbound
  thread publishing how far back each session's log still reaches.
\<close>

inductive in_reachable :: "('c \<Rightarrow> nat) \<Rightarrow> 'c Inbound \<Rightarrow> bool" for slot where
  start: "channel_inv chn \<Longrightarrow> channel_inv reqs \<Longrightarrow> channel_sent reqs = [] \<Longrightarrow> in_reachable slot (new_Inbound no_conn chn reqs reads)"
| event: "in_reachable slot s \<Longrightarrow> slot (event_conn event) < kMaxConnections \<Longrightarrow> slot_free slot event s \<Longrightarrow>
    on_tcp_event slot event stamps s = Some s1 \<Longrightarrow> in_reachable slot s1"
| scan: "in_reachable slot s \<Longrightarrow> check_timeouts clock now s = Some s1 \<Longrightarrow> in_reachable slot s1"
| retain: "in_reachable slot s \<Longrightarrow> length retained = unat MAX_CLIENTS + 1 \<Longrightarrow> in_reachable slot (s\<lparr>in_retained_from := retained\<rparr>)"

lemma new_Inbound_inv:
  assumes "channel_inv chn" "channel_inv reqs" "channel_sent reqs = []"
  shows "in_inv (new_Inbound no_conn chn reqs reads)" "sessions_held (new_Inbound no_conn chn reqs reads)"
proof -
  have no: "\<not> holds_session (new_InboundConnection no_conn) k" for k by (simp add: holds_session_def new_InboundConnection_def)
  have ci: "conn_in (new_InboundConnection no_conn) s" for s by (simp add: conn_in_def new_InboundConnection_def)
  have ok: "in_ok (new_Inbound no_conn chn reqs reads)" using assms by (simp add: in_ok_def new_Inbound_def entry_typed_new MAX_CLIENTS_def)
  show "in_inv (new_Inbound no_conn chn reqs reads)" using ok ci no by (auto simp: in_inv_def new_Inbound_def)
  show "sessions_held (new_Inbound no_conn chn reqs reads)" 
    by (simp add: sessions_held_def new_Inbound_def del: replicate.simps)
qed

lemma in_reachable_inv: "in_reachable slot s \<Longrightarrow> in_inv s \<and> sessions_held s"
proof (induction rule: in_reachable.induct)
  case (start chn reqs no_conn reads)
  show ?case using new_Inbound_inv [OF start, of no_conn reads] by simp
next
  case (event s event stamps s1)
  then show ?case using on_tcp_event_inv [of s slot event stamps] by fastforce
next
  case (scan s clock now s1)
  then show ?case using check_timeouts_inv [of s clock now] by fastforce
next
  case (retain s retained)
  then show ?case by (auto simp: in_inv_def in_ok_def sessions_held_def conn_in_def)
qed

end
