(* ===== verification/Server_Notes.thy ===== *)
theory Server_Notes
  imports Inbound_Safety
begin

text \<open>
  The order of the notes between the two threads of the server. For every slot of the TCP stack the notes name one connection after the
  other: at most one login note, then the note that it is over; and a session is never given to a second
  connection before the note that ends the first. The outbound thread relies on this order; here the inbound thread is
  shown to keep it, for every input.
\<close>

subsection \<open>The order of notes\<close>

datatype 'c SlotUse = Idle | LoggedIn 'c ClientId | TurnedAway 'c

record 'c NoteState =
  ns_slots :: "nat \<Rightarrow> 'c SlotUse"
  ns_used :: "'c set"

definition ns_start :: "'c NoteState" where
  "ns_start = \<lparr> ns_slots = (\<lambda>_. Idle), ns_used = {} \<rparr>"

definition use_slot :: "nat \<Rightarrow> 'c SlotUse \<Rightarrow> 'c \<Rightarrow> 'c NoteState \<Rightarrow> 'c NoteState" where
  "use_slot i u conn ns = ns\<lparr>ns_slots := (ns_slots ns)(i := u), ns_used := insert conn (ns_used ns)\<rparr>"

definition may_login :: "('c \<Rightarrow> nat) \<Rightarrow> 'c \<Rightarrow> 'c NoteState \<Rightarrow> bool" where
  "may_login slot conn ns \<longleftrightarrow> ns_slots ns (slot conn) = Idle \<and> conn \<notin> ns_used ns"

definition may_end :: "('c \<Rightarrow> nat) \<Rightarrow> 'c \<Rightarrow> 'c NoteState \<Rightarrow> bool" where
  "may_end slot conn ns \<longleftrightarrow>
     (case ns_slots ns (slot conn) of Idle \<Rightarrow> conn \<notin> ns_used ns | LoggedIn d k \<Rightarrow> d = conn | TurnedAway d \<Rightarrow> d = conn)"

definition note_step :: "('c \<Rightarrow> nat) \<Rightarrow> 'c ServerNote \<Rightarrow> 'c NoteState \<Rightarrow> 'c NoteState option" where
  "note_step slot note ns =
     (case sn_kind note of
        NOTE_GATEWAY \<Rightarrow> if pred_option (\<lambda>g. client_range (or_client_id (gn_record g))) (sn_gateway note) \<and> sn_gateway note \<noteq> None then Some ns else None
      | NOTE_LOGIN_ACCEPTED \<Rightarrow> do {
          conn \<leftarrow> sn_conn note;
          if may_login slot conn ns \<and> client_range (sn_client_id note) \<and> (\<forall>i d. ns_slots ns i \<noteq> LoggedIn d (sn_client_id note))
          then Some (use_slot (slot conn) (LoggedIn conn (sn_client_id note)) conn ns) else None }
      | NOTE_LOGIN_REJECTED \<Rightarrow> do {
          conn \<leftarrow> sn_conn note;
          if may_login slot conn ns then Some (use_slot (slot conn) (TurnedAway conn) conn ns) else None }
      | NOTE_DISCONNECTED \<Rightarrow> do {
          conn \<leftarrow> sn_conn note;
          if may_end slot conn ns then Some (use_slot (slot conn) Idle conn ns) else None })"

definition notes_state :: "('c \<Rightarrow> nat) \<Rightarrow> 'c ServerNote list \<Rightarrow> 'c NoteState option" where
  "notes_state slot ns = run_all (note_step slot) ns ns_start"

lemma notes_state_snoc: "notes_state slot (ns @ [n]) = notes_state slot ns \<bind> note_step slot n"
  by (cases "run_all (note_step slot) ns ns_start"; cases "note_step slot n (the (run_all (note_step slot) ns ns_start))")
    (simp_all add: notes_state_def run_all_append)

definition ns_wf :: "'c NoteState \<Rightarrow> bool" where
  "ns_wf ns \<longleftrightarrow> (\<forall>i j d e k. ns_slots ns i = LoggedIn d k \<longrightarrow> ns_slots ns j = LoggedIn e k \<longrightarrow> i = j)"

lemma note_step_wf: "note_step slot n ns = Some ns1 \<Longrightarrow> ns_wf ns \<Longrightarrow> ns_wf ns1"
  by (auto simp: note_step_def ns_wf_def use_slot_def bind_eq_Some_conv split: ServerNoteKind.splits if_splits)

lemma notes_state_wf: "notes_state slot ns = Some st \<Longrightarrow> ns_wf st"
proof (induction ns arbitrary: st rule: rev_induct)
  case Nil
  then show ?case by (auto simp: notes_state_def ns_wf_def ns_start_def)
next
  case (snoc n ns)
  then show ?case by (auto simp: notes_state_snoc bind_eq_Some_conv intro: note_step_wf)
qed

subsection \<open>What the handlers tell\<close>

abbreviation told :: "'c Inbound \<Rightarrow> 'c ServerNote list" where
  "told s \<equiv> channel_sent (in_notes s)"

lemma push_note_told: "push_note n s = Some s1 \<Longrightarrow> in_ok s \<Longrightarrow> told s1 = told s @ [n]"
proof -
  assume p: "push_note n s = Some s1" and "in_ok s"
  then have inv: "channel_inv (in_notes s)" by (simp add: in_ok_def)
  obtain chn where "push_spin n (in_notes s) = Some chn" "channel_sent chn = channel_sent (in_notes s) @ [n]"
    by (rule push_spin_spec [OF inv])
  then show ?thesis using p by (auto simp: push_note_def)
qed

definition end_note :: "'c InboundConnection \<Rightarrow> 'c ServerNote" where
  "end_note c = \<lparr> sn_kind = NOTE_DISCONNECTED, sn_reject_reason = 0, sn_client_id = (if ic_logged_in c then ic_client_id c else 0),
     sn_conn = Some (ic_conn c), sn_sequence = 0, sn_gateway = None \<rparr>"

definition ended :: "'c InboundConnection \<Rightarrow> 'c InboundConnection" where
  "ended c = c\<lparr>ic_open := False, ic_logged_in := False, ic_closing := True, ic_partial_len := 0\<rparr>"

lemma disconnect_told:
  assumes "disconnect c s = Some (c1, s1)" "in_ok s" "ic_open c"
  shows "told s1 = told s @ [end_note c]" "c1 = ended c"
proof -
  obtain s0 where s0: "(if ic_logged_in c then set_connected (ic_client_id c) False s else Some s) = Some s0"
    "push_note (end_note c) s0 = Some s1" "c1 = ended c"
    using assms(1,3) by (auto simp: disconnect_def bind_eq_Some_conv end_note_def ended_def)
  have "in_ok s0" "in_notes s0 = in_notes s" using s0(1) assms(2) by (auto simp: set_connected_def in_ok_def split: if_splits)
  then show "told s1 = told s @ [end_note c]" "c1 = ended c" using push_note_told [OF s0(2)] s0(3) by simp_all
qed

text \<open>The five things the handling of a packet can do to the connection and the notes.\<close>

definition login_note :: "'c \<Rightarrow> ClientId \<Rightarrow> u64 \<Rightarrow> 'c ServerNote" where
  "login_note conn client sequence = \<lparr> sn_kind = NOTE_LOGIN_ACCEPTED, sn_reject_reason = 0, sn_client_id = client,
     sn_conn = Some conn, sn_sequence = sequence, sn_gateway = None \<rparr>"

definition reject_note :: "'c \<Rightarrow> byte \<Rightarrow> 'c ServerNote" where
  "reject_note conn reason = \<lparr> sn_kind = NOTE_LOGIN_REJECTED, sn_reject_reason = reason, sn_client_id = 0,
     sn_conn = Some conn, sn_sequence = 0, sn_gateway = None \<rparr>"

definition gateway_note :: "ClientId \<Rightarrow> GatewayNote \<Rightarrow> 'c ServerNote" where
  "gateway_note client g = \<lparr> sn_kind = NOTE_GATEWAY, sn_reject_reason = 0, sn_client_id = client,
     sn_conn = None, sn_sequence = 0, sn_gateway = Some g \<rparr>"

inductive told_one :: "'c InboundConnection \<Rightarrow> 'c ServerNote list \<Rightarrow> 'c InboundConnection \<Rightarrow> 'c ServerNote list \<Rightarrow> bool" where
  quiet: "told_one c ns c ns"
| gateway: "client_range (or_client_id (gn_record g)) \<Longrightarrow> told_one c ns c (ns @ [gateway_note k g])"
| over: "told_one c ns (ended c) (ns @ [end_note c])"
| rejected: "\<not> ic_logged_in c \<Longrightarrow> told_one c ns (c\<lparr>ic_closing := True\<rparr>) (ns @ [reject_note (ic_conn c) reason])"
| accepted: "\<not> ic_logged_in c \<Longrightarrow> told_one c ns (c\<lparr>ic_logged_in := True, ic_client_id := k\<rparr>) (ns @ [login_note (ic_conn c) k sequence])"

lemma reject_told:
  assumes "reject_login reason c s = Some (c1, s1)" "in_ok s"
  shows "c1 = c\<lparr>ic_closing := True\<rparr>" "told s1 = told s @ [reject_note (ic_conn c) reason]"
  using assms push_note_told [of "reject_note (ic_conn c) reason" s s1] by (auto simp: reject_login_def reject_note_def bind_eq_Some_conv)

lemma login_told:
  assumes l: "login payload c s = Some (c1, s1)" and ok: "in_ok s" and "\<not> ic_logged_in c"
  shows "told_one c (told s) c1 (told s1)"
proof -
  have rej: "told_one c (told s) c1 (told s1)" if "reject_login reason c s0 = Some (c1, s1)" "in_ok s0" "told s0 = told s" for reason s0
    using reject_told [OF that(1,2)] that(3) told_one.rejected [OF assms(3)] by metis
  have fc: "in_ok s0 \<and> told s0 = told s" if "find_client u s = Some (client, s0)" for u client s0
    using find_client_ok(1) [OF ok that] that by (auto simp: find_client_def split: option.splits if_splits)
  show ?thesis
  proof (cases "\<exists>reason s0. in_ok s0 \<and> told s0 = told s \<and> reject_login reason c s0 = Some (c1, s1)")
    case True
    then show ?thesis using rej by blast
  next
    case False
    then have no: "reject_login reason c s \<noteq> Some (c1, s1)" for reason using ok by blast
    obtain req u b client s0 where d: "decode_soup_login_request payload = Some req" "pack_username (sl_username req) 0 True = (u, b)"
      "find_client u s = Some (client, s0)"
      using l no ok by (cases "decode_soup_login_request payload") (auto simp: login_def split: if_splits prod.splits option.splits)
    note F = fc [OF d(3)]
    obtain s2 where s2: "set_connected client True s0 = Some s2" "push_note (login_note (ic_conn c) client (sl_requested_sequence_number req)) s2 = Some s1"
      "c1 = c\<lparr>ic_logged_in := True, ic_client_id := client\<rparr>"
      using l d False F ok by (auto simp: login_def Let_def login_note_def bind_eq_Some_conv split: if_splits)
    have "in_ok s2" "told s2 = told s" using s2(1) F by (auto simp: set_connected_def in_ok_def split: if_splits)
    then show ?thesis using push_note_told [OF s2(2)] s2(3) told_one.accepted [OF assms(3)] by metis
  qed
qed

lemma handle_ouch_told:
  assumes h: "handle_ouch client msg stamps s = Some s1" and ok: "in_ok s" and cl: "client_range client"
  shows "told s1 = told s \<or> (\<exists>g. client_range (or_client_id (gn_record g)) \<and> told s1 = told s @ [gateway_note client g])"
proof (cases "msg = InboundNone")
  case True
  then show ?thesis using h by (simp add: handle_ouch_def)
next
  case False
  then obtain t ent s2 where t: "translate client msg (in_entry s) = Some (t, ent)"
    and s2: "(case tr_note t of None \<Rightarrow> Some (s\<lparr>in_entry := ent\<rparr>) | Some n \<Rightarrow> push_note (gateway_note client n) (s\<lparr>in_entry := ent\<rparr>)) = Some s2"
    and s1: "(case tr_request t of None \<Rightarrow> Some s2 | Some req \<Rightarrow> push_request req stamps s2) = Some s1"
    using h unfolding gateway_note_def by (auto simp: handle_ouch_def bind_eq_Some_conv)
  have typed: "entry_typed (in_entry s)" using ok by (simp add: in_ok_def)
  obtain t' ent' where "translate client msg (in_entry s) = Some (t', ent')" "typed_result client t' ent'" by (rule translate_typed [OF typed cl])
  then have res: "typed_result client t ent" using t by simp
  then have ok1: "in_ok (s\<lparr>in_entry := ent\<rparr>)" using ok by (simp add: in_ok_def typed_result_def)
  have same: "told s1 = told s2" using s1 by (auto simp: push_request_def Let_def split: option.splits)
  show ?thesis
  proof (cases "tr_note t")
    case None
    then show ?thesis using s2 same by auto
  next
    case (Some g)
    have "client_range (or_client_id (gn_record g))" using res Some by (simp add: typed_result_def)
    then show ?thesis using Some s2 same push_note_told [OF _ ok1] by fastforce
  qed
qed

lemma handle_told:
  assumes h: "handle_soup_packet packet stamps c s = Some (going, c1, s1)" and ok: "in_ok s" and c: "conn_in c s" "ic_open c"
  shows "told_one c (told s) c1 (told s1)"
proof -
  consider "sp_type packet = LOGIN_REQUEST" "\<not> ic_logged_in c" | "sp_type packet = UNSEQUENCED_DATA" "ic_logged_in c" | "sp_type packet = LOGOUT_REQUEST"
    | "sp_type packet \<noteq> LOGOUT_REQUEST" "sp_type packet = LOGIN_REQUEST \<longrightarrow> ic_logged_in c" "sp_type packet = UNSEQUENCED_DATA \<longrightarrow> \<not> ic_logged_in c"
    by blast
  then show ?thesis
  proof cases
    case 1
    then have "login (sp_payload packet) c s = Some (c1, s1)" using h by (auto simp: handle_soup_packet_def bind_eq_Some_conv)
    then show ?thesis by (rule login_told [OF _ ok 1(2)])
  next
    case 2
    then have "handle_ouch (ic_client_id c) (decode_inbound_ouch (sp_payload packet)) stamps s = Some s1" "c1 = c"
      using h by (auto simp: handle_soup_packet_def soup_type_defs bind_eq_Some_conv)
    moreover have "client_range (ic_client_id c)" using c(1) 2(2) by (simp add: conn_in_def)
    ultimately show ?thesis using handle_ouch_told [OF _ ok] told_one.quiet told_one.gateway by metis
  next
    case 3
    then have "disconnect c s = Some (c1, s1)" using h by (auto simp: handle_soup_packet_def soup_type_defs bind_eq_Some_conv)
    then show ?thesis using disconnect_told [OF _ ok c(2)] told_one.over by metis
  next
    case 4
    then show ?thesis using h told_one.quiet by (auto simp: handle_soup_packet_def split: if_splits)
  qed
qed

subsection \<open>The handlers keep the order\<close>

definition slot_use :: "'c InboundConnection \<Rightarrow> 'c SlotUse" where
  "slot_use c = (if \<not> ic_open c then Idle else if ic_logged_in c then LoggedIn (ic_conn c) (ic_client_id c)
     else if ic_closing c then TurnedAway (ic_conn c) else Idle)"

definition fresh :: "'c InboundConnection \<Rightarrow> 'c NoteState \<Rightarrow> bool" where
  "fresh c ns \<longleftrightarrow> (ic_open c \<and> \<not> ic_logged_in c \<and> \<not> ic_closing c \<longrightarrow> ic_conn c \<notin> ns_used ns)"

definition sessions_match :: "'c NoteState \<Rightarrow> 'c Inbound \<Rightarrow> bool" where
  "sessions_match ns s \<longleftrightarrow> (\<forall>i d k. ns_slots ns i = LoggedIn d k \<longrightarrow> client_range k \<and> in_sessions s ! unat k)"

definition notes_pre :: "('c \<Rightarrow> nat) \<Rightarrow> 'c InboundConnection \<Rightarrow> 'c Inbound \<Rightarrow> 'c NoteState \<Rightarrow> bool" where
  "notes_pre slot c s ns \<longleftrightarrow> notes_state slot (told s) = Some ns \<and> ns_slots ns (slot (ic_conn c)) = slot_use c \<and> fresh c ns
     \<and> sessions_match ns s"

text \<open>The notes a handler sends concern its own connection.\<close>

definition notes_moved :: "('c \<Rightarrow> nat) \<Rightarrow> 'c \<Rightarrow> 'c NoteState \<Rightarrow> 'c NoteState \<Rightarrow> bool" where
  "notes_moved slot conn ns ns1 \<longleftrightarrow> (\<forall>j. j \<noteq> slot conn \<longrightarrow> ns_slots ns1 j = ns_slots ns j)
     \<and> ns_used ns \<subseteq> ns_used ns1 \<and> ns_used ns1 \<subseteq> insert conn (ns_used ns)"

lemma notes_moved_refl: "notes_moved slot conn ns ns"
  by (auto simp: notes_moved_def)

lemma notes_moved_trans: "notes_moved slot conn ns ns1 \<Longrightarrow> notes_moved slot conn ns1 ns2 \<Longrightarrow> notes_moved slot conn ns ns2"
  unfolding notes_moved_def by (intro conjI) (simp, blast+)

lemma notes_moved_use: "notes_moved slot conn ns (use_slot (slot conn) u conn ns)"
  by (auto simp: notes_moved_def use_slot_def)

lemma told_one_step:
  assumes t: "told_one c ns0 c1 ns1" and op: "ic_open c" "ic_closing c \<Longrightarrow> \<not> ic_open c1"
    and pre: "notes_state slot ns0 = Some ns" "ns_slots ns (slot (ic_conn c)) = slot_use c" "fresh c ns"
    and free: "\<And>d i. ic_logged_in c1 \<Longrightarrow> \<not> ic_logged_in c \<Longrightarrow> client_range (ic_client_id c1) \<and> ns_slots ns i \<noteq> LoggedIn d (ic_client_id c1)"
  shows "\<exists>ns'. notes_state slot ns1 = Some ns' \<and> ns_slots ns' (slot (ic_conn c)) = slot_use c1 \<and> fresh c1 ns' \<and> notes_moved slot (ic_conn c) ns ns'"
  using t
proof cases
  case quiet
  then show ?thesis using pre notes_moved_refl [of slot "ic_conn c" ns] by simp
next
  case (gateway g k)
  then have "notes_state slot ns1 = Some ns" using pre(1) by (simp add: notes_state_snoc note_step_def gateway_note_def)
  then show ?thesis using gateway(1) pre notes_moved_refl [of slot "ic_conn c" ns] by simp
next
  case over
  have "may_end slot (ic_conn c) ns" using pre(2,3) op by (auto simp: may_end_def slot_use_def fresh_def split: if_splits)
  then have "notes_state slot ns1 = Some (use_slot (slot (ic_conn c)) Idle (ic_conn c) ns)"
    using over pre(1) by (simp add: notes_state_snoc note_step_def end_note_def)
  then show ?thesis using over(1) notes_moved_use [of slot "ic_conn c" ns Idle] by (simp add: use_slot_def slot_use_def ended_def fresh_def)
next
  case (rejected reason)
  have "may_login slot (ic_conn c) ns" using pre(2,3) op rejected(1,3) by (auto simp: may_login_def slot_use_def fresh_def)
  then have "notes_state slot ns1 = Some (use_slot (slot (ic_conn c)) (TurnedAway (ic_conn c)) (ic_conn c) ns)"
    using rejected pre(1) by (simp add: notes_state_snoc note_step_def reject_note_def)
  then show ?thesis using rejected(1,3) op notes_moved_use [of slot "ic_conn c" ns "TurnedAway (ic_conn c)"]
    by (simp add: use_slot_def slot_use_def fresh_def)
next
  case (accepted k sequence)
  have "may_login slot (ic_conn c) ns" using pre(2,3) op accepted(1,3) by (auto simp: may_login_def slot_use_def fresh_def)
  moreover have "client_range k" "\<forall>i d. ns_slots ns i \<noteq> LoggedIn d k" using free accepted by simp_all
  ultimately have "notes_state slot ns1 = Some (use_slot (slot (ic_conn c)) (LoggedIn (ic_conn c) k) (ic_conn c) ns)"
    using accepted pre(1) by (simp add: notes_state_snoc note_step_def login_note_def)
  then show ?thesis using accepted(1,3) op notes_moved_use [of slot "ic_conn c" ns "LoggedIn (ic_conn c) k"]
    by (simp add: use_slot_def slot_use_def fresh_def)
qed

definition served :: "('c \<Rightarrow> nat) \<Rightarrow> 'c InboundConnection \<Rightarrow> 'c Inbound \<Rightarrow> 'c InboundConnection \<Rightarrow> 'c Inbound \<Rightarrow> bool" where
  "served slot c s c1 s1 \<longleftrightarrow> moved c s c1 s1
     \<and> (\<exists>ns ns1. notes_pre slot c s ns \<and> notes_pre slot c1 s1 ns1 \<and> notes_moved slot (ic_conn c) ns ns1)"

lemma served_step:
  assumes m: "moved c s c1 s1" and t: "told_one c (told s) c1 (told s1)" and pre: "notes_pre slot c s ns" and c: "conn_in c s"
    and op: "ic_open c" "ic_closing c \<Longrightarrow> \<not> ic_open c1"
  shows "served slot c s c1 s1"
proof -
  have P: "notes_state slot (told s) = Some ns" "ns_slots ns (slot (ic_conn c)) = slot_use c" "fresh c ns" "sessions_match ns s"
    using pre by (simp_all add: notes_pre_def)
  have c1: "conn_in c1 s1" "ic_conn c1 = ic_conn c" using m by (simp_all add: moved_def)
  have free: "client_range (ic_client_id c1) \<and> ns_slots ns i \<noteq> LoggedIn d (ic_client_id c1)" if "ic_logged_in c1" "\<not> ic_logged_in c" for d i
  proof -
    have "holds_session c1 (unat (ic_client_id c1))" "\<not> holds_session c (unat (ic_client_id c1))" using that by (simp_all add: holds_session_def)
    then have "\<not> in_sessions s ! unat (ic_client_id c1)" using m unfolding moved_def by blast
    then show ?thesis using P(4) c1(1) that(1) by (auto simp: sessions_match_def conn_in_def)
  qed
  obtain ns1 where n: "notes_state slot (told s1) = Some ns1" "ns_slots ns1 (slot (ic_conn c)) = slot_use c1" "fresh c1 ns1"
    "notes_moved slot (ic_conn c) ns ns1"
    using told_one_step [where slot = slot, OF t op P(1-3) free] by blast
  have "client_range k \<and> in_sessions s1 ! unat k" if l: "ns_slots ns1 i = LoggedIn d k" for i d k
  proof (cases "i = slot (ic_conn c)")
    case True
    then have "ic_logged_in c1" "ic_client_id c1 = k" using n(2) l by (auto simp: slot_use_def split: if_splits)
    then show ?thesis using c1(1) by (auto simp: conn_in_def)
  next
    case False
    then have old: "ns_slots ns i = LoggedIn d k" using n(4) l by (simp add: notes_moved_def)
    then have k: "client_range k" "in_sessions s ! unat k" using P(4) by (auto simp: sessions_match_def)
    have "\<not> holds_session c (unat k)"
    proof
      assume "holds_session c (unat k)"
      then have "ns_slots ns (slot (ic_conn c)) = LoggedIn (ic_conn c) k"
        using P(2) op(1) by (auto simp: slot_use_def holds_session_def word_unat_eq_iff)
      then show False using notes_state_wf [OF P(1)] old False unfolding ns_wf_def by blast
    qed
    then show ?thesis using m k by (simp add: moved_def client_range_unat)
  qed
  then have "notes_pre slot c1 s1 ns1" using n c1(2) by (auto simp: notes_pre_def sessions_match_def)
  then show ?thesis using m pre n(4) by (auto simp: served_def)
qed

lemma served_refl: "in_ok s \<Longrightarrow> conn_in c s \<Longrightarrow> notes_pre slot c s ns \<Longrightarrow> served slot c s c s"
  unfolding served_def by (intro conjI exI [of _ ns] moved_refl notes_moved_refl)

lemma served_notes_trans:
  assumes "served slot c s c1 s1" "served slot c1 s1 c2 s2"
  shows "served slot c s c2 s2"
proof -
  obtain ns ns1 where a: "notes_pre slot c s ns" "notes_pre slot c1 s1 ns1" "notes_moved slot (ic_conn c) ns ns1" using assms(1) by (auto simp: served_def)
  obtain ms ms1 where b: "notes_pre slot c1 s1 ms" "notes_pre slot c2 s2 ms1" "notes_moved slot (ic_conn c1) ms ms1" using assms(2) by (auto simp: served_def)
  have m: "moved c s c1 s1" "moved c1 s1 c2 s2" using assms by (simp_all add: served_def)
  have e: "ms = ns1" "ic_conn c1 = ic_conn c" using a(2) b(1) m(1) by (simp_all add: notes_pre_def moved_def)
  have "notes_moved slot (ic_conn c) ns ms1" by (rule notes_moved_trans [OF a(3)]) (use b(3) e in simp)
  then show ?thesis unfolding served_def using a(1) b(2) moved_trans [OF m] by blast
qed

lemma notes_pre_blank: "blank c1 = blank c \<Longrightarrow> notes_pre slot c1 s ns = notes_pre slot c s ns \<and> ic_conn c1 = ic_conn c"
  by (cases c; cases c1; simp add: blank_def notes_pre_def slot_use_def fresh_def)

lemma served_blank:
  assumes "blank c1 = blank c"
  shows "served slot c1 s c2 s2 = served slot c s c2 s2" "served slot c2 s2 c1 s = served slot c2 s2 c s"
  unfolding served_def by (simp_all add: blank_moved [OF assms] notes_pre_blank [OF assms])

lemma disconnect_served:
  assumes "in_ok s" "conn_in c s" "notes_pre slot c s ns"
  shows "\<exists>c1 s1. disconnect c s = Some (c1, s1) \<and> served slot c s c1 s1"
proof -
  obtain c1 s1 where d: "disconnect c s = Some (c1, s1)" "moved c s c1 s1" by (rule disconnect_moved [OF assms(1,2)])
  show ?thesis
  proof (cases "ic_open c")
    case True
    note T = disconnect_told [OF d(1) assms(1) True]
    have "told_one c (told s) c1 (told s1)" unfolding T by (rule told_one.over)
    then have "served slot c s c1 s1" by (rule served_step [OF d(2) _ assms(3,2) True]) (simp add: T(2) ended_def)
    then show ?thesis using d(1) by blast
  next
    case False
    then have "c1 = c" "s1 = s" using d(1) by (simp_all add: disconnect_def)
    then show ?thesis using d(1) served_refl [OF assms] by blast
  qed
qed

lemma handle_served:
  assumes "in_ok s" "conn_in c s" "notes_pre slot c s ns" "ic_open c" "\<not> ic_closing c"
  shows "\<exists>going c1 s1. handle_soup_packet packet stamps c s = Some (going, c1, s1) \<and> served slot c s c1 s1"
proof -
  obtain going c1 s1 where h: "handle_soup_packet packet stamps c s = Some (going, c1, s1)" "moved c s c1 s1"
    using handle_moved [OF assms(1,2,4)] by blast
  have "served slot c s c1 s1" by (rule served_step [OF h(2) handle_told [OF h(1) assms(1,2,4)] assms(3,2,4)]) (use assms(5) in simp)
  then show ?thesis using h(1) by blast
qed

interpretation sv: handler_rel "\<lambda>c s. in_ok s \<and> conn_in c s \<and> (\<exists>ns. notes_pre slot c s ns)" "served slot" for slot
proof (unfold_locales, goal_cases)
  case (1 c s)
  then obtain ns where "in_ok s" "conn_in c s" "notes_pre slot c s ns" by blast
  then show ?case by (rule served_refl)
next
  case (2 c s c1 s1 c2 s2)
  then show ?case by (rule served_notes_trans)
next
  case (3 c s c1 s1)
  then show ?case using moved_pre [of c s c1 s1] by (auto simp: served_def)
next
  case (4 c1 c s)
  then show ?case by (simp add: blank_moved(1) [OF 4] notes_pre_blank [OF 4])
next
  case (5 c1 c s c2 s2)
  then show ?case by (rule served_blank(1))
next
  case (6 c1 c c2 s2 s)
  then show ?case by (rule served_blank(2))
next
  case (7 c s)
  then obtain ns where "in_ok s" "conn_in c s" "notes_pre slot c s ns" by blast
  then show ?case by (rule disconnect_served)
next
  case (8 c s packet stamps)
  then obtain ns where "in_ok s" "conn_in c s" "notes_pre slot c s ns" by blast
  then show ?case using 8(2,3) by (rule handle_served)
qed

subsection \<open>The thread keeps the order\<close>

definition notes_inv :: "('c \<Rightarrow> nat) \<Rightarrow> 'c set \<Rightarrow> 'c Inbound \<Rightarrow> bool" where
  "notes_inv slot A s \<longleftrightarrow> in_inv s \<and> (\<exists>ns. notes_state slot (told s) = Some ns \<and> sessions_match ns s \<and> ns_used ns \<subseteq> A
     \<and> (\<forall>i. kMaxConnections \<le> i \<longrightarrow> ns_slots ns i = Idle)
     \<and> (\<forall>i < kMaxConnections. ns_slots ns i = slot_use (in_connections s ! i) \<and> fresh (in_connections s ! i) ns
          \<and> (ic_open (in_connections s ! i) \<longrightarrow> slot (ic_conn (in_connections s ! i)) = i \<and> ic_conn (in_connections s ! i) \<in> A)))"

lemma put_told: "told (put_connection i (c, s)) = told s" "sessions_match ns (put_connection i (c, s)) = sessions_match ns s"
  by (simp_all add: put_connection_def sessions_match_def)

lemma put_notes:
  assumes inv: "notes_inv slot A s" and i: "i < kMaxConnections" and op: "ic_open (in_connections s ! i)"
    and sv: "served slot (in_connections s ! i) s c1 s1" and ok: "conn_ok c1"
  shows "notes_inv slot A (put_connection i (c1, s1))"
proof -
  let ?c = "in_connections s ! i" let ?s = "put_connection i (c1, s1)"
  obtain ns where ns: "notes_state slot (told s) = Some ns" "ns_used ns \<subseteq> A" "\<And>j. kMaxConnections \<le> j \<Longrightarrow> ns_slots ns j = Idle"
    "\<And>j. j < kMaxConnections \<Longrightarrow> ns_slots ns j = slot_use (in_connections s ! j) \<and> fresh (in_connections s ! j) ns
      \<and> (ic_open (in_connections s ! j) \<longrightarrow> slot (ic_conn (in_connections s ! j)) = j \<and> ic_conn (in_connections s ! j) \<in> A)"
    using inv unfolding notes_inv_def by blast
  have here: "slot (ic_conn ?c) = i" "ic_conn ?c \<in> A" using ns(4) [OF i] op by simp_all
  have m: "moved ?c s c1 s1" and in_s: "in_inv s" using sv inv by (simp_all add: served_def notes_inv_def)
  then have conns: "in_connections s1 = in_connections s" "length (in_connections s) = kMaxConnections" "ic_conn c1 = ic_conn ?c"
    by (simp_all add: moved_def in_inv_def)
  have nth: "in_connections ?s ! j = (if j = i then c1 else in_connections s ! j)" if "j < kMaxConnections" for j
    using conns that by (simp add: put_connection_def nth_list_update)
  obtain ns1 where n1: "notes_state slot (told s1) = Some ns1" "ns_slots ns1 i = slot_use c1" "fresh c1 ns1" "sessions_match ns1 s1"
    "notes_moved slot (ic_conn ?c) ns ns1"
    using sv ns(1) here(1) conns(3) by (auto simp: served_def notes_pre_def)
  have other: "ns_slots ns1 j = ns_slots ns j" if "j \<noteq> i" for j using n1(5) here(1) that by (simp add: notes_moved_def)
  have used: "ns_used ns1 \<subseteq> insert (ic_conn ?c) (ns_used ns)" using n1(5) by (simp add: notes_moved_def)
  have fr: "fresh (in_connections s ! j) ns1" if "j < kMaxConnections" "j \<noteq> i" for j
  proof -
    have "ic_conn (in_connections s ! j) \<noteq> ic_conn ?c" if "ic_open (in_connections s ! j)"
      using ns(4) [OF \<open>j < kMaxConnections\<close>] that here(1) \<open>j \<noteq> i\<close> by auto
    then show ?thesis using ns(4) [OF that(1)] used by (auto simp: fresh_def)
  qed
  have slots: "ns_slots ns1 j = slot_use (in_connections ?s ! j) \<and> fresh (in_connections ?s ! j) ns1
      \<and> (ic_open (in_connections ?s ! j) \<longrightarrow> slot (ic_conn (in_connections ?s ! j)) = j \<and> ic_conn (in_connections ?s ! j) \<in> A)"
    if "j < kMaxConnections" for j
    using nth [OF that] ns(4) [OF that] other fr [OF that] n1(2,3) here conns(3) by simp
  have "\<forall>j. kMaxConnections \<le> j \<longrightarrow> ns_slots ns1 j = Idle" using ns(3) other i by auto
  moreover have "in_inv ?s" by (rule put_inv [OF in_s i m ok])
  ultimately show ?thesis unfolding notes_inv_def
    using n1(1,4) slots used ns(2) here(2) by (intro conjI exI [of _ ns1]) (auto simp: put_told)
qed

lemma notes_inv_in: "notes_inv slot A s \<Longrightarrow> in_inv s"
  by (simp add: notes_inv_def)

lemma notes_inv_pre:
  assumes inv: "notes_inv slot A s" and i: "i < kMaxConnections" and op: "ic_open (in_connections s ! i)"
  shows "\<exists>ns. notes_pre slot (in_connections s ! i) s ns"
  using assms unfolding notes_inv_def notes_pre_def by auto

lemma disconnect_notes:
  assumes inv: "notes_inv slot A s" and i: "i < kMaxConnections"
    and s1: "map_option (put_connection i) (disconnect (in_connections s ! i) s) = Some s1"
  shows "notes_inv slot A s1"
proof (cases "ic_open (in_connections s ! i)")
  case True
  note I = in_inv_nth [OF notes_inv_in [OF inv] i]
  obtain c1 s2 where d: "disconnect (in_connections s ! i) s = Some (c1, s2)" "served slot (in_connections s ! i) s c1 s2"
    using notes_inv_pre [OF inv i True] disconnect_served [OF I(1,3)] by blast
  have "s1 = put_connection i (c1, s2)" using s1 d(1) by simp
  then show ?thesis using put_notes [OF inv i True d(2) disconnect_keeps_ok [OF d(1) I(2)]] by simp
next
  case False
  then have "s1 = s" using s1 by (simp add: disconnect_def put_connection_def)
  then show ?thesis using inv by simp
qed

lemma accept_notes:
  assumes inv: "notes_inv slot A s" and i: "slot conn < kMaxConnections" and free: "\<not> ic_open (in_connections s ! slot conn)" "conn \<notin> A"
    and c: "c = (new_InboundConnection conn)\<lparr>ic_open := True, ic_opened_tsc := t, ic_last_recv_tsc := t\<rparr>"
  shows "notes_inv slot (insert conn A) (put_connection (slot conn) (c, s))"
proof -
  let ?i = "slot conn" let ?s = "put_connection ?i (c, s)"
  obtain ns where ns: "notes_state slot (told s) = Some ns" "ns_used ns \<subseteq> A" "sessions_match ns s" "\<forall>j. kMaxConnections \<le> j \<longrightarrow> ns_slots ns j = Idle"
    "\<And>j. j < kMaxConnections \<Longrightarrow> ns_slots ns j = slot_use (in_connections s ! j) \<and> fresh (in_connections s ! j) ns
      \<and> (ic_open (in_connections s ! j) \<longrightarrow> slot (ic_conn (in_connections s ! j)) = j \<and> ic_conn (in_connections s ! j) \<in> A)"
    using inv unfolding notes_inv_def by blast
  have new: "conn_ok c" "\<not> ic_logged_in c" "slot_use c = Idle" "ic_conn c = conn"
    unfolding c using new_conn_ok [of conn] by (simp_all add: conn_ok_def pending_bytes_def new_InboundConnection_def slot_use_def)
  have "length (in_connections s) = kMaxConnections" using in_inv_nth(4) [OF notes_inv_in [OF inv] i] .
  then have nth: "in_connections ?s ! j = (if j = ?i then c else in_connections s ! j)" if "j < kMaxConnections" for j
    using that by (simp add: put_connection_def nth_list_update)
  have "ns_slots ns ?i = Idle" using ns(5) [OF i] free(1) by (simp add: slot_use_def)
  then have "ns_slots ns j = slot_use (in_connections ?s ! j) \<and> fresh (in_connections ?s ! j) ns
      \<and> (ic_open (in_connections ?s ! j) \<longrightarrow> slot (ic_conn (in_connections ?s ! j)) = j \<and> ic_conn (in_connections ?s ! j) \<in> insert conn A)"
    if "j < kMaxConnections" for j
    using nth [OF that] ns(2) ns(5) [OF that] new free(2) by (auto simp: fresh_def)
  then show ?thesis unfolding notes_inv_def
    using ns(1-4) accept_inv(1) [OF notes_inv_in [OF inv] i new(1,2)] by (intro conjI exI [of _ ns]) (auto simp: put_told)
qed

definition accepts :: "'c TcpEvent \<Rightarrow> 'c set" where
  "accepts event = (case event of TcpAccepted conn \<Rightarrow> {conn} | _ \<Rightarrow> {})"

lemma stamped [simp]: "slot_use (c\<lparr>ic_last_recv_tsc := t\<rparr>) = slot_use c" "fresh (c\<lparr>ic_last_recv_tsc := t\<rparr>) ns = fresh c ns"
  "notes_pre slot (c\<lparr>ic_last_recv_tsc := t\<rparr>) s ns = notes_pre slot c s ns" "moved (c\<lparr>ic_last_recv_tsc := t\<rparr>) s c1 s1 = moved c s c1 s1"
  by (simp_all add: slot_use_def fresh_def notes_pre_def moved_def holds_session_def)

lemma data_notes:
  assumes inv: "notes_inv slot A s" and i: "i < kMaxConnections" and c: "ic_open (in_connections s ! i)" "\<not> ic_closing (in_connections s ! i)"
    and s1: "map_option (put_connection i) (on_data bytes stamps ((in_connections s ! i)\<lparr>ic_last_recv_tsc := t\<rparr>) s) = Some s1"
  shows "notes_inv slot A s1"
proof -
  let ?c = "in_connections s ! i" let ?d = "?c\<lparr>ic_last_recv_tsc := t\<rparr>"
  note I = in_inv_nth [OF notes_inv_in [OF inv] i]
  obtain ns where "notes_pre slot ?c s ns" using notes_inv_pre [OF inv i c(1)] by blast
  then have "notes_pre slot ?d s ns" by simp
  moreover have d: "conn_in ?d s" "conn_ok ?d" "ic_open ?d" "\<not> ic_closing ?d" using I(2,3) c by (simp_all add: conn_in_def conn_ok_def pending_bytes_def)
  ultimately obtain c1 s2 where r: "on_data bytes stamps ?d s = Some (c1, s2)" "served slot ?d s c1 s2"
    using sv.on_data_rel [of s ?d slot bytes stamps] I(1) by blast
  have "served slot ?c s c1 s2" using r(2) by (simp add: served_def)
  then show ?thesis using put_notes [OF inv i c(1) _ on_data_ok [OF r(1) d(2,3)]] s1 r(1) by auto
qed

lemma event_notes:
  assumes inv: "notes_inv slot A s" and i: "slot (event_conn event) < kMaxConnections" and free: "slot_free slot event s" "accepts event \<inter> A = {}"
    and s1: "on_tcp_event slot event stamps s = Some s1"
  shows "notes_inv slot (accepts event \<union> A) s1"
proof -
  note I = in_inv_nth [OF notes_inv_in [OF inv] i]
  let ?i = "slot (event_conn event)" let ?c = "in_connections s ! ?i"
  have over: "notes_inv slot A s1" if "s1 = s \<or> map_option (put_connection ?i) (disconnect ?c s) = Some s1"
    using that inv disconnect_notes [OF inv i] by blast
  show ?thesis
  proof (cases event)
    case (TcpAccepted conn)
    then show ?thesis using accept_notes [OF inv _ _ _ refl, of conn "is_recv_tsc stamps"] i I(4) free s1
      by (auto simp: on_tcp_event_def slot_free_def accepts_def)
  next
    case (TcpData conn bytes)
    show ?thesis
    proof (cases "ic_conn ?c \<noteq> conn \<or> \<not> ic_open ?c \<or> ic_closing ?c")
      case True
      then show ?thesis using TcpData s1 i I(4) inv by (simp add: on_tcp_event_def Let_def accepts_def)
    next
      case False
      then have "map_option (put_connection ?i) (on_data bytes stamps (?c\<lparr>ic_last_recv_tsc := is_recv_tsc stamps\<rparr>) s) = Some s1"
        using TcpData s1 i I(4) by (simp add: on_tcp_event_def Let_def)
      from data_notes [OF inv i _ _ this] False show ?thesis using TcpData by (simp add: accepts_def)
    qed
  qed (use over s1 i I(4) in \<open>auto simp: on_tcp_event_def Let_def accepts_def split: if_splits\<close>)
qed

lemma timeouts_notes:
  assumes "notes_inv slot A s" "\<forall>i\<in>set is. i < kMaxConnections" "run_all (check_timeout clock now) is s = Some s1"
  shows "notes_inv slot A s1"
  using assms
proof (induction "is" arbitrary: s)
  case (Cons i js)
  then obtain s2 where s2: "check_timeout clock now i s = Some s2" "run_all (check_timeout clock now) js s2 = Some s1"
    by (auto simp: bind_eq_Some_conv)
  have "notes_inv slot A s2"
    using s2(1) Cons.prems(1,2) disconnect_notes [of slot A s i s2] by (auto simp: check_timeout_def Let_def split: if_splits)
  then show ?case using Cons.IH s2(2) Cons.prems(2) by simp
qed simp

text \<open>
  The states of the thread together with the connections the stack has reported so far. A connection is reported once, in a free
  slot.
\<close>

inductive in_run :: "('c \<Rightarrow> nat) \<Rightarrow> 'c set \<Rightarrow> 'c Inbound \<Rightarrow> bool" for slot where
  run_start: "channel_inv chn \<Longrightarrow> channel_sent chn = [] \<Longrightarrow> channel_inv reqs \<Longrightarrow> channel_sent reqs = [] \<Longrightarrow> in_run slot {} (new_Inbound no_conn chn reqs reads)"
| run_event: "in_run slot A s \<Longrightarrow> slot (event_conn event) < kMaxConnections \<Longrightarrow> slot_free slot event s \<Longrightarrow> accepts event \<inter> A = {} \<Longrightarrow>
    on_tcp_event slot event stamps s = Some s1 \<Longrightarrow> in_run slot (accepts event \<union> A) s1"
| run_scan: "in_run slot A s \<Longrightarrow> check_timeouts clock now s = Some s1 \<Longrightarrow> in_run slot A s1"
| run_retain: "in_run slot A s \<Longrightarrow> length retained = unat MAX_CLIENTS + 1 \<Longrightarrow> in_run slot A (s\<lparr>in_retained_from := retained\<rparr>)"

lemma in_run_notes: "in_run slot A s \<Longrightarrow> notes_inv slot A s"
proof (induction rule: in_run.induct)
  case (run_start chn reqs no_conn reads)
  let ?s = "new_Inbound no_conn chn reqs reads"
  have "in_inv ?s" using new_Inbound_inv(1) [OF run_start(1,3,4)] .
  moreover have "told ?s = []" "\<forall>i < kMaxConnections. in_connections ?s ! i = new_InboundConnection no_conn"
    using run_start(2) by (simp_all add: new_Inbound_def)
  ultimately show ?case unfolding notes_inv_def
    by (intro conjI exI [of _ ns_start])
      (auto simp: notes_state_def ns_start_def sessions_match_def slot_use_def fresh_def new_InboundConnection_def)
next
  case (run_event A s event stamps s1)
  then show ?case using event_notes by blast
next
  case (run_scan A s clock now s1)
  then show ?case using timeouts_notes [of slot A s "[0..<length (in_connections s)]" clock now s1]
    by (auto simp: check_timeouts_def notes_inv_def in_inv_def)
next
  case (run_retain A s retained)
  then show ?case by (auto simp: notes_inv_def in_inv_def in_ok_def conn_in_def sessions_match_def)
qed

lemma in_run_reachable: "in_run slot A s \<Longrightarrow> in_reachable slot s"
  by (induction rule: in_run.induct) (auto intro: in_reachable.intros)

end
