(* ===== verification/Server_Demo.thy ===== *)
theory Server_Demo
  imports Server_Notes
begin

text \<open>
  A small server for the examples: one client connects and logs in as \<open>AAAAAA\<close>, for the next message of its session.
\<close>

definition demo_empty :: "'c \<Rightarrow> 'c Inbound" where
  "demo_empty no_conn = new_Inbound no_conn (new_Channel 8 \<lparr> sn_kind = NOTE_GATEWAY, sn_reject_reason = 0, sn_client_id = 0,
     sn_conn = None, sn_sequence = 0, sn_gateway = None \<rparr> (\<lambda>_. 1)) (new_Channel 8 (cancel_request 0 0 0 BID) (\<lambda>_. 1)) (\<lambda>_. 0)"

definition demo_stamps :: InboundStamps where
  "demo_stamps = \<lparr> is_read_begin_tsc = 10, is_recv_tsc = 20 \<rparr>"

definition demo_open :: "'c \<Rightarrow> 'c InboundConnection" where
  "demo_open conn = (new_InboundConnection conn)\<lparr> ic_open := True, ic_opened_tsc := 20, ic_last_recv_tsc := 20 \<rparr>"

definition demo_login :: SoupLoginRequest where
  "demo_login = \<lparr> sl_username = replicate 6 65, sl_password = replicate 10 66, sl_requested_session = replicate 10 32,
     sl_requested_sequence_number = 18446744073709551615 \<rparr>"

definition demo_clock :: TscClock where
  "demo_clock = \<lparr> anchor_tsc = 0, anchor_ns_since_midnight = 0, ns_per_tick_q32 = 4294967296 \<rparr>"

lemma login_frame_parsed:
  assumes "wf_login req" "49 \<le> length out"
  shows "fst (encode_soup_login_request req out) = 49"
    "\<exists>payload. parse_soup_packet (take 49 (snd (encode_soup_login_request req out)) @ rear)
      = \<lparr> spr_status = PACKET, spr_packet = \<lparr> sp_type = LOGIN_REQUEST, sp_payload = payload \<rparr>, spr_consumed = 49 \<rparr>
      \<and> decode_soup_login_request payload = Some req"
proof -
  obtain number where e: "length number = 20" "read_numeric number = Some (sl_requested_sequence_number req)"
    "fst (encode_soup_login_request req out) = 49"
    "take 49 (snd (encode_soup_login_request req out))
      = soup_frame LOGIN_REQUEST (sl_username req @ sl_password req @ sl_requested_session req @ number)"
    using encode_login_frame [OF assms] by blast
  show "fst (encode_soup_login_request req out) = 49" by (rule e(3))
  let ?payload = "sl_username req @ sl_password req @ sl_requested_session req @ number"
  have len: "length (sl_username req) = 6" "length (sl_password req) = 10" "length (sl_requested_session req) = 10"
    using assms(1) by (simp_all add: wf_login_def)
  have "decode_soup_login_request ?payload = Some req"
    using len e(1,2) by (simp add: decode_soup_login_request_def soup_len_defs read_alpha_def)
  moreover have "parse_soup_packet (soup_frame LOGIN_REQUEST ?payload @ rear)
      = \<lparr> spr_status = PACKET, spr_packet = \<lparr> sp_type = LOGIN_REQUEST, sp_payload = ?payload \<rparr>, spr_consumed = 49 \<rparr>"
    by (subst parse_frame) (use len e(1) in simp_all)
  ultimately show "\<exists>payload. parse_soup_packet (take 49 (snd (encode_soup_login_request req out)) @ rear)
      = \<lparr> spr_status = PACKET, spr_packet = \<lparr> sp_type = LOGIN_REQUEST, sp_payload = payload \<rparr>, spr_consumed = 49 \<rparr>
      \<and> decode_soup_login_request payload = Some req" unfolding e(4) by blast
qed

lemma demo_channel [simp]: "channel_inv (new_Channel 8 d (\<lambda>_. Suc 0))" "channel_sent (new_Channel 8 d (\<lambda>_. Suc 0)) = []"
  by (rule new_Channel_inv [where k = 3]; auto)+

lemma demo_empty_run: "in_run slot {} (demo_empty no_conn)"
  unfolding demo_empty_def by (rule run_start) simp_all

lemma demo_accepted:
  assumes small: "slot conn < kMaxConnections"
  shows "in_run slot {conn} (put_connection (slot conn) (demo_open conn, demo_empty no_conn))"
proof -
  let ?s = "demo_empty no_conn"
  have "length (in_connections ?s) = kMaxConnections" by (simp add: demo_empty_def new_Inbound_def)
  then have "on_tcp_event slot (TcpAccepted conn) demo_stamps ?s = Some (put_connection (slot conn) (demo_open conn, ?s))"
    using small by (simp add: on_tcp_event_def demo_open_def demo_stamps_def)
  moreover have "slot_free slot (TcpAccepted conn) ?s"
    using small by (simp add: slot_free_def demo_empty_def new_Inbound_def new_InboundConnection_def)
  ultimately show ?thesis using run_event [OF demo_empty_run, of slot "TcpAccepted conn"] small by (simp add: accepts_def)
qed

definition demo_client :: "'c \<Rightarrow> 'c InboundConnection" where
  "demo_client conn = (demo_open conn)\<lparr>ic_logged_in := True, ic_client_id := 1\<rparr>"

lemma demo_login_state:
  assumes small: "slot conn < kMaxConnections"
  shows "\<exists>s. in_run slot {conn} s \<and> in_sessions s ! 1 \<and> told s = [login_note conn 1 18446744073709551615]
    \<and> in_entry s = in_entry (demo_empty conn) \<and> in_ring s = in_ring (demo_empty conn) \<and> in_connections s ! slot conn = demo_client conn"
proof -
  let ?i = "slot conn" let ?s0 = "put_connection ?i (demo_open conn, demo_empty conn)"
  let ?bytes = "take 49 (snd (encode_soup_login_request demo_login (replicate 60 0)))"
  have len: "length (in_connections (demo_empty conn)) = kMaxConnections" by (simp add: demo_empty_def new_Inbound_def)
  have r0: "in_run slot {conn} ?s0" using demo_accepted [of slot conn conn] small by simp
  then have inv: "in_inv ?s0" using in_reachable_inv [OF in_run_reachable] by blast
  obtain payload where p: "parse_soup_packet ?bytes = \<lparr> spr_status = PACKET, spr_packet = \<lparr> sp_type = LOGIN_REQUEST, sp_payload = payload \<rparr>, spr_consumed = 49 \<rparr>"
    "decode_soup_login_request payload = Some demo_login"
    using login_frame_parsed(2) [of demo_login "replicate 60 0" "[]"] by (auto simp: demo_login_def wf_login_def)
  have req: "session_requested (sl_requested_session demo_login)" "pack_username (sl_username demo_login) 0 True = (71748523475265, False)"
    by code_simp+
  let ?s1 = "?s0\<lparr>in_next_client_id := 2, in_usernames := [71748523475265 \<mapsto> 1]\<rparr>"
  let ?s2 = "?s1\<lparr>in_sessions := (in_sessions ?s1)[1 := True]\<rparr>"
  have F: "find_client 71748523475265 ?s0 = Some (1, ?s1)" "length (in_sessions ?s1) = unat MAX_CLIENTS + 1" "length (in_retained_from ?s1) = unat MAX_CLIENTS + 1"
    "\<not> in_sessions ?s1 ! 1" "in_retained_from ?s1 ! 1 = 0" "told ?s2 = []"
    by (simp_all add: find_client_def put_connection_def demo_empty_def new_Inbound_def MAX_CLIENTS_def)
  have ok2: "in_ok ?s2" using find_client_ok(1) [OF in_inv_nth(1) [OF inv small] F(1)] by (simp add: in_ok_def)
  let ?note = "login_note conn 1 18446744073709551615"
  obtain chn where n: "push_note ?note ?s2 = Some (?s2\<lparr>in_notes := chn\<rparr>)" by (rule push_note_spec [OF ok2])
  let ?c = "(demo_open conn)\<lparr>ic_logged_in := True, ic_client_id := 1\<rparr>" let ?s3 = "put_connection ?i (?c, ?s2\<lparr>in_notes := chn\<rparr>)"
  have "login payload (demo_open conn) ?s0 = Some (?c, ?s2\<lparr>in_notes := chn\<rparr>)"
    using p(2) req F n by (simp add: login_def set_connected_def MAX_CLIENTS_def demo_open_def new_InboundConnection_def login_note_def demo_login_def)
  then have "handle_soup_packet \<lparr> sp_type = LOGIN_REQUEST, sp_payload = payload \<rparr> demo_stamps (demo_open conn) ?s0 = Some (True, ?c, ?s2\<lparr>in_notes := chn\<rparr>)"
    by (simp add: handle_soup_packet_def demo_open_def new_InboundConnection_def)
  moreover have "?bytes \<noteq> []" using consumed_pos [of ?bytes] p(1) by simp
  ultimately have "parse_loop ?bytes demo_stamps (demo_open conn) ?s0 = Some (?c, ?s2\<lparr>in_notes := chn\<rparr>)"
    using p(1) by (subst parse_loop.simps) (simp add: parse_loop.simps [of "[]"])
  then have "on_tcp_event slot (TcpData conn ?bytes) demo_stamps ?s0 = Some ?s3"
    using small len by (simp add: on_tcp_event_def Let_def put_connection_def on_data_def demo_open_def demo_stamps_def new_InboundConnection_def)
  from run_event [OF r0 _ _ _ this] have "in_run slot {conn} ?s3" using small by (simp add: slot_free_def accepts_def)
  moreover have "told ?s3 = [?note]" using push_note_told [OF n ok2] F(6) by (simp add: put_connection_def)
  moreover have "in_sessions ?s3 ! 1" using F(2) by (simp add: put_connection_def MAX_CLIENTS_def)
  moreover have "in_entry ?s3 = in_entry (demo_empty conn)" "in_ring ?s3 = in_ring (demo_empty conn)" "in_connections ?s3 ! ?i = demo_client conn"
    using len small by (simp_all add: put_connection_def demo_client_def)
  ultimately show ?thesis by blast
qed

lemma demo_logged_in:
  assumes "slot conn < kMaxConnections"
  shows "\<exists>s. in_run slot {conn} s \<and> in_sessions s ! 1 \<and> told s = [login_note conn 1 18446744073709551615]"
  using demo_login_state [of slot conn] assms by blast

end
