(* ===== verification/Server_Props.thy ===== *)
theory Server_Props
  imports Server_Demo Session_Log Infra_Props
begin

text \<open>
  The properties of the server: the inbound thread reads the same packets however TCP cuts the stream, never gets stuck, and
  keeps a session to one connection; a session's log replays what was appended; the session packets survive the wire.
\<close>

subsection \<open>The inbound thread's turns\<close>

lemma burst_inv:
  assumes "in_inv s" "\<forall>event\<in>set events. slot (event_conn event) < kMaxConnections"
  shows "\<exists>s1. run_all (\<lambda>event. on_tcp_event slot event stamps) events s = Some s1 \<and> in_inv s1"
  using assms
proof (induction events arbitrary: s)
  case (Cons event events)
  obtain s1 where s1: "on_tcp_event slot event stamps s = Some s1" "in_inv s1"
    using on_tcp_event_inv [OF Cons.prems(1), of slot event stamps] Cons.prems(2) by auto
  then show ?case using Cons.IH [OF s1(2)] Cons.prems(2) by auto
qed simp

lemma bursts_inv:
  assumes "in_inv s" "\<forall>(events, stamps)\<in>set bursts. \<forall>event\<in>set events. slot (event_conn event) < kMaxConnections"
  shows "\<exists>s1. run_all (\<lambda>(events, stamps). run_all (\<lambda>event. on_tcp_event slot event stamps) events) bursts s = Some s1 \<and> in_inv s1"
  using assms
proof (induction bursts arbitrary: s)
  case (Cons burst bursts)
  obtain events stamps where b: "burst = (events, stamps)" by fastforce
  obtain s1 where s1: "run_all (\<lambda>event. on_tcp_event slot event stamps) events s = Some s1" "in_inv s1"
    using burst_inv [OF Cons.prems(1), of events slot stamps] Cons.prems(2) b by auto
  then show ?case using Cons.IH [OF s1(2)] Cons.prems(2) b by auto
qed simp

lemma inbound_turn_inv:
  assumes "in_inv s" "\<forall>(events, stamps)\<in>set bursts. \<forall>event\<in>set events. slot (event_conn event) < kMaxConnections"
  shows "\<exists>r. inbound_turn slot clock bursts now (scan_tsc, s) = Some r \<and> in_inv (snd r)"
proof -
  obtain s1 where s1: "run_all (\<lambda>(events, stamps). run_all (\<lambda>event. on_tcp_event slot event stamps) events) bursts s = Some s1" "in_inv s1"
    using bursts_inv [OF assms] by blast
  obtain s2 where "check_timeouts clock now s1 = Some s2" "in_inv s2" using check_timeouts_inv [OF s1(2)] by blast
  then show ?thesis using s1 by (simp add: inbound_turn_def)
qed

subsection \<open>The log of a session\<close>

text \<open>Whether the messages from number \<open>n\<close> on fit into a log of \<open>2 ^ k\<close> bytes and its index.\<close>

definition fits :: "nat \<Rightarrow> byte list list \<Rightarrow> nat \<Rightarrow> bool" where
  "fits k hist n \<longleftrightarrow> length (concat (drop (n - 1) hist)) \<le> 2 ^ k \<and> length hist + 1 - n \<le> 2 ^ (k - 5)"

lemma fits_start: "fits k hist n \<longleftrightarrow> length (concat hist) - start_of hist n \<le> 2 ^ k \<and> length hist + 1 - n \<le> 2 ^ (k - 5)"
  unfolding fits_def concat_drop by simp

lemma fits_snoc:
  assumes "n \<le> length hist + 1"
  shows "fits k (hist @ [p]) n \<Longrightarrow> fits k hist n" "fits k (hist @ [p]) n \<Longrightarrow> room k hist (length p) n"
  using assms start_of_append [OF assms, of p] start_of_le [of hist n] by (auto simp: fits_start room_def)

lemma room_mono: "m \<le> n \<Longrightarrow> room k hist len m \<Longrightarrow> room k hist len n"
  using start_of_mono [of m n hist] by (auto simp: room_def)

lemma log_run:
  assumes "unat cap = 2 ^ k" "5 < k" "k < 63" "\<forall>p\<in>set packets. length p < 2 ^ k" "length (concat packets) < 2 ^ 63" "length packets + 1 < 2 ^ 64"
  shows "\<exists>lg. run_all log_append packets (new_SessionLog cap) = Some lg \<and> log_inv k packets lg
    \<and> (\<forall>n. 1 \<le> n \<longrightarrow> n < unat (first_sequence lg) \<longrightarrow> \<not> fits k packets n)"
  using assms(4-6)
proof (induction packets rule: rev_induct)
  case Nil
  show ?case using new_SessionLog_inv [OF assms(1-3)] by (simp add: new_SessionLog_def)
next
  case (snoc p ps)
  obtain lg where lg: "run_all log_append ps (new_SessionLog cap) = Some lg" "log_inv k ps lg"
    "\<forall>n. 1 \<le> n \<longrightarrow> n < unat (first_sequence lg) \<longrightarrow> \<not> fits k ps n" using snoc by auto
  obtain lg' where lg': "log_append p lg = Some lg'" "log_inv k (ps @ [p]) lg'"
    "room k ps (length p) (unat (first_sequence lg'))"
    "first_sequence lg' = first_sequence lg \<or> \<not> room k ps (length p) (unat (first_sequence lg') - 1)"
    by (rule log_append_spec [OF lg(2), of p]) (use snoc.prems in auto)
  have snoc_run: "run_all log_append (ps @ [p]) (new_SessionLog cap) = Some lg'" using lg(1) lg'(1) by (simp add: run_all_append)
  have "\<not> fits k (ps @ [p]) n" if n: "1 \<le> n" "n < unat (first_sequence lg')" for n
  proof
    assume f: "fits k (ps @ [p]) n"
    have le: "n \<le> length ps + 1" using n log_invD(7,10) [OF lg'(2)] by (simp add: word_le_nat_alt)
    show False
    proof (cases "n < unat (first_sequence lg)")
      case True
      then show False using fits_snoc(1) [OF le f] lg(3) n(1) by blast
    next
      case False
      then have "\<not> room k ps (length p) (unat (first_sequence lg') - 1)" using lg'(4) n by auto
      moreover have "n \<le> unat (first_sequence lg') - 1" using n by linarith
      ultimately show False using room_mono fits_snoc(2) [OF le f] by blast
    qed
  qed
  then show ?case using snoc_run lg'(2) by blast
qed

subsection \<open>Orders on a connection\<close>

lemma wire_sizer_sum: "wire_sizer fs = sum_list (map wire_size (map wire_type_of fs))"
proof -
  have "fold (\<lambda>f size. size + wire_size (wire_type_of f)) fs n = n + sum_list (map wire_size (map wire_type_of fs))" for n
    by (induction fs arbitrary: n) simp_all
  then show ?thesis by (simp add: wire_sizer_def)
qed

lemma ouch_size_bound:
  assumes "ouch_wf core tags appendage dflt m"
  shows "ouch_encoded_size core tags appendage m \<le> sum_list (map wire_size (map wire_type_of (core dflt))) + 2
      + sum_list (map (\<lambda>(t, ty). 2 + wire_size ty) (tag_types (tags dflt)))"
    "2 \<le> ouch_encoded_size core tags appendage m"
proof -
  have f: "fold (\<lambda>(tag, field) size. if tag_has bits tag then size + (kTagValueHeaderLen + wire_size (wire_type_of field)) else size) tfs n
      \<le> n + sum_list (map (\<lambda>(t, ty). 2 + wire_size ty) (tag_types tfs))
    \<and> n \<le> fold (\<lambda>(tag, field) size. if tag_has bits tag then size + (kTagValueHeaderLen + wire_size (wire_type_of field)) else size) tfs n" for bits tfs n
  proof (induction tfs arbitrary: n)
    case (Cons tf tfs)
    obtain t fl where tf: "tf = (t, fl)" by fastforce
    show ?case
      using Cons.IH [of n] Cons.IH [of "n + (kTagValueHeaderLen + wire_size (wire_type_of fl))"]
      by (simp add: tf tag_types_def kTagValueHeaderLen_def)
  qed (simp add: tag_types_def)
  have w: "map wire_type_of (core m) = map wire_type_of (core dflt)" "tag_types (tags m) = tag_types (tags dflt)"
    using assms by (simp_all add: ouch_wf_def)
  show "ouch_encoded_size core tags appendage m \<le> sum_list (map wire_size (map wire_type_of (core dflt))) + 2
      + sum_list (map (\<lambda>(t, ty). 2 + wire_size ty) (tag_types (tags dflt)))"
    using f [of "appendage m" "tags m" "wire_sizer (core m) + kAppendageLengthLen"]
    by (simp add: ouch_encoded_size_def wire_sizer_sum w kAppendageLengthLen_def)
  show "2 \<le> ouch_encoded_size core tags appendage m"
    using f [of "appendage m" "tags m" "wire_sizer (core m) + kAppendageLengthLen"]
    by (simp add: ouch_encoded_size_def kAppendageLengthLen_def)
qed

lemma inbound_size_bound:
  assumes "wf_inbound msg"
  shows "2 \<le> encoded_size_inbound msg" "encoded_size_inbound msg \<le> 200" "msg \<noteq> InboundNone"
proof -
  have "2 \<le> encoded_size_inbound msg \<and> encoded_size_inbound msg \<le> 200"
  proof (cases msg)
    case (EnterOrder m)
    then have wf: "ouch_wf core_OuchEnterOrder tags_OuchEnterOrder eo_appendage default_OuchEnterOrder m"
      using assms by (simp add: wf_OuchEnterOrder_def)
    show ?thesis using ouch_size_bound [OF wf] EnterOrder
      by (simp add: core_OuchEnterOrder_def tags_OuchEnterOrder_def default_OuchEnterOrder_def tag_types_def)
  next
    case (ReplaceOrder m)
    then have wf: "ouch_wf core_OuchReplaceOrder tags_OuchReplaceOrder rp_appendage default_OuchReplaceOrder m"
      using assms by (simp add: wf_OuchReplaceOrder_def)
    show ?thesis using ouch_size_bound [OF wf] ReplaceOrder
      by (simp add: core_OuchReplaceOrder_def tags_OuchReplaceOrder_def default_OuchReplaceOrder_def tag_types_def)
  next
    case (CancelOrder m)
    then have wf: "ouch_wf core_OuchCancelOrder tags_OuchCancelOrder xo_appendage default_OuchCancelOrder m"
      using assms by (simp add: wf_OuchCancelOrder_def)
    show ?thesis using ouch_size_bound [OF wf] CancelOrder
      by (simp add: core_OuchCancelOrder_def tags_OuchCancelOrder_def default_OuchCancelOrder_def tag_types_def)
  qed (use assms in simp)
  then show "2 \<le> encoded_size_inbound msg" "encoded_size_inbound msg \<le> 200" "msg \<noteq> InboundNone" using assms by auto
qed

lemma order_frame:
  assumes "wf_inbound msg" "3 + encoded_size_inbound msg \<le> length out"
  shows "take (fst (encode_soup_unsequenced msg out)) (snd (encode_soup_unsequenced msg out)) = soup_frame UNSEQUENCED_DATA (wire_inbound msg)"
    "length (wire_inbound msg) \<le> 200"
proof -
  note B = inbound_size_bound [OF assms(1)]
  have "0 < encoded_size_inbound msg" "encoded_size_inbound msg + 1 \<le> 65535" using B(1,2) by linarith+
  note E = encode_unsequenced_frame [OF B(3) this assms(2)]
  show "take (fst (encode_soup_unsequenced msg out)) (snd (encode_soup_unsequenced msg out)) = soup_frame UNSEQUENCED_DATA (wire_inbound msg)"
    unfolding E(1) by (rule E(2))
  show "length (wire_inbound msg) \<le> 200" using B(2) by (simp add: encoded_size_inbound_wire)
qed

lemma frame_short:
  assumes "length payload \<le> 509"
  shows "short_stream (soup_frame type payload)"
proof -
  have l: "unat (load_u16 (soup_frame type payload)) = length payload + 1" using load_u16_frame [of payload type "[]"] assms by simp
  have p: "parse_soup_packet (soup_frame type payload) = \<lparr> spr_status = PACKET,
      spr_packet = \<lparr> sp_type = type, sp_payload = payload \<rparr>, spr_consumed = 3 + length payload \<rparr>"
    using parse_frame [of payload type "[]"] assms by simp
  have "short_stream []" by (subst short_stream.simps) simp
  then show ?thesis using assms l p
    by (subst short_stream.simps) (simp add: too_long_def packet_len_def kMaxInboundSoupPacket_def)
qed

lemma read_order:
  assumes "wf_inbound msg" "length (wire_inbound msg) \<le> 200" "ic_open c" "\<not> ic_closing c" "ic_logged_in c" "blank c = c"
  shows "read_stream (soup_frame UNSEQUENCED_DATA (wire_inbound msg)) stamps c s
    = map_option (\<lambda>s1. (c, s1)) (handle_ouch (ic_client_id c) msg stamps s)"
proof -
  let ?w = "wire_inbound msg"
  have p: "parse_soup_packet (soup_frame UNSEQUENCED_DATA ?w) = \<lparr> spr_status = PACKET,
      spr_packet = \<lparr> sp_type = UNSEQUENCED_DATA, sp_payload = ?w \<rparr>, spr_consumed = 3 + length ?w \<rparr>"
    using parse_frame [of ?w UNSEQUENCED_DATA "[]"] assms(2) by simp
  have h: "handle_soup_packet \<lparr> sp_type = UNSEQUENCED_DATA, sp_payload = ?w \<rparr> stamps c s
      = map_option (\<lambda>s1. (True, c, s1)) (handle_ouch (ic_client_id c) msg stamps s)"
    using assms(3-5) decode_inbound_wire [OF assms(1)]
    by (cases "handle_ouch (ic_client_id c) msg stamps s") (simp_all add: handle_soup_packet_def soup_type_defs)
  have stop: "read_stream [] stamps c s1 = Some (c, s1)" for s1
    using assms(6) by (subst read_stream.simps) (simp add: keep_def blank_def)
  show ?thesis using p h stop
    by (subst read_stream.simps) (cases "handle_ouch (ic_client_id c) msg stamps s"; simp)
qed

subsection \<open>A small server\<close>

abbreviation demo_inbound :: "nat Inbound" where "demo_inbound \<equiv> demo_empty 0"

abbreviation demo_conn :: "nat InboundConnection" where "demo_conn \<equiv> demo_open 3"

lemma demo_inbound_reachable: "in_reachable id demo_inbound"
  by (rule in_run_reachable [OF demo_empty_run])

lemma demo_conn_ok: "conn_ok demo_conn" "ic_open demo_conn" "\<not> ic_closing demo_conn" "pending_bytes demo_conn = []"
  by (simp_all add: demo_open_def conn_ok_def pending_bytes_def new_InboundConnection_def)

subsection \<open>Properties\<close>

text \<open>
  C11. Reassembly does not depend on how TCP cuts the stream: for any segmentation of a stream without a packet
  longer than a client may send, the connection and the thread end up as if the whole stream, after the bytes already held,
  had been read packet by packet, so two segmentations of one stream end alike. The bytes of the
  buffer beyond those held are left out of the comparison.
\<close>

theorem segmentation_independent:
  assumes "conn_ok c" "ic_open c" "\<not> ic_closing c" "short_stream (pending_bytes c @ concat segments)"
  shows "strip_all (receive segments stamps c s) = read_stream (pending_bytes c @ concat segments) stamps (blank c) s
    \<and> (\<forall>segments'. concat segments' = concat segments \<longrightarrow>
         strip_all (receive segments' stamps c s) = strip_all (receive segments stamps c s))"
  using receive_stream [OF assms] receive_stream [OF assms(1-3)] assms(4) by metis

theorem segmentation_independent_witness:
  "strip_all (receive [[0], [], [1, 82], [0, 1]] demo_stamps demo_conn demo_inbound)
   = strip_all (receive [[0, 1, 82, 0], [1]] demo_stamps demo_conn demo_inbound)"
proof -
  have "parse_soup_packet [0, 1] = no_packet INCOMPLETE" "too_long [0, 1] = False" "too_long [0, 1, 82, 0, 1] = False"
    "parse_soup_packet [0, 1, 82, 0, 1] = \<lparr> spr_status = PACKET, spr_packet = \<lparr> sp_type = 82, sp_payload = [] \<rparr>, spr_consumed = 3 \<rparr>"
    by code_simp+
  then have "short_stream [0, 1, 82, 0, 1]" by (subst short_stream.simps, subst short_stream.simps) (simp add: no_packet_def)
  then show ?thesis
    using segmentation_independent [OF demo_conn_ok(1-3), of "[[0, 1, 82, 0], [1]]" demo_stamps demo_inbound] demo_conn_ok(4)
    by (simp del: receive.simps)
qed

text \<open>
  C17. The inbound thread never gets stuck and never leaves its arrays: from every state it reaches, a turn with
  any bursts of TCP events for its slots, whatever their bytes, runs to its end, no spin on a full ring lasts, and every
  request sent to the engine names a client within the per-client arrays.
\<close>

theorem inbound_never_stuck:
  assumes "in_reachable slot s" "\<forall>(events, stamps)\<in>set bursts. \<forall>event\<in>set events. slot (event_conn event) < kMaxConnections"
  shows "\<exists>scan_tsc' s'. inbound_turn slot clock bursts now (scan_tsc, s) = Some (scan_tsc', s')
    \<and> (\<forall>req\<in>set (channel_sent (in_ring s')). 0 < rq_client_id req \<and> rq_client_id req \<le> MAX_CLIENTS)"
proof -
  have "in_inv s" using in_reachable_inv [OF assms(1)] by blast
  from inbound_turn_inv [OF this assms(2)] obtain r where r: "inbound_turn slot clock bursts now (scan_tsc, s) = Some r" "in_inv (snd r)" by blast
  then have "\<forall>req\<in>set (channel_sent (in_ring (snd r))). client_range (rq_client_id req)" by (simp add: in_inv_def in_ok_def)
  then show ?thesis using r(1) by (cases r) (simp add: client_range_def)
qed

theorem inbound_never_stuck_witness:
  "\<exists>scan_tsc' s'. inbound_turn id demo_clock [([TcpAccepted 3, TcpData 3 [0, 0], TcpReset 3], demo_stamps)] 50 (0, demo_inbound)
     = Some (scan_tsc', s') \<and> (\<forall>req\<in>set (channel_sent (in_ring s')). 0 < rq_client_id req \<and> rq_client_id req \<le> MAX_CLIENTS)"
  by (rule inbound_never_stuck [OF demo_inbound_reachable]) (simp add: kMaxConnections_def MAX_CLIENTS_def)

text \<open>
  C10. A session belongs to one connection: in every state the thread reaches, a session is marked connected exactly when
  one connection, and only one, is logged in to it. So a second login is refused while the session is in use, and a session is free
  again however its connection ended.
\<close>

theorem one_connection_per_session:
  assumes "in_reachable slot s" "k \<le> unat MAX_CLIENTS"
  shows "in_sessions s ! k \<longleftrightarrow> (\<exists>!i. i < kMaxConnections \<and> ic_logged_in (in_connections s ! i) \<and> unat (ic_client_id (in_connections s ! i)) = k)"
proof -
  have inv: "in_inv s" "sessions_held s" using in_reachable_inv [OF assms(1)] by simp_all
  note len = inv(1) [unfolded in_inv_def, THEN conjunct2, THEN conjunct1]
  have own: "in_sessions s ! k" if "i < kMaxConnections" "holds_session (in_connections s ! i) k" for i
    using holds_session_range [OF in_inv_nth(3) [OF inv(1) that(1)] that(2)] by simp
  have some: "\<exists>i < kMaxConnections. holds_session (in_connections s ! i) k" if "in_sessions s ! k"
    using inv(2) assms(2) that len by (simp add: sessions_held_def)
  have uniq: "i = j" if "i < kMaxConnections" "j < kMaxConnections" "holds_session (in_connections s ! i) k" "holds_session (in_connections s ! j) k" for i j
    using inv(1) that by (simp add: in_inv_def)
  show ?thesis unfolding holds_session_def [symmetric] using own some uniq by metis
qed

theorem one_connection_per_session_witness:
  "\<exists>s. in_reachable id s \<and> in_sessions s ! 1
     \<and> (\<exists>!i. i < kMaxConnections \<and> ic_logged_in (in_connections s ! i) \<and> unat (ic_client_id (in_connections (s :: nat Inbound) ! i)) = 1)"
proof -
  obtain s :: "nat Inbound" where "in_reachable id s" "in_sessions s ! 1"
    using demo_logged_in [of id "3 :: nat"] in_run_reachable by (fastforce simp: kMaxConnections_def MAX_CLIENTS_def)
  then show ?thesis using one_connection_per_session [of id s 1] by (auto simp: MAX_CLIENTS_def)
qed

text \<open>
  C18. A session's log gives back what was appended to it: after any packets that each fit, replaying from a sequence
  number the log still offers yields exactly the bytes of that packet and all later ones, and the log still
  offers every sequence number whose suffix fits its byte ring and its index ring.
\<close>

theorem session_log_replays:
  assumes "unat cap = 2 ^ k" "5 < k" "k < 63" "\<forall>p\<in>set packets. length p < 2 ^ k" "length (concat packets) < 2 ^ 63" "length packets + 1 < 2 ^ 64"
  shows "\<exists>lg. run_all log_append packets (new_SessionLog cap) = Some lg
    \<and> (\<forall>sn off. offset_of sn lg = Some off \<longrightarrow> replay 2 off lg = Some (concat (drop (unat sn - 1) packets)))
    \<and> (\<forall>n. 1 \<le> n \<longrightarrow> n \<le> length packets + 1 \<longrightarrow> fits k packets n \<longrightarrow> offset_of (of_nat n) lg \<noteq> None)"
proof -
  obtain lg where lg: "run_all log_append packets (new_SessionLog cap) = Some lg" "log_inv k packets lg"
    "\<forall>n. 1 \<le> n \<longrightarrow> n < unat (first_sequence lg) \<longrightarrow> \<not> fits k packets n" using log_run [OF assms] by blast
  have "offset_of (of_nat n) lg \<noteq> None" if n: "1 \<le> n" "n \<le> length packets + 1" "fits k packets n" for n
  proof -
    have "unat (of_nat n :: u64) = n" using n(2) assms(6) by (intro unat_of_nat_small) simp
    then show ?thesis using offset_of_spec [OF lg(2), of "of_nat n"] n lg(3) by (auto simp: not_less [symmetric])
  qed
  then show ?thesis using lg(1) replay_from_sequence [OF lg(2)] by blast
qed

theorem session_log_replays_witness:
  "\<exists>lg. run_all log_append [replicate 40 1, replicate 40 2] (new_SessionLog 64) = Some lg
    \<and> (\<forall>sn off. offset_of sn lg = Some off \<longrightarrow> replay 2 off lg = Some (concat (drop (unat sn - 1) [replicate 40 1, replicate 40 2])))
    \<and> (\<forall>n. 1 \<le> n \<longrightarrow> n \<le> 3 \<longrightarrow> fits 6 [replicate 40 1, replicate 40 2] n \<longrightarrow> offset_of (of_nat n) lg \<noteq> None)"
  using session_log_replays [of 64 6 "[replicate 40 1, replicate 40 2]"] by (simp add: numeral_3_eq_3)

text \<open>
  C39. A login request survives the wire: encoded into a buffer with room and followed by anything, it is read back as
  one login packet of the length reported, and decoding its payload gives the same request.
\<close>

theorem login_roundtrip:
  assumes "wf_login req" "49 \<le> length out"
  shows "fst (encode_soup_login_request req out) = 49
    \<and> (\<exists>payload. parse_soup_packet (take 49 (snd (encode_soup_login_request req out)) @ rear)
        = \<lparr> spr_status = PACKET, spr_packet = \<lparr> sp_type = LOGIN_REQUEST, sp_payload = payload \<rparr>, spr_consumed = 49 \<rparr>
      \<and> decode_soup_login_request payload = Some req)"
  using login_frame_parsed [OF assms] by blast

theorem login_roundtrip_witness:
  "\<exists>payload. parse_soup_packet (take 49 (snd (encode_soup_login_request demo_login (replicate 60 0))) @ [0, 7])
        = \<lparr> spr_status = PACKET, spr_packet = \<lparr> sp_type = LOGIN_REQUEST, sp_payload = payload \<rparr>, spr_consumed = 49 \<rparr>
      \<and> decode_soup_login_request payload = Some demo_login"
  using login_roundtrip [of demo_login "replicate 60 0" "[0, 7]"] by (simp add: wf_login_def demo_login_def)

text \<open>
  C40. An order a client encodes reaches order entry unchanged: on a logged-in connection that holds nothing back, the
  packet of a well-formed request, in any segments, does exactly what handling that request for the connection's client does.
\<close>

theorem order_reaches_entry:
  assumes "wf_inbound msg" "3 + encoded_size_inbound msg \<le> length out" "conn_ok c" "ic_open c" "\<not> ic_closing c" "ic_logged_in c" "ic_partial_len c = 0"
    and "concat segments = take (fst (encode_soup_unsequenced msg out)) (snd (encode_soup_unsequenced msg out))"
  shows "strip_all (receive segments stamps c s) = map_option (\<lambda>s1. (blank c, s1)) (handle_ouch (ic_client_id c) msg stamps s)"
proof -
  note F = order_frame [OF assms(1,2)]
  have p: "pending_bytes c = []" using assms(7) by (simp add: pending_bytes_def)
  have b: "blank (blank c) = blank c" "ic_logged_in (blank c)" "ic_client_id (blank c) = ic_client_id c"
    using assms(6) by (simp_all add: blank_def)
  have sh: "short_stream (soup_frame UNSEQUENCED_DATA (wire_inbound msg))" by (rule frame_short) (use F(2) in simp)
  have "strip_all (receive segments stamps c s) = read_stream (soup_frame UNSEQUENCED_DATA (wire_inbound msg)) stamps (blank c) s"
    using receive_stream [OF assms(3-5), of segments stamps s] assms(8) F(1) p sh by simp
  then show ?thesis using read_order [OF assms(1) F(2), of "blank c" stamps s] assms(4,5) b by simp
qed

theorem order_reaches_entry_witness:
  "\<exists>segments. length segments = 2
     \<and> strip_all (receive segments demo_stamps (demo_conn\<lparr>ic_logged_in := True, ic_client_id := 1\<rparr>) demo_inbound)
       = map_option (\<lambda>s1. (blank (demo_conn\<lparr>ic_logged_in := True, ic_client_id := 1\<rparr>), s1))
           (handle_ouch 1 (CancelOrder sample_cancel) demo_stamps demo_inbound)"
proof -
  let ?e = "encode_soup_unsequenced (CancelOrder sample_cancel) (replicate 40 0)" let ?bytes = "take (fst ?e) (snd ?e)"
  let ?c = "demo_conn\<lparr>ic_logged_in := True, ic_client_id := 1\<rparr>"
  have c: "conn_ok ?c" "ic_open ?c" "\<not> ic_closing ?c" "ic_logged_in ?c" "ic_partial_len ?c = 0" "ic_client_id ?c = 1"
    using demo_conn_ok by (simp_all add: conn_ok_def pending_bytes_def demo_open_def new_InboundConnection_def)
  have wf: "wf_inbound (CancelOrder sample_cancel)" using sample_cancel_ok(1) by simp
  have len: "3 + encoded_size_inbound (CancelOrder sample_cancel) \<le> length (replicate 40 (0 :: byte))"
    using sample_cancel_ok(2) by (simp del: encoded_size_inbound.simps)
  have "concat [take 5 ?bytes, drop 5 ?bytes] = ?bytes" by (simp only: concat.simps append_Nil2 append_take_drop_id)
  from order_reaches_entry [OF wf len c(1-5) this, of demo_stamps demo_inbound] show ?thesis
    unfolding c(6) by (intro exI [of _ "[take 5 ?bytes, drop 5 ?bytes]"] conjI) simp_all
qed

end
