(* ===== verification/Latency.thy ===== *)
theory Latency
  imports Tsc_Clock
begin

text \<open>
  The latency samples of the outbound thread (\<open>server/include/latency.hpp\<close>). The histograms are an external
  library's: a histogram is a value of any type and recording into it is a parameter. The build turns the stage
  histograms on.
\<close>

definition LATENCY_SAMPLE_DROP :: u64 where "LATENCY_SAMPLE_DROP = 5"
definition kMaxTrackableNs :: int where "kMaxTrackableNs = 1000000000"

record PendingLatency =
  pl_t0 :: Timestamp
  pl_t1 :: Timestamp
  pl_t2 :: Timestamp
  pl_t3 :: Timestamp
  pl_t4 :: Timestamp
  pl_t5 :: Timestamp

record LatencySample = PendingLatency +
  ls_t6 :: Timestamp
  ls_t7 :: Timestamp

datatype Stage = kEndToEnd | kRxBurst | kInboundThread | kInboundRing | kEngine | kOutboundRing | kOutboundThread | kTxBurst

record 'h LatencyHandler =
  lat_histograms :: "Stage \<Rightarrow> 'h"
  lat_seen :: u64
  lat_recorded :: u64

definition new_LatencyHandler :: "'h \<Rightarrow> 'h LatencyHandler" where
  "new_LatencyHandler h = \<lparr> lat_histograms = (\<lambda>_. h), lat_seen = 0, lat_recorded = 0 \<rparr>"

text \<open>The nanoseconds are read as a signed number, and only the upper end is clamped.\<close>

definition stage_ns :: "TscClock \<Rightarrow> Timestamp \<Rightarrow> Timestamp \<Rightarrow> int" where
  "stage_ns clock from to =
     (let ns = (if to > from then sint (ticks_to_ns clock (to - from)) else 0)
      in if ns < kMaxTrackableNs then ns else kMaxTrackableNs)"

definition record_stage ::
  "TscClock \<Rightarrow> (int \<Rightarrow> 'h \<Rightarrow> 'h) \<Rightarrow> Stage \<Rightarrow> Timestamp \<Rightarrow> Timestamp \<Rightarrow> 'h LatencyHandler \<Rightarrow> 'h LatencyHandler" where
  "record_stage clock hdr stage from to l =
     l\<lparr>lat_histograms := (lat_histograms l)(stage := hdr (stage_ns clock from to) (lat_histograms l stage))\<rparr>"

definition record_sample :: "TscClock \<Rightarrow> (int \<Rightarrow> 'h \<Rightarrow> 'h) \<Rightarrow> LatencySample \<Rightarrow> 'h LatencyHandler \<Rightarrow> 'h LatencyHandler" where
  "record_sample clock hdr s l =
     (let l1 = l\<lparr>lat_seen := lat_seen l + 1\<rparr> in
      if lat_seen l1 \<le> LATENCY_SAMPLE_DROP then l1
      else let l2 = l1\<lparr>lat_recorded := lat_recorded l1 + 1\<rparr>;
               l3 = record_stage clock hdr kEndToEnd (pl_t0 s) (ls_t7 s) l2;
               l4 = record_stage clock hdr kRxBurst (pl_t0 s) (pl_t1 s) l3;
               l5 = record_stage clock hdr kInboundThread (pl_t1 s) (pl_t2 s) l4;
               l6 = record_stage clock hdr kInboundRing (pl_t2 s) (pl_t3 s) l5;
               l7 = record_stage clock hdr kEngine (pl_t3 s) (pl_t4 s) l6;
               l8 = record_stage clock hdr kOutboundRing (pl_t4 s) (pl_t5 s) l7;
               l9 = record_stage clock hdr kOutboundThread (pl_t5 s) (ls_t6 s) l8
           in record_stage clock hdr kTxBurst (ls_t6 s) (ls_t7 s) l9)"

end
