(* ===== verification/Server_Outbound.thy ===== *)
theory Server_Outbound
  imports Server_Inbound Ouch_Responder Session_Log Latency
begin

text \<open>
  The outbound thread of the server (\<open>server/src/server.cpp\<close>, \<open>server/include/server.hpp\<close>): notes and engine
  events become packets in the session logs, and the logs go out on the connections. The TCP stack and the histogram library
  are not part of the repository: their operations, with the state \<open>'n\<close> of the stack's sending side, are the fields of
  an environment. The fields \<open>out_sent\<close> and \<open>out_closed\<close> record what the stack was given and accepted, and every
  \<open>__rdtsc()\<close> takes the next of a stream of readings. An index out of range, an empty pointer and an asserted
  precondition of the log are the \<^term>\<open>None\<close> results.
\<close>

subsection \<open>State\<close>

definition kOutboundBatch :: nat where "kOutboundBatch = 32"
definition kMaxControlPacket :: nat where "kMaxControlPacket = 64"
definition kMaxPendingSamples :: nat where "kMaxPendingSamples = 64"
definition kMaxSoupPacket :: nat where "kMaxSoupPacket = 256"

record ('c, 'n, 'h) OutEnv =
  tcp_slot :: "'c \<Rightarrow> nat"
  tcp_generation :: "'c \<Rightarrow> u32"
  tcp_send :: "'c \<Rightarrow> byte list \<Rightarrow> 'n \<Rightarrow> nat \<times> 'n"
  tcp_sendable :: "'c \<Rightarrow> 'n \<Rightarrow> bool"
  tcp_close :: "'c \<Rightarrow> 'n \<Rightarrow> 'n"
  hdr_record :: "int \<Rightarrow> 'h \<Rightarrow> 'h"
  env_clock :: TscClock

record 'c OutboundConnection =
  cx_conn :: 'c
  cx_open :: bool
  cx_close_when_flushed :: bool
  cx_dirty :: bool
  cx_client_id :: ClientId
  cx_last_sent_tsc :: Timestamp
  cx_control_len :: u8
  cx_control_sent :: u8
  cx_control :: "byte list"
  cx_closed_generation :: u32

definition new_OutboundConnection :: "'c \<Rightarrow> 'c OutboundConnection" where
  "new_OutboundConnection conn = \<lparr> cx_conn = conn, cx_open = False, cx_close_when_flushed = False, cx_dirty = False, cx_client_id = 0,
     cx_last_sent_tsc = 0, cx_control_len = 0, cx_control_sent = 0, cx_control = replicate kMaxControlPacket 0,
     cx_closed_generation = 0 \<rparr>"

record PendingSample =
  ps_end_offset :: u64
  ps_latency :: PendingLatency

record OutboundSession =
  ss_log :: "SessionLog option"
  ss_slot :: "nat option"
  ss_cursor :: u64
  ss_samples :: "PendingSample list"
  ss_samples_head :: nat
  ss_samples_count :: nat

definition new_OutboundSession :: OutboundSession where
  "new_OutboundSession = \<lparr> ss_log = None, ss_slot = None, ss_cursor = 0,
     ss_samples = replicate kMaxPendingSamples \<lparr> ps_end_offset = 0,
       ps_latency = \<lparr> pl_t0 = 0, pl_t1 = 0, pl_t2 = 0, pl_t3 = 0, pl_t4 = 0, pl_t5 = 0 \<rparr> \<rparr>,
     ss_samples_head = 0, ss_samples_count = 0 \<rparr>"

record ('c, 'n, 'h) Outbound =
  out_connections :: "'c OutboundConnection list"
  out_dirty :: "nat list"
  out_sessions :: "OutboundSession list"
  out_scratch :: "byte list"
  out_responder :: OuchResponder
  out_retained_from :: "u64 list"
  out_latency :: "'h LatencyHandler"
  out_net :: 'n
  out_tsc_reads :: "nat \<Rightarrow> Timestamp"
  out_sent :: "('c \<times> byte list) list"
  out_closed :: "'c list"

definition new_Outbound :: "'c \<Rightarrow> 'h \<Rightarrow> 'n \<Rightarrow> (nat \<Rightarrow> Timestamp) \<Rightarrow> ('c, 'n, 'h) Outbound" where
  "new_Outbound no_conn hist net reads = \<lparr> out_connections = replicate kMaxConnections (new_OutboundConnection no_conn), out_dirty = [],
     out_sessions = replicate (unat MAX_CLIENTS + 1) new_OutboundSession, out_scratch = replicate kMaxSoupPacket 0,
     out_responder = Map.empty, out_retained_from = replicate (unat MAX_CLIENTS + 1) 0,
     out_latency = new_LatencyHandler hist, out_net = net, out_tsc_reads = reads, out_sent = [], out_closed = [] \<rparr>"

subsection \<open>Access\<close>

definition at_index :: "'a list \<Rightarrow> nat \<Rightarrow> 'a option" where
  "at_index xs i = (if i < length xs then Some (xs ! i) else None)"

definition set_connection :: "nat \<Rightarrow> 'c OutboundConnection \<Rightarrow> ('c, 'n, 'h) Outbound \<Rightarrow> ('c, 'n, 'h) Outbound" where
  "set_connection i c s = s\<lparr>out_connections := (out_connections s)[i := c]\<rparr>"

definition set_session :: "ClientId \<Rightarrow> OutboundSession \<Rightarrow> ('c, 'n, 'h) Outbound \<Rightarrow> ('c, 'n, 'h) Outbound" where
  "set_session k session s = s\<lparr>out_sessions := (out_sessions s)[unat k := session]\<rparr>"

definition rdtsc :: "('c, 'n, 'h) Outbound \<Rightarrow> Timestamp \<times> ('c, 'n, 'h) Outbound" where
  "rdtsc s = (out_tsc_reads s 0, s\<lparr>out_tsc_reads := (\<lambda>k. out_tsc_reads s (Suc k))\<rparr>)"

definition send_bytes :: "('c, 'n, 'h) OutEnv \<Rightarrow> 'c \<Rightarrow> byte list \<Rightarrow> ('c, 'n, 'h) Outbound \<Rightarrow> nat \<times> ('c, 'n, 'h) Outbound" where
  "send_bytes env conn bytes s =
     (let (n, net) = tcp_send env conn bytes (out_net s)
      in (n, s\<lparr>out_net := net, out_sent := out_sent s @ [(conn, take n bytes)]\<rparr>))"

subsection \<open>Queueing packets\<close>

definition mark_dirty :: "('c, 'n, 'h) OutEnv \<Rightarrow> nat \<Rightarrow> ('c, 'n, 'h) Outbound \<Rightarrow> ('c, 'n, 'h) Outbound option" where
  "mark_dirty env i s = do {
     c \<leftarrow> at_index (out_connections s) i;
     if cx_dirty c then Some s
     else Some ((set_connection i (c\<lparr>cx_dirty := True\<rparr>) s)\<lparr>out_dirty := out_dirty s @ [tcp_slot env (cx_conn c)]\<rparr>) }"

definition send_control :: "('c, 'n, 'h) OutEnv \<Rightarrow> nat \<Rightarrow> byte list \<Rightarrow> ('c, 'n, 'h) Outbound \<Rightarrow> ('c, 'n, 'h) Outbound option" where
  "send_control env i packet s = do {
     c \<leftarrow> at_index (out_connections s) i;
     if length packet > length (cx_control c) then None
     else mark_dirty env i (set_connection i (c\<lparr>cx_control := splice 0 packet (cx_control c),
            cx_control_len := of_nat (length packet), cx_control_sent := 0\<rparr>) s) }"

definition open_connection :: "('c, 'n, 'h) OutEnv \<Rightarrow> 'c \<Rightarrow> ('c, 'n, 'h) Outbound \<Rightarrow> ('c, 'n, 'h) Outbound option" where
  "open_connection env conn s = do {
     c \<leftarrow> at_index (out_connections s) (tcp_slot env conn);
     let (now, s1) = rdtsc s in
     Some (set_connection (tcp_slot env conn) ((new_OutboundConnection conn)\<lparr>cx_open := True, cx_dirty := cx_dirty c,
            cx_closed_generation := cx_closed_generation c, cx_last_sent_tsc := now\<rparr>) s1) }"

definition close_connection :: "('c, 'n, 'h) OutEnv \<Rightarrow> 'c \<Rightarrow> ('c, 'n, 'h) Outbound \<Rightarrow> ('c, 'n, 'h) Outbound option" where
  "close_connection env conn s =
     (let i = tcp_slot env conn in do {
        c \<leftarrow> at_index (out_connections s) i;
        if cx_closed_generation c = tcp_generation env conn then Some s
        else
          let c1 = c\<lparr>cx_closed_generation := tcp_generation env conn\<rparr>;
              s1 = (set_connection i c1 s)\<lparr>out_net := tcp_close env conn (out_net s), out_closed := out_closed s @ [conn]\<rparr>
          in if cx_conn c1 \<noteq> conn \<or> \<not> cx_open c1 then Some s1
          else do {
            s2 \<leftarrow> (if cx_client_id c1 = 0 then Some s1
                  else do {
                    session \<leftarrow> at_index (out_sessions s1) (unat (cx_client_id c1));
                    Some (if ss_slot session = Some i
                          then set_session (cx_client_id c1) (session\<lparr>ss_slot := None, ss_samples_count := 0\<rparr>) s1 else s1) });
            Some (set_connection i (c1\<lparr>cx_open := False, cx_client_id := 0, cx_control_len := 0, cx_control_sent := 0,
              cx_close_when_flushed := False\<rparr>) s2) } })"

definition add_sample :: "u64 \<Rightarrow> PendingLatency option \<Rightarrow> OutboundSession \<Rightarrow> OutboundSession" where
  "add_sample end latency session =
     (case latency of
        Some l \<Rightarrow>
          if ss_samples_count session < kMaxPendingSamples
          then let i = (ss_samples_head session + ss_samples_count session) mod kMaxPendingSamples
               in session\<lparr>ss_samples_count := ss_samples_count session + 1,
                          ss_samples := (ss_samples session)[i := \<lparr> ps_end_offset = end, ps_latency = l \<rparr>]\<rparr>
          else session
      | None \<Rightarrow> session)"

definition send_sequenced ::
  "('c, 'n, 'h) OutEnv \<Rightarrow> ClientId \<Rightarrow> byte list \<Rightarrow> PendingLatency option \<Rightarrow> ('c, 'n, 'h) Outbound \<Rightarrow> ('c, 'n, 'h) Outbound option" where
  "send_sequenced env client packet latency s = do {
     session \<leftarrow> at_index (out_sessions s) (unat client);
     case ss_log session of
       None \<Rightarrow> Some s
     | Some lg \<Rightarrow> do {
         s1 \<leftarrow> (case ss_slot session of
                  Some i \<Rightarrow>
                    if would_overwrite (ss_cursor session) (of_nat (length packet)) lg
                    then do { c \<leftarrow> at_index (out_connections s) i; close_connection env (cx_conn c) s }
                    else Some s
                | None \<Rightarrow> Some s);
         session1 \<leftarrow> at_index (out_sessions s1) (unat client);
         lg1 \<leftarrow> log_append packet lg;
         let s2 = set_session client (session1\<lparr>ss_log := Some lg1\<rparr>)
                    (if first_sequence lg1 \<noteq> first_sequence lg
                     then s1\<lparr>out_retained_from := (out_retained_from s1)[unat client := first_sequence lg1]\<rparr> else s1)
         in case ss_slot session1 of
              None \<Rightarrow> Some s2
            | Some i \<Rightarrow> mark_dirty env i (set_session client (add_sample (end_offset lg1) latency (session1\<lparr>ss_log := Some lg1\<rparr>)) s2) } }"

definition send_ouch ::
  "('c, 'n, 'h) OutEnv \<Rightarrow> OuchResponse \<Rightarrow> PendingLatency option \<Rightarrow> ('c, 'n, 'h) Outbound \<Rightarrow> ('c, 'n, 'h) Outbound option" where
  "send_ouch env response latency s =
     (let (len, scratch) = encode_soup_sequenced (rs_ouch response) (out_scratch s);
          s1 = s\<lparr>out_scratch := scratch\<rparr>
      in if len = 0 then Some s1 else send_sequenced env (rs_client_id response) (take len scratch) latency s1)"

definition reject_packet :: "byte \<Rightarrow> byte list" where
  "reject_packet reason = (let (n, packet) = encode_soup_login_rejected reason (replicate (kSoupHeaderLen + 1) 0) in take n packet)"

definition accept_packet :: "u64 \<Rightarrow> byte list" where
  "accept_packet start =
     (let (n, packet) = encode_soup_login_accepted \<lparr> sa_session = soup_session_id session_name, sa_sequence_number = start \<rparr>
                          (replicate (kSoupHeaderLen + kSoupLoginAcceptedLen) 0)
      in take n packet)"

text \<open>A rejected connection closes once the rejection is out.\<close>

definition turn_away :: "('c, 'n, 'h) OutEnv \<Rightarrow> nat \<Rightarrow> byte \<Rightarrow> ('c, 'n, 'h) Outbound \<Rightarrow> ('c, 'n, 'h) Outbound option" where
  "turn_away env i reason s = do {
     s1 \<leftarrow> send_control env i (reject_packet reason) s;
     c \<leftarrow> at_index (out_connections s1) i;
     Some (set_connection i (c\<lparr>cx_close_when_flushed := True\<rparr>) s1) }"

definition session_log :: "ClientId \<Rightarrow> ('c, 'n, 'h) Outbound \<Rightarrow> (SessionLog \<times> ('c, 'n, 'h) Outbound) option" where
  "session_log client s = do {
     session \<leftarrow> at_index (out_sessions s) (unat client);
     Some (case ss_log session of
             Some lg \<Rightarrow> (lg, s)
           | None \<Rightarrow>
               let lg = new_SessionLog SOUP_REPLAY_BYTES
               in (lg, (set_session client (session\<lparr>ss_log := Some lg\<rparr>) s)
                         \<lparr>out_retained_from := (out_retained_from s)[unat client := first_sequence lg]\<rparr>)) }"

definition accept_login :: "('c, 'n, 'h) OutEnv \<Rightarrow> 'c \<Rightarrow> ClientId \<Rightarrow> u64 \<Rightarrow> ('c, 'n, 'h) Outbound \<Rightarrow> ('c, 'n, 'h) Outbound option" where
  "accept_login env conn client sequence s = do {
     (lg, s1) \<leftarrow> session_log client s;
     s2 \<leftarrow> open_connection env conn s1;
     let i = tcp_slot env conn;
         start = (if sequence = 0 \<or> sequence > next_sequence lg then next_sequence lg else sequence)
     in case offset_of start lg of
          None \<Rightarrow> turn_away env i kSessionNotAvailable s2
        | Some offset \<Rightarrow> do {
            c \<leftarrow> at_index (out_connections s2) i;
            session \<leftarrow> at_index (out_sessions s2) (unat client);
            send_control env i (accept_packet start)
              (set_session client (session\<lparr>ss_slot := Some i, ss_cursor := offset, ss_samples_count := 0\<rparr>)
                (set_connection i (c\<lparr>cx_client_id := client\<rparr>) s2)) } }"

text \<open>A note of the three kinds that name a connection always carries it.\<close>

definition on_note :: "('c, 'n, 'h) OutEnv \<Rightarrow> 'c ServerNote \<Rightarrow> ('c, 'n, 'h) Outbound \<Rightarrow> ('c, 'n, 'h) Outbound option" where
  "on_note env note s =
     (case sn_kind note of
        NOTE_GATEWAY \<Rightarrow> do {
          gateway \<leftarrow> sn_gateway note;
          let (now, s1) = rdtsc s;
              (response, responder) = resp_on_note gateway (ns_since_midnight (env_clock env) now) (out_responder s1);
              s2 = s1\<lparr>out_responder := responder\<rparr>
          in case response of None \<Rightarrow> Some s2 | Some r \<Rightarrow> send_ouch env r None s2 }
      | NOTE_LOGIN_ACCEPTED \<Rightarrow> do { conn \<leftarrow> sn_conn note; accept_login env conn (sn_client_id note) (sn_sequence note) s }
      | NOTE_LOGIN_REJECTED \<Rightarrow> do {
          conn \<leftarrow> sn_conn note;
          s1 \<leftarrow> open_connection env conn s;
          turn_away env (tcp_slot env conn) (sn_reject_reason note) s1 }
      | NOTE_DISCONNECTED \<Rightarrow> do { conn \<leftarrow> sn_conn note; close_connection env conn s })"

subsection \<open>Sending\<close>

text \<open>The bytes of the log from the cursor on, as far as the stack takes them.\<close>

partial_function (option) send_log ::
  "('c, 'n, 'h) OutEnv \<Rightarrow> 'c \<Rightarrow> SessionLog \<Rightarrow> u64 \<Rightarrow> bool \<Rightarrow> ('c, 'n, 'h) Outbound \<Rightarrow> (u64 \<times> bool \<times> ('c, 'n, 'h) Outbound) option" where
  "send_log env conn lg cursor any s =
     (if cursor < end_offset lg then do {
        chunk \<leftarrow> contiguous_from cursor lg;
        (case send_bytes env conn chunk s of
           (n, s1) \<Rightarrow> if n = 0 then Some (cursor, any, s1) else send_log env conn lg (cursor + of_nat n) True s1) }
      else Some (cursor, any, s))"

function drain_samples ::
  "('c, 'n, 'h) OutEnv \<Rightarrow> Timestamp \<Rightarrow> Timestamp \<Rightarrow> OutboundSession \<Rightarrow> 'h LatencyHandler \<Rightarrow> (OutboundSession \<times> 'h LatencyHandler) option" where
  "drain_samples env t6 t7 session lat =
     (if ss_samples_count session = 0 then Some (session, lat)
      else case at_index (ss_samples session) (ss_samples_head session) of
        None \<Rightarrow> None
      | Some smp \<Rightarrow>
          if ps_end_offset smp \<le> ss_cursor session
          then drain_samples env t6 t7
                 (session\<lparr>ss_samples_head := (ss_samples_head session + 1) mod kMaxPendingSamples,
                          ss_samples_count := ss_samples_count session - 1\<rparr>)
                 (record_sample (env_clock env) (hdr_record env)
                    (PendingLatency.extend (ps_latency smp) (LatencySample.fields t6 t7)) lat)
          else Some (session, lat))"
  by pat_completeness auto
termination
  by (relation "measure (\<lambda>(env, t6, t7, session, lat). ss_samples_count session)") auto

declare drain_samples.simps [simp del]

definition flush_control :: "('c, 'n, 'h) OutEnv \<Rightarrow> nat \<Rightarrow> ('c, 'n, 'h) Outbound \<Rightarrow> (bool \<times> bool \<times> ('c, 'n, 'h) Outbound) option" where
  "flush_control env i s = do {
     c \<leftarrow> at_index (out_connections s) i;
     if cx_control_sent c < cx_control_len c then
       let (n, s1) = send_bytes env (cx_conn c)
                       (take (unat (cx_control_len c - cx_control_sent c)) (drop (unat (cx_control_sent c)) (cx_control c))) s;
           c1 = c\<lparr>cx_control_sent := cx_control_sent c + of_nat n\<rparr>
       in if cx_control_sent c1 = cx_control_len c1
          then Some (True, n > 0, set_connection i (c1\<lparr>cx_control_len := 0, cx_control_sent := 0\<rparr>) s1)
          else Some (False, n > 0, set_connection i c1 s1)
     else Some (True, False, s) }"

definition flush_session ::
  "('c, 'n, 'h) OutEnv \<Rightarrow> nat \<Rightarrow> Timestamp \<Rightarrow> bool \<Rightarrow> ('c, 'n, 'h) Outbound \<Rightarrow> (bool \<times> bool \<times> ('c, 'n, 'h) Outbound) option" where
  "flush_session env i t6 any s = do {
     c \<leftarrow> at_index (out_connections s) i;
     session \<leftarrow> at_index (out_sessions s) (unat (cx_client_id c));
     lg \<leftarrow> ss_log session;
     (cursor, any1, s1) \<leftarrow> send_log env (cx_conn c) lg (ss_cursor session) any s;
     let (t7, s2) = rdtsc s1 in do {
       (session1, lat) \<leftarrow> drain_samples env t6 t7 (session\<lparr>ss_cursor := cursor\<rparr>) (out_latency s2);
       Some (cursor = end_offset lg, any1, (set_session (cx_client_id c) session1 s2)\<lparr>out_latency := lat\<rparr>) } }"

definition stamp_sent :: "nat \<Rightarrow> bool \<Rightarrow> ('c, 'n, 'h) Outbound \<Rightarrow> ('c, 'n, 'h) Outbound option" where
  "stamp_sent i any s =
     (if any then do {
        c \<leftarrow> at_index (out_connections s) i;
        let (now, s1) = rdtsc s in Some (set_connection i (c\<lparr>cx_last_sent_tsc := now\<rparr>) s1) }
      else Some s)"

definition flush_connection :: "('c, 'n, 'h) OutEnv \<Rightarrow> nat \<Rightarrow> ('c, 'n, 'h) Outbound \<Rightarrow> (bool \<times> ('c, 'n, 'h) Outbound) option" where
  "flush_connection env i s =
     (let (t6, s0) = rdtsc s in do {
        (sent, any, s1) \<leftarrow> flush_control env i s0;
        c \<leftarrow> at_index (out_connections s1) i;
        (sent1, any1, s2) \<leftarrow> (if sent \<and> cx_client_id c \<noteq> 0 then flush_session env i t6 any s1 else Some (sent, any, s1));
        s3 \<leftarrow> stamp_sent i any1 s2;
        c3 \<leftarrow> at_index (out_connections s3) i;
        if \<not> sent1 then Some (\<not> tcp_sendable env (cx_conn c3) (out_net s3), s3)
        else if cx_close_when_flushed c3 then map_option (\<lambda>s4. (True, s4)) (close_connection env (cx_conn c3) s3)
        else Some (True, s3) })"

fun flush_slots :: "('c, 'n, 'h) OutEnv \<Rightarrow> nat list \<Rightarrow> nat list \<Rightarrow> ('c, 'n, 'h) Outbound \<Rightarrow> (nat list \<times> ('c, 'n, 'h) Outbound) option" where
  "flush_slots env [] kept s = Some (kept, s)"
| "flush_slots env (slot # slots) kept s = do {
     c \<leftarrow> at_index (out_connections s) slot;
     (sent, s1) \<leftarrow> (if cx_open c then flush_connection env slot s else Some (True, s));
     if \<not> sent then flush_slots env slots (kept @ [slot]) s1
     else do {
       c1 \<leftarrow> at_index (out_connections s1) slot;
       flush_slots env slots kept (set_connection slot (c1\<lparr>cx_dirty := False\<rparr>) s1) } }"

definition flush :: "('c, 'n, 'h) OutEnv \<Rightarrow> ('c, 'n, 'h) Outbound \<Rightarrow> ('c, 'n, 'h) Outbound option" where
  "flush env s = map_option (\<lambda>(kept, s1). s1\<lparr>out_dirty := kept\<rparr>) (flush_slots env (out_dirty s) [] s)"

subsection \<open>Heartbeats\<close>

definition heartbeat_packet :: "byte list" where
  "heartbeat_packet = snd (encode_soup_empty SERVER_HEARTBEAT (replicate kSoupHeaderLen 0))"

definition heartbeat_connection ::
  "('c, 'n, 'h) OutEnv \<Rightarrow> Timestamp \<Rightarrow> nat \<Rightarrow> ('c, 'n, 'h) Outbound \<Rightarrow> ('c, 'n, 'h) Outbound option" where
  "heartbeat_connection env now i s = do {
     c \<leftarrow> at_index (out_connections s) i;
     if \<not> cx_open c \<or> cx_client_id c = 0 \<or> cx_control_len c \<noteq> 0 then Some s
     else if ticks_to_ns (env_clock env) (now - min now (cx_last_sent_tsc c)) \<le> kSoupHeartbeatIntervalNs then Some s
     else do {
       session \<leftarrow> at_index (out_sessions s) (unat (cx_client_id c));
       lg \<leftarrow> ss_log session;
       if ss_cursor session \<noteq> end_offset lg then Some s else send_control env i heartbeat_packet s } }"

definition heartbeat :: "('c, 'n, 'h) OutEnv \<Rightarrow> Timestamp \<Rightarrow> ('c, 'n, 'h) Outbound \<Rightarrow> ('c, 'n, 'h) Outbound option" where
  "heartbeat env now s = run_all (heartbeat_connection env now) [0..<length (out_connections s)] s"

subsection \<open>The loop\<close>

definition on_event :: "('c, 'n, 'h) OutEnv \<Rightarrow> EngineEvent \<Rightarrow> 'c ServerNote list \<Rightarrow> ('c, 'n, 'h) Outbound \<Rightarrow> ('c, 'n, 'h) Outbound option" where
  "on_event env event drained s =
     (let (t5, s1) = rdtsc s in do {
        s2 \<leftarrow> run_all (on_note env) drained s1;
        (response, responder) \<leftarrow> resp_on_event event (ns_since_midnight (env_clock env) (ev_engine_push_tsc event)) (out_responder s2);
        let s3 = s2\<lparr>out_responder := responder\<rparr>;
            latency = (if ev_answers_request event \<and> ev_type event \<noteq> REJECTED
                       then Some \<lparr> pl_t0 = ev_read_begin_tsc event, pl_t1 = ev_recv_tsc event, pl_t2 = ev_server_push_tsc event,
                              pl_t3 = ev_engine_pop_tsc event, pl_t4 = ev_engine_push_tsc event, pl_t5 = t5 \<rparr>
                       else None)
        in case response of None \<Rightarrow> Some s3 | Some r \<Rightarrow> send_ouch env r latency s3 })"

text \<open>
  One turn of the loop: the notes of the first drain, then the events of the batch, each with the notes its own drain finds,
  then the sends and, when due, the heartbeats. What the two rings hold comes from outside.
\<close>

definition outbound_turn ::
  "('c, 'n, 'h) OutEnv \<Rightarrow> 'c ServerNote list \<Rightarrow> (EngineEvent \<times> 'c ServerNote list) list \<Rightarrow>
     Timestamp \<times> ('c, 'n, 'h) Outbound \<Rightarrow> (Timestamp \<times> ('c, 'n, 'h) Outbound) option" where
  "outbound_turn env drained batch r = do {
     s1 \<leftarrow> run_all (on_note env) drained (snd r);
     s2 \<leftarrow> run_all (\<lambda>(event, drained). on_event env event drained) (take kOutboundBatch batch) s1;
     s3 \<leftarrow> flush env s2;
     let (now, s4) = rdtsc s3 in
     if ticks_to_ns (env_clock env) (now - fst r) \<ge> kScanIntervalNs
     then map_option (\<lambda>s5. (now, s5)) (heartbeat env now s4)
     else Some (fst r, s4) }"

definition close_open :: "('c, 'n, 'h) OutEnv \<Rightarrow> nat \<Rightarrow> ('c, 'n, 'h) Outbound \<Rightarrow> ('c, 'n, 'h) Outbound option" where
  "close_open env i s = do {
     c \<leftarrow> at_index (out_connections s) i;
     if cx_open c then close_connection env (cx_conn c) s else Some s }"

definition outbound_end :: "('c, 'n, 'h) OutEnv \<Rightarrow> ('c, 'n, 'h) Outbound \<Rightarrow> ('c, 'n, 'h) Outbound option" where
  "outbound_end env s = run_all (close_open env) [0..<length (out_connections s)] s"

end
