(* ===== verification/Outbound_Inv.thy ===== *)
theory Outbound_Inv
  imports Server_Outbound Server_Notes
begin

text \<open>
  What holds in every state of the outbound thread. A connection that is logged in has been given Login Accepted and then the messages of its session in
  order, from the one asked for, with heartbeats between packets: the bytes the TCP stack has accepted, those waiting
  in the control buffer and the log from the cursor on are together such a stream. And every connection is closed once.
\<close>

subsection \<open>What is assumed of the TCP stack\<close>

text \<open>
  The stack takes at most the bytes it is given, its slots are those the server allows for, and the generation tells the connections of a slot
  apart and is not 0.
\<close>

definition env_ok :: "('c, 'n, 'h) OutEnv \<Rightarrow> bool" where
  "env_ok env \<longleftrightarrow> (\<forall>conn bytes net. fst (tcp_send env conn bytes net) \<le> length bytes) \<and> (\<forall>conn. tcp_slot env conn < kMaxConnections)
     \<and> (\<forall>conn. tcp_generation env conn \<noteq> 0)
     \<and> (\<forall>c d. tcp_slot env c = tcp_slot env d \<longrightarrow> tcp_generation env c = tcp_generation env d \<longrightarrow> c = d)"

subsection \<open>The stream of a connection\<close>

definition sent_on :: "'c \<Rightarrow> ('c \<times> byte list) list \<Rightarrow> byte list" where
  "sent_on conn sent = concat (map snd (filter (\<lambda>p. fst p = conn) sent))"

definition control_pending :: "'c OutboundConnection \<Rightarrow> byte list" where
  "control_pending c = take (unat (cx_control_len c - cx_control_sent c)) (drop (unat (cx_control_sent c)) (cx_control c))"

text \<open>Login Accepted for message \<open>n\<close>, then all messages of the history from there on, with heartbeats between them.\<close>

definition session_stream :: "byte list list \<Rightarrow> byte list \<Rightarrow> bool" where
  "session_stream hist bytes \<longleftrightarrow> (\<exists>n fs. 1 \<le> n \<and> n \<le> length hist + 1 \<and> bytes = accept_packet (of_nat n) @ concat fs
     \<and> filter (\<lambda>p. p \<noteq> heartbeat_packet) fs = drop (n - 1) hist)"

lemma session_stream_append: "session_stream hist bytes \<Longrightarrow> p \<noteq> heartbeat_packet \<Longrightarrow> session_stream (hist @ [p]) (bytes @ p)"
proof -
  assume "session_stream hist bytes" and p: "p \<noteq> heartbeat_packet"
  then obtain n fs where n: "1 \<le> n" "n \<le> length hist + 1" "bytes = accept_packet (of_nat n) @ concat fs"
    "filter (\<lambda>p. p \<noteq> heartbeat_packet) fs = drop (n - 1) hist" by (auto simp: session_stream_def)
  then show ?thesis using p unfolding session_stream_def by (intro exI [of _ n] exI [of _ "fs @ [p]"]) auto
qed

lemma session_stream_beat: "session_stream hist bytes \<Longrightarrow> session_stream hist (bytes @ heartbeat_packet)"
proof -
  assume "session_stream hist bytes"
  then obtain n fs where n: "1 \<le> n" "n \<le> length hist + 1" "bytes = accept_packet (of_nat n) @ concat fs"
    "filter (\<lambda>p. p \<noteq> heartbeat_packet) fs = drop (n - 1) hist" by (auto simp: session_stream_def)
  then show ?thesis unfolding session_stream_def by (intro exI [of _ n] exI [of _ "fs @ [heartbeat_packet]"]) auto
qed

lemma session_stream_start: "1 \<le> n \<Longrightarrow> n \<le> length hist + 1 \<Longrightarrow> \<forall>p\<in>set hist. p \<noteq> heartbeat_packet \<Longrightarrow>
    session_stream hist (accept_packet (of_nat n) @ drop (start_of hist n) (concat hist))"
proof -
  assume n: "1 \<le> n" "n \<le> length hist + 1" and hb: "\<forall>p\<in>set hist. p \<noteq> heartbeat_packet"
  then have "filter (\<lambda>p. p \<noteq> heartbeat_packet) (drop (n - 1) hist) = drop (n - 1) hist"
    by (intro filter_True) (meson in_set_dropD)
  then show ?thesis using n unfolding session_stream_def
    by (intro exI [of _ n] exI [of _ "drop (n - 1) hist"]) (simp add: concat_drop [unfolded One_nat_def])
qed

lemma sent_on_append: "sent_on conn (sent @ xs) = sent_on conn sent @ sent_on conn xs"
  by (simp add: sent_on_def)

lemma sent_on_other: "\<forall>p\<in>set xs. fst p \<noteq> conn \<Longrightarrow> sent_on conn xs = []"
  by (auto simp: sent_on_def)

subsection \<open>Invariants\<close>

definition control_ok :: "'c OutboundConnection \<Rightarrow> bool" where
  "control_ok c \<longleftrightarrow> length (cx_control c) = kMaxControlPacket \<and> cx_control_sent c \<le> cx_control_len c \<and> unat (cx_control_len c) \<le> kMaxControlPacket"

definition linked :: "(nat \<Rightarrow> byte list list) \<Rightarrow> OutboundSession list \<Rightarrow> ('c \<times> byte list) list \<Rightarrow> nat \<Rightarrow> 'c OutboundConnection \<Rightarrow> bool" where
  "linked hist sess sent i c \<longleftrightarrow> (let k = unat (cx_client_id c); ss = sess ! k; pos = unat (ss_cursor ss) in
     client_range (cx_client_id c) \<and> ss_slot ss = Some i \<and> ss_log ss \<noteq> None
     \<and> pos \<le> length (concat (hist k)) \<and> length (concat (hist k)) \<le> pos + 2 ^ 24
     \<and> session_stream (hist k) (sent_on (cx_conn c) sent @ control_pending c @ drop pos (concat (hist k))))"

definition current :: "('c, 'n, 'h) OutEnv \<Rightarrow> 'c NoteState \<Rightarrow> 'c \<Rightarrow> bool" where
  "current env ns d \<longleftrightarrow> (\<exists>k. ns_slots ns (tcp_slot env d) = LoggedIn d k) \<or> ns_slots ns (tcp_slot env d) = TurnedAway d"

definition conn_inv ::
  "('c, 'n, 'h) OutEnv \<Rightarrow> (nat \<Rightarrow> byte list list) \<Rightarrow> 'c NoteState \<Rightarrow> OutboundSession list \<Rightarrow> ('c \<times> byte list) list \<Rightarrow> nat \<Rightarrow> 'c OutboundConnection \<Rightarrow> bool" where
  "conn_inv env hist ns sess sent i c \<longleftrightarrow> control_ok c \<and> (\<not> cx_open c \<longrightarrow> cx_client_id c = 0)
     \<and> (cx_open c \<longrightarrow> tcp_slot env (cx_conn c) = i \<and> cx_closed_generation c \<noteq> tcp_generation env (cx_conn c) \<and> current env ns (cx_conn c)
        \<and> (if cx_client_id c = 0 then \<exists>reason. sent_on (cx_conn c) sent @ control_pending c = reject_packet reason
           else ns_slots ns i = LoggedIn (cx_conn c) (cx_client_id c) \<and> linked hist sess sent i c))"

definition session_inv :: "(nat \<Rightarrow> byte list list) \<Rightarrow> 'c OutboundConnection list \<Rightarrow> nat \<Rightarrow> OutboundSession \<Rightarrow> bool" where
  "session_inv hist conns k ss \<longleftrightarrow>
     length (ss_samples ss) = kMaxPendingSamples \<and> ss_samples_head ss < kMaxPendingSamples \<and> ss_samples_count ss \<le> kMaxPendingSamples
     \<and> (case ss_log ss of None \<Rightarrow> hist k = [] | Some lg \<Rightarrow> log_inv 24 (hist k) lg) \<and> (\<forall>p\<in>set (hist k). p \<noteq> heartbeat_packet)
     \<and> (\<forall>i. ss_slot ss = Some i \<longrightarrow> i < kMaxConnections \<and> 0 < k \<and> cx_open (conns ! i) \<and> unat (cx_client_id (conns ! i)) = k)"

definition conns_ok ::
  "('c, 'n, 'h) OutEnv \<Rightarrow> (nat \<Rightarrow> byte list list) \<Rightarrow> 'c NoteState \<Rightarrow> 'c OutboundConnection list \<Rightarrow> OutboundSession list \<Rightarrow> ('c \<times> byte list) list \<Rightarrow> bool" where
  "conns_ok env hist ns conns sess sent \<longleftrightarrow> length conns = kMaxConnections \<and> length sess = unat MAX_CLIENTS + 1
     \<and> (\<forall>i < kMaxConnections. conn_inv env hist ns sess sent i (conns ! i))
     \<and> (\<forall>k \<le> unat MAX_CLIENTS. session_inv hist conns k (sess ! k))"

definition closes_inv :: "('c, 'n, 'h) OutEnv \<Rightarrow> 'c NoteState \<Rightarrow> 'c OutboundConnection list \<Rightarrow> 'c list \<Rightarrow> bool" where
  "closes_inv env ns conns closed \<longleftrightarrow> distinct closed \<and> set closed \<subseteq> ns_used ns
     \<and> (\<forall>d\<in>ns_used ns. \<not> current env ns d \<longrightarrow> d \<in> set closed)
     \<and> (\<forall>d. current env ns d \<longrightarrow> d \<in> set closed \<or> cx_open (conns ! tcp_slot env d))
     \<and> (\<forall>d\<in>set closed. current env ns d \<longrightarrow> cx_closed_generation (conns ! tcp_slot env d) = tcp_generation env d)
     \<and> (\<forall>i < kMaxConnections. cx_closed_generation (conns ! i) = 0
          \<or> (\<exists>d\<in>set closed. tcp_slot env d = i \<and> tcp_generation env d = cx_closed_generation (conns ! i)))"

definition ns_good :: "('c, 'n, 'h) OutEnv \<Rightarrow> 'c NoteState \<Rightarrow> bool" where
  "ns_good env ns \<longleftrightarrow> ns_wf ns \<and> (\<forall>i d k. ns_slots ns i = LoggedIn d k \<longrightarrow> tcp_slot env d = i \<and> d \<in> ns_used ns \<and> client_range k)
     \<and> (\<forall>i d. ns_slots ns i = TurnedAway d \<longrightarrow> tcp_slot env d = i \<and> d \<in> ns_used ns)"

definition resp_range :: "OuchResponder \<Rightarrow> bool" where
  "resp_range resp \<longleftrightarrow> (\<forall>oid live. resp oid = Some live \<longrightarrow> client_range (or_client_id (lv_record live)))"

definition out_inv :: "('c, 'n, 'h) OutEnv \<Rightarrow> (nat \<Rightarrow> byte list list) \<Rightarrow> 'c NoteState \<Rightarrow> ('c, 'n, 'h) Outbound \<Rightarrow> bool" where
  "out_inv env hist ns s \<longleftrightarrow> conns_ok env hist ns (out_connections s) (out_sessions s) (out_sent s)
     \<and> closes_inv env ns (out_connections s) (out_closed s) \<and> ns_good env ns \<and> env_ok env
     \<and> length (out_scratch s) = kMaxSoupPacket \<and> length (out_retained_from s) = unat MAX_CLIENTS + 1
     \<and> (\<forall>i\<in>set (out_dirty s). i < kMaxConnections) \<and> (\<forall>p\<in>set (out_sent s). fst p \<in> ns_used ns) \<and> resp_range (out_responder s)"

lemma out_invD:
  assumes "out_inv env hist ns s"
  shows "length (out_connections s) = kMaxConnections" "length (out_sessions s) = unat MAX_CLIENTS + 1"
    "i < kMaxConnections \<Longrightarrow> conn_inv env hist ns (out_sessions s) (out_sent s) i (out_connections s ! i)"
    "k \<le> unat MAX_CLIENTS \<Longrightarrow> session_inv hist (out_connections s) k (out_sessions s ! k)"
    "ns_good env ns" "env_ok env" "closes_inv env ns (out_connections s) (out_closed s)" "conns_ok env hist ns (out_connections s) (out_sessions s) (out_sent s)"
  using assms by (simp_all add: out_inv_def conns_ok_def)

subsection \<open>One connection and one session change\<close>

lemma conn_inv_frame:
  assumes c: "conn_inv env hist ns sess sent j c"
    and ns: "ns_slots ns1 j = ns_slots ns j" and sent: "cx_open c \<Longrightarrow> sent_on (cx_conn c) sent1 = sent_on (cx_conn c) sent"
    and sess: "cx_open c \<Longrightarrow> cx_client_id c \<noteq> 0 \<Longrightarrow> sess1 ! unat (cx_client_id c) = sess ! unat (cx_client_id c)
      \<and> hist1 (unat (cx_client_id c)) = hist (unat (cx_client_id c))"
  shows "conn_inv env hist1 ns1 sess1 sent1 j c"
  using assms by (auto simp: conn_inv_def linked_def Let_def current_def)

lemma update_ok:
  assumes ok: "conns_ok env hist ns conns sess sent" and i: "i < kMaxConnections" and k: "k \<le> unat MAX_CLIENTS"
    and c1: "conn_inv env hist1 ns1 (sess[k := ss1]) (sent @ xs) i c1"
    and ss1: "session_inv hist1 (conns[i := c1]) k ss1"
    and xs: "\<forall>p\<in>set xs. tcp_slot env (fst p) = i"
    and ns1: "\<And>j. j \<noteq> i \<Longrightarrow> ns_slots ns1 j = ns_slots ns j"
    and hist1: "\<And>m. m \<noteq> k \<Longrightarrow> hist1 m = hist m"
    and link: "hist1 k = hist k \<and> ss1 = sess ! k \<or> (\<forall>j < kMaxConnections. j \<noteq> i \<longrightarrow> cx_open (conns ! j) \<longrightarrow> unat (cx_client_id (conns ! j)) \<noteq> k)"
    and kept: "cx_open c1 = cx_open (conns ! i) \<and> cx_client_id c1 = cx_client_id (conns ! i)
      \<or> (\<forall>m \<le> unat MAX_CLIENTS. m \<noteq> k \<longrightarrow> ss_slot (sess ! m) \<noteq> Some i)"
  shows "conns_ok env hist1 ns1 (conns[i := c1]) (sess[k := ss1]) (sent @ xs)"
proof -
  have len: "length conns = kMaxConnections" "length sess = unat MAX_CLIENTS + 1" using ok by (simp_all add: conns_ok_def)
  have C: "conn_inv env hist ns sess sent j (conns ! j)" if "j < kMaxConnections" for j using ok that by (simp add: conns_ok_def)
  have S: "session_inv hist conns m (sess ! m)" if "m \<le> unat MAX_CLIENTS" for m using ok that by (simp add: conns_ok_def)
  have others: "conn_inv env hist1 ns1 (sess[k := ss1]) (sent @ xs) j (conns ! j)" if j: "j < kMaxConnections" "j \<noteq> i" for j
  proof (rule conn_inv_frame [OF C [OF j(1)] ns1 [OF j(2)]])
    assume op: "cx_open (conns ! j)"
    then have "tcp_slot env (cx_conn (conns ! j)) = j" using C [OF j(1)] by (simp add: conn_inv_def)
    then have "sent_on (cx_conn (conns ! j)) xs = []" by (intro sent_on_other) (use xs j(2) in auto)
    then show "sent_on (cx_conn (conns ! j)) (sent @ xs) = sent_on (cx_conn (conns ! j)) sent" by (simp add: sent_on_append)
    assume "cx_client_id (conns ! j) \<noteq> 0"
    show "sess[k := ss1] ! unat (cx_client_id (conns ! j)) = sess ! unat (cx_client_id (conns ! j))
        \<and> hist1 (unat (cx_client_id (conns ! j))) = hist (unat (cx_client_id (conns ! j)))"
      using link hist1 j op by (cases "unat (cx_client_id (conns ! j)) = k") (auto simp: list_update_id)
  qed
  have sessions: "session_inv hist1 (conns[i := c1]) m (sess ! m)" if m: "m \<le> unat MAX_CLIENTS" "m \<noteq> k" for m
  proof -
    have "cx_open (conns[i := c1] ! j) \<and> unat (cx_client_id (conns[i := c1] ! j)) = m" if "ss_slot (sess ! m) = Some j" for j
      using S [OF m(1)] that kept m len i by (cases "j = i") (auto simp: session_inv_def)
    then show ?thesis using S [OF m(1)] unfolding session_inv_def hist1 [OF m(2)] by blast
  qed
  show ?thesis unfolding conns_ok_def
    using len c1 ss1 others sessions i k by (auto simp: nth_list_update)
qed

subsection \<open>Effects\<close>

lemma at_index_Some [simp]: "i < length xs \<Longrightarrow> at_index xs i = Some (xs ! i)"
  by (simp add: at_index_def)

lemma control_pending_flags [simp]: "control_pending (c\<lparr>cx_dirty := b\<rparr>) = control_pending c" "control_pending (c\<lparr>cx_last_sent_tsc := t\<rparr>) = control_pending c"
  "control_pending (c\<lparr>cx_close_when_flushed := b\<rparr>) = control_pending c" "control_pending (c\<lparr>cx_closed_generation := g\<rparr>) = control_pending c"
  "control_pending (c\<lparr>cx_client_id := k\<rparr>) = control_pending c"
  by (simp_all add: control_pending_def)

lemma conn_inv_flags [simp]: "conn_inv env hist ns sess sent i (c\<lparr>cx_dirty := b\<rparr>) = conn_inv env hist ns sess sent i c"
  "conn_inv env hist ns sess sent i (c\<lparr>cx_last_sent_tsc := t\<rparr>) = conn_inv env hist ns sess sent i c"
  "conn_inv env hist ns sess sent i (c\<lparr>cx_close_when_flushed := b\<rparr>) = conn_inv env hist ns sess sent i c"
  by (simp_all add: conn_inv_def linked_def control_ok_def)

lemma mark_dirty_effect:
  assumes "i < length (out_connections s)" "tcp_slot env (cx_conn (out_connections s ! i)) = i"
  shows "\<exists>dirty. mark_dirty env i s = Some (s\<lparr>out_connections := (out_connections s)[i := (out_connections s ! i)\<lparr>cx_dirty := True\<rparr>], out_dirty := dirty\<rparr>)
    \<and> set dirty \<subseteq> insert i (set (out_dirty s))"
proof (cases "cx_dirty (out_connections s ! i)")
  case True
  have c: "(out_connections s ! i)\<lparr>cx_dirty := True\<rparr> = out_connections s ! i" using True by simp
  show ?thesis unfolding c using assms True by (intro exI [of _ "out_dirty s"]) (auto simp: mark_dirty_def)
next
  case False
  then show ?thesis using assms by (intro exI [of _ "out_dirty s @ [i]"]) (auto simp: mark_dirty_def set_connection_def)
qed

definition with_control :: "byte list \<Rightarrow> 'c OutboundConnection \<Rightarrow> 'c OutboundConnection" where
  "with_control packet c = c\<lparr>cx_control := splice 0 packet (cx_control c), cx_control_len := of_nat (length packet), cx_control_sent := 0\<rparr>"

lemma with_control_spec:
  assumes "control_ok c" "length packet \<le> kMaxControlPacket"
  shows "control_ok (with_control packet c)" "control_pending (with_control packet c) = packet"
proof -
  have "unat (of_nat (length packet) :: u8) = length packet" using assms(2) by (intro unat_of_nat_small) (simp add: kMaxControlPacket_def)
  then show "control_ok (with_control packet c)" "control_pending (with_control packet c) = packet"
    using assms by (simp_all add: control_ok_def with_control_def control_pending_def splice_def)
qed

lemma with_control_sel [simp]: "cx_conn (with_control packet c) = cx_conn c" "cx_open (with_control packet c) = cx_open c"
  "cx_client_id (with_control packet c) = cx_client_id c" "cx_closed_generation (with_control packet c) = cx_closed_generation c"
  by (simp_all add: with_control_def)

lemma send_control_effect:
  assumes "i < length (out_connections s)" "tcp_slot env (cx_conn (out_connections s ! i)) = i" "control_ok (out_connections s ! i)"
    "length packet \<le> kMaxControlPacket"
  shows "\<exists>dirty. send_control env i packet s
      = Some (s\<lparr>out_connections := (out_connections s)[i := (with_control packet (out_connections s ! i))\<lparr>cx_dirty := True\<rparr>], out_dirty := dirty\<rparr>)
    \<and> set dirty \<subseteq> insert i (set (out_dirty s))"
proof -
  let ?s = "set_connection i (with_control packet (out_connections s ! i)) s"
  have "i < length (out_connections ?s)" "tcp_slot env (cx_conn (out_connections ?s ! i)) = i"
    using assms(1,2) by (simp_all add: set_connection_def)
  from mark_dirty_effect [OF this] show ?thesis
    using assms by (auto simp: send_control_def with_control_def [symmetric] set_connection_def control_ok_def)
qed

lemma closes_inv_cong:
  assumes "env_ok env" "\<And>j. j < kMaxConnections \<Longrightarrow> cx_closed_generation (conns1 ! j) = cx_closed_generation (conns ! j) \<and> cx_open (conns1 ! j) = cx_open (conns ! j)"
  shows "closes_inv env ns conns closed \<Longrightarrow> closes_inv env ns conns1 closed"
  using assms by (auto simp: closes_inv_def env_ok_def)

text \<open>The connection alone changes, and stays as open and as closed as it was.\<close>

lemma update_conn:
  assumes inv: "out_inv env hist ns s" and i: "i < kMaxConnections"
    and c1: "conn_inv env hist ns (out_sessions s) (out_sent s) i c1"
    and same: "cx_open c1 = cx_open (out_connections s ! i)" "cx_client_id c1 = cx_client_id (out_connections s ! i)"
      "cx_closed_generation c1 = cx_closed_generation (out_connections s ! i)"
    and dirty: "\<forall>j\<in>set dirty. j < kMaxConnections"
  shows "out_inv env hist ns (s\<lparr>out_connections := (out_connections s)[i := c1], out_dirty := dirty\<rparr>)"
proof -
  note I = out_invD [OF inv]
  let ?conns = "(out_connections s)[i := c1]"
  have s0: "session_inv hist ?conns 0 (out_sessions s ! 0)" using I(4) [of 0] by (auto simp: session_inv_def)
  have "conns_ok env hist ns ?conns ((out_sessions s)[0 := out_sessions s ! 0]) (out_sent s @ [])"
    by (rule update_ok [OF I(8) i]) (use c1 s0 same in simp_all)
  moreover have "closes_inv env ns ?conns (out_closed s)"
  proof (rule closes_inv_cong [OF I(6) _ I(7)])
    show "cx_closed_generation (?conns ! j) = cx_closed_generation (out_connections s ! j) \<and> cx_open (?conns ! j) = cx_open (out_connections s ! j)"
      if "j < kMaxConnections" for j using same(1,3) I(1) that by (cases "j = i") simp_all
  qed
  ultimately show ?thesis using inv dirty by (simp add: out_inv_def)
qed

subsection \<open>Closing\<close>

lemma env_okD:
  assumes "env_ok env"
  shows "fst (tcp_send env conn bytes net) \<le> length bytes" "tcp_slot env conn < kMaxConnections" "tcp_generation env conn \<noteq> 0"
    "tcp_slot env c = tcp_slot env d \<Longrightarrow> tcp_generation env c = tcp_generation env d \<Longrightarrow> c = d"
  using assms unfolding env_ok_def by blast+

lemma current_unique: "current env ns c \<Longrightarrow> current env ns d \<Longrightarrow> tcp_slot env c = tcp_slot env d \<Longrightarrow> c = d"
  unfolding current_def by (metis SlotUse.distinct(5) SlotUse.inject)

lemma current_used: "ns_good env ns \<Longrightarrow> current env ns d \<Longrightarrow> d \<in> ns_used ns"
  by (auto simp: current_def ns_good_def)

lemma closes_add:
  assumes inv: "closes_inv env ns conns closed" and good: "ns_good env ns" "env_ok env" and cur: "current env ns conn" "conn \<notin> set closed"
    and len: "length conns = kMaxConnections" and c1: "cx_closed_generation c1 = tcp_generation env conn"
  shows "closes_inv env ns (conns[tcp_slot env conn := c1]) (closed @ [conn])"
proof -
  let ?i = "tcp_slot env conn" let ?conns = "conns[?i := c1]"
  have i: "?i < length conns" using env_okD(2) [OF good(2)] len by simp
  have gen: "cx_closed_generation (?conns ! tcp_slot env d) = tcp_generation env d" if "d \<in> set (closed @ [conn])" "current env ns d" for d
  proof (cases "tcp_slot env d = ?i")
    case True
    then have "d = conn" using current_unique [OF that(2) cur(1)] by simp
    then show ?thesis using i c1 by simp
  next
    case False
    then show ?thesis using that cur(2) inv by (auto simp: closes_inv_def)
  qed
  have last: "cx_closed_generation (?conns ! j) = 0 \<or> (\<exists>d\<in>set (closed @ [conn]). tcp_slot env d = j \<and> tcp_generation env d = cx_closed_generation (?conns ! j))"
    if "j < kMaxConnections" for j
  proof (cases "j = ?i")
    case True
    then show ?thesis using i c1 by simp
  next
    case False
    then have "?conns ! j = conns ! j" by simp
    then show ?thesis using inv that unfolding closes_inv_def by auto
  qed
  have "d \<in> set (closed @ [conn]) \<or> cx_open (?conns ! tcp_slot env d)" if "current env ns d" for d
    using current_unique [OF that cur(1)] that inv by (cases "tcp_slot env d = ?i") (auto simp: closes_inv_def)
  then show ?thesis using inv gen last cur current_used [OF good(1) cur(1)] unfolding closes_inv_def by auto
qed

definition closed_conn :: "u32 \<Rightarrow> 'c OutboundConnection \<Rightarrow> 'c OutboundConnection" where
  "closed_conn gen c = c\<lparr>cx_closed_generation := gen, cx_open := False, cx_client_id := 0, cx_control_len := 0, cx_control_sent := 0,
     cx_close_when_flushed := False\<rparr>"

lemma closed_conn_inv: "control_ok c \<Longrightarrow> conn_inv env hist ns sess sent i (closed_conn gen c)"
  by (simp add: conn_inv_def closed_conn_def control_ok_def)

lemma shut_conn_inv: "conn_inv env hist ns sess sent i c \<Longrightarrow> \<not> cx_open c \<Longrightarrow> conn_inv env hist1 ns1 sess1 sent1 i (c\<lparr>cx_closed_generation := gen\<rparr>)"
  by (simp add: conn_inv_def control_ok_def)

lemma session_inv_conn:
  assumes "session_inv hist conns k ss" "\<And>i. ss_slot ss = Some i \<Longrightarrow> cx_open (conns1 ! i) \<and> unat (cx_client_id (conns1 ! i)) = k"
  shows "session_inv hist conns1 k ss"
  using assms unfolding session_inv_def by blast

lemma close_open_conns:
  assumes inv: "out_inv env hist ns s" and i: "i < kMaxConnections" and c: "c = out_connections s ! i" "cx_open c"
    and sess1: "sess1 = (if cx_client_id c = 0 then out_sessions s
      else (out_sessions s)[unat (cx_client_id c) := (out_sessions s ! unat (cx_client_id c))\<lparr>ss_slot := None, ss_samples_count := 0\<rparr>])"
  shows "conns_ok env hist ns ((out_connections s)[i := closed_conn gen c]) sess1 (out_sent s)"
proof -
  note I = out_invD [OF inv]
  let ?k = "unat (cx_client_id c)" let ?conns = "(out_connections s)[i := closed_conn gen c]"
  define ss1 where "ss1 = (if cx_client_id c = 0 then out_sessions s ! ?k else (out_sessions s ! ?k)\<lparr>ss_slot := None, ss_samples_count := 0\<rparr>)"
  have ci: "conn_inv env hist ns (out_sessions s) (out_sent s) i c" using I(3) [OF i] c(1) by simp
  then have k: "?k \<le> unat MAX_CLIENTS" and ctl: "control_ok c"
    using c(2) by (auto simp: conn_inv_def linked_def Let_def client_range_unat split: if_splits)
  have sess: "sess1 = (out_sessions s)[?k := ss1]" using sess1 by (simp add: ss1_def)
  have S: "session_inv hist (out_connections s) m (out_sessions s ! m)" if "m \<le> unat MAX_CLIENTS" for m using I(4) [OF that] .
  have only: "ss_slot (out_sessions s ! m) \<noteq> Some i" if "m \<le> unat MAX_CLIENTS" "m \<noteq> ?k" for m
    using S [OF that(1)] that(2) c(1) by (auto simp: session_inv_def)
  have s1: "session_inv hist ?conns ?k ss1"
  proof (cases "cx_client_id c = 0")
    case True
    then show ?thesis using S [of 0] by (auto simp: ss1_def session_inv_def)
  next
    case False
    then show ?thesis using S [OF k] by (simp add: ss1_def session_inv_def)
  qed
  have others: "unat (cx_client_id (out_connections s ! j)) \<noteq> ?k" if "j < kMaxConnections" "j \<noteq> i" "cx_open (out_connections s ! j)" "cx_client_id c \<noteq> 0" for j
  proof
    assume e: "unat (cx_client_id (out_connections s ! j)) = ?k"
    then have "cx_client_id (out_connections s ! j) = cx_client_id c" by (simp add: word_unat_eq_iff)
    then have "ss_slot (out_sessions s ! ?k) = Some j" using I(3) [OF that(1)] that(3,4) by (simp add: conn_inv_def linked_def Let_def)
    moreover have "ss_slot (out_sessions s ! ?k) = Some i" using ci c(2) that(4) by (simp add: conn_inv_def linked_def Let_def)
    ultimately show False using that(2) by simp
  qed
  have "conns_ok env hist ns ?conns ((out_sessions s)[?k := ss1]) (out_sent s @ [])"
  proof (rule update_ok [OF I(8) i k])
    show "conn_inv env hist ns ((out_sessions s)[?k := ss1]) (out_sent s @ []) i (closed_conn gen c)" using ctl by (simp add: closed_conn_inv)
    show "session_inv hist ?conns ?k ss1" by (rule s1)
    show "hist ?k = hist ?k \<and> ss1 = out_sessions s ! ?k \<or> (\<forall>j<kMaxConnections. j \<noteq> i \<longrightarrow> cx_open (out_connections s ! j) \<longrightarrow> unat (cx_client_id (out_connections s ! j)) \<noteq> ?k)"
      using others by (auto simp: ss1_def)
    show "cx_open (closed_conn gen c) = cx_open (out_connections s ! i) \<and> cx_client_id (closed_conn gen c) = cx_client_id (out_connections s ! i)
        \<or> (\<forall>m\<le>unat MAX_CLIENTS. m \<noteq> ?k \<longrightarrow> ss_slot (out_sessions s ! m) \<noteq> Some i)" using only by blast
  qed simp_all
  then show ?thesis using sess by simp
qed

text \<open>Only the connection a slot is used for now can be open in it.\<close>

lemma open_is_current:
  assumes inv: "out_inv env hist ns s" and cur: "current env ns conn" and op: "cx_open (out_connections s ! tcp_slot env conn)"
  shows "cx_conn (out_connections s ! tcp_slot env conn) = conn"
    "cx_closed_generation (out_connections s ! tcp_slot env conn) \<noteq> tcp_generation env conn"
proof -
  let ?i = "tcp_slot env conn" let ?c = "out_connections s ! ?i"
  note I = out_invD [OF inv]
  have "conn_inv env hist ns (out_sessions s) (out_sent s) ?i ?c" by (rule I(3) [OF env_okD(2) [OF I(6)]])
  then have c: "tcp_slot env (cx_conn ?c) = ?i" "current env ns (cx_conn ?c)" "cx_closed_generation ?c \<noteq> tcp_generation env (cx_conn ?c)"
    using op by (simp_all add: conn_inv_def)
  show e: "cx_conn ?c = conn" by (rule current_unique [OF c(2) cur c(1)])
  show "cx_closed_generation ?c \<noteq> tcp_generation env conn" using c(3) unfolding e .
qed

lemma closed_gen:
  assumes inv: "out_inv env hist ns s" and gen: "cx_closed_generation (out_connections s ! tcp_slot env conn) = tcp_generation env conn"
  shows "conn \<in> set (out_closed s)"
proof -
  note I = out_invD [OF inv] and E = env_okD [OF out_invD(6) [OF inv]]
  have "\<exists>d\<in>set (out_closed s). tcp_slot env d = tcp_slot env conn \<and> tcp_generation env d = tcp_generation env conn"
    using I(7) E(2) [of conn] E(3) [of conn] gen unfolding closes_inv_def by metis
  then show ?thesis using E(4) by blast
qed

lemma close_current:
  assumes inv: "out_inv env hist ns s" and cur: "current env ns conn"
  shows "\<exists>s1. close_connection env conn s = Some s1 \<and> out_inv env hist ns s1 \<and> \<not> cx_open (out_connections s1 ! tcp_slot env conn)
    \<and> conn \<in> set (out_closed s1) \<and> (\<forall>k. ss_log (out_sessions s1 ! k) = ss_log (out_sessions s ! k))
    \<and> (\<forall>k. ss_slot (out_sessions s1 ! k) = None \<or> ss_slot (out_sessions s1 ! k) = ss_slot (out_sessions s ! k))
    \<and> set (out_closed s) \<subseteq> set (out_closed s1)"
proof -
  let ?i = "tcp_slot env conn" let ?c = "out_connections s ! ?i" let ?g = "tcp_generation env conn"
  note I = out_invD [OF inv] and E = env_okD [OF out_invD(6) [OF inv]]
  have i: "?i < kMaxConnections" "?i < length (out_connections s)" using E(2) I(1) by simp_all
  have used: "conn \<in> ns_used ns" by (rule current_used [OF I(5) cur])
  show ?thesis
  proof (cases "cx_closed_generation ?c = ?g")
    case True
    then have "\<not> cx_open ?c" using open_is_current(2) [OF inv cur] by blast
    then show ?thesis using True inv i closed_gen [OF inv True] by (simp add: close_connection_def)
  next
    case gen: False
    then have new: "conn \<notin> set (out_closed s)" using I(7) cur by (auto simp: closes_inv_def)
    have closes: "closes_inv env ns ((out_connections s)[?i := c1]) (out_closed s @ [conn])" if "cx_closed_generation c1 = ?g" for c1
      by (rule closes_add [OF I(7,5,6) cur new I(1) that])
    show ?thesis
    proof (cases "cx_open ?c")
      case False
      let ?c1 = "?c\<lparr>cx_closed_generation := ?g\<rparr>"
      let ?s1 = "s\<lparr>out_connections := (out_connections s)[?i := ?c1], out_net := tcp_close env conn (out_net s), out_closed := out_closed s @ [conn]\<rparr>"
      have "session_inv hist ((out_connections s)[?i := ?c1]) 0 (out_sessions s ! 0)"
        by (rule session_inv_conn [OF I(4) [of 0]]) (use I(4) [of 0] in \<open>auto simp: session_inv_def\<close>)
      then have "conns_ok env hist ns ((out_connections s)[?i := ?c1]) ((out_sessions s)[0 := out_sessions s ! 0]) (out_sent s @ [])"
        by (intro update_ok [OF I(8) i(1)]) (use shut_conn_inv [OF I(3) [OF i(1)] False] in simp_all)
      then have "out_inv env hist ns ?s1" using inv closes [of ?c1] by (simp add: out_inv_def)
      moreover have "close_connection env conn s = Some ?s1" using gen False i(2) by (simp add: close_connection_def set_connection_def Let_def)
      ultimately show ?thesis using False i(2) by auto
    next
      case True
      have conn: "cx_conn ?c = conn" by (rule open_is_current(1) [OF inv cur True])
      let ?k = "unat (cx_client_id ?c)"
      define sess1 where "sess1 = (if cx_client_id ?c = 0 then out_sessions s
        else (out_sessions s)[?k := (out_sessions s ! ?k)\<lparr>ss_slot := None, ss_samples_count := 0\<rparr>])"
      let ?s1 = "s\<lparr>out_connections := (out_connections s)[?i := closed_conn ?g ?c], out_sessions := sess1,
        out_net := tcp_close env conn (out_net s), out_closed := out_closed s @ [conn]\<rparr>"
      have "conns_ok env hist ns ((out_connections s)[?i := closed_conn ?g ?c]) sess1 (out_sent s)"
        by (rule close_open_conns [OF inv i(1) refl True sess1_def])
      then have "out_inv env hist ns ?s1" using inv closes [of "closed_conn ?g ?c"] by (simp add: out_inv_def closed_conn_def)
      moreover have "conn_inv env hist ns (out_sessions s) (out_sent s) ?i ?c" by (rule I(3) [OF i(1)])
      then have "cx_client_id ?c \<noteq> 0 \<Longrightarrow> ?k < length (out_sessions s) \<and> ss_slot (out_sessions s ! ?k) = Some ?i"
        using True I(2) by (simp add: conn_inv_def linked_def Let_def client_range_unat)
      then have "close_connection env conn s = Some ?s1"
        using gen True i(2) conn by (simp add: close_connection_def set_connection_def set_session_def sess1_def closed_conn_def Let_def)
      moreover have "ss_log (sess1 ! m) = ss_log (out_sessions s ! m)" "ss_slot (sess1 ! m) = None \<or> ss_slot (sess1 ! m) = ss_slot (out_sessions s ! m)" for m
        by (cases "m = ?k"; cases "?k < length (out_sessions s)"; simp add: sess1_def list_update_beyond not_less)+
      ultimately show ?thesis using i(2) by (auto simp: closed_conn_def)
    qed
  qed
qed

subsection \<open>Notes that end a connection\<close>

lemma use_idle:
  shows "current env (use_slot (tcp_slot env conn) Idle conn ns) d \<longleftrightarrow> current env ns d \<and> tcp_slot env d \<noteq> tcp_slot env conn"
    "ns_good env ns \<Longrightarrow> ns_good env (use_slot (tcp_slot env conn) Idle conn ns)"
proof -
  show "current env (use_slot (tcp_slot env conn) Idle conn ns) d \<longleftrightarrow> current env ns d \<and> tcp_slot env d \<noteq> tcp_slot env conn"
    by (auto simp: current_def use_slot_def)
  assume "ns_good env ns"
  then show "ns_good env (use_slot (tcp_slot env conn) Idle conn ns)"
    unfolding ns_good_def ns_wf_def use_slot_def by (simp add: fun_upd_apply)
qed

lemma idle_conns:
  assumes ok: "conns_ok env hist ns conns sess sent" and shut: "\<not> cx_open (conns ! tcp_slot env conn)"
  shows "conns_ok env hist (use_slot (tcp_slot env conn) Idle conn ns) conns sess sent"
proof -
  let ?ns = "use_slot (tcp_slot env conn) Idle conn ns"
  have "conn_inv env hist ?ns sess sent j (conns ! j)" if "j < kMaxConnections" for j
  proof (cases "j = tcp_slot env conn")
    case True
    then show ?thesis using ok shut that by (auto simp: conns_ok_def conn_inv_def)
  next
    case False
    have "conn_inv env hist ns sess sent j (conns ! j)" using ok that by (simp add: conns_ok_def)
    then show ?thesis by (rule conn_inv_frame) (use False in \<open>simp_all add: use_slot_def\<close>)
  qed
  then show ?thesis using ok by (simp add: conns_ok_def)
qed

lemma end_current:
  assumes inv: "out_inv env hist ns s" and cur: "current env ns conn"
  shows "\<exists>s1. close_connection env conn s = Some s1 \<and> out_inv env hist (use_slot (tcp_slot env conn) Idle conn ns) s1"
proof -
  let ?ns = "use_slot (tcp_slot env conn) Idle conn ns"
  obtain s1 where s1: "close_connection env conn s = Some s1" "out_inv env hist ns s1" "\<not> cx_open (out_connections s1 ! tcp_slot env conn)"
    "conn \<in> set (out_closed s1)" using close_current [OF inv cur] by blast
  note I = out_invD [OF s1(2)]
  have used: "ns_used ?ns = ns_used ns" using current_used [OF I(5) cur] by (auto simp: use_slot_def)
  have "d \<in> set (out_closed s1)" if "d \<in> ns_used ns" "\<not> current env ?ns d" for d
  proof (cases "current env ns d")
    case True
    then have "d = conn" using that(2) use_idle(1) [of env conn ns d] current_unique [OF True cur] by blast
    then show ?thesis using s1(4) by simp
  next
    case False
    then show ?thesis using I(7) that(1) by (simp add: closes_inv_def)
  qed
  then have "closes_inv env ?ns (out_connections s1) (out_closed s1)"
    using I(7) use_idle(1) [of env conn ns] used unfolding closes_inv_def by auto
  then have "out_inv env hist ?ns s1"
    using s1(2) idle_conns [OF I(8) s1(3)] use_idle(2) [OF I(5), of conn] used unfolding out_inv_def by simp
  then show ?thesis using s1(1) by blast
qed

lemma end_fresh:
  assumes inv: "out_inv env hist ns s" and idle: "ns_slots ns (tcp_slot env conn) = Idle" "conn \<notin> ns_used ns"
  shows "\<exists>s1. close_connection env conn s = Some s1 \<and> out_inv env hist (use_slot (tcp_slot env conn) Idle conn ns) s1"
proof -
  let ?i = "tcp_slot env conn" let ?c = "out_connections s ! ?i" let ?g = "tcp_generation env conn" let ?ns = "use_slot ?i Idle conn ns"
  let ?c1 = "?c\<lparr>cx_closed_generation := ?g\<rparr>" let ?conns = "(out_connections s)[?i := ?c1]"
  let ?s1 = "s\<lparr>out_connections := ?conns, out_net := tcp_close env conn (out_net s), out_closed := out_closed s @ [conn]\<rparr>"
  note I = out_invD [OF inv] and E = env_okD [OF out_invD(6) [OF inv]]
  have i: "?i < kMaxConnections" "?i < length (out_connections s)" using E(2) I(1) by simp_all
  have cur: "current env ?ns d = current env ns d" for d using idle(1) by (auto simp: current_def use_slot_def)
  have shut: "\<not> cx_open ?c" using I(3) [OF i(1)] idle(1) by (auto simp: conn_inv_def current_def)
  have gen: "cx_closed_generation ?c \<noteq> ?g"
    using closed_gen [OF inv, of conn] idle(2) I(7) by (auto simp: closes_inv_def)
  have run: "close_connection env conn s = Some ?s1" using gen shut i(2) by (simp add: close_connection_def set_connection_def Let_def)
  have "session_inv hist ?conns 0 (out_sessions s ! 0)"
    by (rule session_inv_conn [OF I(4) [of 0]]) (use I(4) [of 0] in \<open>auto simp: session_inv_def\<close>)
  then have "conns_ok env hist ?ns ?conns ((out_sessions s)[0 := out_sessions s ! 0]) (out_sent s @ [])"
    by (intro update_ok [OF I(8) i(1)]) (use shut_conn_inv [OF I(3) [OF i(1)] shut] in \<open>simp_all add: use_slot_def\<close>)
  moreover have "cx_closed_generation (?conns ! tcp_slot env d) = tcp_generation env d" if "d \<in> set (out_closed s @ [conn])" "current env ns d" for d
  proof -
    have "tcp_slot env d \<noteq> ?i" using that(2) idle(1) by (auto simp: current_def)
    then show ?thesis using that I(7) by (auto simp: closes_inv_def)
  qed
  moreover have "cx_closed_generation (?conns ! j) = 0 \<or> (\<exists>d\<in>set (out_closed s @ [conn]). tcp_slot env d = j \<and> tcp_generation env d = cx_closed_generation (?conns ! j))"
    if "j < kMaxConnections" for j
  proof (cases "j = ?i")
    case True
    then show ?thesis using i(2) by simp
  next
    case False
    then have "?conns ! j = out_connections s ! j" by simp
    then show ?thesis using I(7) that unfolding closes_inv_def by auto
  qed
  moreover have "d \<in> set (out_closed s) \<or> cx_open (?conns ! tcp_slot env d)" if "current env ns d" for d
  proof -
    have "tcp_slot env d \<noteq> ?i" using that idle(1) by (auto simp: current_def)
    then show ?thesis using that I(7) by (auto simp: closes_inv_def)
  qed
  ultimately have "closes_inv env ?ns ?conns (out_closed s @ [conn])"
    using I(7) idle(2) unfolding closes_inv_def cur by (auto simp: use_slot_def)
  with \<open>conns_ok env hist ?ns ?conns _ _\<close> have "out_inv env hist ?ns ?s1"
    using inv use_idle(2) [OF I(5), of conn] unfolding out_inv_def by (auto simp: use_slot_def)
  then show ?thesis using run by blast
qed

end
