(* ===== verification/Outbound_Login.thy ===== *)
theory Outbound_Login
  imports Outbound_Inv
begin

text \<open>
  The outbound thread's handling of the three notes that name a connection keeps the invariant of the thread, and follows the order of notes.
\<close>

subsection \<open>The packets\<close>

lemma length_session_id: "length (soup_session_id name) = 10"
proof -
  have "length (fold (\<lambda>i out. out[f i := name ! i]) xs out) = length out" for f and xs :: "nat list" and out :: "byte list"
    by (induction xs arbitrary: out) simp_all
  then show ?thesis by (simp add: soup_session_id_def Let_def)
qed

lemma reject_packet_frame: "reject_packet reason = soup_frame LOGIN_REJECTED [reason]"
  using encode_rejected_frame [of "replicate (kSoupHeaderLen + 1) 0" reason]
  by (simp add: reject_packet_def kSoupHeaderLen_def case_prod_beta)

lemma heartbeat_packet_frame: "heartbeat_packet = soup_frame SERVER_HEARTBEAT []"
proof -
  have "length (snd (encode_soup_empty SERVER_HEARTBEAT (replicate 3 0))) = 3"
    by (simp add: encode_soup_empty_def write_header_frame kSoupHeaderLen_def)
  then show ?thesis using encode_empty_frame(2) [of "replicate 3 0" SERVER_HEARTBEAT] by (simp add: heartbeat_packet_def kSoupHeaderLen_def)
qed

lemma accept_packet_frame: "\<exists>number. length number = 20 \<and> read_numeric number = Some start
    \<and> accept_packet start = soup_frame LOGIN_ACCEPTED (soup_session_id session_name @ number)"
  using encode_accepted_frame [of "\<lparr> sa_session = soup_session_id session_name, sa_sequence_number = start \<rparr>" "replicate 33 0"] length_session_id [of session_name]
  by (auto simp: accept_packet_def soup_len_defs split: prod.split)

lemma packet_lengths: "length (reject_packet reason) \<le> kMaxControlPacket" "length (accept_packet start) \<le> kMaxControlPacket"
  "length heartbeat_packet \<le> kMaxControlPacket"
  using accept_packet_frame [of start] length_session_id [of session_name]
  by (auto simp: reject_packet_frame heartbeat_packet_frame kMaxControlPacket_def)

subsection \<open>Logins\<close>

lemma control_ok_flags [simp]: "control_ok (c\<lparr>cx_dirty := b\<rparr>) = control_ok c" "control_ok (c\<lparr>cx_close_when_flushed := b\<rparr>) = control_ok c"
  "control_ok (c\<lparr>cx_client_id := k\<rparr>) = control_ok c"
  by (simp_all add: control_ok_def)

definition opened :: "'c \<Rightarrow> Timestamp \<Rightarrow> 'c OutboundConnection \<Rightarrow> 'c OutboundConnection" where
  "opened conn now c = (new_OutboundConnection conn)\<lparr>cx_open := True, cx_dirty := cx_dirty c, cx_closed_generation := cx_closed_generation c,
     cx_last_sent_tsc := now\<rparr>"

lemma opened_sel [simp]: "cx_conn (opened conn now c) = conn" "cx_open (opened conn now c)" "cx_client_id (opened conn now c) = 0"
  "cx_closed_generation (opened conn now c) = cx_closed_generation c" "control_ok (opened conn now c)"
  by (simp_all add: opened_def new_OutboundConnection_def control_ok_def)

lemma open_effect:
  assumes "tcp_slot env conn < length (out_connections s)"
  shows "\<exists>now reads. open_connection env conn s
    = Some (s\<lparr>out_tsc_reads := reads, out_connections := (out_connections s)[tcp_slot env conn := opened conn now (out_connections s ! tcp_slot env conn)]\<rparr>)"
  using assms by (auto simp: open_connection_def rdtsc_def set_connection_def opened_def)

lemma turn_away_effect:
  assumes "i < length (out_connections s)" "tcp_slot env (cx_conn (out_connections s ! i)) = i" "control_ok (out_connections s ! i)"
  shows "\<exists>dirty. turn_away env i reason s = Some (s\<lparr>out_connections :=
      (out_connections s)[i := (with_control (reject_packet reason) (out_connections s ! i))\<lparr>cx_dirty := True, cx_close_when_flushed := True\<rparr>], out_dirty := dirty\<rparr>)
    \<and> set dirty \<subseteq> insert i (set (out_dirty s))"
proof -
  obtain dirty where "send_control env i (reject_packet reason) s
      = Some (s\<lparr>out_connections := (out_connections s)[i := (with_control (reject_packet reason) (out_connections s ! i))\<lparr>cx_dirty := True\<rparr>], out_dirty := dirty\<rparr>)"
    "set dirty \<subseteq> insert i (set (out_dirty s))"
    using send_control_effect [OF assms packet_lengths(1) [of reason]] by blast
  then show ?thesis using assms(1) by (intro exI [of _ dirty]) (simp add: turn_away_def set_connection_def)
qed

lemma sent_on_fresh: "out_inv env hist ns s \<Longrightarrow> conn \<notin> ns_used ns \<Longrightarrow> sent_on conn (out_sent s) = []"
  by (rule sent_on_other) (auto simp: out_inv_def)

lemma login_inv:
  assumes inv: "out_inv env hist ns s" and free: "may_login (tcp_slot env) conn ns" and k: "k \<le> unat MAX_CLIENTS"
    and u: "u = TurnedAway conn \<or> (\<exists>m. u = LoggedIn conn m)" and ns1: "ns1 = use_slot (tcp_slot env conn) u conn ns" "ns_good env ns1"
    and c1: "conn_inv env hist ns1 ((out_sessions s)[k := ss1]) (out_sent s) (tcp_slot env conn) c1"
      "cx_closed_generation c1 = cx_closed_generation (out_connections s ! tcp_slot env conn)" "cx_open c1"
    and ss1: "session_inv hist ((out_connections s)[tcp_slot env conn := c1]) k ss1"
    and link: "ss1 = out_sessions s ! k \<or> 0 < k \<and> ss_slot (out_sessions s ! k) = None"
    and dirty: "\<forall>j\<in>set dirty. j < kMaxConnections"
  shows "out_inv env hist ns1 (s\<lparr>out_tsc_reads := reads, out_connections := (out_connections s)[tcp_slot env conn := c1],
    out_sessions := (out_sessions s)[k := ss1], out_dirty := dirty\<rparr>)"
proof -
  let ?i = "tcp_slot env conn" let ?conns = "(out_connections s)[?i := c1]"
  note I = out_invD [OF inv] and E = env_okD [OF out_invD(6) [OF inv]]
  have i: "?i < kMaxConnections" using E(2) .
  have idle: "ns_slots ns ?i = Idle" "conn \<notin> ns_used ns" using free by (simp_all add: may_login_def)
  then have shut: "\<not> cx_open (out_connections s ! ?i)" using I(3) [OF i] by (auto simp: conn_inv_def current_def)
  have none: "ss_slot (out_sessions s ! m) \<noteq> Some ?i" if "m \<le> unat MAX_CLIENTS" for m
    using I(4) [OF that] shut by (auto simp: session_inv_def)
  have others: "unat (cx_client_id (out_connections s ! j)) \<noteq> k"
    if "ss_slot (out_sessions s ! k) = None" "j < kMaxConnections" "cx_open (out_connections s ! j)" "0 < k" for j
    using I(3) [OF that(2)] that by (auto simp: conn_inv_def linked_def Let_def split: if_splits)
  have "conns_ok env hist ns1 ?conns ((out_sessions s)[k := ss1]) (out_sent s @ [])"
    by (rule update_ok [OF I(8) i k _ ss1]) (use c1 ns1(1) none link others in \<open>auto simp: use_slot_def\<close>)
  moreover have cur: "current env ns1 d \<longleftrightarrow> d = conn \<or> current env ns d" for d
    using u ns1(1) idle(1) by (auto simp: current_def use_slot_def)
  have gen: "cx_closed_generation (?conns ! j) = cx_closed_generation (out_connections s ! j)" for j
    using c1(2) i I(1) by (cases "j = ?i") simp_all
  have op: "d \<in> set (out_closed s) \<or> cx_open (?conns ! tcp_slot env d)" if "d = conn \<or> current env ns d" for d
  proof (cases "d = conn")
    case True
    then show ?thesis using c1(3) i I(1) by simp
  next
    case False
    then have "current env ns d" "tcp_slot env d \<noteq> ?i" using that idle(1) by (auto simp: current_def)
    then show ?thesis using I(7) by (auto simp: closes_inv_def)
  qed
  have "closes_inv env ns1 ?conns (out_closed s)"
    using I(7) idle(2) ns1(1) op unfolding closes_inv_def cur gen by (auto simp: use_slot_def)
  ultimately show ?thesis using inv ns1 dirty by (auto simp: out_inv_def use_slot_def)
qed

lemma opened_rejected:
  assumes inv: "out_inv env hist ns s" and free: "may_login (tcp_slot env) conn ns" and u: "u = TurnedAway conn \<or> (\<exists>m. u = LoggedIn conn m)"
    and c: "c = opened conn now (out_connections s ! tcp_slot env conn)"
  shows "conn_inv env hist (use_slot (tcp_slot env conn) u conn ns) sess (out_sent s) (tcp_slot env conn)
    ((with_control (reject_packet reason) c)\<lparr>cx_dirty := d, cx_close_when_flushed := b\<rparr>)"
proof -
  have fresh: "conn \<notin> ns_used ns" using free by (simp add: may_login_def)
  have ok: "control_ok c" unfolding c by simp
  have "cx_closed_generation (out_connections s ! tcp_slot env conn) \<noteq> tcp_generation env conn"
    using closed_gen [OF inv, of conn] fresh out_invD(7) [OF inv] by (auto simp: closes_inv_def)
  moreover have "current env (use_slot (tcp_slot env conn) u conn ns) conn" using u by (auto simp: current_def use_slot_def)
  ultimately show ?thesis using with_control_spec [OF ok packet_lengths(1) [of reason]] sent_on_fresh [OF inv fresh]
    by (auto simp: conn_inv_def c)
qed

lemma turned_away:
  assumes inv: "out_inv env hist ns s" and free: "may_login (tcp_slot env) conn ns" and u: "u = TurnedAway conn \<or> (\<exists>m. u = LoggedIn conn m)"
    and good: "ns_good env (use_slot (tcp_slot env conn) u conn ns)" and op: "open_connection env conn s = Some s1"
  shows "\<exists>s2. turn_away env (tcp_slot env conn) reason s1 = Some s2 \<and> out_inv env hist (use_slot (tcp_slot env conn) u conn ns) s2"
proof -
  let ?i = "tcp_slot env conn"
  note I = out_invD [OF inv] and E = env_okD [OF out_invD(6) [OF inv]]
  have i: "?i < kMaxConnections" "?i < length (out_connections s)" using E(2) I(1) by simp_all
  obtain now reads where s1: "s1 = s\<lparr>out_tsc_reads := reads, out_connections := (out_connections s)[?i := opened conn now (out_connections s ! ?i)]\<rparr>"
    using open_effect [OF i(2)] op by auto
  define c where "c = opened conn now (out_connections s ! ?i)"
  have c1: "i' < length (out_connections s1) \<and> out_connections s1 ! ?i = c" if "i' = ?i" for i' using that i(2) by (simp add: s1 c_def)
  have "?i < length (out_connections s1)" "tcp_slot env (cx_conn (out_connections s1 ! ?i)) = ?i" "control_ok (out_connections s1 ! ?i)"
    using c1 by (simp_all add: c_def)
  from turn_away_effect [OF this, of reason] obtain dirty where run: "turn_away env ?i reason s1 = Some (s1\<lparr>out_connections :=
      (out_connections s1)[?i := (with_control (reject_packet reason) (out_connections s1 ! ?i))\<lparr>cx_dirty := True, cx_close_when_flushed := True\<rparr>], out_dirty := dirty\<rparr>)"
    "set dirty \<subseteq> insert ?i (set (out_dirty s1))" by blast
  let ?c1 = "(with_control (reject_packet reason) c)\<lparr>cx_dirty := True, cx_close_when_flushed := True\<rparr>"
  have "out_inv env hist (use_slot ?i u conn ns) (s\<lparr>out_tsc_reads := reads, out_connections := (out_connections s)[?i := ?c1],
    out_sessions := (out_sessions s)[0 := out_sessions s ! 0], out_dirty := dirty\<rparr>)"
  proof (rule login_inv [OF inv free _ u refl good])
    show "conn_inv env hist (use_slot ?i u conn ns) ((out_sessions s)[0 := out_sessions s ! 0]) (out_sent s) ?i ?c1"
      by (rule opened_rejected [OF inv free u c_def])
    show "session_inv hist ((out_connections s)[?i := ?c1]) 0 (out_sessions s ! 0)"
      by (rule session_inv_conn [OF I(4) [of 0]]) (use I(4) [of 0] in \<open>auto simp: session_inv_def\<close>)
    show "\<forall>j\<in>set dirty. j < kMaxConnections" using run(2) i(1) inv by (auto simp: s1 out_inv_def)
  qed (simp_all add: c_def)
  then show ?thesis using run(1) c1 by (simp add: s1)
qed

lemma session_log_effect:
  assumes inv: "out_inv env hist ns s" and k: "client_range client"
  obtains lg s1 where "session_log client s = Some (lg, s1)" "out_inv env hist ns s1" "ss_log (out_sessions s1 ! unat client) = Some lg"
    "log_inv 24 (hist (unat client)) lg" "ss_slot (out_sessions s1 ! unat client) = ss_slot (out_sessions s ! unat client)"
    "out_connections s1 = out_connections s"
proof -
  let ?k = "unat client" let ?ss = "out_sessions s ! ?k"
  note I = out_invD [OF inv]
  have k1: "?k \<le> unat MAX_CLIENTS" "?k < length (out_sessions s)" "0 < ?k" using k I(2) by (simp_all add: client_range_unat)
  have ss: "session_inv hist (out_connections s) ?k ?ss" by (rule I(4) [OF k1(1)])
  show thesis
  proof (cases "ss_log ?ss")
    case (Some lg)
    then have "session_log client s = Some (lg, s)" using k1(2) by (simp add: session_log_def)
    then show thesis using that inv Some ss by (auto simp: session_inv_def)
  next
    case None
    let ?lg = "new_SessionLog SOUP_REPLAY_BYTES" let ?ss1 = "?ss\<lparr>ss_log := Some ?lg\<rparr>"
    let ?s1 = "s\<lparr>out_sessions := (out_sessions s)[?k := ?ss1], out_retained_from := (out_retained_from s)[?k := first_sequence ?lg]\<rparr>"
    have nil: "hist ?k = []" using ss None by (simp add: session_inv_def)
    have lg: "log_inv 24 (hist ?k) ?lg" unfolding nil by (rule new_SessionLog_inv) (simp_all add: SOUP_REPLAY_BYTES_def)
    have others: "unat (cx_client_id (out_connections s ! j)) \<noteq> ?k" if "j < kMaxConnections" "cx_open (out_connections s ! j)" for j
      using I(3) [OF that(1)] that(2) None k1(3) by (auto simp: conn_inv_def linked_def Let_def split: if_splits)
    have ss1: "session_inv hist (out_connections s) ?k ?ss1" using ss lg by (simp add: session_inv_def)
    have "conn_inv env hist ns ((out_sessions s)[?k := ?ss1]) (out_sent s) j (out_connections s ! j)" if "j < kMaxConnections" for j
      by (rule conn_inv_frame [OF I(3) [OF that]]) (use others [OF that] in auto)
    moreover have "session_inv hist (out_connections s) m ((out_sessions s)[?k := ?ss1] ! m)" if "m \<le> unat MAX_CLIENTS" for m
      using I(4) [OF that] ss1 k1(2) by (cases "m = ?k") simp_all
    ultimately have "out_inv env hist ns ?s1" using inv by (simp add: out_inv_def conns_ok_def)
    moreover have "session_log client s = Some (?lg, ?s1)" using k1(2) None by (simp add: session_log_def set_session_def Let_def)
    ultimately show thesis using that [of ?lg ?s1] lg k1(2) by simp
  qed
qed

text \<open>Where a login starts to read the session: at a message that is there, or at the next one.\<close>

lemma login_offset:
  assumes lg: "log_inv 24 hist lg" and st: "start = (if sequence = 0 \<or> sequence > next_sequence lg then next_sequence lg else sequence)"
    and off: "offset_of start lg = Some offset"
  shows "1 \<le> unat start" "unat start \<le> length hist + 1" "unat offset = start_of hist (unat start)"
    "unat offset \<le> length (concat hist)" "length (concat hist) \<le> unat offset + 2 ^ 24"
proof -
  note I = log_invD [OF lg]
  have start: "unat (first_sequence lg) \<le> unat start" "unat start \<le> length hist + 1" "offset = of_nat (start_of hist (unat start))"
    using off unfolding offset_of_spec [OF lg] by (simp_all split: if_splits)
  have le: "start_of hist (unat start) \<le> length (concat hist)" by (rule start_of_le)
  then show pos: "unat offset = start_of hist (unat start)" using I(6) start(3) by (simp add: unat_of_nat_small)
  show "unat start \<le> length hist + 1" by (rule start(2))
  show "1 \<le> unat start" using start(1) I(9) by (simp add: word_nat)
  show "unat offset \<le> length (concat hist)" using pos le by simp
  show "length (concat hist) \<le> unat offset + 2 ^ 24" using I(12) start_of_mono [OF start(1), of hist] pos by linarith
qed

lemma accepted_conn:
  assumes inv: "out_inv env hist ns s" and free: "may_login (tcp_slot env) conn ns" and k: "client_range client" "k = unat client"
    and c: "c = (opened conn now (out_connections s ! tcp_slot env conn))\<lparr>cx_client_id := client\<rparr>"
    and lg: "ss_log (out_sessions s ! k) = Some lg" "log_inv 24 (hist k) lg"
    and st: "start = (if sequence = 0 \<or> sequence > next_sequence lg then next_sequence lg else sequence)" "offset_of start lg = Some offset"
    and ss1: "ss1 = (out_sessions s ! k)\<lparr>ss_slot := Some (tcp_slot env conn), ss_cursor := offset, ss_samples_count := 0\<rparr>"
  shows "conn_inv env hist (use_slot (tcp_slot env conn) (LoggedIn conn client) conn ns) ((out_sessions s)[k := ss1]) (out_sent s) (tcp_slot env conn)
    (with_control (accept_packet start) c)"
proof -
  let ?i = "tcp_slot env conn"
  note I = out_invD [OF inv] and O = login_offset [OF lg(2) st]
  have k1: "k \<le> unat MAX_CLIENTS" "k < length (out_sessions s)" "client \<noteq> 0" using k I(2) by (auto simp: client_range_unat)
  have fresh: "conn \<notin> ns_used ns" using free by (simp add: may_login_def)
  have ok: "control_ok c" unfolding c by simp
  have sel: "cx_conn c = conn" "cx_open c" "cx_client_id c = client" "cx_closed_generation c = cx_closed_generation (out_connections s ! ?i)"
    unfolding c by simp_all
  have gen: "cx_closed_generation (out_connections s ! ?i) \<noteq> tcp_generation env conn"
    using closed_gen [OF inv, of conn] fresh I(7) by (auto simp: closes_inv_def)
  have "\<forall>p\<in>set (hist k). p \<noteq> heartbeat_packet" using I(4) [OF k1(1)] by (simp add: session_inv_def)
  from session_stream_start [OF O(1,2) this] have stream: "session_stream (hist k) (accept_packet start @ drop (unat offset) (concat (hist k)))"
    using O(3) by simp
  have "linked hist ((out_sessions s)[k := ss1]) (out_sent s) ?i (with_control (accept_packet start) c)"
    using with_control_spec [OF ok packet_lengths(2) [of start]] sent_on_fresh [OF inv fresh] stream O(4,5) lg(1) k k1 sel
    by (simp add: linked_def ss1)
  then show ?thesis using with_control_spec [OF ok packet_lengths(2) [of start]] gen sel k1(3)
    by (simp add: conn_inv_def current_def use_slot_def)
qed

lemma accept_login_inv:
  assumes inv: "out_inv env hist ns s" and free: "may_login (tcp_slot env) conn ns" and k: "client_range client"
    and only: "\<forall>i d. ns_slots ns i \<noteq> LoggedIn d client" and good: "ns_good env (use_slot (tcp_slot env conn) (LoggedIn conn client) conn ns)"
  shows "\<exists>s1. accept_login env conn client sequence s = Some s1 \<and> out_inv env hist (use_slot (tcp_slot env conn) (LoggedIn conn client) conn ns) s1"
proof -
  let ?i = "tcp_slot env conn" let ?k = "unat client" let ?ns = "use_slot ?i (LoggedIn conn client) conn ns"
  obtain lg s1 where s1: "session_log client s = Some (lg, s1)" "out_inv env hist ns s1" "ss_log (out_sessions s1 ! ?k) = Some lg"
    "log_inv 24 (hist ?k) lg" using session_log_effect [OF inv k] by blast
  note I = out_invD [OF s1(2)] and E = env_okD [OF out_invD(6) [OF s1(2)]]
  have i: "?i < kMaxConnections" "?i < length (out_connections s1)" using E(2) I(1) by simp_all
  have k1: "?k \<le> unat MAX_CLIENTS" "?k < length (out_sessions s1)" "0 < ?k" using k I(2) by (auto simp: client_range_unat)
  obtain now reads where op: "open_connection env conn s1
    = Some (s1\<lparr>out_tsc_reads := reads, out_connections := (out_connections s1)[?i := opened conn now (out_connections s1 ! ?i)]\<rparr>)"
    using open_effect [OF i(2)] by blast
  define start where "start = (if sequence = 0 \<or> sequence > next_sequence lg then next_sequence lg else sequence)"
  show ?thesis
  proof (cases "offset_of start lg")
    case None
    obtain s2 where "turn_away env ?i kSessionNotAvailable (s1\<lparr>out_tsc_reads := reads, out_connections := (out_connections s1)[?i := opened conn now (out_connections s1 ! ?i)]\<rparr>) = Some s2"
      "out_inv env hist ?ns s2" using turned_away [OF s1(2) free _ good op] by blast
    then show ?thesis using s1(1) op None by (simp add: accept_login_def start_def [symmetric])
  next
    case (Some offset)
    define c where "c = (opened conn now (out_connections s1 ! ?i))\<lparr>cx_client_id := client\<rparr>"
    define ss1 where "ss1 = (out_sessions s1 ! ?k)\<lparr>ss_slot := Some ?i, ss_cursor := offset, ss_samples_count := 0\<rparr>"
    let ?s2 = "s1\<lparr>out_tsc_reads := reads, out_connections := (out_connections s1)[?i := c], out_sessions := (out_sessions s1)[?k := ss1]\<rparr>"
    have "?i < length (out_connections ?s2)" "tcp_slot env (cx_conn (out_connections ?s2 ! ?i)) = ?i" "control_ok (out_connections ?s2 ! ?i)"
      using i(2) by (simp_all add: c_def)
    from send_control_effect [OF this packet_lengths(2) [of start]] obtain dirty where ctl: "send_control env ?i (accept_packet start) ?s2
        = Some (?s2\<lparr>out_connections := (out_connections s1)[?i := (with_control (accept_packet start) c)\<lparr>cx_dirty := True\<rparr>], out_dirty := dirty\<rparr>)"
      "set dirty \<subseteq> insert ?i (set (out_dirty s1))" using i(2) by auto
    have run: "accept_login env conn client sequence s
        = Some (?s2\<lparr>out_connections := (out_connections s1)[?i := (with_control (accept_packet start) c)\<lparr>cx_dirty := True\<rparr>], out_dirty := dirty\<rparr>)"
      using s1(1) op Some ctl(1) i(2) k1(2)
      by (simp add: accept_login_def start_def [symmetric] set_connection_def set_session_def c_def ss1_def Let_def)
    have "ss_slot (out_sessions s1 ! ?k) = None"
    proof (rule ccontr)
      assume "ss_slot (out_sessions s1 ! ?k) \<noteq> None"
      then obtain j where j: "j < kMaxConnections" "cx_open (out_connections s1 ! j)" "unat (cx_client_id (out_connections s1 ! j)) = ?k"
        using I(4) [OF k1(1)] by (auto simp: session_inv_def)
      then have "cx_client_id (out_connections s1 ! j) = client" by (simp add: word_unat_eq_iff)
      then show False using I(3) [OF j(1)] j(2) only k1(3) by (auto simp: conn_inv_def split: if_splits)
    qed
    moreover have "session_inv hist ((out_connections s1)[?i := (with_control (accept_packet start) c)\<lparr>cx_dirty := True\<rparr>]) ?k ss1"
      using I(4) [OF k1(1)] i k1(3) by (simp add: session_inv_def ss1_def c_def)
    moreover have "conn_inv env hist ?ns ((out_sessions s1)[?k := ss1]) (out_sent s1) ?i ((with_control (accept_packet start) c)\<lparr>cx_dirty := True\<rparr>)"
      using accepted_conn [OF s1(2) free k refl c_def s1(3,4) start_def Some ss1_def] by simp
    ultimately have "out_inv env hist ?ns (s1\<lparr>out_tsc_reads := reads, out_connections := (out_connections s1)[?i := (with_control (accept_packet start) c)\<lparr>cx_dirty := True\<rparr>],
        out_sessions := (out_sessions s1)[?k := ss1], out_dirty := dirty\<rparr>)"
      by (intro login_inv [OF s1(2) free k1(1) _ refl good]) (use k1(3) ctl(2) i(1) s1(2) in \<open>auto simp: c_def out_inv_def\<close>)
    then show ?thesis using run by (simp add: out_inv_def)
  qed
qed

subsection \<open>Notes that name a connection\<close>

lemma note_step_good:
  assumes "note_step (tcp_slot env) note ns = Some ns1" "ns_good env ns"
  shows "ns_good env ns1"
proof -
  have "ns_wf ns1" using note_step_wf [OF assms(1)] assms(2) by (simp add: ns_good_def)
  then show ?thesis using assms
    by (auto simp: note_step_def ns_good_def use_slot_def bind_eq_Some_conv split: ServerNoteKind.splits if_splits)
qed

lemma on_connection_note:
  assumes inv: "out_inv env hist ns s" and step: "note_step (tcp_slot env) note ns = Some ns1" and kind: "sn_kind note \<noteq> NOTE_GATEWAY"
  shows "\<exists>s1. on_note env note s = Some s1 \<and> out_inv env hist ns1 s1"
proof -
  note good = note_step_good [OF step out_invD(5) [OF inv]] and E = env_okD [OF out_invD(6) [OF inv]]
  obtain conn where conn: "sn_conn note = Some conn" using step kind by (auto simp: note_step_def bind_eq_Some_conv split: ServerNoteKind.splits)
  show ?thesis
  proof (cases "sn_kind note")
    case NOTE_LOGIN_ACCEPTED
    then show ?thesis using step good conn accept_login_inv [OF inv, of conn "sn_client_id note" "sn_sequence note"]
      by (auto simp: note_step_def on_note_def split: if_splits)
  next
    case NOTE_LOGIN_REJECTED
    have i: "tcp_slot env conn < length (out_connections s)" using E(2) out_invD(1) [OF inv] by simp
    obtain s1 where "open_connection env conn s = Some s1" using open_effect [OF i] by blast
    then show ?thesis using step good conn NOTE_LOGIN_REJECTED turned_away [OF inv, of conn "TurnedAway conn" s1 "sn_reject_reason note"]
      by (auto simp: note_step_def on_note_def split: if_splits)
  next
    case NOTE_DISCONNECTED
    then have ns1: "ns1 = use_slot (tcp_slot env conn) Idle conn ns" and may: "may_end (tcp_slot env) conn ns"
      using step conn by (auto simp: note_step_def split: if_splits)
    then have "current env ns conn \<or> ns_slots ns (tcp_slot env conn) = Idle \<and> conn \<notin> ns_used ns"
      by (auto simp: may_end_def current_def split: SlotUse.splits)
    then have "\<exists>s1. close_connection env conn s = Some s1 \<and> out_inv env hist ns1 s1"
      unfolding ns1 using end_current [OF inv] end_fresh [OF inv] by blast
    then show ?thesis using NOTE_DISCONNECTED conn by (simp add: on_note_def)
  qed (use kind in simp)
qed

end
