(* ===== verification/Outbound_Send.thy ===== *)
theory Outbound_Send
  imports Outbound_Login
begin

text \<open>
  A response of the exchange becomes the next message of its client's session: it is appended to the log, whoever is connected. A reader so slow that its
  next bytes would be overwritten is closed first. The invariant of the outbound thread holds for the longer history.
\<close>

subsection \<open>The packet\<close>

lemma length_ouch_encode: "length (snd (ouch_encode core tags appendage m out)) = length out"
proof -
  define w1 where "w1 = ww_core (core m) (wire_writer out)"
  obtain dst w2 where s: "ww_skip kAppendageLengthLen w1 = (dst, w2)" by fastforce
  define w3 where "w3 = fold (ouch_put_tag (appendage m)) (tags m) w2"
  have 1: "ww_appends (wire_all (core m)) (wire_writer out) w1" unfolding w1_def by (rule ww_core_appends) simp
  then have i1: "ww_inv w1" "length (ww_out w1) = length out" by (simp_all add: ww_appends_def wire_writer_def)
  note 2 = ww_skip_appends [OF i1(1) s]
  have 3: "ww_appends (appendage_bytes (appendage m) (tags m)) w2 w3"
    unfolding w3_def by (rule ouch_put_tags_appends [OF 2(1)])
  then have len: "length (ww_out w3) = length out" using 2(2) i1(2) by (simp add: ww_appends_def)
  have "length (splice (the dst) (be_bytes 2 v) (ww_out w3)) = length out" if "ww_ok w3" for v :: u16
  proof -
    have "ww_ok w2" using 3 that by (simp add: ww_appends_def)
    then have "the dst + 2 \<le> length out" using 2 i1 by (auto simp: ww_inv_def kAppendageLengthLen_def)
    then show ?thesis using len length_splice [of "the dst" "be_bytes 2 v" "ww_out w3"] by simp
  qed
  then show ?thesis using len
    by (simp add: ouch_encode_def w1_def [symmetric] s w3_def [symmetric] Let_def ww_store16_def)
qed

lemma length_encode_outbound: "length (snd (encode_outbound_ouch m out)) = length out"
  by (cases m) (simp_all add: length_ouch_encode)

lemma sequenced_packet:
  assumes out: "length out = kMaxSoupPacket" and e: "encode_soup_sequenced msg out = (len, out1)"
  shows "length out1 = kMaxSoupPacket"
    "len = 0 \<or> len \<le> 256 \<and> take len out1 = soup_frame SEQUENCED_DATA (wire_outbound msg)"
proof -
  let ?n = "encoded_size_outbound msg"
  have "length out1 = kMaxSoupPacket \<and> (len = 0 \<or> len \<le> 256 \<and> take len out1 = soup_frame SEQUENCED_DATA (wire_outbound msg))"
  proof (cases "?n = 0 \<or> length out < 3 + ?n")
    case True
    then show ?thesis using e out by (auto simp: encode_soup_sequenced_def write_header_fails Let_def split: if_splits)
  next
    case False
    then have fit: "0 < ?n" "3 + ?n \<le> length out" "?n + 1 \<le> 65535" using out by (simp_all add: kMaxSoupPacket_def)
    then have msg: "msg \<noteq> OutboundNone" by auto
    obtain k payload where p: "encode_outbound_ouch msg (take ?n (drop 3 out)) = (k, payload)" by fastforce
    then have "length payload = ?n" using length_encode_outbound [of msg "take ?n (drop 3 out)"] fit(2) by simp
    then have "length out1 = length out"
      using e fit p by (auto simp: encode_soup_sequenced_def Let_def write_header_frame kSoupHeaderLen_def splice_payload)
    then show ?thesis using encode_sequenced_frame [OF msg fit(1,3,2)] e out fit(2) by (simp add: kMaxSoupPacket_def)
  qed
  then show "length out1 = kMaxSoupPacket" "len = 0 \<or> len \<le> 256 \<and> take len out1 = soup_frame SEQUENCED_DATA (wire_outbound msg)" by simp_all
qed

lemma sequenced_not_heartbeat: "soup_frame SEQUENCED_DATA payload \<noteq> heartbeat_packet"
proof -
  have "soup_frame SEQUENCED_DATA payload ! 2 \<noteq> heartbeat_packet ! 2"
    by (simp add: soup_frame_def heartbeat_packet_frame soup_type_defs nth_append)
  then show ?thesis by metis
qed

subsection \<open>Appending to a session\<close>

definition hist_count :: "nat \<Rightarrow> (nat \<Rightarrow> byte list list) \<Rightarrow> bool" where
  "hist_count n hist \<longleftrightarrow> (\<forall>k. length (hist k) \<le> n \<and> length (concat (hist k)) \<le> 256 * n)"

definition max_messages :: nat where "max_messages = 2 ^ 54"

lemma hist_count_append: "hist_count n hist \<Longrightarrow> length packet \<le> 256 \<Longrightarrow> hist_count (Suc n) (hist(k := hist k @ [packet]))"
proof -
  assume h: "hist_count n hist" and p: "length packet \<le> 256"
  have "length (hist k) \<le> n" "length (concat (hist k)) \<le> 256 * n" for k using h by (simp_all add: hist_count_def)
  from this add_mono [OF this(2) [of k] p] show ?thesis by (simp add: hist_count_def le_SucI trans_le_add2 add.commute)
qed

lemma hist_count_mono: "hist_count n hist \<Longrightarrow> n \<le> m \<Longrightarrow> hist_count m hist"
  unfolding hist_count_def by (meson le_trans mult_le_mono2)

lemma overwrite_iff:
  assumes lg: "log_inv 24 hist lg" and pos: "unat cursor \<le> length (concat hist)" and small: "length (concat hist) + n < 2 ^ 63"
  shows "would_overwrite cursor (of_nat n) lg \<longleftrightarrow> length (concat hist) + n > unat cursor + 2 ^ 24"
proof -
  note I = log_invD [OF lg]
  have n: "unat (of_nat n :: u64) = n" using small by (intro unat_of_nat_small) simp
  have a: "unat (end_offset lg + of_nat n) = length (concat hist) + n"
    using small n I(8) by (subst unat_add_lem [THEN iffD1]) simp_all
  then have "cursor \<le> end_offset lg + of_nat n" using pos by (simp add: word_nat)
  then have "unat (end_offset lg + of_nat n - cursor) = length (concat hist) + n - unat cursor" using a by (simp add: unat_sub)
  then show ?thesis using I(3) pos by (auto simp: would_overwrite_def word_nat)
qed

lemma append_session:
  assumes inv: "out_inv env hist ns s" and k: "k \<le> unat MAX_CLIENTS" "0 < k" and hb: "packet \<noteq> heartbeat_packet"
    and lg1: "log_inv 24 (hist k @ [packet]) lg1" and old: "ss_log (out_sessions s ! k) \<noteq> None"
    and slow: "\<And>i. ss_slot (out_sessions s ! k) = Some i \<Longrightarrow> length (concat (hist k)) + length packet \<le> unat (ss_cursor (out_sessions s ! k)) + 2 ^ 24"
    and ss1: "ss_log ss1 = Some lg1" "ss_slot ss1 = ss_slot (out_sessions s ! k)" "ss_cursor ss1 = ss_cursor (out_sessions s ! k)"
      "length (ss_samples ss1) = kMaxPendingSamples" "ss_samples_head ss1 < kMaxPendingSamples" "ss_samples_count ss1 \<le> kMaxPendingSamples"
    and r: "length retained = unat MAX_CLIENTS + 1"
  shows "out_inv env (hist(k := hist k @ [packet])) ns (s\<lparr>out_retained_from := retained, out_sessions := (out_sessions s)[k := ss1]\<rparr>)"
proof -
  note I = out_invD [OF inv]
  let ?hist = "hist(k := hist k @ [packet])" let ?sess = "(out_sessions s)[k := ss1]"
  have len: "k < length (out_sessions s)" using k I(2) by simp
  have "conn_inv env ?hist ns ?sess (out_sent s) j (out_connections s ! j)" if j: "j < kMaxConnections" for j
  proof (cases "cx_open (out_connections s ! j) \<and> unat (cx_client_id (out_connections s ! j)) = k")
    case True
    let ?c = "out_connections s ! j" let ?pos = "unat (ss_cursor (out_sessions s ! k))"
    have id: "cx_client_id ?c \<noteq> 0" using True k(2) by auto
    have ci: "conn_inv env hist ns (out_sessions s) (out_sent s) j ?c" by (rule I(3) [OF j])
    then have l: "linked hist (out_sessions s) (out_sent s) j ?c" using True id by (simp add: conn_inv_def)
    then have "session_stream (hist k @ [packet]) ((sent_on (cx_conn ?c) (out_sent s) @ control_pending ?c @ drop ?pos (concat (hist k))) @ packet)"
      using True by (intro session_stream_append [OF _ hb]) (simp add: linked_def Let_def)
    then have "linked ?hist ?sess (out_sent s) j ?c" using l True slow [of j] ss1 len by (simp add: linked_def Let_def)
    then show ?thesis using ci id by (simp add: conn_inv_def)
  next
    case False
    then show ?thesis by (intro conn_inv_frame [OF I(3) [OF j]]) auto
  qed
  moreover have "session_inv ?hist (out_connections s) m (?sess ! m)" if "m \<le> unat MAX_CLIENTS" for m
  proof (cases "m = k")
    case True
    then show ?thesis using I(4) [OF k(1)] ss1 lg1 hb len by (auto simp: session_inv_def)
  next
    case False
    then have "?hist m = hist m" "?sess ! m = out_sessions s ! m" by simp_all
    then show ?thesis using I(4) [OF that] unfolding session_inv_def by presburger
  qed
  ultimately show ?thesis using inv r by (simp add: out_inv_def conns_ok_def)
qed

text \<open>The reader that is too slow is gone before the append.\<close>

lemma slow_reader:
  assumes inv: "out_inv env hist ns s" and k: "k \<le> unat MAX_CLIENTS" and ss: "ss = out_sessions s ! k" "ss_log ss = Some lg"
    and small: "length (concat (hist k)) + length packet < 2 ^ 63"
  shows "\<exists>s1. (case ss_slot ss of
      Some i \<Rightarrow> if would_overwrite (ss_cursor ss) (of_nat (length packet)) lg then do { c \<leftarrow> at_index (out_connections s) i; close_connection env (cx_conn c) s } else Some s
    | None \<Rightarrow> Some s) = Some s1 \<and> out_inv env hist ns s1 \<and> ss_log (out_sessions s1 ! k) = Some lg
    \<and> (\<forall>i. ss_slot (out_sessions s1 ! k) = Some i \<longrightarrow> length (concat (hist k)) + length packet \<le> unat (ss_cursor (out_sessions s1 ! k)) + 2 ^ 24)"
proof (cases "ss_slot ss")
  case None
  then show ?thesis using inv ss by auto
next
  case (Some i)
  note I = out_invD [OF inv]
  let ?c = "out_connections s ! i"
  have si: "session_inv hist (out_connections s) k ss" using I(4) [OF k] ss(1) by simp
  then have i: "i < kMaxConnections" "0 < k" "cx_open ?c" "unat (cx_client_id ?c) = k" and lg: "log_inv 24 (hist k) lg"
    using Some ss(2) by (auto simp: session_inv_def)
  have id: "cx_client_id ?c \<noteq> 0" using i(2,4) by auto
  then have ci: "tcp_slot env (cx_conn ?c) = i" "current env ns (cx_conn ?c)" "unat (ss_cursor ss) \<le> length (concat (hist k))"
    using I(3) [OF i(1)] i(3,4) ss(1) by (simp_all add: conn_inv_def linked_def Let_def)
  show ?thesis
  proof (cases "would_overwrite (ss_cursor ss) (of_nat (length packet)) lg")
    case False
    then show ?thesis using overwrite_iff [OF lg ci(3) small] inv ss Some by simp
  next
    case True
    obtain s1 where s1: "close_connection env (cx_conn ?c) s = Some s1" "out_inv env hist ns s1" "\<not> cx_open (out_connections s1 ! i)"
      "ss_log (out_sessions s1 ! k) = ss_log ss" "ss_slot (out_sessions s1 ! k) = None \<or> ss_slot (out_sessions s1 ! k) = Some i"
      using close_current [OF inv ci(2)] unfolding ci(1) ss(1) Some [unfolded ss(1), symmetric] by blast
    then have "ss_slot (out_sessions s1 ! k) = None" using out_invD(4) [OF s1(2) k] by (auto simp: session_inv_def)
    then show ?thesis using True s1 Some ss(2) i(1) I(1) by simp
  qed
qed

lemma add_sample_keeps:
  assumes "session_inv hist conns k ss"
  shows "ss_log (add_sample e latency ss) = ss_log ss" "ss_slot (add_sample e latency ss) = ss_slot ss" "ss_cursor (add_sample e latency ss) = ss_cursor ss"
    "length (ss_samples (add_sample e latency ss)) = kMaxPendingSamples" "ss_samples_head (add_sample e latency ss) < kMaxPendingSamples"
    "ss_samples_count (add_sample e latency ss) \<le> kMaxPendingSamples"
  using assms by (auto simp: add_sample_def session_inv_def Let_def split: option.splits)

lemma mark_dirty_inv:
  assumes inv: "out_inv env hist ns s" and i: "i < kMaxConnections" "cx_open (out_connections s ! i)"
  shows "\<exists>s1. mark_dirty env i s = Some s1 \<and> out_inv env hist ns s1"
proof -
  note ci = out_invD(3) [OF inv i(1)]
  have "i < length (out_connections s)" "tcp_slot env (cx_conn (out_connections s ! i)) = i"
    using i ci out_invD(1) [OF inv] by (simp_all add: conn_inv_def)
  from mark_dirty_effect [OF this] obtain dirty where
    d: "mark_dirty env i s = Some (s\<lparr>out_connections := (out_connections s)[i := (out_connections s ! i)\<lparr>cx_dirty := True\<rparr>], out_dirty := dirty\<rparr>)"
    "set dirty \<subseteq> insert i (set (out_dirty s))" by blast
  have "out_inv env hist ns (s\<lparr>out_connections := (out_connections s)[i := (out_connections s ! i)\<lparr>cx_dirty := True\<rparr>], out_dirty := dirty\<rparr>)"
    by (rule update_conn [OF inv i(1)]) (use ci inv d(2) i(1) in \<open>auto simp: out_inv_def\<close>)
  then show ?thesis using d(1) by blast
qed

lemma send_sequenced_inv:
  assumes inv: "out_inv env hist ns s" and client: "client_range client" and packet: "packet \<noteq> heartbeat_packet" "length packet \<le> 256"
    and n: "hist_count n hist" "n < max_messages"
  shows "\<exists>s1 hist1. send_sequenced env client packet latency s = Some s1 \<and> out_inv env hist1 ns s1 \<and> hist_count (Suc n) hist1"
proof (cases "ss_log (out_sessions s ! unat client)")
  case None
  then show ?thesis using inv client out_invD(2) [OF inv] hist_count_mono [OF n(1), of "Suc n"]
    by (intro exI [of _ s] exI [of _ hist]) (simp add: send_sequenced_def client_range_unat)
next
  case (Some lg)
  let ?k = "unat client" let ?ss = "out_sessions s ! ?k" let ?hist = "hist(?k := hist ?k @ [packet])"
  have k: "?k \<le> unat MAX_CLIENTS" "0 < ?k" "?k < length (out_sessions s)" using client out_invD(2) [OF inv] by (auto simp: client_range_unat)
  have lg: "log_inv 24 (hist ?k) lg" using out_invD(4) [OF inv k(1)] Some by (simp add: session_inv_def)
  have "length (hist ?k) \<le> n" "length (concat (hist ?k)) \<le> 256 * n" using n(1) by (simp_all add: hist_count_def)
  then have small: "length (concat (hist ?k)) + length packet < 2 ^ 63" "length packet < 2 ^ 24" "length (hist ?k) + 2 < 2 ^ 64"
    using n(2) packet(2) by (simp_all add: max_messages_def)
  obtain lg1 where lg1: "log_append packet lg = Some lg1" "log_inv 24 (hist ?k @ [packet]) lg1" using log_append_spec [OF lg small] by blast
  obtain s1 where s1: "(case ss_slot ?ss of
      Some i \<Rightarrow> if would_overwrite (ss_cursor ?ss) (of_nat (length packet)) lg then do { c \<leftarrow> at_index (out_connections s) i; close_connection env (cx_conn c) s } else Some s
    | None \<Rightarrow> Some s) = Some s1" "out_inv env hist ns s1" "ss_log (out_sessions s1 ! ?k) = Some lg"
    "\<forall>i. ss_slot (out_sessions s1 ! ?k) = Some i \<longrightarrow> length (concat (hist ?k)) + length packet \<le> unat (ss_cursor (out_sessions s1 ! ?k)) + 2 ^ 24"
    using slow_reader [OF inv k(1) refl Some small(1)] by blast
  note J = out_invD [OF s1(2)]
  let ?ss1 = "out_sessions s1 ! ?k" let ?new = "?ss1\<lparr>ss_log := Some lg1\<rparr>"
  define ret where "ret = (if first_sequence lg1 \<noteq> first_sequence lg then (out_retained_from s1)[?k := first_sequence lg1] else out_retained_from s1)"
  have retl: "length ret = unat MAX_CLIENTS + 1" using s1(2) by (simp add: ret_def out_inv_def)
  have si: "session_inv hist (out_connections s1) ?k ?ss1" by (rule J(4) [OF k(1)])
  have new: "out_inv env ?hist ns (s1\<lparr>out_retained_from := ret, out_sessions := (out_sessions s1)[?k := ss2]\<rparr>)"
    if "ss2 = ?new \<or> ss2 = add_sample (end_offset lg1) latency ?new" for ss2
  proof (rule append_session [OF s1(2) k(1,2) packet(1) lg1(2) _ _ _ _ _ _ _ _ retl])
    have "session_inv ?hist (out_connections s1) ?k ?new" using si lg1(2) packet(1) by (simp add: session_inv_def)
    note A = add_sample_keeps [OF this, of "end_offset lg1" latency]
    show "ss_log ss2 = Some lg1" "ss_slot ss2 = ss_slot ?ss1" "ss_cursor ss2 = ss_cursor ?ss1" "length (ss_samples ss2) = kMaxPendingSamples"
      "ss_samples_head ss2 < kMaxPendingSamples" "ss_samples_count ss2 \<le> kMaxPendingSamples"
      using that A si by (auto simp: session_inv_def)
  qed (use s1(3,4) in auto)
  have k1: "?k < length (out_sessions s1)" using k(1) J(2) by simp
  have run: "send_sequenced env client packet latency s = (case ss_slot ?ss1 of
      None \<Rightarrow> Some (s1\<lparr>out_retained_from := ret, out_sessions := (out_sessions s1)[?k := ?new]\<rparr>)
    | Some i \<Rightarrow> mark_dirty env i (s1\<lparr>out_retained_from := ret, out_sessions := (out_sessions s1)[?k := add_sample (end_offset lg1) latency ?new]\<rparr>))"
    using k(3) Some s1(1) k1 lg1(1) by (simp add: send_sequenced_def set_session_def ret_def split: option.split)
  show ?thesis
  proof (cases "ss_slot ?ss1")
    case None
    then show ?thesis using run new hist_count_append [OF n(1) packet(2)] by auto
  next
    case (Some i)
    let ?s2 = "s1\<lparr>out_retained_from := ret, out_sessions := (out_sessions s1)[?k := add_sample (end_offset lg1) latency ?new]\<rparr>"
    have "i < kMaxConnections" "cx_open (out_connections ?s2 ! i)" using si Some by (auto simp: session_inv_def)
    moreover have "out_inv env ?hist ns ?s2" by (rule new) simp
    ultimately obtain s3 where "mark_dirty env i ?s2 = Some s3" "out_inv env ?hist ns s3" using mark_dirty_inv by blast
    then show ?thesis using run Some hist_count_append [OF n(1) packet(2)] by auto
  qed
qed

lemma send_ouch_inv:
  assumes inv: "out_inv env hist ns s" and client: "client_range (rs_client_id r)" and n: "hist_count n hist" "n < max_messages"
  shows "\<exists>s1 hist1. send_ouch env r latency s = Some s1 \<and> out_inv env hist1 ns s1 \<and> hist_count (Suc n) hist1"
proof -
  obtain len scratch where e: "encode_soup_sequenced (rs_ouch r) (out_scratch s) = (len, scratch)" by fastforce
  have "length (out_scratch s) = kMaxSoupPacket" using inv by (simp add: out_inv_def)
  note P = sequenced_packet [OF this e]
  let ?s = "s\<lparr>out_scratch := scratch\<rparr>"
  have inv1: "out_inv env hist ns ?s" using inv P(1) by (simp add: out_inv_def)
  show ?thesis
  proof (cases "len = 0")
    case True
    then show ?thesis using e inv1 hist_count_mono [OF n(1), of "Suc n"] by (intro exI [of _ ?s] exI [of _ hist]) (simp add: send_ouch_def)
  next
    case False
    then have "len \<le> 256" "take len scratch = soup_frame SEQUENCED_DATA (wire_outbound (rs_ouch r))" using P(2) by simp_all
    then have "take len scratch \<noteq> heartbeat_packet" "length (take len scratch) \<le> 256" using sequenced_not_heartbeat by (metis, subst length_take, simp)
    from send_sequenced_inv [OF inv1 client this n] show ?thesis using e False by (simp add: send_ouch_def)
  qed
qed

subsection \<open>Notes and events\<close>

lemma responder_inv: "out_inv env hist ns s \<Longrightarrow> resp_range resp \<Longrightarrow> out_inv env hist ns (s\<lparr>out_responder := resp\<rparr>)"
  by (simp add: out_inv_def)

lemma tsc_inv: "out_inv env hist ns (s\<lparr>out_tsc_reads := reads\<rparr>) = out_inv env hist ns s"
  by (simp add: out_inv_def)

lemma resp_on_note_range:
  assumes "resp_on_note g t resp = (r, resp1)" "resp_range resp" "client_range (or_client_id (gn_record g))"
  shows "resp_range resp1" "\<And>x. r = Some x \<Longrightarrow> client_range (rs_client_id x)"
  using assms by (auto simp: resp_on_note_def resp_range_def split: GatewayNoteKind.splits if_splits)

lemma resp_reduce_range: "resp_range resp \<Longrightarrow> resp_range (resp_reduce oid n resp)"
  by (auto simp: resp_reduce_def resp_range_def Let_def split: option.splits)

lemma resp_on_event_range:
  assumes "resp_on_event ev t resp = Some (r, resp1)" "resp_range resp"
  shows "resp_range resp1" "\<And>x. r = Some x \<Longrightarrow> client_range (rs_client_id x)"
  using assms resp_reduce_range [OF assms(2)]
  by (auto simp: resp_on_event_def resp_range_def Let_def split: option.splits EngineEventType.splits if_splits)

lemma on_note_inv:
  assumes inv: "out_inv env hist ns s" and step: "note_step (tcp_slot env) note ns = Some ns1" and n: "hist_count n hist" "n < max_messages"
  shows "\<exists>s1 hist1. on_note env note s = Some s1 \<and> out_inv env hist1 ns1 s1 \<and> hist_count (Suc n) hist1"
proof (cases "sn_kind note = NOTE_GATEWAY")
  case False
  then show ?thesis using on_connection_note [OF inv step] hist_count_mono [OF n(1), of "Suc n"] by auto
next
  case True
  then obtain g where g: "sn_gateway note = Some g" "client_range (or_client_id (gn_record g))" and ns1: "ns1 = ns"
    using step by (auto simp: note_step_def split: if_splits)
  obtain t s1 where r: "rdtsc s = (t, s1)" by fastforce
  then have inv1: "out_inv env hist ns s1" using inv by (auto simp: rdtsc_def tsc_inv)
  obtain x resp where x: "resp_on_note g (ns_since_midnight (env_clock env) t) (out_responder s1) = (x, resp)" by fastforce
  have "resp_range (out_responder s1)" using inv1 by (simp add: out_inv_def)
  note R = resp_on_note_range [OF x this g(2)]
  have inv2: "out_inv env hist ns (s1\<lparr>out_responder := resp\<rparr>)" by (rule responder_inv [OF inv1 R(1)])
  show ?thesis
  proof (cases x)
    case None
    then show ?thesis using True g(1) r x ns1 inv2 hist_count_mono [OF n(1), of "Suc n"] by (auto simp: on_note_def)
  next
    case (Some y)
    then show ?thesis using True g(1) r x ns1 send_ouch_inv [OF inv2 R(2) [OF Some] n] by (simp add: on_note_def)
  qed
qed

text \<open>The engine never says that an order replaces itself.\<close>

definition event_ok :: "EngineEvent \<Rightarrow> bool" where
  "event_ok event \<longleftrightarrow> (ev_type event = REPLACED \<longrightarrow> ev_orig_order_id event \<noteq> ev_order_id event)"

lemma resp_on_event_total: "event_ok event \<Longrightarrow> \<exists>r resp1. resp_on_event event t resp = Some (r, resp1)"
  by (auto simp: resp_on_event_def event_ok_def Let_def split: option.splits EngineEventType.splits)

lemma on_notes_inv:
  assumes "out_inv env hist ns s" "run_all (note_step (tcp_slot env)) drained ns = Some ns1" "hist_count n hist" "n + length drained \<le> max_messages"
  shows "\<exists>s1 hist1. run_all (on_note env) drained s = Some s1 \<and> out_inv env hist1 ns1 s1 \<and> hist_count (n + length drained) hist1"
  using assms
proof (induction drained arbitrary: hist ns s n)
  case Nil
  then show ?case by auto
next
  case (Cons nt drained)
  from Cons.prems(2) obtain ns2 where ns2: "note_step (tcp_slot env) nt ns = Some ns2" "run_all (note_step (tcp_slot env)) drained ns2 = Some ns1"
    by (auto simp: bind_eq_Some_conv)
  from Cons.prems(4) have "n < max_messages" "Suc n + length drained \<le> max_messages" by simp_all
  with on_note_inv [OF Cons.prems(1) ns2(1) Cons.prems(3)] Cons.IH [OF _ ns2(2)] show ?case by fastforce
qed

lemma on_event_inv:
  assumes inv: "out_inv env hist ns s" and step: "run_all (note_step (tcp_slot env)) drained ns = Some ns1" and ev: "event_ok event"
    and n: "hist_count n hist" "n + length drained < max_messages"
  shows "\<exists>s1 hist1. on_event env event drained s = Some s1 \<and> out_inv env hist1 ns1 s1 \<and> hist_count (Suc (n + length drained)) hist1"
proof -
  obtain t s0 where r: "rdtsc s = (t, s0)" by fastforce
  then have inv0: "out_inv env hist ns s0" using inv by (auto simp: rdtsc_def tsc_inv)
  obtain s2 hist2 where s2: "run_all (on_note env) drained s0 = Some s2" "out_inv env hist2 ns1 s2" "hist_count (n + length drained) hist2"
    using on_notes_inv [OF inv0 step n(1)] n(2) by auto
  obtain x resp where x: "resp_on_event event (ns_since_midnight (env_clock env) (ev_engine_push_tsc event)) (out_responder s2) = Some (x, resp)"
    using resp_on_event_total [OF ev] by blast
  have "resp_range (out_responder s2)" using s2(2) by (simp add: out_inv_def)
  note R = resp_on_event_range [OF x this]
  have inv3: "out_inv env hist2 ns1 (s2\<lparr>out_responder := resp\<rparr>)" by (rule responder_inv [OF s2(2) R(1)])
  show ?thesis
  proof (cases x)
    case None
    then show ?thesis using r s2(1) x inv3 hist_count_mono [OF s2(3), of "Suc (n + length drained)"] by (auto simp: on_event_def)
  next
    case (Some y)
    then show ?thesis using r s2(1) x send_ouch_inv [OF inv3 R(2) [OF Some] s2(3) n(2)] by (simp add: on_event_def)
  qed
qed

end
