(* ===== verification/Outbound_Flush.thy ===== *)
theory Outbound_Flush
  imports Outbound_Send
begin

text \<open>
  Sending: the control buffer of a connection, then the log of its session from the cursor on, as far as the stack takes it. Every byte the stack takes is
  the next one of the connection's stream, so the invariant of the outbound thread is kept, also by heartbeats, which go out only when everything else is sent.
\<close>

subsection \<open>Bytes go out on one connection\<close>

lemma update_send:
  assumes inv: "out_inv env hist ns s" and i: "i < kMaxConnections" "cx_open (out_connections s ! i)" and k: "k \<le> unat MAX_CLIENTS"
    and c1: "conn_inv env hist ns ((out_sessions s)[k := ss1]) (out_sent s @ xs) i c1"
    and same: "cx_open c1 = cx_open (out_connections s ! i)" "cx_client_id c1 = cx_client_id (out_connections s ! i)"
      "cx_closed_generation c1 = cx_closed_generation (out_connections s ! i)"
    and ss1: "session_inv hist ((out_connections s)[i := c1]) k ss1"
    and xs: "\<forall>p\<in>set xs. fst p = cx_conn (out_connections s ! i)"
    and link: "ss1 = out_sessions s ! k \<or> ss_slot (out_sessions s ! k) = Some i"
  shows "out_inv env hist ns (s\<lparr>out_connections := (out_connections s)[i := c1], out_sessions := (out_sessions s)[k := ss1], out_sent := out_sent s @ xs\<rparr>)"
proof -
  note I = out_invD [OF inv]
  let ?c = "out_connections s ! i" let ?conns = "(out_connections s)[i := c1]"
  have ci: "tcp_slot env (cx_conn ?c) = i" "current env ns (cx_conn ?c)" using I(3) [OF i(1)] i(2) by (simp_all add: conn_inv_def)
  have others: "unat (cx_client_id (out_connections s ! j)) \<noteq> k"
    if "ss_slot (out_sessions s ! k) = Some i" "j < kMaxConnections" "j \<noteq> i" "cx_open (out_connections s ! j)" for j
  proof
    assume e: "unat (cx_client_id (out_connections s ! j)) = k"
    have "0 < k" using I(4) [OF k] that(1) by (simp add: session_inv_def)
    then have "ss_slot (out_sessions s ! k) = Some j"
      using I(3) [OF that(2)] that(4) e by (auto simp: conn_inv_def linked_def Let_def split: if_splits)
    then show False using that(1,3) by simp
  qed
  have "conns_ok env hist ns ?conns ((out_sessions s)[k := ss1]) (out_sent s @ xs)"
    by (rule update_ok [OF I(8) i(1) k c1 ss1]) (use xs ci(1) link others same in auto)
  moreover have "closes_inv env ns ?conns (out_closed s)"
  proof (rule closes_inv_cong [OF I(6) _ I(7)])
    show "cx_closed_generation (?conns ! j) = cx_closed_generation (out_connections s ! j) \<and> cx_open (?conns ! j) = cx_open (out_connections s ! j)"
      if "j < kMaxConnections" for j using same(1,3) I(1) that by (cases "j = i") simp_all
  qed
  moreover have "cx_conn ?c \<in> ns_used ns" by (rule current_used [OF I(5) ci(2)])
  ultimately show ?thesis using inv xs by (auto simp: out_inv_def)
qed

lemma net_inv: "out_inv env hist ns (s\<lparr>out_net := net\<rparr>) = out_inv env hist ns s" "out_inv env hist ns (s\<lparr>out_latency := lat\<rparr>) = out_inv env hist ns s"
  by (simp_all add: out_inv_def)

lemma send_bytes_effect:
  assumes "env_ok env"
  obtains n net where "send_bytes env conn bytes s = (n, s\<lparr>out_net := net, out_sent := out_sent s @ [(conn, take n bytes)]\<rparr>)" "n \<le> length bytes"
proof -
  obtain n net where t: "tcp_send env conn bytes (out_net s) = (n, net)" by fastforce
  then have "n \<le> length bytes" using env_okD(1) [OF assms, of conn bytes "out_net s"] by simp
  then show thesis using that t by (simp add: send_bytes_def)
qed

subsection \<open>The control buffer\<close>

lemma control_advance:
  assumes ok: "control_ok c" and n: "n \<le> length (control_pending c)"
  shows "control_pending (c\<lparr>cx_control_sent := cx_control_sent c + of_nat n\<rparr>) = drop n (control_pending c)"
    "control_ok (c\<lparr>cx_control_sent := cx_control_sent c + of_nat n\<rparr>)"
    "cx_control_sent c + of_nat n = cx_control_len c \<longleftrightarrow> n = length (control_pending c)"
proof -
  let ?s = "unat (cx_control_sent c)" let ?l = "unat (cx_control_len c)"
  have b: "?s \<le> ?l" "?l \<le> 64" "length (cx_control c) = 64" using ok by (simp_all add: control_ok_def kMaxControlPacket_def word_nat)
  have d: "unat (cx_control_len c - cx_control_sent c) = ?l - ?s" using ok by (simp add: control_ok_def unat_sub)
  then have len: "length (control_pending c) = ?l - ?s" using b by (simp add: control_pending_def)
  have m: "unat (of_nat n :: u8) = n" using n len b by (intro unat_of_nat_small) simp
  have a: "unat (cx_control_sent c + of_nat n) = ?s + n" using m n len b by (subst unat_add_lem [THEN iffD1]) simp_all
  then have le: "cx_control_sent c + of_nat n \<le> cx_control_len c" using n len b by (simp add: word_nat)
  then have d1: "unat (cx_control_len c - (cx_control_sent c + of_nat n)) = ?l - ?s - n" using a by (simp add: unat_sub)
  show "control_pending (c\<lparr>cx_control_sent := cx_control_sent c + of_nat n\<rparr>) = drop n (control_pending c)"
    using a d d1 by (simp add: control_pending_def drop_take add.commute)
  show "control_ok (c\<lparr>cx_control_sent := cx_control_sent c + of_nat n\<rparr>)" using ok le by (simp add: control_ok_def)
  show "cx_control_sent c + of_nat n = cx_control_len c \<longleftrightarrow> n = length (control_pending c)"
    using a len b n by (auto simp: word_unat_eq_iff)
qed

lemma control_done:
  "control_ok c \<Longrightarrow> control_ok (c\<lparr>cx_control_len := 0, cx_control_sent := 0\<rparr>)" "control_pending (c\<lparr>cx_control_len := 0, cx_control_sent := 0\<rparr>) = []"
  by (simp_all add: control_ok_def control_pending_def)

text \<open>What a connection's stream depends on: the bytes sent and those waiting in the control buffer, taken together.\<close>

lemma conn_inv_moved:
  assumes "conn_inv env hist ns sess sent i c" "cx_open c" "control_ok c1"
    "sent_on (cx_conn c) (sent @ xs) @ control_pending c1 = sent_on (cx_conn c) sent @ control_pending c"
    "cx_conn c1 = cx_conn c" "cx_open c1 = cx_open c" "cx_client_id c1 = cx_client_id c" "cx_closed_generation c1 = cx_closed_generation c"
  shows "conn_inv env hist ns sess (sent @ xs) i c1"
proof -
  have e: "sent_on (cx_conn c) (sent @ xs) @ control_pending c1 @ b = sent_on (cx_conn c) sent @ control_pending c @ b" for b
    using assms(4) by (metis append.assoc)
  have "linked hist sess (sent @ xs) i c1 = linked hist sess sent i c" by (simp add: linked_def Let_def e assms(5,7))
  then show ?thesis using assms by (simp add: conn_inv_def)
qed

lemma flush_control_inv:
  assumes inv: "out_inv env hist ns s" and i: "i < kMaxConnections" "cx_open (out_connections s ! i)"
  shows "\<exists>sent any s1. flush_control env i s = Some (sent, any, s1) \<and> out_inv env hist ns s1 \<and> cx_open (out_connections s1 ! i)
    \<and> (sent \<longrightarrow> control_pending (out_connections s1 ! i) = [])"
proof -
  note I = out_invD [OF inv]
  let ?c = "out_connections s ! i"
  have ci: "conn_inv env hist ns (out_sessions s) (out_sent s) i ?c" by (rule I(3) [OF i(1)])
  have i1: "i < length (out_connections s)" using i(1) I(1) by simp
  have ok: "control_ok ?c" using ci by (simp add: conn_inv_def)
  show ?thesis
  proof (cases "cx_control_sent ?c < cx_control_len ?c")
    case False
    then have "cx_control_sent ?c = cx_control_len ?c" using ok by (simp add: control_ok_def)
    then have "control_pending ?c = []" by (simp add: control_pending_def)
    then show ?thesis using False i1 i(2) inv by (intro exI [of _ True] exI [of _ False] exI [of _ s]) (simp add: flush_control_def)
  next
    case True
    let ?p = "control_pending ?c"
    obtain n net where b: "send_bytes env (cx_conn ?c) ?p s = (n, s\<lparr>out_net := net, out_sent := out_sent s @ [(cx_conn ?c, take n ?p)]\<rparr>)" "n \<le> length ?p"
      using send_bytes_effect [OF I(6)] by blast
    define c1 where "c1 = ?c\<lparr>cx_control_sent := cx_control_sent ?c + of_nat n\<rparr>"
    note A = control_advance [OF ok b(2), folded c1_def]
    define c2 where "c2 = (if n = length ?p then c1\<lparr>cx_control_len := 0, cx_control_sent := 0\<rparr> else c1)"
    have sel: "cx_conn c2 = cx_conn ?c" "cx_open c2 = cx_open ?c" "cx_client_id c2 = cx_client_id ?c" "cx_closed_generation c2 = cx_closed_generation ?c"
      by (simp_all add: c2_def c1_def)
    have c2: "control_ok c2" "control_pending c2 = drop n ?p" using A(1,2) by (simp_all add: c2_def control_done)
    let ?xs = "[(cx_conn ?c, take n ?p)]"
    have "sent_on (cx_conn ?c) (out_sent s @ ?xs) @ control_pending c2 = sent_on (cx_conn ?c) (out_sent s) @ ?p"
      by (simp add: sent_on_append c2(2) sent_on_def)
    from conn_inv_moved [OF ci i(2) c2(1) this sel] have "conn_inv env hist ns ((out_sessions s)[0 := out_sessions s ! 0]) (out_sent s @ ?xs) i c2" by simp
    moreover have "session_inv hist ((out_connections s)[i := c2]) 0 (out_sessions s ! 0)"
      by (rule session_inv_conn [OF I(4) [of 0]]) (use I(4) [of 0] in \<open>auto simp: session_inv_def\<close>)
    ultimately have "out_inv env hist ns (s\<lparr>out_connections := (out_connections s)[i := c2], out_sessions := (out_sessions s)[0 := out_sessions s ! 0], out_sent := out_sent s @ ?xs\<rparr>)"
      using sel by (intro update_send [OF inv i]) simp_all
    moreover have "flush_control env i s = Some (n = length ?p, n > 0, s\<lparr>out_net := net, out_sent := out_sent s @ ?xs, out_connections := (out_connections s)[i := c2]\<rparr>)"
      using i1 True b(1) A(3) by (simp add: flush_control_def control_pending_def [symmetric] set_connection_def c2_def c1_def Let_def)
    ultimately show ?thesis using i1 i(2) sel c2(2) by (auto simp: out_inv_def)
  qed
qed

subsection \<open>The log\<close>

lemma send_log_spec:
  assumes env: "env_ok env" and lg: "log_inv 24 hist lg"
  shows "unat cursor \<le> length (concat hist) \<Longrightarrow> length (concat hist) \<le> unat cursor + 2 ^ 24 \<Longrightarrow>
    \<exists>cursor1 any1 net xs. send_log env conn lg cursor any s = Some (cursor1, any1, s\<lparr>out_net := net, out_sent := out_sent s @ xs\<rparr>)
      \<and> unat cursor \<le> unat cursor1 \<and> unat cursor1 \<le> length (concat hist) \<and> (\<forall>p\<in>set xs. fst p = conn)
      \<and> sent_on conn xs @ drop (unat cursor1) (concat hist) = drop (unat cursor) (concat hist)"
proof (induction "length (concat hist) - unat cursor" arbitrary: cursor any s rule: less_induct)
  case less
  note I = log_invD [OF lg]
  let ?all = "concat hist"
  show ?case
  proof (cases "cursor < end_offset lg")
    case False
    then show ?thesis using less.prems
      by (subst send_log.simps) (auto simp: sent_on_def intro!: exI [of _ cursor] exI [of _ any] exI [of _ "out_net s"] exI [of _ "[]"])
  next
    case True
    define len where "len = min (length ?all - unat cursor) (2 ^ 24 - unat cursor mod 2 ^ 24)"
    let ?chunk = "take len (drop (unat cursor) ?all)"
    have chunk: "contiguous_from cursor lg = Some ?chunk" by (rule contiguous_from_spec [OF lg less.prems len_def])
    obtain n net where b: "send_bytes env conn ?chunk s = (n, s\<lparr>out_net := net, out_sent := out_sent s @ [(conn, take n ?chunk)]\<rparr>)" "n \<le> length ?chunk"
      using send_bytes_effect [OF env] by blast
    let ?s1 = "s\<lparr>out_net := net, out_sent := out_sent s @ [(conn, take n ?chunk)]\<rparr>"
    show ?thesis
    proof (cases "n = 0")
      case n0: True
      then show ?thesis using True chunk b less.prems
        by (subst send_log.simps) (auto simp: sent_on_def intro!: exI [of _ cursor] exI [of _ any] exI [of _ net] exI [of _ "[(conn, [])]"])
    next
      case False
      have n: "n \<le> length ?all - unat cursor" "n \<le> len" using b(2) by simp_all
      have m: "unat (of_nat n :: u64) = n" using n(1) I(6) by (intro unat_of_nat_small) simp
      have a: "unat (cursor + of_nat n) = unat cursor + n" using m n(1) less.prems(1) I(6) by (subst unat_add_lem [THEN iffD1]) simp_all
      have "length ?all - unat (cursor + of_nat n) < length ?all - unat cursor" "unat (cursor + of_nat n) \<le> length ?all"
        "length ?all \<le> unat (cursor + of_nat n) + 2 ^ 24" using a False n(1) less.prems by simp_all
      from less.hyps [OF this, of True ?s1] obtain cursor1 any1 net1 xs where
        r: "send_log env conn lg (cursor + of_nat n) True ?s1 = Some (cursor1, any1, ?s1\<lparr>out_net := net1, out_sent := out_sent ?s1 @ xs\<rparr>)"
        "unat (cursor + of_nat n) \<le> unat cursor1" "unat cursor1 \<le> length ?all" "\<forall>p\<in>set xs. fst p = conn"
        "sent_on conn xs @ drop (unat cursor1) ?all = drop (unat (cursor + of_nat n)) ?all" by blast
      have "sent_on conn ((conn, take n ?chunk) # xs) @ drop (unat cursor1) ?all = take n (drop (unat cursor) ?all) @ drop (unat cursor + n) ?all"
        using r(5) a n(2) by (simp add: sent_on_def min_def)
      also have "\<dots> = drop (unat cursor) ?all" by (metis append_take_drop_id drop_drop add.commute)
      finally show ?thesis using True chunk b(1) False r a
        by (subst send_log.simps) (auto intro!: exI [of _ cursor1] exI [of _ any1] exI [of _ net1] exI [of _ "(conn, take n ?chunk) # xs"])
    qed
  qed
qed

definition samples_ok :: "OutboundSession \<Rightarrow> bool" where
  "samples_ok ss \<longleftrightarrow> length (ss_samples ss) = kMaxPendingSamples \<and> ss_samples_head ss < kMaxPendingSamples \<and> ss_samples_count ss \<le> kMaxPendingSamples"

lemma drain_samples_total:
  "samples_ok ss \<Longrightarrow> \<exists>ss1 lat1. drain_samples env t6 t7 ss lat = Some (ss1, lat1) \<and> samples_ok ss1
     \<and> ss_log ss1 = ss_log ss \<and> ss_slot ss1 = ss_slot ss \<and> ss_cursor ss1 = ss_cursor ss"
proof (induction env t6 t7 ss lat rule: drain_samples.induct)
  case (1 env t6 t7 ss lat)
  let ?ss = "ss\<lparr>ss_samples_head := (ss_samples_head ss + 1) mod kMaxPendingSamples, ss_samples_count := ss_samples_count ss - 1\<rparr>"
  have h: "at_index (ss_samples ss) (ss_samples_head ss) = Some (ss_samples ss ! ss_samples_head ss)" using 1(2) by (simp add: samples_ok_def)
  have "samples_ok ?ss" using 1(2) by (auto simp: samples_ok_def kMaxPendingSamples_def)
  then show ?case using 1(1) [OF _ h] h 1(2) by (subst drain_samples.simps) auto
qed

lemma flush_session_inv:
  assumes inv: "out_inv env hist ns s" and i: "i < kMaxConnections" "cx_open (out_connections s ! i)" "cx_client_id (out_connections s ! i) \<noteq> 0"
    and ctl: "control_pending (out_connections s ! i) = []"
  shows "\<exists>sent any1 s1. flush_session env i t6 any s = Some (sent, any1, s1) \<and> out_inv env hist ns s1 \<and> cx_open (out_connections s1 ! i)"
proof -
  note I = out_invD [OF inv]
  let ?c = "out_connections s ! i" let ?k = "unat (cx_client_id ?c)" let ?ss = "out_sessions s ! ?k" let ?all = "concat (hist ?k)"
  have ci: "conn_inv env hist ns (out_sessions s) (out_sent s) i ?c" by (rule I(3) [OF i(1)])
  then have l: "linked hist (out_sessions s) (out_sent s) i ?c" using i by (simp add: conn_inv_def)
  then have k: "?k \<le> unat MAX_CLIENTS" "?k < length (out_sessions s)" using I(2) by (auto simp: linked_def Let_def client_range_unat)
  have pos: "unat (ss_cursor ?ss) \<le> length ?all" "length ?all \<le> unat (ss_cursor ?ss) + 2 ^ 24"
    and slot: "ss_slot ?ss = Some i" and "ss_log ?ss \<noteq> None" using l by (simp_all add: linked_def Let_def)
  then obtain lg where lg: "ss_log ?ss = Some lg" by blast
  have si: "session_inv hist (out_connections s) ?k ?ss" by (rule I(4) [OF k(1)])
  then have lgi: "log_inv 24 (hist ?k) lg" using lg by (simp add: session_inv_def)
  obtain cursor1 any1 net xs where r: "send_log env (cx_conn ?c) lg (ss_cursor ?ss) any s = Some (cursor1, any1, s\<lparr>out_net := net, out_sent := out_sent s @ xs\<rparr>)"
    "unat (ss_cursor ?ss) \<le> unat cursor1" "unat cursor1 \<le> length ?all" "\<forall>p\<in>set xs. fst p = cx_conn ?c"
    "sent_on (cx_conn ?c) xs @ drop (unat cursor1) ?all = drop (unat (ss_cursor ?ss)) ?all"
    using send_log_spec [OF I(6) lgi pos] by blast
  let ?s1 = "s\<lparr>out_net := net, out_sent := out_sent s @ xs\<rparr>"
  have "samples_ok (?ss\<lparr>ss_cursor := cursor1\<rparr>)" using si by (simp add: samples_ok_def session_inv_def)
  from drain_samples_total [OF this] obtain ss1 lat1 where d: "drain_samples env t6 (out_tsc_reads s 0) (?ss\<lparr>ss_cursor := cursor1\<rparr>) (out_latency s) = Some (ss1, lat1)"
    "samples_ok ss1" "ss_log ss1 = Some lg" "ss_slot ss1 = Some i" "ss_cursor ss1 = cursor1" using lg slot by fastforce
  let ?reads = "\<lambda>j. out_tsc_reads s (Suc j)"
  have run: "flush_session env i t6 any s = Some (cursor1 = end_offset lg, any1,
      ?s1\<lparr>out_tsc_reads := ?reads, out_sessions := (out_sessions s)[?k := ss1], out_latency := lat1\<rparr>)"
    using i(1) I(1) k(2) lg r(1) d(1) by (simp add: flush_session_def rdtsc_def set_session_def)
  have "sent_on (cx_conn ?c) (out_sent s @ xs) @ control_pending ?c @ drop (unat cursor1) ?all
      = sent_on (cx_conn ?c) (out_sent s) @ control_pending ?c @ drop (unat (ss_cursor ?ss)) ?all"
    using r(5) ctl by (simp add: sent_on_append)
  then have "linked hist ((out_sessions s)[?k := ss1]) (out_sent s @ xs) i ?c"
    using l r(2,3) pos d k(2) by (simp add: linked_def Let_def)
  then have "conn_inv env hist ns ((out_sessions s)[?k := ss1]) (out_sent s @ xs) i ?c" using ci i by (simp add: conn_inv_def)
  moreover have "session_inv hist ((out_connections s)[i := ?c]) ?k ss1" using si d slot lg by (simp add: session_inv_def samples_ok_def)
  ultimately have "out_inv env hist ns (s\<lparr>out_connections := (out_connections s)[i := ?c], out_sessions := (out_sessions s)[?k := ss1], out_sent := out_sent s @ xs\<rparr>)"
    by (intro update_send [OF inv i(1,2) k(1)]) (use r(4) slot in simp_all)
  then show ?thesis using run i(2) by (simp add: out_inv_def)
qed

subsection \<open>A connection and all of them\<close>

lemma stamp_inv:
  assumes inv: "out_inv env hist ns s" and i: "i < kMaxConnections"
  shows "\<exists>s1. stamp_sent i any s = Some s1 \<and> out_inv env hist ns s1 \<and> (\<forall>j. cx_open (out_connections s1 ! j) = cx_open (out_connections s ! j))"
proof (cases any)
  case False
  then show ?thesis using inv by (simp add: stamp_sent_def)
next
  case True
  let ?c1 = "(out_connections s ! i)\<lparr>cx_last_sent_tsc := out_tsc_reads s 0\<rparr>"
  let ?s0 = "s\<lparr>out_connections := (out_connections s)[i := ?c1], out_dirty := out_dirty s\<rparr>"
  have i1: "i < length (out_connections s)" using out_invD(1) [OF inv] i by simp
  have "out_inv env hist ns ?s0"
    by (rule update_conn [OF inv i]) (use out_invD(3) [OF inv i] inv in \<open>simp_all add: out_inv_def\<close>)
  moreover have "cx_open ((out_connections s)[i := ?c1] ! j) = cx_open (out_connections s ! j)" for j using i1 by (cases "j = i") simp_all
  ultimately show ?thesis using True i1 by (simp add: stamp_sent_def rdtsc_def set_connection_def out_inv_def)
qed

lemma flush_connection_inv:
  assumes inv: "out_inv env hist ns s" and i: "i < kMaxConnections" "cx_open (out_connections s ! i)"
  shows "\<exists>sent s1. flush_connection env i s = Some (sent, s1) \<and> out_inv env hist ns s1"
proof -
  have len: "i < length (out_connections r)" if "out_inv env hist ns r" for r using out_invD(1) [OF that] i(1) by simp
  let ?s0 = "s\<lparr>out_tsc_reads := (\<lambda>k. out_tsc_reads s (Suc k))\<rparr>"
  have "out_inv env hist ns ?s0" "cx_open (out_connections ?s0 ! i)" using inv i(2) by (simp_all add: tsc_inv)
  from flush_control_inv [OF this(1) i(1) this(2)] obtain sent any s1 where
    s1: "flush_control env i ?s0 = Some (sent, any, s1)" "out_inv env hist ns s1" "cx_open (out_connections s1 ! i)"
    "sent \<longrightarrow> control_pending (out_connections s1 ! i) = []" by blast
  let ?go = "sent \<and> cx_client_id (out_connections s1 ! i) \<noteq> 0"
  obtain sent1 any1 s2 where s2: "(if ?go then flush_session env i (out_tsc_reads s 0) any s1 else Some (sent, any, s1)) = Some (sent1, any1, s2)"
    "out_inv env hist ns s2" "cx_open (out_connections s2 ! i)"
  proof (cases ?go)
    case True
    then show thesis using that flush_session_inv [OF s1(2) i(1) s1(3)] s1(4) by fastforce
  next
    case False
    then show thesis using that s1 by auto
  qed
  obtain s3 where s3: "stamp_sent i any1 s2 = Some s3" "out_inv env hist ns s3" "cx_open (out_connections s3 ! i)"
    using stamp_inv [OF s2(2) i(1)] s2(3) by blast
  have cur: "current env ns (cx_conn (out_connections s3 ! i))" using out_invD(3) [OF s3(2) i(1)] s3(3) by (simp add: conn_inv_def)
  obtain s4 where "close_connection env (cx_conn (out_connections s3 ! i)) s3 = Some s4" "out_inv env hist ns s4"
    using close_current [OF s3(2) cur] by blast
  then show ?thesis using s1(1) s2(1) s3 len [OF s1(2)] len [OF s3(2)]
    by (cases sent1; cases "cx_close_when_flushed (out_connections s3 ! i)") (auto simp: flush_connection_def rdtsc_def)
qed

lemma flush_slots_inv:
  assumes "out_inv env hist ns s" "\<forall>i\<in>set slots. i < kMaxConnections" "\<forall>i\<in>set kept. i < kMaxConnections"
  shows "\<exists>kept1 s1. flush_slots env slots kept s = Some (kept1, s1) \<and> out_inv env hist ns s1 \<and> (\<forall>i\<in>set kept1. i < kMaxConnections)"
  using assms
proof (induction slots arbitrary: kept s)
  case Nil
  then show ?case by simp
next
  case (Cons i slots)
  have i: "i < kMaxConnections" "i < length (out_connections s)" using Cons.prems(1,2) out_invD(1) by fastforce+
  obtain sent s1 where s1: "(if cx_open (out_connections s ! i) then flush_connection env i s else Some (True, s)) = Some (sent, s1)" "out_inv env hist ns s1"
    using flush_connection_inv [OF Cons.prems(1) i(1)] Cons.prems(1) by (cases "cx_open (out_connections s ! i)") auto
  have i1: "i < length (out_connections s1)" using out_invD(1) [OF s1(2)] i(1) by simp
  show ?case
  proof (cases sent)
    case False
    then show ?thesis using Cons.IH [OF s1(2), of "kept @ [i]"] Cons.prems(2,3) i s1(1) by simp
  next
    case True
    let ?c1 = "(out_connections s1 ! i)\<lparr>cx_dirty := False\<rparr>"
    let ?s2 = "s1\<lparr>out_connections := (out_connections s1)[i := ?c1], out_dirty := out_dirty s1\<rparr>"
    have "out_inv env hist ns ?s2"
      by (rule update_conn [OF s1(2) i(1)]) (use out_invD(3) [OF s1(2) i(1)] s1(2) in \<open>simp_all add: out_inv_def\<close>)
    from Cons.IH [OF this, of kept] show ?thesis using True Cons.prems(2,3) i i1 s1(1) by (simp add: set_connection_def)
  qed
qed

lemma flush_inv:
  assumes inv: "out_inv env hist ns s"
  shows "\<exists>s1. flush env s = Some s1 \<and> out_inv env hist ns s1"
proof -
  have "\<forall>i\<in>set (out_dirty s). i < kMaxConnections" using inv by (simp add: out_inv_def)
  from flush_slots_inv [OF inv this, of "[]"] obtain kept s1 where
    "flush_slots env (out_dirty s) [] s = Some (kept, s1)" "out_inv env hist ns s1" "\<forall>i\<in>set kept. i < kMaxConnections" by auto
  then show ?thesis by (simp add: flush_def out_inv_def)
qed

subsection \<open>Heartbeats\<close>

lemma heartbeat_connection_inv:
  assumes inv: "out_inv env hist ns s" and i: "i < kMaxConnections"
  shows "\<exists>s1. heartbeat_connection env now i s = Some s1 \<and> out_inv env hist ns s1"
proof -
  note I = out_invD [OF inv]
  let ?c = "out_connections s ! i" let ?k = "unat (cx_client_id ?c)" let ?ss = "out_sessions s ! ?k"
  have i1: "i < length (out_connections s)" using i I(1) by simp
  show ?thesis
  proof (cases "\<not> cx_open ?c \<or> cx_client_id ?c = 0 \<or> cx_control_len ?c \<noteq> 0
      \<or> ticks_to_ns (env_clock env) (now - min now (cx_last_sent_tsc ?c)) \<le> kSoupHeartbeatIntervalNs")
    case True
    then show ?thesis using inv i1 by (auto simp: heartbeat_connection_def)
  next
    case False
    have ci: "conn_inv env hist ns (out_sessions s) (out_sent s) i ?c" by (rule I(3) [OF i])
    then have l: "linked hist (out_sessions s) (out_sent s) i ?c" and ok: "control_ok ?c" and sl: "tcp_slot env (cx_conn ?c) = i"
      using False by (simp_all add: conn_inv_def)
    then have k: "?k \<le> unat MAX_CLIENTS" "?k < length (out_sessions s)" using I(2) by (auto simp: linked_def Let_def client_range_unat)
    obtain lg where lg: "ss_log ?ss = Some lg" using l by (auto simp: linked_def Let_def)
    show ?thesis
    proof (cases "ss_cursor ?ss = end_offset lg")
      case behind: False
      then show ?thesis using False inv i1 k(2) lg by (simp add: heartbeat_connection_def)
    next
      case True
      have "log_inv 24 (hist ?k) lg" using I(4) [OF k(1)] lg by (simp add: session_inv_def)
      then have pos: "unat (ss_cursor ?ss) = length (concat (hist ?k))" using True log_invD(8) by simp
      have none: "control_pending ?c = []" using False ok by (simp add: control_pending_def control_ok_def)
      obtain dirty where d: "send_control env i heartbeat_packet s
          = Some (s\<lparr>out_connections := (out_connections s)[i := (with_control heartbeat_packet ?c)\<lparr>cx_dirty := True\<rparr>], out_dirty := dirty\<rparr>)"
        "set dirty \<subseteq> insert i (set (out_dirty s))" using send_control_effect [OF i1 sl ok packet_lengths(3)] by blast
      note W = with_control_spec [OF ok packet_lengths(3)]
      have "session_stream (hist ?k) (sent_on (cx_conn ?c) (out_sent s))" using l none pos by (simp add: linked_def Let_def)
      then have "linked hist (out_sessions s) (out_sent s) i (with_control heartbeat_packet ?c)"
        using l pos session_stream_beat by (simp add: linked_def Let_def W(2))
      then have "conn_inv env hist ns (out_sessions s) (out_sent s) i (with_control heartbeat_packet ?c)"
        using ci False W(1) by (simp add: conn_inv_def)
      then have "out_inv env hist ns (s\<lparr>out_connections := (out_connections s)[i := (with_control heartbeat_packet ?c)\<lparr>cx_dirty := True\<rparr>], out_dirty := dirty\<rparr>)"
        by (intro update_conn [OF inv i]) (use d(2) i inv in \<open>auto simp: out_inv_def\<close>)
      then show ?thesis using False True i1 k(2) lg d(1) by (simp add: heartbeat_connection_def)
    qed
  qed
qed

lemma run_slots_inv:
  assumes step: "\<And>i s. i < kMaxConnections \<Longrightarrow> out_inv env hist ns s \<Longrightarrow> \<exists>s1. f i s = Some s1 \<and> out_inv env hist ns s1"
  shows "\<forall>i\<in>set is. i < kMaxConnections \<Longrightarrow> out_inv env hist ns s \<Longrightarrow> \<exists>s1. run_all f is s = Some s1 \<and> out_inv env hist ns s1"
proof (induction "is" arbitrary: s)
  case Nil
  then show ?case by simp
next
  case (Cons i "is")
  obtain s1 where "f i s = Some s1" "out_inv env hist ns s1" using step Cons.prems by fastforce
  then show ?case using Cons by simp
qed

lemma heartbeat_inv: "out_inv env hist ns s \<Longrightarrow> \<exists>s1. heartbeat env now s = Some s1 \<and> out_inv env hist ns s1"
  unfolding heartbeat_def by (rule run_slots_inv [OF heartbeat_connection_inv]) (simp_all add: out_invD(1))

end
