(* ===== verification/Outbound_Run.thy ===== *)
theory Outbound_Run
  imports Outbound_Flush Server_Demo
begin

text \<open>
  Runs of the outbound thread on what the inbound thread tells it: from the start, turn by turn, to the end. The invariant holds in every state of
  such a run, which gives the properties of the server's sending side.
\<close>

subsection \<open>Runs\<close>

type_synonym 'c OutTurn = "'c ServerNote list \<times> (EngineEvent \<times> 'c ServerNote list) list"

definition outbound_run ::
  "('c, 'n, 'h) OutEnv \<Rightarrow> 'c OutTurn list \<Rightarrow> Timestamp \<times> ('c, 'n, 'h) Outbound \<Rightarrow> (Timestamp \<times> ('c, 'n, 'h) Outbound) option" where
  "outbound_run env turns r = run_all (\<lambda>(drained, batch). outbound_turn env drained batch) turns r"

definition turn_notes :: "'c OutTurn \<Rightarrow> 'c ServerNote list" where
  "turn_notes t = fst t @ concat (map snd (take kOutboundBatch (snd t)))"

definition turn_size :: "'c OutTurn \<Rightarrow> nat" where
  "turn_size t = length (turn_notes t) + length (take kOutboundBatch (snd t))"

definition turn_ok :: "'c OutTurn \<Rightarrow> bool" where
  "turn_ok t \<longleftrightarrow> (\<forall>p\<in>set (take kOutboundBatch (snd t)). event_ok (fst p))"

definition run_notes :: "'c OutTurn list \<Rightarrow> 'c ServerNote list" where
  "run_notes turns = concat (map turn_notes turns)"

definition run_size :: "'c OutTurn list \<Rightarrow> nat" where
  "run_size turns = sum_list (map turn_size turns)"

lemma run_all_append_Some: "run_all f (xs @ ys) s = Some s2 \<longleftrightarrow> (\<exists>s1. run_all f xs s = Some s1 \<and> run_all f ys s1 = Some s2)"
  by (cases "run_all f xs s") (simp_all add: run_all_append)

lemma batch_inv:
  assumes "out_inv env hist ns s" "run_all (note_step (tcp_slot env)) (concat (map snd batch)) ns = Some ns1" "\<forall>p\<in>set batch. event_ok (fst p)"
    "hist_count n hist" "n + length (concat (map snd batch)) + length batch \<le> max_messages"
  shows "\<exists>s1 hist1. run_all (\<lambda>(event, drained). on_event env event drained) batch s = Some s1 \<and> out_inv env hist1 ns1 s1
    \<and> hist_count (n + length (concat (map snd batch)) + length batch) hist1"
  using assms
proof (induction batch arbitrary: hist ns s n)
  case Nil
  then show ?case by auto
next
  case (Cons p batch)
  obtain event drained where p: "p = (event, drained)" by fastforce
  obtain ns2 where ns2: "run_all (note_step (tcp_slot env)) drained ns = Some ns2" "run_all (note_step (tcp_slot env)) (concat (map snd batch)) ns2 = Some ns1"
    using Cons.prems(2) by (auto simp: p run_all_append_Some)
  let ?n = "Suc (n + length drained)"
  have ok: "event_ok event" "n + length drained < max_messages" using Cons.prems(3,5) by (simp_all add: p)
  obtain s2 hist2 where s2: "on_event env event drained s = Some s2" "out_inv env hist2 ns2 s2" "hist_count ?n hist2"
    using on_event_inv [OF Cons.prems(1) ns2(1) ok(1) Cons.prems(4) ok(2)] by blast
  obtain s1 hist1 where "run_all (\<lambda>(event, drained). on_event env event drained) batch s2 = Some s1" "out_inv env hist1 ns1 s1"
    "hist_count (?n + length (concat (map snd batch)) + length batch) hist1"
    using Cons.IH [OF s2(2) ns2(2) _ s2(3)] Cons.prems(3,5) by (auto simp: p)
  then show ?case using s2(1) by (auto simp: p algebra_simps)
qed

lemma outbound_turn_inv:
  assumes inv: "out_inv env hist ns (snd r)" and nts: "run_all (note_step (tcp_slot env)) (turn_notes t) ns = Some ns1" and ok: "turn_ok t"
    and n: "hist_count n hist" "n + turn_size t \<le> max_messages"
  shows "\<exists>r1 hist1. outbound_turn env (fst t) (snd t) r = Some r1 \<and> out_inv env hist1 ns1 (snd r1) \<and> hist_count (n + turn_size t) hist1"
proof -
  let ?batch = "take kOutboundBatch (snd t)"
  obtain ns2 where ns2: "run_all (note_step (tcp_slot env)) (fst t) ns = Some ns2" "run_all (note_step (tcp_slot env)) (concat (map snd ?batch)) ns2 = Some ns1"
    using nts unfolding turn_notes_def run_all_append_Some by blast
  have size: "turn_size t = length (fst t) + length (concat (map snd ?batch)) + length ?batch" by (simp add: turn_size_def turn_notes_def)
  obtain s1 hist1 where s1: "run_all (on_note env) (fst t) (snd r) = Some s1" "out_inv env hist1 ns2 s1" "hist_count (n + length (fst t)) hist1"
    using on_notes_inv [OF inv ns2(1) n(1)] n(2) size by auto
  have "n + length (fst t) + length (concat (map snd ?batch)) + length ?batch \<le> max_messages" using n(2) size by simp
  from batch_inv [OF s1(2) ns2(2) ok [unfolded turn_ok_def] s1(3) this] obtain s2 hist2 where
    s2: "run_all (\<lambda>(event, drained). on_event env event drained) ?batch s1 = Some s2" "out_inv env hist2 ns1 s2" "hist_count (n + turn_size t) hist2"
    using size by (auto simp: add.assoc)
  obtain s3 where s3: "flush env s2 = Some s3" "out_inv env hist2 ns1 s3" using flush_inv [OF s2(2)] by blast
  obtain now s4 where s4: "rdtsc s3 = (now, s4)" "out_inv env hist2 ns1 s4" using s3(2) by (auto simp: rdtsc_def tsc_inv)
  obtain s5 where "heartbeat env now s4 = Some s5" "out_inv env hist2 ns1 s5" using heartbeat_inv [OF s4(2)] by blast
  then show ?thesis using s1(1) s2 s3(1) s4 by (auto simp: outbound_turn_def)
qed

lemma outbound_start:
  assumes "env_ok env"
  shows "out_inv env (\<lambda>_. []) ns_start (new_Outbound no_conn h net reads)"
proof -
  let ?s = "new_Outbound no_conn h net reads"
  have cur: "\<not> current env ns_start d" for d by (simp add: current_def ns_start_def)
  have c: "out_connections ?s ! j = new_OutboundConnection no_conn" if "j < kMaxConnections" for j using that by (simp add: new_Outbound_def)
  have ss: "out_sessions ?s ! k = new_OutboundSession" if "k \<le> unat MAX_CLIENTS" for k using that by (simp add: new_Outbound_def del: replicate_Suc)
  have "conn_inv env (\<lambda>_. []) ns_start sess sent j (new_OutboundConnection no_conn)" for j sess sent
    by (simp add: conn_inv_def control_ok_def new_OutboundConnection_def)
  moreover have "session_inv (\<lambda>_. []) conns k new_OutboundSession" for conns :: "'a OutboundConnection list" and k
    by (simp add: session_inv_def new_OutboundSession_def kMaxPendingSamples_def)
  ultimately have "conns_ok env (\<lambda>_. []) ns_start (out_connections ?s) (out_sessions ?s) (out_sent ?s)"
    using c ss by (simp add: conns_ok_def) (simp add: new_Outbound_def)
  moreover have "closes_inv env ns_start (out_connections ?s) (out_closed ?s)"
    using cur c by (simp add: closes_inv_def) (simp add: new_Outbound_def new_OutboundConnection_def ns_start_def)
  ultimately show "out_inv env (\<lambda>_. []) ns_start ?s" using assms
    by (simp add: out_inv_def) (simp add: new_Outbound_def ns_good_def ns_wf_def ns_start_def resp_range_def)
qed

lemma outbound_run_inv:
  assumes "out_inv env hist ns (snd r)" "run_all (note_step (tcp_slot env)) (run_notes turns) ns = Some ns1" "\<forall>t\<in>set turns. turn_ok t"
    "hist_count n hist" "n + run_size turns \<le> max_messages"
  shows "\<exists>r1 hist1. outbound_run env turns r = Some r1 \<and> out_inv env hist1 ns1 (snd r1)"
  using assms
proof (induction turns arbitrary: hist ns r n)
  case Nil
  then show ?case by (auto simp: outbound_run_def run_notes_def)
next
  case (Cons t turns)
  obtain ns2 where ns2: "run_all (note_step (tcp_slot env)) (turn_notes t) ns = Some ns2" "run_all (note_step (tcp_slot env)) (run_notes turns) ns2 = Some ns1"
    using Cons.prems(2) by (auto simp: run_notes_def run_all_append_Some)
  obtain r2 hist2 where r2: "outbound_turn env (fst t) (snd t) r = Some r2" "out_inv env hist2 ns2 (snd r2)" "hist_count (n + turn_size t) hist2"
    using outbound_turn_inv [OF Cons.prems(1) ns2(1) _ Cons.prems(4)] Cons.prems(3,5) by (auto simp: run_size_def)
  show ?case using Cons.IH [OF r2(2) ns2(2) _ r2(3)] Cons.prems(3,5) r2(1) by (auto simp: outbound_run_def run_size_def case_prod_beta add.assoc)
qed

subsection \<open>The two threads together\<close>

text \<open>
  The outbound thread runs on a stretch of what the inbound thread has told, in order, and on events of the engine; the stack is as documented; and the
  session logs are not yet at the end of their 64-bit offsets, which takes \<open>2 ^ 54\<close> messages.
\<close>

definition server_run :: "('c, 'n, 'h) OutEnv \<Rightarrow> 'c Inbound \<Rightarrow> 'c OutTurn list \<Rightarrow> bool" where
  "server_run env i turns \<longleftrightarrow> env_ok env \<and> (\<exists>A. in_run (tcp_slot env) A i) \<and> take (length (run_notes turns)) (told i) = run_notes turns
     \<and> (\<forall>t\<in>set turns. turn_ok t) \<and> run_size turns \<le> max_messages"

lemma told_prefix:
  assumes "server_run env i turns"
  shows "\<exists>ns. notes_state (tcp_slot env) (run_notes turns) = Some ns"
proof -
  obtain A where "in_run (tcp_slot env) A i" using assms by (auto simp: server_run_def)
  then obtain ns where "notes_state (tcp_slot env) (told i) = Some ns" using in_run_notes by (fastforce simp: notes_inv_def)
  moreover have "told i = run_notes turns @ drop (length (run_notes turns)) (told i)" using assms by (metis server_run_def append_take_drop_id)
  ultimately show ?thesis by (metis notes_state_def run_all_append_Some)
qed

lemma server_run_inv:
  assumes "server_run env i turns"
  obtains ns r hist where "notes_state (tcp_slot env) (run_notes turns) = Some ns"
    "outbound_run env turns (t, new_Outbound no_conn h net reads) = Some r" "out_inv env hist ns (snd r)"
proof -
  obtain ns where ns: "notes_state (tcp_slot env) (run_notes turns) = Some ns" using told_prefix [OF assms] by blast
  have "env_ok env" "\<forall>t\<in>set turns. turn_ok t" "run_size turns \<le> max_messages" using assms by (simp_all add: server_run_def)
  then show thesis using that ns outbound_run_inv [of env "\<lambda>_. []" ns_start "(t, new_Outbound no_conn h net reads)" turns ns 0]
      outbound_start [of env no_conn h net reads] by (auto simp: notes_state_def hist_count_def)
qed

lemma close_open_inv:
  assumes inv: "out_inv env hist ns s" and i: "i < kMaxConnections"
  shows "\<exists>s1. close_open env i s = Some s1 \<and> out_inv env hist ns s1 \<and> set (out_closed s) \<subseteq> set (out_closed s1)
    \<and> (\<forall>d. current env ns d \<longrightarrow> tcp_slot env d = i \<longrightarrow> d \<in> set (out_closed s1))"
proof -
  note I = out_invD [OF inv]
  let ?c = "out_connections s ! i"
  have i1: "i < length (out_connections s)" using I(1) i by simp
  show ?thesis
  proof (cases "cx_open ?c")
    case False
    then show ?thesis using inv i1 I(7) by (auto simp: close_open_def closes_inv_def)
  next
    case True
    then have c: "current env ns (cx_conn ?c)" "tcp_slot env (cx_conn ?c) = i" using I(3) [OF i] by (simp_all add: conn_inv_def)
    obtain s1 where "close_connection env (cx_conn ?c) s = Some s1" "out_inv env hist ns s1" "cx_conn ?c \<in> set (out_closed s1)"
      "set (out_closed s) \<subseteq> set (out_closed s1)" using close_current [OF inv c(1)] by blast
    moreover have "d = cx_conn ?c" if "current env ns d" "tcp_slot env d = i" for d using current_unique [OF that(1) c(1)] that(2) c(2) by simp
    ultimately show ?thesis using True i1 by (auto simp: close_open_def)
  qed
qed

lemma close_all_inv:
  assumes "out_inv env hist ns s" "\<forall>i\<in>set is. i < kMaxConnections"
  shows "\<exists>s1. run_all (close_open env) is s = Some s1 \<and> out_inv env hist ns s1 \<and> set (out_closed s) \<subseteq> set (out_closed s1)
    \<and> (\<forall>d. current env ns d \<longrightarrow> tcp_slot env d \<in> set is \<longrightarrow> d \<in> set (out_closed s1))"
  using assms
proof (induction "is" arbitrary: s)
  case Nil
  then show ?case by simp
next
  case (Cons i "is")
  obtain s1 where s1: "close_open env i s = Some s1" "out_inv env hist ns s1" "set (out_closed s) \<subseteq> set (out_closed s1)"
    "\<forall>d. current env ns d \<longrightarrow> tcp_slot env d = i \<longrightarrow> d \<in> set (out_closed s1)" using close_open_inv [OF Cons.prems(1), of i] Cons.prems(2) by auto
  obtain s2 where "run_all (close_open env) is s1 = Some s2" "out_inv env hist ns s2" "set (out_closed s1) \<subseteq> set (out_closed s2)"
    "\<forall>d. current env ns d \<longrightarrow> tcp_slot env d \<in> set is \<longrightarrow> d \<in> set (out_closed s2)" using Cons.IH [OF s1(2)] Cons.prems(2) by auto
  then show ?case using s1 by auto
qed

subsection \<open>The connections the notes name\<close>

definition note_conns :: "'c ServerNote list \<Rightarrow> 'c set" where
  "note_conns nts = {d. \<exists>n\<in>set nts. sn_kind n \<noteq> NOTE_GATEWAY \<and> sn_conn n = Some d}"

lemma used_conns: "notes_state slot nts = Some ns \<Longrightarrow> ns_used ns = note_conns nts"
proof (induction nts arbitrary: ns rule: rev_induct)
  case Nil
  then show ?case by (auto simp: notes_state_def ns_start_def note_conns_def)
next
  case (snoc n nts)
  from snoc.prems obtain ns0 where ns0: "notes_state slot nts = Some ns0" "note_step slot n ns0 = Some ns"
    by (auto simp: notes_state_snoc bind_eq_Some_conv)
  show ?case using snoc.IH [OF ns0(1)] ns0(2)
    by (auto simp: note_conns_def note_step_def use_slot_def bind_eq_Some_conv split: ServerNoteKind.splits if_splits)
qed

lemma note_step_current:
  assumes step: "note_step (tcp_slot env) n ns = Some ns1" and d: "d \<in> ns_used ns" "\<not> current env ns d"
  shows "d \<in> ns_used ns1 \<and> \<not> current env ns1 d"
proof -
  consider "ns1 = ns" | c where "ns1 = use_slot (tcp_slot env c) Idle c ns"
    | c u where "ns1 = use_slot (tcp_slot env c) u c ns" "c \<notin> ns_used ns" "u = TurnedAway c \<or> (\<exists>k. u = LoggedIn c k)"
    using step unfolding note_step_def may_login_def
    by (cases "sn_kind n"; cases "sn_conn n") (simp_all split: if_splits, blast+)
  then show ?thesis
  proof cases
    case (3 c u)
    then have "d \<noteq> c" using d(1) by blast
    then show ?thesis using 3 d by (cases "tcp_slot env d = tcp_slot env c") (auto simp: use_slot_def current_def)
  qed (use d in \<open>auto simp: use_slot_def current_def\<close>)
qed

lemma ended_conns:
  assumes "notes_state (tcp_slot env) nts = Some ns" "\<exists>n\<in>set nts. sn_kind n = NOTE_DISCONNECTED \<and> sn_conn n = Some d"
  shows "d \<in> ns_used ns" "\<not> current env ns d"
proof -
  have "d \<in> ns_used ns \<and> \<not> current env ns d" using assms
  proof (induction nts arbitrary: ns rule: rev_induct)
    case (snoc n nts)
    from snoc.prems obtain ns0 where ns0: "notes_state (tcp_slot env) nts = Some ns0" "note_step (tcp_slot env) n ns0 = Some ns"
      by (auto simp: notes_state_snoc bind_eq_Some_conv)
    show ?case
    proof (cases "sn_kind n = NOTE_DISCONNECTED \<and> sn_conn n = Some d")
      case True
      then show ?thesis using ns0(2) by (auto simp: note_step_def use_slot_def current_def split: if_splits)
    next
      case False
      then have "d \<in> ns_used ns0" "\<not> current env ns0 d" using snoc.IH [OF ns0(1)] snoc.prems(2) by auto
      then show ?thesis using note_step_current [OF ns0(2)] by blast
    qed
  qed simp
  then show "d \<in> ns_used ns" "\<not> current env ns d" by simp_all
qed

end
