(* ===== verification/Exchange_Run.thy ===== *)
theory Exchange_Run
  imports Outbound_Run Gateway
begin

text \<open>
  The server and the matching engine together. What the inbound thread pushes on the request ring are requests the book can
  serve, for every input; so the events the engine sends for them are events the outbound thread can answer, and
  the outbound thread runs on them.
\<close>

subsection \<open>Requests of the inbound thread\<close>

lemma translate_in_band:
  assumes "translate c msg ent = Some (t, ent1)"
  shows "ent_band ent1 = ent_band ent" "tr_request t = Some req \<Longrightarrow> request_in_band (ent_band ent) req"
proof -
  have e: "band_min (ent_band ent) \<le> ec_price (check_enter m (ent_band ent)) \<and> ec_price (check_enter m (ent_band ent)) \<le> band_max (ent_band ent)"
    if "ec_reject_reason (check_enter m (ent_band ent)) = 0" "ec_order_type (check_enter m (ent_band ent)) = LIMIT" for m
    using to_engine_price_limit [OF check_enter_accepted(3) [OF that(1)]] that(2) by simp
  have r: "band_min (ent_band ent) \<le> rc_price (check_replace m sd (ent_band ent)) \<and> rc_price (check_replace m sd (ent_band ent)) \<le> band_max (ent_band ent)"
    if "rc_valid (check_replace m sd (ent_band ent))" for m sd
    using to_engine_price_limit [OF check_replace_valid(2) [OF that]] by simp
  show "ent_band ent1 = ent_band ent" using assms
    by (auto simp: translate_def ent_enter_def ent_cancel_def ent_replace_def add_order_entry_def Let_def bind_eq_Some_conv
        split: OuchInboundFrame.splits option.splits if_splits)
  show "request_in_band (ent_band ent) req" if "tr_request t = Some req" using assms that e r
    by (auto simp: translate_def ent_enter_def ent_cancel_def ent_replace_def no_translation_def cancel_request_def request_in_band_def Let_def
        bind_eq_Some_conv split: OuchInboundFrame.splits option.splits if_splits)
qed

definition requests_ok :: "'c Inbound \<Rightarrow> bool" where
  "requests_ok s \<longleftrightarrow> channel_inv (in_ring s) \<and> ent_band (in_entry s) = exchange_band \<and> (\<forall>req\<in>set (channel_sent (in_ring s)). req_ok req)"

text \<open>Everything but the handling of an order leaves the ring and order entry as they are.\<close>

lemma requests_ok_frame [simp]:
  "requests_ok (s\<lparr>in_notes := chn\<rparr>) = requests_ok s" "requests_ok (s\<lparr>in_sessions := flags\<rparr>) = requests_ok s"
  "requests_ok (s\<lparr>in_next_client_id := k, in_usernames := names\<rparr>) = requests_ok s"
  by (simp_all add: requests_ok_def)

lemma push_note_requests: "push_note n s = Some s1 \<Longrightarrow> requests_ok s1 = requests_ok s"
  by (auto simp: push_note_def)

lemma set_connected_requests: "set_connected k b s = Some s1 \<Longrightarrow> requests_ok s1 = requests_ok s"
  by (auto simp: set_connected_def split: if_splits)

lemma find_client_requests: "find_client u s = Some (k, s1) \<Longrightarrow> requests_ok s1 = requests_ok s"
  by (auto simp: find_client_def split: option.splits if_splits)

lemma disconnect_requests: "disconnect c s = Some (c1, s1) \<Longrightarrow> requests_ok s1 = requests_ok s"
  by (auto simp: disconnect_def bind_eq_Some_conv push_note_requests set_connected_requests split: if_splits)

lemma reject_requests: "reject_login reason c s = Some (c1, s1) \<Longrightarrow> requests_ok s1 = requests_ok s"
  by (auto simp: reject_login_def bind_eq_Some_conv push_note_requests)

lemma login_requests: "login payload c s = Some (c1, s1) \<Longrightarrow> requests_ok s1 = requests_ok s"
  by (auto simp: login_def Let_def bind_eq_Some_conv split: option.splits prod.splits if_splits
      dest!: push_note_requests set_connected_requests find_client_requests reject_requests)

lemma push_request_requests:
  assumes "push_request req stamps s = Some s1" "requests_ok s" "req_ok req"
  shows "requests_ok s1"
proof -
  let ?req = "req\<lparr>rq_read_begin_tsc := is_read_begin_tsc stamps, rq_recv_tsc := is_recv_tsc stamps, rq_server_push_tsc := in_tsc_reads s 0\<rparr>"
  have "req_ok ?req" using assms(3) by (simp add: req_ok_def split: EngineRequestType.splits)
  moreover obtain chn where "push_spin ?req (in_ring s) = Some chn" "channel_inv chn" "channel_sent chn = channel_sent (in_ring s) @ [?req]"
    using push_spin_spec [of "in_ring s" ?req] assms(2) by (auto simp: requests_ok_def)
  ultimately show ?thesis using assms(1,2) by (auto simp: push_request_def Let_def requests_ok_def)
qed

lemma handle_ouch_requests:
  assumes "handle_ouch client msg stamps s = Some s1" "requests_ok s"
  shows "requests_ok s1"
proof (cases "msg = InboundNone")
  case True
  then show ?thesis using assms by (simp add: handle_ouch_def)
next
  case False
  then obtain t ent s2 where t: "translate client msg (in_entry s) = Some (t, ent)"
    and s2: "(case tr_note t of None \<Rightarrow> Some (s\<lparr>in_entry := ent\<rparr>) | Some n \<Rightarrow> push_note (gateway_note client n) (s\<lparr>in_entry := ent\<rparr>)) = Some s2"
    and s1: "(case tr_request t of None \<Rightarrow> Some s2 | Some req \<Rightarrow> push_request req stamps s2) = Some s1"
    using assms(1) unfolding gateway_note_def by (auto simp: handle_ouch_def bind_eq_Some_conv)
  note B = translate_in_band [OF t]
  have "requests_ok (s\<lparr>in_entry := ent\<rparr>)" using assms(2) B(1) by (simp add: requests_ok_def)
  then have ok2: "requests_ok s2" using s2 by (auto simp: push_note_requests split: option.splits)
  have "req_ok req" if "tr_request t = Some req" for req
    using in_band_request B(2) [OF that] assms(2) by (simp add: requests_ok_def)
  then show ?thesis using s1 ok2 push_request_requests by (auto split: option.splits)
qed

lemma handle_requests:
  assumes "handle_soup_packet packet stamps c s = Some (going, c1, s1)" "requests_ok s"
  shows "requests_ok s1"
  using assms by (auto simp: handle_soup_packet_def bind_eq_Some_conv split: if_splits
      dest: login_requests disconnect_requests handle_ouch_requests)

lemma parse_loop_requests: "parse_loop bytes stamps c s = Some (c1, s1) \<Longrightarrow> requests_ok s \<Longrightarrow> requests_ok s1"
proof (induction bytes stamps c s rule: parse_loop.induct)
  case (1 bytes stamps c s)
  show ?case
  proof (cases "bytes = [] \<or> spr_status (parse_soup_packet bytes) \<noteq> PACKET")
    case True
    then show ?thesis using 1(2,3) by (auto simp: parse_loop.simps [of bytes] Let_def split: if_splits SoupParseStatus.splits dest: disconnect_requests)
  next
    case False
    then obtain going c2 s2 where h: "handle_soup_packet (spr_packet (parse_soup_packet bytes)) stamps c s = Some (going, c2, s2)"
      "(if \<not> going then Some (c2, s2) else parse_loop (drop (spr_consumed (parse_soup_packet bytes)) bytes) stamps c2 s2) = Some (c1, s1)"
      using 1(2) by (auto simp: parse_loop.simps [of bytes] Let_def split: option.splits)
    have "requests_ok s2" by (rule handle_requests [OF h(1) 1(3)])
    then show ?thesis using h(2) 1(1) [OF _ refl _ h(1)] False by (auto split: if_splits)
  qed
qed

lemma finish_requests:
  assumes "requests_ok s"
  shows "finish_partial bytes stamps c s = Some (left, c1, s1) \<Longrightarrow> requests_ok s1"
    "finish_length bytes stamps c s = Some (left, c1, s1) \<Longrightarrow> requests_ok s1"
proof -
  show p: "finish_partial bytes stamps c s = Some (left, c1, s1) \<Longrightarrow> requests_ok s1" for bytes c
    using assms by (auto simp: finish_partial_def Let_def bind_eq_Some_conv split: if_splits dest: disconnect_requests handle_requests)
  show "finish_length bytes stamps c s = Some (left, c1, s1) \<Longrightarrow> requests_ok s1"
    using assms p by (auto simp: finish_length_def Let_def bind_eq_Some_conv split: if_splits dest: disconnect_requests)
qed

lemma on_data_requests: "on_data bytes stamps c s = Some (c1, s1) \<Longrightarrow> requests_ok s \<Longrightarrow> requests_ok s1"
  by (auto simp: on_data_def bind_eq_Some_conv simp del: parse_loop.simps split: if_splits option.splits dest: finish_requests(2) parse_loop_requests)

lemma put_connection_requests [simp]: "requests_ok (put_connection i (c, s)) = requests_ok s"
  by (simp add: put_connection_def requests_ok_def)

lemma event_requests: "on_tcp_event slot event stamps s = Some s1 \<Longrightarrow> requests_ok s \<Longrightarrow> requests_ok s1"
  by (auto simp: on_tcp_event_def Let_def split: if_splits TcpEvent.splits dest: on_data_requests disconnect_requests)

lemma timeout_requests: "check_timeout clock now i s = Some s1 \<Longrightarrow> requests_ok s \<Longrightarrow> requests_ok s1"
  by (auto simp: check_timeout_def Let_def split: if_splits dest: disconnect_requests)

lemma timeouts_requests: "run_all (check_timeout clock now) is s = Some s1 \<Longrightarrow> requests_ok s \<Longrightarrow> requests_ok s1"
  by (induction "is" arbitrary: s) (auto simp: bind_eq_Some_conv dest: timeout_requests)

lemma in_run_requests: "in_run slot A s \<Longrightarrow> requests_ok s"
proof (induction rule: in_run.induct)
  case (run_start chn reqs no_conn reads)
  then show ?case by (simp add: requests_ok_def new_Inbound_def new_OrderEntry_def exchange_band_def)
next
  case (run_event A s event stamps s1)
  then show ?case using event_requests by blast
next
  case (run_scan A s clock now s1)
  then show ?case using timeouts_requests by (auto simp: check_timeouts_def)
next
  case (run_retain A s retained)
  then show ?case by (simp add: requests_ok_def)
qed

subsection \<open>Events of the engine\<close>

lemma event_ok_other: "ev_type e \<noteq> REPLACED \<Longrightarrow> event_ok e"
  by (simp add: event_ok_def)

lemma match_events_ok: "e \<in> set (fl_events (spec_match ts oid client ok q mn rs)) \<Longrightarrow> event_ok e"
  by (induction rs arbitrary: q mn) (auto simp: executed_events_def zero_event_def Let_def split: if_splits intro: event_ok_other)

lemma remainder_events_ok: "e \<in> set (fst (snd (spec_remainder ts may r bk))) \<Longrightarrow> event_ok e"
  by (auto simp: spec_remainder_def canceled_event_def zero_event_def event_ok_def split: if_splits)

lemma process_events_ok:
  assumes "e \<in> set (oc_events (spec_process ts req bk))"
  shows "event_ok e"
proof (cases "rq_type req")
  case NEW
  then show ?thesis using assms
    by (auto simp: spec_process_def spec_enter_def ignored_def spec_match_book_def Let_def case_prod_unfold zero_event_def
        split: if_splits dest: match_events_ok remainder_events_ok intro: event_ok_other)
next
  case CANCEL
  then show ?thesis using assms
    by (auto simp: spec_process_def spec_cancel_def ignored_def canceled_event_def zero_event_def Let_def split: option.splits if_splits intro: event_ok_other)
next
  case REPLACE
  show ?thesis
  proof (cases "find_order (rq_order_id req) bk")
    case None
    then show ?thesis using assms REPLACE by (simp add: spec_process_def spec_replace_def ignored_def)
  next
    case (Some r)
    then have id: "find_order (ro_id r) bk \<noteq> None" using find_SomeD [of "\<lambda>x. ro_id x = rq_order_id req" "all_orders bk" r] by (simp add: find_order_def)
    have "event_ok (zero_event\<lparr> ev_order_id := rq_new_order_id req, ev_orig_order_id := ro_id r, ev_client_id := rq_client_id req,
        ev_price := rq_price req, ev_quantity := q, ev_type := REPLACED \<rparr>)" if "find_order (rq_new_order_id req) bk = None" for q
      using that id by (auto simp: event_ok_def)
    then show ?thesis using assms REPLACE Some
      by (auto simp: spec_process_def spec_replace_def ignored_def spec_match_book_def canceled_event_def Let_def case_prod_unfold zero_event_def
          split: if_splits dest: match_events_ok remainder_events_ok intro: event_ok_other)
  qed
qed

lemma stamped_events_ok: "\<forall>e\<in>set evs. event_ok e \<Longrightarrow> \<forall>e\<in>set (stamp_events ctx ans reads evs). event_ok e"
  by (induction evs arbitrary: ans reads) (auto simp: stamp_def event_ok_def)

text \<open>The engine serving a list of requests, from a new book with nothing sent; the channel to the server records all that is sent.\<close>

inductive engine_run :: "EngineRequest list \<Rightarrow> Orderbook \<Rightarrow> bool" where
  eng_start: "channel_inv out \<Longrightarrow> channel_sent out = [] \<Longrightarrow> engine_run [] (new_Orderbook capacity out md clock tsc)"
| eng_serve: "engine_run reqs ob \<Longrightarrow> process req tsc ob = Some (handled, ob') \<Longrightarrow> engine_run (reqs @ [req]) ob'"
| eng_clock: "engine_run reqs ob \<Longrightarrow> engine_run reqs (ob\<lparr>tsc_reads := reads\<rparr>)"

lemma engine_run_events:
  assumes "engine_run reqs ob" "\<forall>req\<in>set reqs. req_ok req"
  shows "book_reachable ob \<and> (\<forall>e\<in>set (channel_sent (out_ring ob)). event_ok e)"
  using assms
proof (induction rule: engine_run.induct)
  case (eng_start out capacity md clock tsc)
  then show ?case using book_reachable.start [OF eng_start(1)] by (simp add: new_Orderbook_def)
next
  case (eng_serve reqs ob req tsc handled ob')
  then have ob: "book_reachable ob" "\<forall>e\<in>set (channel_sent (out_ring ob)). event_ok e" "req_ok req" by simp_all
  obtain bk where "book_ready ob bk" using reachable_ready [OF ob(1)] by blast
  from process_ready [OF this ob(3) refl, of tsc] eng_serve.hyps(2)
  have "channel_sent (out_ring ob') = channel_sent (out_ring ob)
      @ stamp_events (request_context req tsc ob) False (tsc_reads ob) (oc_events (spec_process (ns_since_midnight (ob_clock ob) tsc) req bk))"
    by (auto simp: emits_def)
  moreover note stamped_events_ok [of "oc_events (spec_process (ns_since_midnight (ob_clock ob) tsc) req bk)"] process_events_ok
  ultimately show ?case using ob(2) book_reachable.request [OF ob(1,3) eng_serve.hyps(2)] by auto
next
  case (eng_clock reqs ob reads)
  then show ?case using book_reachable.clock [of ob reads] by simp
qed

subsection \<open>The whole exchange\<close>

definition run_events :: "'c OutTurn list \<Rightarrow> EngineEvent list" where
  "run_events turns = concat (map (\<lambda>t. map fst (take kOutboundBatch (snd t))) turns)"

text \<open>
  A run of the three threads: the inbound thread has received what it has received, the engine has served some of the requests in the order in which
  they were pushed, and the outbound thread has taken some of the notes and some of the events, in order. The stack is as documented, and the
  session logs are not yet at the end of their 64-bit offsets.
\<close>

definition exchange_run :: "('c, 'n, 'h) OutEnv \<Rightarrow> 'c Inbound \<Rightarrow> Orderbook \<Rightarrow> 'c OutTurn list \<Rightarrow> bool" where
  "exchange_run env i ob turns \<longleftrightarrow> env_ok env \<and> (\<exists>A. in_run (tcp_slot env) A i)
     \<and> (\<exists>n. engine_run (take n (channel_sent (in_ring i))) ob)
     \<and> take (length (run_notes turns)) (told i) = run_notes turns
     \<and> take (length (run_events turns)) (channel_sent (out_ring ob)) = run_events turns
     \<and> run_size turns \<le> max_messages"

lemma exchange_server_run:
  assumes "exchange_run env i ob turns"
  shows "server_run env i turns"
proof -
  obtain A n where r: "in_run (tcp_slot env) A i" "engine_run (take n (channel_sent (in_ring i))) ob" using assms by (auto simp: exchange_run_def)
  have "\<forall>req\<in>set (take n (channel_sent (in_ring i))). req_ok req"
    using in_run_requests [OF r(1)] by (auto simp: requests_ok_def dest: in_set_takeD)
  then have "\<forall>e\<in>set (channel_sent (out_ring ob)). event_ok e" using engine_run_events [OF r(2)] by blast
  moreover have "set (run_events turns) \<subseteq> set (channel_sent (out_ring ob))" using assms by (metis exchange_run_def set_take_subset)
  ultimately have "\<forall>t\<in>set turns. turn_ok t" by (fastforce simp: run_events_def turn_ok_def)
  then show ?thesis using assms by (simp add: exchange_run_def server_run_def)
qed

end
