(* ===== verification/Exchange_Demo.thy ===== *)
theory Exchange_Demo
  imports Exchange_Run Gateway_Props Server_Props
begin

text \<open>
  An order through the exchange: a client that is logged in sends an order to buy, which rests in the empty book.
\<close>

lemma sample_wf: "wf_inbound (EnterOrder sample_enter)" "length (wire_inbound (EnterOrder sample_enter)) \<le> 200"
proof -
  show wf: "wf_inbound (EnterOrder sample_enter)"
    by (simp add: wf_OuchEnterOrder_def ouch_wf_def sample_enter_def default_OuchEnterOrder_def core_OuchEnterOrder_def tags_OuchEnterOrder_def
        tag_types_def)
  show "length (wire_inbound (EnterOrder sample_enter)) \<le> 200" using inbound_size_bound(2) [OF wf] unfolding encoded_size_inbound_wire .
qed

text \<open>The packet of the order on the connection of a client that is logged in.\<close>

lemma order_packet:
  assumes "wf_inbound msg" "length (wire_inbound msg) \<le> 200" "ic_open c" "\<not> ic_closing c" "ic_logged_in c" "ic_partial_len c = 0"
    "handle_ouch (ic_client_id c) msg stamps s = Some s1"
  shows "on_data (soup_frame UNSEQUENCED_DATA (wire_inbound msg)) stamps c s = Some (c, s1)"
proof -
  let ?w = "wire_inbound msg"
  have p: "parse_soup_packet (soup_frame UNSEQUENCED_DATA ?w) = \<lparr> spr_status = PACKET,
      spr_packet = \<lparr> sp_type = UNSEQUENCED_DATA, sp_payload = ?w \<rparr>, spr_consumed = 3 + length ?w \<rparr>"
    using parse_frame [of ?w UNSEQUENCED_DATA "[]"] assms(2) by simp
  have h: "handle_soup_packet \<lparr> sp_type = UNSEQUENCED_DATA, sp_payload = ?w \<rparr> stamps c s = Some (True, c, s1)"
    using assms(3-7) decode_inbound_wire [OF assms(1)] by (simp add: handle_soup_packet_def soup_type_defs)
  have len: "length (soup_frame UNSEQUENCED_DATA ?w) = 3 + length ?w" "soup_frame UNSEQUENCED_DATA ?w \<noteq> []" by (simp_all add: soup_frame_def)
  then have "parse_loop (soup_frame UNSEQUENCED_DATA ?w) stamps c s = Some (c, s1)"
    using p h by (subst parse_loop.simps) (simp add: parse_loop.simps [of "[]"])
  then show ?thesis using assms(6) by (simp add: on_data_def)
qed

lemma demo_ordered:
  assumes small: "slot conn < kMaxConnections"
  shows "\<exists>s. in_run slot {conn} s \<and> told s = [login_note conn 1 18446744073709551615, gateway_note 1 (demo_entry_note 1)]
    \<and> (\<exists>pushed_at. channel_sent (in_ring s) = [stamp_request 10 20 pushed_at (demo_request 1)])"
proof -
  obtain s where s: "in_run slot {conn} s" "told s = [login_note conn 1 18446744073709551615]" "in_entry s = in_entry (demo_empty conn)"
    "in_ring s = in_ring (demo_empty conn)" "in_connections s ! slot conn = demo_client conn"
    using demo_login_state [of slot conn] small by blast
  have ok: "in_ok s" "length (in_connections s) = kMaxConnections"
    using in_inv_nth [OF conjunct1 [OF in_reachable_inv [OF in_run_reachable [OF s(1)]]] small] by simp_all
  let ?note = "gateway_note 1 (demo_entry_note 1) :: 'a ServerNote"
  obtain ent where t: "translate 1 (EnterOrder sample_enter) (in_entry s)
      = Some (\<lparr> tr_note = Some (demo_entry_note 1), tr_request = Some (demo_request 1) \<rparr>, ent)"
    using sample_translated [of 1] s(3) by (auto simp: demo_empty_def new_Inbound_def exchange_band_def)
  have typed: "entry_typed (in_entry s)" using ok(1) by (simp add: in_ok_def)
  have cl: "client_range 1" by (simp add: client_range_def MAX_CLIENTS_def)
  obtain tr ent' where "translate 1 (EnterOrder sample_enter) (in_entry s) = Some (tr, ent')" "typed_result 1 tr ent'"
    by (rule translate_typed [OF typed cl])
  then have "entry_typed ent" using t by (simp add: typed_result_def)
  then have ok1: "in_ok (s\<lparr>in_entry := ent\<rparr>)" using ok(1) by (simp add: in_ok_def)
  obtain chn where n: "push_note ?note (s\<lparr>in_entry := ent\<rparr>) = Some (s\<lparr>in_entry := ent, in_notes := chn\<rparr>)" "in_ok (s\<lparr>in_entry := ent, in_notes := chn\<rparr>)"
    by (rule push_note_spec [OF ok1])
  let ?s2 = "s\<lparr>in_entry := ent, in_notes := chn\<rparr>" let ?req = "stamp_request 10 20 (in_tsc_reads s 0) (demo_request 1)"
  have "channel_inv (in_ring s)" "channel_sent (in_ring s) = []" using s(4) by (simp_all add: demo_empty_def new_Inbound_def)
  then obtain reqs where q: "push_spin ?req (in_ring s) = Some reqs" "channel_sent reqs = [?req]" using push_spin_spec [of "in_ring s" ?req] by auto
  let ?s3 = "?s2\<lparr>in_tsc_reads := \<lambda>k. in_tsc_reads s (Suc k), in_ring := reqs\<rparr>"
  have "push_request (demo_request 1) demo_stamps ?s2 = Some ?s3"
    using q(1) by (simp add: push_request_def Let_def stamp_request_def demo_stamps_def)
  then have h: "handle_ouch 1 (EnterOrder sample_enter) demo_stamps s = Some ?s3"
    using t n(1) by (simp add: handle_ouch_def gateway_note_def)
  let ?c = "(demo_client conn)\<lparr>ic_last_recv_tsc := 20\<rparr>" let ?bytes = "soup_frame UNSEQUENCED_DATA (wire_inbound (EnterOrder sample_enter))"
  have c: "ic_open ?c" "\<not> ic_closing ?c" "ic_logged_in ?c" "ic_partial_len ?c = 0" "ic_client_id ?c = 1" "ic_conn ?c = conn"
    by (simp_all add: demo_client_def demo_open_def new_InboundConnection_def)
  have "on_tcp_event slot (TcpData conn ?bytes) demo_stamps s = Some (put_connection (slot conn) (?c, ?s3))"
    using order_packet [OF sample_wf c(1-4)] c h small ok(2) s(5) by (simp add: on_tcp_event_def Let_def demo_stamps_def)
  from run_event [OF s(1) _ _ _ this] have "in_run slot {conn} (put_connection (slot conn) (?c, ?s3))" using small by (simp add: slot_free_def accepts_def)
  moreover have "told (put_connection (slot conn) (?c, ?s3)) = [login_note conn 1 18446744073709551615, ?note]"
    using push_note_told [OF n(1) ok1] s(2) by (simp add: put_connection_def)
  moreover have "channel_sent (in_ring (put_connection (slot conn) (?c, ?s3))) = [?req]" using q(2) by (simp add: put_connection_def)
  ultimately show ?thesis by blast
qed

lemma demo_request_served:
  "\<exists>ob e. engine_run [stamp_request a b d (demo_request client)] ob \<and> channel_sent (out_ring ob) = [e]"
proof -
  let ?req = "stamp_request a b d (demo_request client)"
  have sent: "channel_sent (out_ring demo_start) = []" by (simp add: demo_start_def new_Orderbook_def)
  have start: "engine_run [] demo_start" unfolding demo_start_def by (rule eng_start) (use demo_channel in simp_all)
  obtain ob e where p: "process ?req 0 demo_start = Some (oc_done (spec_process (ns_since_midnight (ob_clock demo_start) 0) ?req (empty_book 4)), ob)"
    "new_events demo_start ob = [e]" by (rule demo_accepts [OF refl])
  have "channel_sent (out_ring ob) = [e]" using p(2) sent by (simp add: new_events_def)
  moreover have "engine_run [?req] ob" using eng_serve [OF start p(1)] by simp
  ultimately show ?thesis by blast
qed

end
