(* ===== verification/Outbound_Props.thy ===== *)
theory Outbound_Props
  imports Exchange_Demo
begin

text \<open>
  The properties of the server's sending side, for runs of the outbound thread on what the inbound thread tells it.
\<close>

subsection \<open>A login, from the wire to the wire\<close>

text \<open>A stack that takes everything it is given, with sixteen connections.\<close>

definition demo_env :: "(4 word, unit, unit) OutEnv" where
  "demo_env = \<lparr> tcp_slot = unat, tcp_generation = (\<lambda>_. 1), tcp_send = (\<lambda>_ bytes _. (length bytes, ())), tcp_sendable = (\<lambda>_ _. True),
     tcp_close = (\<lambda>_ _. ()), hdr_record = (\<lambda>_ _. ()), env_clock = demo_clock \<rparr>"

definition demo_outbound :: "(4 word, unit, unit) Outbound" where
  "demo_outbound = new_Outbound 0 () () (\<lambda>_. 0)"

lemma demo_sizes: "3 < kMaxConnections" "Suc 0 < unat MAX_CLIENTS + 1"
  by (simp_all add: kMaxConnections_def MAX_CLIENTS_def)

lemma demo_env_sel [simp]: "tcp_slot demo_env = unat" "tcp_generation demo_env = (\<lambda>_. 1)" "tcp_send demo_env = (\<lambda>_ bytes _. (length bytes, ()))"
  "env_clock demo_env = demo_clock"
  by (simp_all add: demo_env_def)

lemma demo_lists: "length (out_connections demo_outbound) = kMaxConnections" "out_connections demo_outbound ! 3 = new_OutboundConnection 0"
  "length (out_sessions demo_outbound) = unat MAX_CLIENTS + 1" "out_sessions demo_outbound ! 1 = new_OutboundSession"
  "out_dirty demo_outbound = []" "out_tsc_reads demo_outbound = (\<lambda>_. 0)"
  using demo_sizes by (simp_all add: demo_outbound_def new_Outbound_def del: replicate_Suc)

lemma demo_log: "next_sequence (new_SessionLog SOUP_REPLAY_BYTES) = 1" "offset_of 1 (new_SessionLog SOUP_REPLAY_BYTES) = Some 0"
  "end_offset (new_SessionLog SOUP_REPLAY_BYTES) = 0"
  by (simp_all add: new_SessionLog_def offset_of_def)

lemma demo_login_note:
  "\<exists>s c. on_note demo_env (login_note 3 1 18446744073709551615) demo_outbound = Some s \<and> length (out_connections s) = kMaxConnections
     \<and> length (out_sessions s) = unat MAX_CLIENTS + 1
     \<and> out_connections s ! 3 = (with_control (accept_packet 1) ((opened 3 0 c)\<lparr>cx_client_id := 1\<rparr>))\<lparr>cx_dirty := True\<rparr>
     \<and> out_sessions s ! 1 = new_OutboundSession\<lparr>ss_log := Some (new_SessionLog SOUP_REPLAY_BYTES), ss_slot := Some 3\<rparr> \<and> out_dirty s = [3] \<and> out_tsc_reads s = (\<lambda>_. 0)"
proof -
  let ?lg = "new_SessionLog SOUP_REPLAY_BYTES" let ?c = "new_OutboundConnection 0 :: 4 word OutboundConnection"
  define ss where "ss = new_OutboundSession\<lparr>ss_log := Some ?lg\<rparr>"
  define s1 where "s1 = demo_outbound\<lparr>out_sessions := (out_sessions demo_outbound)[1 := ss], out_retained_from := (out_retained_from demo_outbound)[1 := first_sequence ?lg]\<rparr>"
  have none: "ss_log new_OutboundSession = None" by (simp add: new_OutboundSession_def)
  have 1: "session_log 1 demo_outbound = Some (?lg, s1)" using demo_sizes demo_lists none
    by (simp add: session_log_def s1_def ss_def set_session_def Let_def)
  define s2 where "s2 = s1\<lparr>out_tsc_reads := (\<lambda>_. 0), out_connections := (out_connections demo_outbound)[3 := opened 3 0 ?c]\<rparr>"
  have 2: "open_connection demo_env 3 s1 = Some s2" using demo_sizes demo_lists
    by (simp add: open_connection_def rdtsc_def set_connection_def opened_def s1_def s2_def)
  define s3 where "s3 = s2\<lparr>out_connections := (out_connections s2)[3 := (opened 3 0 ?c)\<lparr>cx_client_id := 1\<rparr>],
    out_sessions := (out_sessions s2)[1 := ss\<lparr>ss_slot := Some 3, ss_cursor := 0, ss_samples_count := 0\<rparr>]\<rparr>"
  have s3: "length (out_connections s3) = kMaxConnections" "out_connections s3 ! 3 = (opened 3 0 ?c)\<lparr>cx_client_id := 1\<rparr>" "out_dirty s3 = []"
    using demo_sizes demo_lists by (simp_all add: s3_def s2_def s1_def)
  have ok: "length (cx_control (opened 3 0 ?c)) = kMaxControlPacket" "\<not> cx_dirty (opened 3 0 ?c)" by (simp_all add: opened_def new_OutboundConnection_def)
  define s4 where "s4 = s3\<lparr>out_connections := (out_connections s3)[3 := (with_control (accept_packet 1) ((opened 3 0 ?c)\<lparr>cx_client_id := 1\<rparr>))\<lparr>cx_dirty := True\<rparr>], out_dirty := [3]\<rparr>"
  have 3: "send_control demo_env 3 (accept_packet 1) s3 = Some s4" using s3 ok demo_sizes packet_lengths(2) [of 1]
    by (simp add: send_control_def mark_dirty_def set_connection_def s4_def with_control_def)
  have 4: "on_note demo_env (login_note 3 1 18446744073709551615) demo_outbound = Some s4"
    using 1 2 3 demo_log demo_sizes demo_lists
    by (simp add: on_note_def login_note_def accept_login_def Let_def set_connection_def set_session_def s3_def s2_def s1_def)
  show ?thesis using 4 demo_sizes demo_lists
    by (intro exI [of _ s4] exI [of _ ?c]) (simp add: s4_def s3_def s2_def s1_def ss_def new_OutboundSession_def)
qed

lemma length_accept: "length (accept_packet n) = 33"
  using accept_packet_frame [of n] length_session_id [of session_name] by auto

lemma demo_flush:
  assumes s: "length (out_connections s) = kMaxConnections" "length (out_sessions s) = unat MAX_CLIENTS + 1"
    "out_connections s ! 3 = (with_control (accept_packet 1) ((opened 3 0 c)\<lparr>cx_client_id := 1\<rparr>))\<lparr>cx_dirty := True\<rparr>"
    "out_sessions s ! 1 = new_OutboundSession\<lparr>ss_log := Some (new_SessionLog SOUP_REPLAY_BYTES), ss_slot := Some 3\<rparr>" "out_dirty s = [3]" "out_tsc_reads s = (\<lambda>_. 0)"
  shows "\<exists>s1. flush demo_env s = Some s1 \<and> out_tsc_reads s1 = (\<lambda>_. 0) \<and> cx_open (out_connections s1 ! 3) \<and> cx_client_id (out_connections s1 ! 3) = 1"
proof -
  let ?c = "out_connections s ! 3" let ?ss = "out_sessions s ! 1"
  have c: "cx_conn ?c = 3" "cx_open ?c" "cx_client_id ?c = 1" "cx_control_sent ?c = 0" "cx_control_len ?c = 33" "\<not> cx_close_when_flushed ?c"
    by (simp_all add: s(3) with_control_def length_accept opened_def new_OutboundConnection_def)
  have ss: "ss_log ?ss = Some (new_SessionLog SOUP_REPLAY_BYTES)" "ss_cursor ?ss = 0" "ss_samples_count ?ss = 0" unfolding s(4) by (simp_all add: new_OutboundSession_def)
  have len: "length (take 33 (cx_control ?c)) = 33" by (simp add: s(3) with_control_def splice_def length_accept)
  define s1 where "s1 = s\<lparr>out_net := (), out_sent := out_sent s @ [(3, take 33 (cx_control ?c))],
    out_connections := (out_connections s)[3 := ?c\<lparr>cx_control_len := 0, cx_control_sent := 0\<rparr>]\<rparr>"
  have 1: "flush_control demo_env 3 s = Some (True, True, s1)"
    using demo_sizes s(1) c len by (simp add: flush_control_def send_bytes_def Let_def set_connection_def s1_def)
  have log: "send_log demo_env 3 (new_SessionLog SOUP_REPLAY_BYTES) 0 True s1 = Some (0, True, s1)"
    by (subst send_log.simps) (simp add: demo_log)
  define s2 where "s2 = s1\<lparr>out_tsc_reads := (\<lambda>_. 0), out_sessions := (out_sessions s)[1 := ?ss\<lparr>ss_cursor := 0\<rparr>]\<rparr>"
  have 2: "flush_session demo_env 3 0 True s1 = Some (True, True, s2)"
    using demo_sizes s(1,2,6) c ss log
    by (simp add: flush_session_def s1_def [symmetric]) (simp add: s1_def s2_def rdtsc_def drain_samples.simps demo_log set_session_def)
  have s2: "length (out_connections s2) = kMaxConnections" "cx_open (out_connections s2 ! 3)" "cx_client_id (out_connections s2 ! 3) = 1"
    "\<not> cx_close_when_flushed (out_connections s2 ! 3)" "out_tsc_reads s2 = (\<lambda>_. 0)" "cx_client_id (out_connections s1 ! 3) = 1"
    "length (out_connections s1) = kMaxConnections" using demo_sizes s(1) c by (simp_all add: s2_def s1_def)
  define s3 where "s3 = s2\<lparr>out_tsc_reads := (\<lambda>_. 0), out_connections := (out_connections s2)[3 := (out_connections s2 ! 3)\<lparr>cx_last_sent_tsc := 0\<rparr>]\<rparr>"
  have "rdtsc s = (0, s)" using s(6) by (simp add: rdtsc_def)
  then have 3: "flush_connection demo_env 3 s = Some (True, s3)"
    using demo_sizes 1 2 s2 by (simp add: flush_connection_def stamp_sent_def) (simp add: rdtsc_def set_connection_def s3_def)
  show ?thesis using demo_sizes s(1,5) c(2) s2 3 by (simp add: flush_def s3_def set_connection_def)
qed

lemma demo_login_run:
  "\<exists>t s. outbound_run demo_env [([login_note 3 1 18446744073709551615], [])] (0, demo_outbound) = Some (t, s)
    \<and> cx_open (out_connections s ! 3) \<and> cx_client_id (out_connections s ! 3) = 1"
proof -
  obtain s c where s: "on_note demo_env (login_note 3 1 18446744073709551615) demo_outbound = Some s" "length (out_connections s) = kMaxConnections"
     "length (out_sessions s) = unat MAX_CLIENTS + 1"
     "out_connections s ! 3 = (with_control (accept_packet 1) ((opened 3 0 c)\<lparr>cx_client_id := 1\<rparr>))\<lparr>cx_dirty := True\<rparr>"
     "out_sessions s ! 1 = new_OutboundSession\<lparr>ss_log := Some (new_SessionLog SOUP_REPLAY_BYTES), ss_slot := Some 3\<rparr>" "out_dirty s = [3]" "out_tsc_reads s = (\<lambda>_. 0)"
    using demo_login_note by blast
  obtain s1 where s1: "flush demo_env s = Some s1" "out_tsc_reads s1 = (\<lambda>_. 0)" "cx_open (out_connections s1 ! 3)" "cx_client_id (out_connections s1 ! 3) = 1"
    using demo_flush [OF s(2-7)] by blast
  have "\<not> kScanIntervalNs \<le> ticks_to_ns demo_clock 0" by (simp add: kScanIntervalNs_def ticks_to_ns_def)
  then show ?thesis using s(1) s1 by (simp add: outbound_run_def outbound_turn_def rdtsc_def)
qed

definition demo_turns :: "4 word OutTurn list" where
  "demo_turns = [([login_note 3 1 18446744073709551615], [])]"

lemma demo_env_ok: "env_ok demo_env"
proof -
  have "unat conn < 16" for conn :: "4 word" using unsigned_less [of conn] by simp
  then have "unat conn < kMaxConnections" for conn :: "4 word" by (rule less_le_trans) (simp add: kMaxConnections_def MAX_CLIENTS_def)
  then show ?thesis by (auto simp: env_ok_def word_unat_eq_iff)
qed

lemma demo_server_run: "\<exists>i. server_run demo_env i demo_turns"
proof -
  note env = demo_env_ok
  obtain i where "in_run (tcp_slot demo_env) {3} i" "told i = [login_note 3 1 18446744073709551615]"
    using demo_logged_in [of "tcp_slot demo_env" 3] env_okD(2) [OF env] by blast
  then have "server_run demo_env i demo_turns" using env
    by (auto simp: server_run_def demo_turns_def run_notes_def turn_notes_def turn_ok_def run_size_def turn_size_def max_messages_def)
  then show ?thesis by blast
qed

text \<open>A run of the whole exchange: the client logs in and enters an order, the engine accepts it, and one turn answers both.\<close>

lemma demo_exchange_run:
  "\<exists>i ob e turns. exchange_run demo_env i ob turns \<and> length (run_notes turns) = 2 \<and> run_events turns = [e]"
proof -
  have "tcp_slot demo_env 3 < kMaxConnections" using env_okD(2) [OF demo_env_ok] .
  then obtain i at where i: "in_run (tcp_slot demo_env) {3} i" "told i = [login_note 3 1 18446744073709551615, gateway_note 1 (demo_entry_note 1)]"
    "channel_sent (in_ring i) = [stamp_request 10 20 at (demo_request 1)]"
    using demo_ordered [of "tcp_slot demo_env" 3] by blast
  obtain ob e where ob: "engine_run [stamp_request 10 20 at (demo_request 1)] ob" "channel_sent (out_ring ob) = [e]" using demo_request_served by blast
  let ?turns = "[(told i, [(e, [])])]"
  have b: "take kOutboundBatch [(e, [])] = [(e, [] :: 4 word ServerNote list)]" by (simp add: kOutboundBatch_def)
  have n: "run_notes ?turns = told i" "run_events ?turns = [e]" "run_size ?turns = 3"
    using i(2) by (simp_all add: run_notes_def turn_notes_def run_events_def run_size_def turn_size_def b)
  have "engine_run (take 1 (channel_sent (in_ring i))) ob" using i(3) ob(1) by simp
  then have "exchange_run demo_env i ob ?turns" unfolding exchange_run_def n
    using demo_env_ok i(1) ob(2) by (auto simp: max_messages_def)
  then show ?thesis using n i(2) by (intro exI [of _ i] exI [of _ ob] exI [of _ e] exI [of _ ?turns]) simp
qed

subsection \<open>Properties\<close>

text \<open>
  C14. The inbound thread tells the outbound thread about connections in an order it can follow, for all input: for each slot of the stack one connection after the other,
  each with at most one login note, which no other note on it precedes, and then the note that it is over; and a session is given to a connection only after the note that ends the
  previous one. So the two threads need no other coordination about sessions than the ring between them.
\<close>

theorem notes_in_order:
  assumes "in_run slot A s"
  shows "\<exists>ns. notes_state slot (told s) = Some ns"
  using in_run_notes [OF assms] by (auto simp: notes_inv_def)

theorem notes_in_order_witness: "\<exists>s ns. told s = [login_note (3 :: nat) 1 18446744073709551615] \<and> notes_state id (told s) = Some ns"
proof -
  have "id (3 :: nat) < kMaxConnections" by (simp add: kMaxConnections_def MAX_CLIENTS_def)
  then obtain s where s: "in_run id {3 :: nat} s" "told s = [login_note 3 1 18446744073709551615]" using demo_logged_in [of id "3 :: nat"] by blast
  then show ?thesis using notes_in_order [OF s(1)] by blast
qed

text \<open>
  C13. The outbound thread never gets stuck: in a run of the three threads, whatever the clients have sent, however far the engine has come with the requests the inbound thread
  pushed and however the outbound thread's turns divide the notes it was told and the events the engine sent, every turn runs to its end, with no index out of range,
  no log read or written outside its bounds and no send loop that does not return.
\<close>

theorem outbound_never_stuck:
  assumes "exchange_run env i ob turns"
  shows "\<exists>t1 s. outbound_run env turns (t, new_Outbound no_conn h net reads) = Some (t1, s)"
  by (rule server_run_inv [OF exchange_server_run [OF assms], of t no_conn h net reads]) auto

theorem outbound_never_stuck_witness:
  "\<exists>i ob turns t s. exchange_run demo_env i ob turns \<and> length (run_notes turns) = 2 \<and> length (run_events turns) = 1
    \<and> outbound_run demo_env turns (5, new_Outbound 0 () () (\<lambda>_. 7)) = Some (t, s)"
proof -
  obtain i ob e turns where r: "exchange_run demo_env i ob turns" "length (run_notes turns) = 2" "run_events turns = [e]"
    using demo_exchange_run by blast
  then show ?thesis using outbound_never_stuck [OF r(1), of 5 0 "()" "()" "\<lambda>_. 7"] by fastforce
qed

text \<open>
  C8. What a client receives: on every open connection that is logged in to a session, the bytes given to the stack so far, the rest of the control buffer and the bytes of the session's log from
  the cursor on are together Login Accepted with a sequence number \<open>n\<close> followed by the session's messages number \<open>n\<close>, \<open>n + 1\<close> and so on, each once, in order
  and to the last, with heartbeats only between packets. The session's messages are the ones its log stands for.
\<close>

theorem client_stream:
  assumes "server_run env i turns" "outbound_run env turns (t, new_Outbound no_conn h net reads) = Some (t1, s)"
    and "j < kMaxConnections" "c = out_connections s ! j" "cx_open c" "cx_client_id c \<noteq> 0" "ss = out_sessions s ! unat (cx_client_id c)"
  shows "\<exists>lg hist. ss_log ss = Some lg \<and> log_inv 24 hist lg \<and> ss_slot ss = Some j
    \<and> session_stream hist (sent_on (cx_conn c) (out_sent s) @ control_pending c @ drop (unat (ss_cursor ss)) (concat hist))"
proof -
  obtain ns r hist where r: "outbound_run env turns (t, new_Outbound no_conn h net reads) = Some r" "out_inv env hist ns (snd r)"
    using server_run_inv [OF assms(1)] by blast
  then have inv: "out_inv env hist ns s" using assms(2) by auto
  let ?k = "unat (cx_client_id c)"
  have l: "linked hist (out_sessions s) (out_sent s) j c" using out_invD(3) [OF inv assms(3)] assms(4-6) by (simp add: conn_inv_def)
  then have "?k \<le> unat MAX_CLIENTS" by (simp add: linked_def Let_def client_range_unat)
  from out_invD(4) [OF inv this] l assms(7) show ?thesis
    by (intro exI [of _ "the (ss_log ss)"] exI [of _ "hist ?k"]) (auto simp: linked_def Let_def session_inv_def)
qed

theorem client_stream_witness:
  "\<exists>t s lg hist. outbound_run demo_env demo_turns (0, demo_outbound) = Some (t, s) \<and> cx_open (out_connections s ! 3)
     \<and> ss_log (out_sessions s ! 1) = Some lg \<and> log_inv 24 hist lg
     \<and> session_stream hist (sent_on (cx_conn (out_connections s ! 3)) (out_sent s) @ control_pending (out_connections s ! 3)
         @ drop (unat (ss_cursor (out_sessions s ! 1))) (concat hist))"
proof -
  obtain i where i: "server_run demo_env i demo_turns" using demo_server_run by blast
  obtain t s where s: "outbound_run demo_env demo_turns (0, demo_outbound) = Some (t, s)" "cx_open (out_connections s ! 3)" "cx_client_id (out_connections s ! 3) = 1"
    using demo_login_run by (auto simp: demo_turns_def)
  from client_stream [OF i s(1) [unfolded demo_outbound_def] demo_sizes(1) refl s(2) _ refl] s show ?thesis by (auto simp: demo_outbound_def)
qed

text \<open>
  C12. Every connection is closed exactly once: no connection is closed twice, whether the client leaves, is turned away, reads too slowly or the server stops; one whose end the inbound thread has told is closed;
  and once the outbound thread has ended, exactly the connections it was told about have been closed.
\<close>

theorem closed_exactly_once:
  assumes "server_run env i turns" "outbound_run env turns (t, new_Outbound no_conn h net reads) = Some (t1, s)"
  shows "distinct (out_closed s) \<and> {d. \<exists>n\<in>set (run_notes turns). sn_kind n = NOTE_DISCONNECTED \<and> sn_conn n = Some d} \<subseteq> set (out_closed s)
    \<and> (\<exists>s1. outbound_end env s = Some s1 \<and> distinct (out_closed s1) \<and> set (out_closed s1) = note_conns (run_notes turns))"
proof -
  obtain ns r hist where r: "notes_state (tcp_slot env) (run_notes turns) = Some ns" "outbound_run env turns (t, new_Outbound no_conn h net reads) = Some r"
    "out_inv env hist ns (snd r)" using server_run_inv [OF assms(1)] by blast
  then have inv: "out_inv env hist ns s" using assms(2) by auto
  note I = out_invD [OF inv] and E = env_okD [OF out_invD(6) [OF inv]]
  have used: "ns_used ns = note_conns (run_notes turns)" by (rule used_conns [OF r(1)])
  have "\<forall>i\<in>set [0..<length (out_connections s)]. i < kMaxConnections" using I(1) by simp
  from close_all_inv [OF inv this] obtain s1 where s1: "outbound_end env s = Some s1" "out_inv env hist ns s1"
    "\<forall>d. current env ns d \<longrightarrow> tcp_slot env d \<in> set [0..<length (out_connections s)] \<longrightarrow> d \<in> set (out_closed s1)"
    unfolding outbound_end_def by blast
  then have all: "d \<in> set (out_closed s1)" if "current env ns d" for d using that I(1) E(2) by simp
  have "set (out_closed s1) = ns_used ns" "distinct (out_closed s1)" using out_invD(7) [OF s1(2)] all by (auto simp: closes_inv_def)
  moreover have "d \<in> set (out_closed s)" if "\<exists>n\<in>set (run_notes turns). sn_kind n = NOTE_DISCONNECTED \<and> sn_conn n = Some d" for d
    using ended_conns [OF r(1) that] I(7) by (simp add: closes_inv_def)
  moreover have "distinct (out_closed s)" using I(7) by (simp add: closes_inv_def)
  ultimately show ?thesis using s1(1) used by blast
qed

theorem closed_exactly_once_witness:
  "\<exists>t s s1. outbound_run demo_env demo_turns (0, demo_outbound) = Some (t, s) \<and> outbound_end demo_env s = Some s1 \<and> out_closed s1 = [3]"
proof -
  obtain i where i: "server_run demo_env i demo_turns" using demo_server_run by blast
  obtain t s where s: "outbound_run demo_env demo_turns (0, demo_outbound) = Some (t, s)" using demo_login_run by (auto simp: demo_turns_def)
  have "note_conns (run_notes demo_turns) = {3}" by (auto simp: note_conns_def run_notes_def demo_turns_def turn_notes_def login_note_def)
  then obtain s1 where "outbound_end demo_env s = Some s1" "distinct (out_closed s1)" "set (out_closed s1) = {3}"
    using closed_exactly_once [OF i s [unfolded demo_outbound_def]] by auto
  moreover from this have "length (out_closed s1) = 1" using distinct_card by fastforce
  ultimately have "out_closed s1 = [3]" by (auto simp: length_Suc_conv)
  then show ?thesis using s \<open>outbound_end demo_env s = Some s1\<close> by blast
qed

end
