(* ===== verification/Spec2Isabelle.thy ===== *)
theory Spec2Isabelle
  imports Infra_Props Book_Props Session_Log Gateway_Props Server_Props Outbound_Props
begin

text \<open>
  Verification of the low-latency stock exchange under \<open>src/src\<close>.

  \<^bold>\<open>The program.\<close> A client talks OUCH over SoupBinTCP over TCP. The server's inbound thread reassembles packets, keeps
  the logins, validates orders and turns them into engine requests (\<open>exchange/server\<close>). It pushes requests on one ring to the
  matching thread, and notes about logins and orders on a second ring to the outbound thread. The matching thread
  (\<open>exchange/engine\<close>) runs the order book, pushes events on a third ring to the outbound thread and ITCH messages on a
  fourth ring for a market data feed. The outbound thread turns notes and events into OUCH responses, appends them to the
  log of the client's session and sends from the logs. Protocols, rings and the clock are in \<open>infra\<close>.

  \<^bold>\<open>How it is modelled.\<close> A struct is a record, an enum a datatype, an integer a word of its width, so that arithmetic wraps as in
  the code; a pointer into the order pool is an index; a hash map is a partial function; a span is a byte list. A function that
  changes state returns the new state. \<^term>\<open>None\<close> in a result of option type is a run that the code must not have: an
  access out of range, an empty optional, a failed assert or a loop that does not end; a theorem that a function returns
  \<^term>\<open>Some\<close> says that none of these happens. Loops are structural recursion or have a termination proof; those whose
  end depends on the state they run on or on another thread (\<open>match_loop\<close>, \<open>engine_step\<close>, \<open>push_spin\<close> and \<open>send_log\<close>) are partial functions, and
  that they return is proved.

  \<^bold>\<open>The theories and the code.\<close>

  \<^item> \<open>Exch_Prelude\<close>: words, lists and options, shared by all.
  \<^item> \<open>Order_Types\<close>: \<open>order_types.hpp\<close>, \<open>communication_proto.hpp\<close> and the constants of \<open>config.hpp\<close>.
  \<^item> \<open>Ring_Buffer\<close>: \<open>ring_buffer.hpp\<close>. Sequentially it is a bounded FIFO queue (locale \<open>bounded_queue\<close>); with one step per atomic
    access of the two threads nothing is lost, reordered or raced for. \<open>Ring_Channel\<close>: a ring with its consumer, and the
    loops that push until there is room.
  \<^item> \<open>Wire_Codec\<close>, \<open>Itch_Proto\<close>, \<open>Ouch_Codec\<close>, \<open>Ouch_Inbound\<close>, \<open>Ouch_Outbound\<close>, \<open>Soup_Proto\<close>: \<open>wire_codec.hpp\<close>, \<open>itch_proto.hpp\<close>,
    \<open>ouch_proto.hpp\<close> and \<open>soupbintcp_proto.hpp\<close>, every message with its fields, encoders, decoders and sizes. The round trips are
    proved once per family (locales \<open>itch_message\<close> and \<open>ouch_message\<close>) and interpreted for every message.
  \<^item> \<open>Tsc_Clock\<close>: \<open>tsc_clock.hpp\<close>. \<open>Validation\<close>: \<open>validation.hpp\<close>.
  \<^item> \<open>Order_Pool\<close>, \<open>Price_Level_Queue\<close>, \<open>Orderbook\<close>: \<open>order.hpp\<close>, \<open>order_pool.hpp\<close>, \<open>price_level_queue.hpp\<close>, \<open>orderbook.hpp\<close> and
    \<open>orderbook.cpp\<close>. \<open>Book_Spec\<close> is the contract, on two ranked lists of orders. \<open>Orderbook_Ladder\<close>, \<open>Orderbook_Refine\<close>,
    \<open>Orderbook_Match\<close> and \<open>Orderbook_Process\<close> show that the code implements it; \<open>Book_Invariants\<close>, \<open>Market_Data\<close>, \<open>Book_Behaviour\<close> and
    \<open>Book_Requests\<close> draw the consequences.
  \<^item> \<open>Engine\<close>: \<open>engine.hpp\<close> and \<open>engine.cpp\<close>, the matching thread with the server as a schedule of pushes.
  \<^item> \<open>Session_Log\<close>: \<open>session_log.hpp\<close>. \<open>Order_Entry\<close>: \<open>order_entry.hpp\<close> and \<open>order_entry.cpp\<close>. \<open>Ouch_Responder\<close>: \<open>ouch_responder.hpp\<close> and
    \<open>ouch_responder.cpp\<close>. \<open>Latency\<close>: the recording half of \<open>latency.hpp\<close>.
  \<^item> \<open>Gateway_Flow\<close> and \<open>Gateway\<close>: order entry, book and responder in a state where the responder has caught up.
    \<open>Gateway_Pipeline\<close>: the same path with the three threads, the rings between them and the outbound thread's two drains, one
    step per action of a thread; it simulates \<open>Gateway\<close>.
  \<^item> \<open>Server_Inbound\<close>: the inbound thread of \<open>server.cpp\<close>, \<open>on_tcp_event_\<close> to \<open>check_timeouts_\<close>. \<open>Inbound_Stream\<close>: reassembly
    against a reading of the whole stream. \<open>Inbound_Handlers\<close> (locale \<open>handler_rel\<close>): what reassembly inherits from the handlers.
    \<open>Inbound_Safety\<close>: the invariant of the thread. \<open>Server_Notes\<close>: the order of its notes. \<open>Server_Demo\<close>: an example.
  \<^item> \<open>Server_Outbound\<close>: the outbound thread of \<open>server.cpp\<close>, \<open>outbound_\<close> to \<open>heartbeat_\<close>. \<open>Outbound_Inv\<close>, \<open>Outbound_Login\<close>,
    \<open>Outbound_Send\<close>, \<open>Outbound_Flush\<close> and \<open>Outbound_Run\<close>: its invariant, kept by every handler and so by every run.
  \<^item> \<open>Exchange_Run\<close>: the inbound thread's requests are ones the book can serve, so the engine's events are ones the outbound
    thread can answer: runs of the whole exchange. \<open>Exchange_Demo\<close>: an example.

  \<^bold>\<open>What is shown.\<close> The properties, each after a text that states it, are in the theories that end in \<open>_Props\<close>.

  \<^item> \<open>Book_Props\<close>: \<open>process\<close> implements the contract; the book is never crossed; price-time priority; conservation of shares; the
    ITCH feed rebuilds the book; cached best prices, level counts and the pool are exact; each request is answered once; who may
    cancel and replace; what never rests; the matching thread serves all requests in order.
  \<^item> \<open>Infra_Props\<close>: the ring, the codecs, the clock, validation.
  \<^item> \<open>Gateway_Props\<close>: order entry is well typed; the responder tracks the book under every interleaving; every event is answered;
    the record of a replacement that came too late stays.
  \<^item> \<open>Server_Props\<close>: segmentation does not matter; the inbound thread never gets stuck; one connection per session; replay from the
    session log; login and order packets survive the wire.
  \<^item> \<open>Outbound_Props\<close>: the notes are in order; the outbound thread never gets stuck; what a client receives; connections are
    closed once.

  \<^bold>\<open>Parameters and hypotheses.\<close> The TCP stack, DPDK and the histogram library are not under \<open>src\<close>; they are the fields of the record
  \<open>OutEnv\<close> and the slot function of the inbound thread. Relied on of the stack: a send takes at most the bytes it is given, slots are
  below the number of connections, a connection is determined by its slot and its generation, which is not 0 (\<open>env_ok\<close>); and a slot
  is given to a new connection only after the end of the previous one has been reported (\<open>slot_free\<close>), each connection being accepted
  once. The readings of the time stamp counter, the measured frequency of the clock, the segments and events the stack
  delivers and the thread schedules are arbitrary. A push that waits for room relies on the consumer getting turns
  (\<open>channel_inv\<close>, \<open>fair\<close>).

  \<^bold>\<open>Bounds.\<close> Order ids are 64 bits wide: the gateway theorems end where the counter would wrap. Session logs are followed up to
  \<open>2 ^ 54\<close> messages of at most 256 bytes, so that their 64-bit offsets do not wrap. A time stamp is exact while its
  unreduced sum fits 64 bits. \<open>handleMatching n\<close> is \<open>n\<close> passes of the matching loop; the theorems hold for every \<open>n\<close>, or give one.

  \<^bold>\<open>Not modelled.\<close> Shutdown other than the outbound thread's closing of connections: a push that finds its ring full while the server
  stops drops its item, and the models are of a server that has not been told to stop. The C++ memory model: the ring's threads interleave at
  their atomic accesses. Object layout, prefetching and thread pinning. The floating-point calibration of the clock. The printing of
  latencies. The market data feed has no definition in the sources. The load generator, the raw packet factory (used by tests only) and the
  benchmarks are outside the exchange.
\<close>

end
